(* ===== verification/Prelude.thy ===== *)
theory Prelude
  imports Complex_Main "HOL-Library.Word"
begin

text \<open>
  What every component of the model shares: the way a run of the C++ code can go wrong
  (\<open>fault\<close>) and the result type built on it, the machine types (\<open>size_t\<close>, bytes and the
  memory image of integers on either kind of host), bounds-checked access to a
  \<open>std::vector<char>\<close>, ordered sets (\<open>std::set\<close>) as sorted lists, and reachability with its
  invariant rule as a locale.
\<close>

named_theorems res_simps \<open>how results of checked calls decompose\<close>
named_theorems inv_defs \<open>unfolding of the components' invariants\<close>

section \<open>Results and faults\<close>

text \<open>
  A call of the C++ code either returns or ends the program: a failed \<open>assert\<close>, an abort
  (\<open>LOG_FATAL\<close> and \<open>LOG_SYSFATAL\<close> abort in the logger's destructor), an access outside an
  object, an exception of the standard library (\<open>std::length_error\<close>, \<open>std::bad_alloc\<close>), a call
  of an empty \<open>boost::function\<close>, or the use of a null or dangling pointer.
\<close>

datatype fault =
    AssertFailed
  | Aborted
  | OutOfBounds
  | LengthError
  | BadAlloc
  | BadFunctionCall
  | BadPointer

type_synonym 'a res = "fault + 'a"

fun rbind :: "'a res \<Rightarrow> ('a \<Rightarrow> 'b res) \<Rightarrow> 'b res" where
  "rbind (Inl e) f = Inl e"
| "rbind (Inr x) f = f x"

definition check :: "bool \<Rightarrow> 'a res \<Rightarrow> 'a res" where
  "check b r = (if b then r else Inl AssertFailed)"

lemma check_True [simp]: "check True r = r"
  by (simp add: check_def)

lemma check_False [simp]: "check False r = Inl AssertFailed"
  by (simp add: check_def)

lemma check_Inr [res_simps]: "check b r = Inr x \<longleftrightarrow> b \<and> r = Inr x"
  by (simp add: check_def)

lemma rbind_Inr [res_simps]: "rbind m f = Inr y \<longleftrightarrow> (\<exists>x. m = Inr x \<and> f x = Inr y)"
  by (cases m) auto

lemma rbind_assoc: "rbind (rbind m f) g = rbind m (\<lambda>x. rbind (f x) g)"
  by (cases m) auto

lemma rbind_Inr_right [simp]: "rbind m Inr = m"
  by (cases m) auto

text \<open>\<open>AssertInLoopThread\<close>: outside the loop's thread the call logs at level \<open>FATAL\<close> and aborts.\<close>

definition assert_in_loop :: "bool \<Rightarrow> 'a res \<Rightarrow> 'a res" where
  "assert_in_loop inLoop r = (if inLoop then r else Inl Aborted)"

lemma assert_in_loop_simps [simp]:
  "assert_in_loop True r = r" "assert_in_loop False r = Inl Aborted"
  by (simp_all add: assert_in_loop_def)

lemma assert_in_loop_Inr [res_simps]: "assert_in_loop b r = Inr x \<longleftrightarrow> b \<and> r = Inr x"
  by (simp add: assert_in_loop_def)

text \<open>A result that is a value satisfying \<open>P\<close>, or a fault among those allowed.\<close>

definition ensures :: "fault set \<Rightarrow> ('a \<Rightarrow> bool) \<Rightarrow> 'a res \<Rightarrow> bool" where
  "ensures F P r = (case r of Inl e \<Rightarrow> e \<in> F | Inr x \<Rightarrow> P x)"

lemma ensures_simps [simp]:
  "ensures F P (Inl e) \<longleftrightarrow> e \<in> F" "ensures F P (Inr x) \<longleftrightarrow> P x"
  by (simp_all add: ensures_def)

lemma ensures_rbind:
  "ensures F P m \<Longrightarrow> (\<And>x. m = Inr x \<Longrightarrow> P x \<Longrightarrow> ensures F Q (f x)) \<Longrightarrow> ensures F Q (rbind m f)"
  by (cases m) auto

lemma ensures_check: "b \<Longrightarrow> ensures F P r \<Longrightarrow> ensures F P (check b r)"
  by simp

lemma ensures_mono: "ensures F P r \<Longrightarrow> (\<And>x. r = Inr x \<Longrightarrow> P x \<Longrightarrow> Q x) \<Longrightarrow> ensures F Q r"
  by (cases r) auto

definition returns :: "'a res \<Rightarrow> bool" where
  "returns r = (case r of Inl _ \<Rightarrow> False | Inr _ \<Rightarrow> True)"

lemma returns_Inr [simp]: "returns (Inr x)"
  by (simp add: returns_def)

lemma returns_Inl [simp]: "\<not> returns (Inl e)"
  by (simp add: returns_def)

lemma returns_iff: "returns r \<longleftrightarrow> (\<exists>x. r = Inr x)"
  by (cases r) auto

text \<open>Running a list of steps, stopping at the first fault.\<close>

fun rfold :: "('x \<Rightarrow> 's \<Rightarrow> 's res) \<Rightarrow> 'x list \<Rightarrow> 's \<Rightarrow> 's res" where
  "rfold f [] s = Inr s"
| "rfold f (x # xs) s = rbind (f x s) (rfold f xs)"

lemma rfold_Nil_eq [simp]: "rfold f [] = Inr"
  by (simp add: fun_eq_iff)

lemma rfold_append: "rfold f (xs @ ys) s = rbind (rfold f xs s) (rfold f ys)"
proof (induction xs arbitrary: s)
  case (Cons x xs)
  then show ?case by (cases "f x s") auto
qed simp

lemma ensures_rfold:
  assumes "P s" and "\<And>x s. x \<in> set xs \<Longrightarrow> P s \<Longrightarrow> ensures F P (f x s)"
  shows "ensures F P (rfold f xs s)"
  using assms
proof (induction xs arbitrary: s)
  case (Cons x xs)
  show ?case
    by (simp, rule ensures_rbind [where P = P]) (use Cons in auto)
qed simp

lemma rfold_invariant:
  assumes "rfold f xs s = Inr t" and "P s"
    and "\<And>x s s'. x \<in> set xs \<Longrightarrow> P s \<Longrightarrow> f x s = Inr s' \<Longrightarrow> P s'"
  shows "P t"
  using assms
  by (induction xs arbitrary: s) (auto simp: rbind_Inr)

section \<open>Machine integers and memory\<close>

unbundle bit_operations_syntax

type_synonym byte = "8 word"

text \<open>
  \<open>size_t\<close> is 64 bits wide and unsigned: a difference that would be negative wraps around.
\<close>

definition size_plus :: "nat \<Rightarrow> nat \<Rightarrow> nat" where
  "size_plus a b = (a + b) mod 2 ^ 64"

definition size_minus :: "nat \<Rightarrow> nat \<Rightarrow> nat" where
  "size_minus a b = (a + 2 ^ 64 - b) mod 2 ^ 64"

lemma size_plus_exact [simp]: "a + b < 2 ^ 64 \<Longrightarrow> size_plus a b = a + b"
  by (simp add: size_plus_def)

lemma size_minus_exact [simp]:
  assumes "b \<le> a" and "a < 2 ^ 64"
  shows "size_minus a b = a - b"
proof -
  have "size_minus a b = (a - b + 2 ^ 64) mod 2 ^ 64"
    unfolding size_minus_def using assms(1) by (metis add_diff_assoc2)
  also have "\<dots> = (a - b) mod 2 ^ 64" by (rule mod_add_self2)
  also have "\<dots> = a - b" using assms(2) by (intro mod_less) linarith
  finally show ?thesis .
qed

lemma size_minus_wraps:
  assumes "a < b" and "b \<le> 2 ^ 64"
  shows "size_minus a b = 2 ^ 64 - (b - a)"
proof -
  have "a + 2 ^ 64 - b < 2 ^ 64" using assms by linarith
  then have "size_minus a b = a + 2 ^ 64 - b"
    unfolding size_minus_def by (rule mod_less)
  then show ?thesis using assms by linarith
qed

text \<open>
  A \<open>std::vector<char>\<close> as the list of its bytes. Reading or writing past its end is a
  fault, and so is growing it past \<open>max_size()\<close> (\<open>std::length_error\<close>).
\<close>

definition vector_max :: nat where
  "vector_max = 2 ^ 63 - 1"

definition mem_read :: "'a list \<Rightarrow> nat \<Rightarrow> nat \<Rightarrow> 'a list res" where
  "mem_read v i n = (if i + n \<le> length v then Inr (take n (drop i v)) else Inl OutOfBounds)"

definition mem_write :: "'a list \<Rightarrow> nat \<Rightarrow> 'a list \<Rightarrow> 'a list res" where
  "mem_write v i d =
     (if i + length d \<le> length v then Inr (take i v @ d @ drop (i + length d) v)
      else Inl OutOfBounds)"

definition vector_resize :: "byte list \<Rightarrow> nat \<Rightarrow> byte list res" where
  "vector_resize v n =
     (if n \<le> vector_max then Inr (take n v @ replicate (n - length v) 0) else Inl LengthError)"

text \<open>Sizes up to \<open>max_size()\<close> do not wrap.\<close>

lemma vector_max_twice: "vector_max + vector_max < 2 ^ 64"
  by (simp add: vector_max_def)

lemma size_plus_vector [simp]:
  "a \<le> vector_max \<Longrightarrow> b \<le> vector_max \<Longrightarrow> size_plus a b = a + b"
  using vector_max_twice by (intro size_plus_exact) linarith

lemma size_minus_vector [simp]: "b \<le> a \<Longrightarrow> a \<le> vector_max \<Longrightarrow> size_minus a b = a - b"
  using vector_max_twice by (intro size_minus_exact) linarith+

lemma small_le_vector_max [simp]:
  "8 \<le> vector_max" "4 \<le> vector_max" "2 \<le> vector_max" "Suc 0 \<le> vector_max"
  by (simp_all add: vector_max_def)

lemma mem_write_length: "mem_write v i d = Inr v' \<Longrightarrow> length v' = length v"
  by (auto simp: mem_write_def split: if_splits)

lemma mem_write_ok [simp]:
  "i + length d \<le> length v \<Longrightarrow> mem_write v i d = Inr (take i v @ d @ drop (i + length d) v)"
  by (simp add: mem_write_def)

lemma mem_read_ok [simp]: "i + n \<le> length v \<Longrightarrow> mem_read v i n = Inr (take n (drop i v))"
  by (simp add: mem_read_def)

text \<open>
  The bytes of an integer in network order, and its image in the memory of a host of either
  byte order, as \<open>memcpy\<close> from its address sees it.
\<close>

datatype endian = LittleEndian | BigEndian

definition be_bytes16 :: "16 word \<Rightarrow> byte list" where
  "be_bytes16 w = [ucast (drop_bit 8 w), ucast w]"

definition be_bytes32 :: "32 word \<Rightarrow> byte list" where
  "be_bytes32 w = [ucast (drop_bit 24 w), ucast (drop_bit 16 w), ucast (drop_bit 8 w), ucast w]"

fun be_word16 :: "byte list \<Rightarrow> 16 word" where
  "be_word16 [a, b] = push_bit 8 (ucast a) OR ucast b"
| "be_word16 _ = 0"

fun be_word32 :: "byte list \<Rightarrow> 32 word" where
  "be_word32 [a, b, c, d] =
     push_bit 24 (ucast a) OR push_bit 16 (ucast b) OR push_bit 8 (ucast c) OR ucast d"
| "be_word32 _ = 0"

definition host_bytes16 :: "endian \<Rightarrow> 16 word \<Rightarrow> byte list" where
  "host_bytes16 e w = (case e of BigEndian \<Rightarrow> be_bytes16 w | LittleEndian \<Rightarrow> rev (be_bytes16 w))"

definition host_bytes32 :: "endian \<Rightarrow> 32 word \<Rightarrow> byte list" where
  "host_bytes32 e w = (case e of BigEndian \<Rightarrow> be_bytes32 w | LittleEndian \<Rightarrow> rev (be_bytes32 w))"

definition host_word16 :: "endian \<Rightarrow> byte list \<Rightarrow> 16 word" where
  "host_word16 e bs = (case e of BigEndian \<Rightarrow> be_word16 bs | LittleEndian \<Rightarrow> be_word16 (rev bs))"

definition host_word32 :: "endian \<Rightarrow> byte list \<Rightarrow> 32 word" where
  "host_word32 e bs = (case e of BigEndian \<Rightarrow> be_word32 bs | LittleEndian \<Rightarrow> be_word32 (rev bs))"

lemma length_be_bytes [simp]: "length (be_bytes16 v) = 2" "length (be_bytes32 w) = 4"
  by (simp_all add: be_bytes16_def be_bytes32_def)

lemma length_host_bytes [simp]: "length (host_bytes16 e v) = 2" "length (host_bytes32 e w) = 4"
  by (simp_all add: host_bytes16_def host_bytes32_def split: endian.splits)

lemma be_word16_be_bytes16 [simp]: "be_word16 (be_bytes16 w) = w"
  by (rule bit_word_eqI) (auto simp: be_bytes16_def bit_simps)

lemma be_word32_be_bytes32 [simp]: "be_word32 (be_bytes32 w) = w"
proof (rule bit_word_eqI)
  fix n
  assume "n < LENGTH(32)"
  then consider "n < 8" | "8 \<le> n" "n < 16" | "16 \<le> n" "n < 24" | "24 \<le> n" "n < 32"
    by fastforce
  then show "bit (be_word32 (be_bytes32 w)) n = bit w n"
    by cases (auto simp: be_bytes32_def bit_simps)
qed

lemma be_bytes32_be_word32: "be_bytes32 (be_word32 [a, b, c, d]) = [a, b, c, d]"
  unfolding be_bytes32_def be_word32.simps list.inject
  by (intro conjI bit_word_eqI; auto simp: bit_simps dest: bit_imp_le_length)

lemma host_word_host_bytes [simp]:
  "host_word16 e (host_bytes16 e v) = v" "host_word32 e (host_bytes32 e w) = w"
  by (simp_all add: host_word16_def host_bytes16_def host_word32_def host_bytes32_def
        split: endian.splits)

text \<open>An \<open>int32_t\<close> that goes through an \<open>int8_t\<close> survives when it fits in a signed byte.\<close>

lemma sint_ucast8: "sint (ucast (v :: 32 word) :: 8 word) = signed_take_bit 7 (sint v)"
  by (rule bit_eqI) (auto simp: bit_simps min_def)

lemma int8_cast_id_iff:
  "(scast (ucast (v :: 32 word) :: 8 word) :: 32 word) = v \<longleftrightarrow> - 128 \<le> sint v \<and> sint v < 128"
proof -
  have "sint (scast (ucast v :: 8 word) :: 32 word) = signed_take_bit 7 (sint v)"
    by (simp add: sint_up_scast is_up sint_ucast8)
  then have "(scast (ucast v :: 8 word) :: 32 word) = v \<longleftrightarrow> signed_take_bit 7 (sint v) = sint v"
    by (metis signed_word_eqI)
  also have "\<dots> \<longleftrightarrow> - 128 \<le> sint v \<and> sint v < 128"
    by (simp add: signed_take_bit_int_eq_self_iff)
  finally show ?thesis .
qed

section \<open>Ordered sets\<close>

text \<open>
  A \<open>std::set\<close> is the sorted list of its elements, without duplicates. \<open>insert\<close> reports
  whether the element is new and \<open>erase\<close> how many elements went.
\<close>

definition oset :: "'a::linorder list \<Rightarrow> bool" where
  "oset xs \<longleftrightarrow> sorted xs \<and> distinct xs"

definition oset_insert :: "'a::linorder \<Rightarrow> 'a list \<Rightarrow> 'a list \<times> bool" where
  "oset_insert x xs = (if x \<in> set xs then (xs, False) else (insort x xs, True))"

definition oset_erase :: "'a::linorder \<Rightarrow> 'a list \<Rightarrow> 'a list \<times> nat" where
  "oset_erase x xs = (remove1 x xs, if x \<in> set xs then 1 else 0)"

lemma oset_Nil [simp]: "oset []"
  by (simp add: oset_def)

lemma oset_insort: "oset xs \<Longrightarrow> x \<notin> set xs \<Longrightarrow> oset (insort x xs)"
  by (simp add: oset_def sorted_insort distinct_insort)

lemma oset_remove1: "oset xs \<Longrightarrow> oset (remove1 x xs)"
  by (simp add: oset_def sorted_remove1)

lemma set_remove1_oset [simp]: "oset xs \<Longrightarrow> set (remove1 x xs) = set xs - {x}"
  by (simp add: oset_def)

lemma oset_dropWhile: "oset xs \<Longrightarrow> oset (dropWhile P xs)"
  by (simp add: oset_def sorted_dropWhile)

lemma oset_takeWhile: "oset xs \<Longrightarrow> oset (takeWhile P xs)"
  by (simp add: oset_def sorted_takeWhile)

lemma oset_insert_fresh [simp]: "x \<notin> set xs \<Longrightarrow> oset_insert x xs = (insort x xs, True)"
  by (simp add: oset_insert_def)

lemma oset_erase_member [simp]: "x \<in> set xs \<Longrightarrow> oset_erase x xs = (remove1 x xs, 1)"
  by (simp add: oset_erase_def)

section \<open>Reachable states\<close>

inductive reach :: "('s \<Rightarrow> bool) \<Rightarrow> ('s \<Rightarrow> 's \<Rightarrow> bool) \<Rightarrow> 's \<Rightarrow> bool"
  for I :: "'s \<Rightarrow> bool" and R :: "'s \<Rightarrow> 's \<Rightarrow> bool" where
  reach_init: "I s \<Longrightarrow> reach I R s"
| reach_step: "reach I R s \<Longrightarrow> R s t \<Longrightarrow> reach I R t"

lemma reach_once: "I s \<Longrightarrow> R s t \<Longrightarrow> reach I R t"
  by (rule reach_step, rule reach_init)

text \<open>
  The interface between a component that steps and what it keeps: an initial predicate, a
  step relation and an inductive invariant. The components interpret it on their own steps.
\<close>

locale invariant_system =
  fixes start :: "'s \<Rightarrow> bool" and move :: "'s \<Rightarrow> 's \<Rightarrow> bool" and keeps :: "'s \<Rightarrow> bool"
  assumes start_keeps: "start s \<Longrightarrow> keeps s"
    and move_keeps: "move s t \<Longrightarrow> keeps s \<Longrightarrow> keeps t"
begin

lemma reach_keeps: "reach start move s \<Longrightarrow> keeps s"
  by (induction rule: reach.induct) (auto intro: start_keeps move_keeps)

lemma run_keeps: "move\<^sup>*\<^sup>* s t \<Longrightarrow> keeps s \<Longrightarrow> keeps t"
  by (induction rule: rtranclp_induct) (auto intro: move_keeps)

end

end
