(* ===== verification/CFormat.thy ===== *)
theory CFormat
  imports Prelude
begin

text \<open>
  What the source uses of the C language's arithmetic and of \<open>printf\<close>: division that
  truncates towards zero, the conversions \<open>%d\<close>, \<open>%4d\<close> and \<open>%06d\<close>, and \<open>snprintf\<close>, which
  stores at most \<open>cap - 1\<close> characters and returns the length of the whole text. The lemmas give
  the lengths the callers' buffers are sized for, and that decimal text determines its number.
\<close>

section \<open>Division\<close>

definition c_div :: "int \<Rightarrow> int \<Rightarrow> int" where
  "c_div a b = sgn a * sgn b * (\<bar>a\<bar> div \<bar>b\<bar>)"

definition c_mod :: "int \<Rightarrow> int \<Rightarrow> int" where
  "c_mod a b = a - c_div a b * b"

lemma c_div_nonneg [simp]: "0 \<le> a \<Longrightarrow> 0 < b \<Longrightarrow> c_div a b = a div b"
  by (cases "a = 0") (auto simp: c_div_def)

lemma c_mod_nonneg [simp]: "0 \<le> a \<Longrightarrow> 0 < b \<Longrightarrow> c_mod a b = a mod b"
  by (simp add: c_mod_def minus_div_mult_eq_mod)

lemma c_mod_neg: "a < 0 \<Longrightarrow> 0 < b \<Longrightarrow> c_mod a b = - (- a mod b)"
  by (simp add: c_mod_def c_div_def minus_mult_div_eq_mod [symmetric])

lemma c_div_neg: "a < 0 \<Longrightarrow> 0 < b \<Longrightarrow> c_div a b = - (- a div b)"
  by (simp add: c_div_def)

section \<open>Decimal text\<close>

definition digit :: "nat \<Rightarrow> char" where
  "digit k = char_of (48 + k)"

fun dec_nat :: "nat \<Rightarrow> string" where
  "dec_nat n = (if n < 10 then [digit n] else dec_nat (n div 10) @ [digit (n mod 10)])"

declare dec_nat.simps [simp del]

definition dec :: "int \<Rightarrow> string" where
  "dec i = (if i < 0 then CHR ''-'' # dec_nat (nat (- i)) else dec_nat (nat i))"

text \<open>\<open>%wd\<close> pads with spaces, \<open>%0wd\<close> with zeros after the sign.\<close>

definition fmt_pad :: "nat \<Rightarrow> int \<Rightarrow> string" where
  "fmt_pad w i = replicate (w - length (dec i)) CHR '' '' @ dec i"

definition fmt_zero :: "nat \<Rightarrow> int \<Rightarrow> string" where
  "fmt_zero w i =
     (let d = dec_nat (nat \<bar>i\<bar>); s = (if i < 0 then [CHR ''-''] else [])
      in s @ replicate (w - length s - length d) CHR ''0'' @ d)"

definition snprintf :: "nat \<Rightarrow> string \<Rightarrow> string \<times> int" where
  "snprintf cap s = (take (cap - 1) s, int (length s))"

lemma dec_nat_single: "n < 10 \<Longrightarrow> dec_nat n = [digit n]"
  by (subst dec_nat.simps) simp

lemma dec_nat_step: "10 \<le> n \<Longrightarrow> dec_nat n = dec_nat (n div 10) @ [digit (n mod 10)]"
  by (subst dec_nat.simps) simp

lemma dec_nat_nonempty [simp]: "dec_nat n \<noteq> []"
  by (subst dec_nat.simps) simp

lemma length_dec_nat_pos [simp]: "0 < length (dec_nat n)"
  by simp

lemma length_dec_nat: "0 < k \<Longrightarrow> n < 10 ^ k \<Longrightarrow> length (dec_nat n) \<le> k"
proof (induction k arbitrary: n rule: nat_induct_non_zero)
  case 1
  then show ?case by (simp add: dec_nat_single)
next
  case (Suc k)
  show ?case
  proof (cases "n < 10")
    case True
    then show ?thesis by (simp add: dec_nat_single)
  next
    case False
    have "n div 10 < 10 ^ k" using Suc.prems by (simp add: div_less_iff_less_mult)
    with Suc.IH have "length (dec_nat (n div 10)) \<le> k" .
    with False show ?thesis by (simp add: dec_nat_step)
  qed
qed

lemma length_dec_nat_exact: "10 ^ k \<le> n \<Longrightarrow> n < 10 ^ Suc k \<Longrightarrow> length (dec_nat n) = Suc k"
proof (induction k arbitrary: n)
  case 0
  then show ?case by (simp add: dec_nat_single)
next
  case (Suc k)
  from Suc.prems(1) have ge: "10 \<le> n" by (simp add: order_trans [OF _ Suc.prems(1)])
  have "10 ^ k \<le> n div 10" "n div 10 < 10 ^ Suc k"
    using Suc.prems by (simp_all add: less_eq_div_iff_mult_less_eq div_less_iff_less_mult ac_simps)
  with Suc.IH have "length (dec_nat (n div 10)) = Suc k" .
  with ge show ?case by (simp add: dec_nat_step)
qed

text \<open>Reading a decimal text back.\<close>

definition undigit :: "char \<Rightarrow> nat" where
  "undigit c = of_char c - 48"

definition undec_nat :: "string \<Rightarrow> nat" where
  "undec_nat = foldl (\<lambda>n c. 10 * n + undigit c) 0"

fun undec :: "string \<Rightarrow> int" where
  "undec (c # s) = (if c = CHR ''-'' then - int (undec_nat s) else int (undec_nat (c # s)))"
| "undec [] = 0"

lemma undigit_digit [simp]: "k < 10 \<Longrightarrow> undigit (digit k) = k"
  by (simp add: undigit_def digit_def)

lemma digit_not_minus: "k < 10 \<Longrightarrow> digit k \<noteq> CHR ''-''"
proof
  assume "k < 10" and "digit k = CHR ''-''"
  then have "of_char (digit k) = (of_char CHR ''-'' :: nat)" by simp
  with \<open>k < 10\<close> show False by (simp add: digit_def)
qed

lemma undec_dec_nat [simp]: "undec_nat (dec_nat n) = n"
proof (induction n rule: dec_nat.induct)
  case (1 n)
  show ?case
  proof (cases "n < 10")
    case True
    then show ?thesis by (simp add: dec_nat_single undec_nat_def)
  next
    case False
    with 1 have "undec_nat (dec_nat (n div 10)) = n div 10" by simp
    with False show ?thesis by (simp add: dec_nat_step undec_nat_def)
  qed
qed

lemma digits_dec_nat: "set (dec_nat n) \<subseteq> digit ` {..<10}"
proof (induction n rule: dec_nat.induct)
  case (1 n)
  then show ?case by (cases "n < 10") (auto simp: dec_nat_single dec_nat_step)
qed

lemma hd_dec_nat_not_minus: "hd (dec_nat n) \<noteq> CHR ''-''"
proof -
  have "hd (dec_nat n) \<in> digit ` {..<10}" using digits_dec_nat [of n] by (meson dec_nat_nonempty hd_in_set subsetD)
  then obtain k where "k < 10" "hd (dec_nat n) = digit k" by auto
  with digit_not_minus [of k] show ?thesis by simp
qed

lemma undec_dec [simp]: "undec (dec i) = i"
proof (cases "i < 0")
  case True
  then show ?thesis by (simp add: dec_def)
next
  case False
  obtain c s where s: "dec_nat (nat i) = c # s" by (cases "dec_nat (nat i)") auto
  then have "c \<noteq> CHR ''-''" using hd_dec_nat_not_minus [of "nat i"] by simp
  with False s undec_dec_nat [of "nat i"] show ?thesis by (simp add: dec_def)
qed

lemma length_fmt_zero:
  "0 < w \<Longrightarrow> 0 \<le> i \<Longrightarrow> i < 10 ^ w \<Longrightarrow> length (fmt_zero w i) = w"
proof -
  assume w: "0 < w" "0 \<le> i" "i < 10 ^ w"
  then have "nat i < 10 ^ w" by (simp add: nat_less_iff)
  with w length_dec_nat [of w "nat i"] show ?thesis by (simp add: fmt_zero_def Let_def)
qed

lemma length_fmt_pad:
  "0 < w \<Longrightarrow> 0 \<le> i \<Longrightarrow> i < 10 ^ w \<Longrightarrow> length (fmt_pad w i) = w"
proof -
  assume w: "0 < w" "0 \<le> i" "i < 10 ^ w"
  then have "nat i < 10 ^ w" by (simp add: nat_less_iff)
  with w length_dec_nat [of w "nat i"] show ?thesis by (simp add: fmt_pad_def dec_def)
qed

lemma snprintf_fits: "length s < cap \<Longrightarrow> snprintf cap s = (s, int (length s))"
  by (simp add: snprintf_def)

end
