(* ===== verification/TimeStamps.thy ===== *)
theory TimeStamps
  imports CFormat
begin

text \<open>
  \<open>datetime/TimeStamp.h\<close> and \<open>datetime/TimeStamp.cpp\<close>: a point in time as microseconds since
  the epoch, ordered by the overloaded \<open><\<close>, which makes the type an instance of \<open>linorder\<close>
  here (the timer queue's sets are sorted by it). \<open>int64_t\<close> is an \<open>int\<close> (the microseconds of
  any date in use are far from its bounds), \<open>double\<close> seconds are rationals, cut to whole
  microseconds towards zero as \<open>static_cast<int64_t>\<close> does. The clock and \<open>gmtime_r\<close> are
  arguments.
\<close>

datatype TimeStamp = TimeStamp (m_MicroSecondsSinceEpoch: int)

definition MICRO_SECOND_PER_SECOND :: int where
  "MICRO_SECOND_PER_SECOND = 1000 * 1000"

definition TimeStamp_lt :: "TimeStamp \<Rightarrow> TimeStamp \<Rightarrow> bool" where
  "TimeStamp_lt lhs rhs \<longleftrightarrow> m_MicroSecondsSinceEpoch lhs < m_MicroSecondsSinceEpoch rhs"

instantiation TimeStamp :: linorder
begin

definition less_TimeStamp :: "TimeStamp \<Rightarrow> TimeStamp \<Rightarrow> bool" where
  "lhs < rhs \<longleftrightarrow> TimeStamp_lt lhs rhs"

definition less_eq_TimeStamp :: "TimeStamp \<Rightarrow> TimeStamp \<Rightarrow> bool" where
  "lhs \<le> rhs \<longleftrightarrow> m_MicroSecondsSinceEpoch lhs \<le> m_MicroSecondsSinceEpoch rhs"

instance
  by standard
    (auto simp: less_TimeStamp_def TimeStamp_lt_def less_eq_TimeStamp_def intro: TimeStamp.expand)

end

definition TimeStamp_equal :: "TimeStamp \<Rightarrow> TimeStamp \<Rightarrow> bool" where
  "TimeStamp_equal lhs rhs \<longleftrightarrow> m_MicroSecondsSinceEpoch lhs = m_MicroSecondsSinceEpoch rhs"

definition TimeStamp_Invalid :: TimeStamp where
  "TimeStamp_Invalid = TimeStamp 0"

definition TimeStamp_IsValid :: "TimeStamp \<Rightarrow> bool" where
  "TimeStamp_IsValid t \<longleftrightarrow> m_MicroSecondsSinceEpoch t > 0"

definition TimeStamp_Swap :: "TimeStamp \<Rightarrow> TimeStamp \<Rightarrow> TimeStamp \<times> TimeStamp" where
  "TimeStamp_Swap a b =
     (TimeStamp (m_MicroSecondsSinceEpoch b), TimeStamp (m_MicroSecondsSinceEpoch a))"

text \<open>\<open>Now()\<close> of a clock that reads \<open>tv_sec\<close> and \<open>tv_usec\<close>.\<close>

definition TimeStamp_Now :: "int \<Rightarrow> int \<Rightarrow> TimeStamp" where
  "TimeStamp_Now tv_sec tv_usec = TimeStamp (tv_sec * MICRO_SECOND_PER_SECOND + tv_usec)"

definition trunc_rat :: "rat \<Rightarrow> int" where
  "trunc_rat r = (if r < 0 then - \<lfloor>- r\<rfloor> else \<lfloor>r\<rfloor>)"

definition TimeDifference :: "TimeStamp \<Rightarrow> TimeStamp \<Rightarrow> rat" where
  "TimeDifference high low =
     of_int (m_MicroSecondsSinceEpoch high - m_MicroSecondsSinceEpoch low)
       / of_int MICRO_SECOND_PER_SECOND"

definition AddTime :: "TimeStamp \<Rightarrow> rat \<Rightarrow> TimeStamp" where
  "AddTime stamp dSeconds =
     TimeStamp (m_MicroSecondsSinceEpoch stamp
       + trunc_rat (dSeconds * of_int MICRO_SECOND_PER_SECOND))"

section \<open>Text\<close>

text \<open>The fields of \<open>struct tm\<close> the code prints.\<close>

record tm =
  tm_year :: int
  tm_mon :: int
  tm_mday :: int
  tm_hour :: int
  tm_min :: int
  tm_sec :: int

text \<open>What \<open>gmtime_r\<close> documents of the fields, for years of four digits.\<close>

definition tm_ok :: "tm \<Rightarrow> bool" where
  "tm_ok t \<longleftrightarrow> - 1900 \<le> tm_year t \<and> tm_year t \<le> 8099 \<and> 0 \<le> tm_mon t \<and> tm_mon t \<le> 11 \<and>
     1 \<le> tm_mday t \<and> tm_mday t \<le> 31 \<and> 0 \<le> tm_hour t \<and> tm_hour t \<le> 23 \<and>
     0 \<le> tm_min t \<and> tm_min t \<le> 59 \<and> 0 \<le> tm_sec t \<and> tm_sec t \<le> 60"

definition TimeStamp_ToString :: "TimeStamp \<Rightarrow> string" where
  "TimeStamp_ToString t =
     (let seconds = c_div (m_MicroSecondsSinceEpoch t) MICRO_SECOND_PER_SECOND;
          microSeconds = c_mod (m_MicroSecondsSinceEpoch t) MICRO_SECOND_PER_SECOND
      in fst (snprintf 32 (dec seconds @ ''.'' @ fmt_zero 6 microSeconds)))"

text \<open>The date and time of day, as both \<open>ToFormattedString\<close> and the logger print it.\<close>

definition format_tm :: "tm \<Rightarrow> string" where
  "format_tm t =
     fmt_pad 4 (tm_year t + 1900) @ fmt_zero 2 (tm_mon t + 1) @ fmt_zero 2 (tm_mday t) @ '' '' @
     fmt_zero 2 (tm_hour t) @ '':'' @ fmt_zero 2 (tm_min t) @ '':'' @ fmt_zero 2 (tm_sec t)"

definition TimeStamp_ToFormattedString :: "(int \<Rightarrow> tm) \<Rightarrow> TimeStamp \<Rightarrow> string" where
  "TimeStamp_ToFormattedString gmtime t =
     (let seconds = c_div (m_MicroSecondsSinceEpoch t) MICRO_SECOND_PER_SECOND;
          microSeconds = c_mod (m_MicroSecondsSinceEpoch t) MICRO_SECOND_PER_SECOND
      in fst (snprintf 32 (format_tm (gmtime seconds) @ ''.'' @ fmt_zero 6 microSeconds)))"

section \<open>Lemmas\<close>

lemma TimeStamp_less [simp]: "TimeStamp a < TimeStamp b \<longleftrightarrow> a < b"
  by (simp add: less_TimeStamp_def TimeStamp_lt_def)

lemma TimeStamp_le [simp]: "TimeStamp a \<le> TimeStamp b \<longleftrightarrow> a \<le> b"
  by (simp add: less_eq_TimeStamp_def)

lemma TimeStamp_equal_iff: "TimeStamp_equal a b \<longleftrightarrow> a = b"
  by (cases a; cases b) (simp add: TimeStamp_equal_def)

lemma trunc_rat_nonneg: "0 \<le> r \<Longrightarrow> 0 \<le> trunc_rat r"
  by (simp add: trunc_rat_def)

lemma trunc_rat_bounds: "\<bar>of_int (trunc_rat r) - r\<bar> < 1"
proof (cases "r < 0")
  case True
  then show ?thesis by (simp add: trunc_rat_def) linarith
next
  case False
  then show ?thesis by (simp add: trunc_rat_def) linarith
qed

lemma AddTime_mono: "0 \<le> d \<Longrightarrow> t \<le> AddTime t d"
  by (cases t) (simp add: AddTime_def trunc_rat_nonneg MICRO_SECOND_PER_SECOND_def)

lemma AddTime_later:
  assumes "1 / 1000000 \<le> d"
  shows "t < AddTime t d"
proof -
  have "1 \<le> d * of_int MICRO_SECOND_PER_SECOND"
    using assms by (simp add: MICRO_SECOND_PER_SECOND_def)
  then have "1 \<le> trunc_rat (d * of_int MICRO_SECOND_PER_SECOND)"
    by (simp add: trunc_rat_def)
  then show ?thesis by (cases t) (simp add: AddTime_def)
qed

text \<open>Adding a duration and taking the difference recovers it to within a microsecond.\<close>

lemma TimeDifference_AddTime: "\<bar>TimeDifference (AddTime t d) t - d\<bar> < 1 / of_int MICRO_SECOND_PER_SECOND"
proof -
  have "\<bar>of_int (trunc_rat (d * of_int MICRO_SECOND_PER_SECOND)) -
      d * of_int MICRO_SECOND_PER_SECOND\<bar> < 1" by (rule trunc_rat_bounds)
  then show ?thesis
    by (simp add: TimeDifference_def AddTime_def MICRO_SECOND_PER_SECOND_def abs_less_iff field_simps)
qed

lemma length_format_tm: "tm_ok t \<Longrightarrow> length (format_tm t) = 17"
  by (simp add: format_tm_def tm_ok_def length_fmt_pad length_fmt_zero)

end
