(* ===== verification/Channels.thy ===== *)
theory Channels
  imports TimeStamps
begin

text \<open>
  \<open>reactor/Channel\<close>: a file descriptor with the events its owner wants, the events the poller
  reported, and the four callbacks \<open>HandleEvent\<close> dispatches to. Channels are objects in a store
  from addresses to channels, shared by the poller, the loop and the connections; the store is
  the base of the state record the later components extend. Callbacks are values of a type
  \<open>'cb\<close>, and \<open>run\<close>, an argument, says what calling one does to the state.
\<close>

unbundle bit_operations_syntax

section \<open>The channel\<close>

text \<open>Event masks, as \<open>poll.h\<close> numbers them.\<close>

type_synonym events = "32 word"

definition POLLIN :: events where "POLLIN = 0x001"
definition POLLPRI :: events where "POLLPRI = 0x002"
definition POLLOUT :: events where "POLLOUT = 0x004"
definition POLLERR :: events where "POLLERR = 0x008"
definition POLLHUP :: events where "POLLHUP = 0x010"
definition POLLNVAL :: events where "POLLNVAL = 0x020"
definition POLLRDHUP :: events where "POLLRDHUP = 0x2000"

definition NONE_EVENT :: events where "NONE_EVENT = 0"
definition READ_EVENT :: events where "READ_EVENT = POLLIN OR POLLPRI"
definition WRITE_EVENT :: events where "WRITE_EVENT = POLLOUT"

lemmas event_defs = POLLIN_def POLLPRI_def POLLOUT_def POLLERR_def POLLHUP_def POLLNVAL_def
  POLLRDHUP_def NONE_EVENT_def READ_EVENT_def WRITE_EVENT_def

record 'cb channel =
  ch_pEventLoop :: nat
  ch_Fd :: int
  ch_nEvents :: events
  ch_nREvents :: events
  ch_nIndex :: int
  ch_bEventHandling :: bool
  ch_ReadCallBack :: "'cb option"
  ch_WriteCallBack :: "'cb option"
  ch_ErrorCallBack :: "'cb option"
  ch_CloseCallBack :: "'cb option"

definition Channel_new :: "nat \<Rightarrow> int \<Rightarrow> 'cb channel" where
  "Channel_new pEventLoop nFd =
     \<lparr>ch_pEventLoop = pEventLoop, ch_Fd = nFd, ch_nEvents = 0, ch_nREvents = 0, ch_nIndex = - 1,
      ch_bEventHandling = False, ch_ReadCallBack = None, ch_WriteCallBack = None,
      ch_ErrorCallBack = None, ch_CloseCallBack = None\<rparr>"

definition Channel_SetReadCallBack :: "'cb \<Rightarrow> 'cb channel \<Rightarrow> 'cb channel" where
  "Channel_SetReadCallBack cb ch = ch\<lparr>ch_ReadCallBack := Some cb\<rparr>"

definition Channel_SetWriteCallBack :: "'cb \<Rightarrow> 'cb channel \<Rightarrow> 'cb channel" where
  "Channel_SetWriteCallBack cb ch = ch\<lparr>ch_WriteCallBack := Some cb\<rparr>"

definition Channel_SetCloseCallBack :: "'cb \<Rightarrow> 'cb channel \<Rightarrow> 'cb channel" where
  "Channel_SetCloseCallBack cb ch = ch\<lparr>ch_CloseCallBack := Some cb\<rparr>"

definition Channel_SetErrorCallBack :: "'cb \<Rightarrow> 'cb channel \<Rightarrow> 'cb channel" where
  "Channel_SetErrorCallBack cb ch = ch\<lparr>ch_ErrorCallBack := Some cb\<rparr>"

definition Channel_IsNoneEvent :: "'cb channel \<Rightarrow> bool" where
  "Channel_IsNoneEvent ch \<longleftrightarrow> ch_nEvents ch = NONE_EVENT"

definition Channel_IsWriting :: "'cb channel \<Rightarrow> bool" where
  "Channel_IsWriting ch \<longleftrightarrow> ch_nEvents ch AND WRITE_EVENT \<noteq> 0"

definition Channel_SetREvents :: "events \<Rightarrow> 'cb channel \<Rightarrow> 'cb channel" where
  "Channel_SetREvents nEvent ch = ch\<lparr>ch_nREvents := nEvent\<rparr>"

definition Channel_SetIndex :: "int \<Rightarrow> 'cb channel \<Rightarrow> 'cb channel" where
  "Channel_SetIndex nIndex ch = ch\<lparr>ch_nIndex := nIndex\<rparr>"

text \<open>The changes of the wanted events, before \<open>update()\<close> tells the loop.\<close>

definition enable_reading :: "'cb channel \<Rightarrow> 'cb channel" where
  "enable_reading ch = ch\<lparr>ch_nEvents := ch_nEvents ch OR READ_EVENT\<rparr>"

definition enable_writing :: "'cb channel \<Rightarrow> 'cb channel" where
  "enable_writing ch = ch\<lparr>ch_nEvents := ch_nEvents ch OR WRITE_EVENT\<rparr>"

definition disable_writing :: "'cb channel \<Rightarrow> 'cb channel" where
  "disable_writing ch = ch\<lparr>ch_nEvents := ch_nEvents ch AND NOT WRITE_EVENT\<rparr>"

definition disable_all :: "'cb channel \<Rightarrow> 'cb channel" where
  "disable_all ch = ch\<lparr>ch_nEvents := NONE_EVENT\<rparr>"

lemma enable_reading_fields [simp]:
  "ch_Fd (enable_reading ch) = ch_Fd ch" "ch_nIndex (enable_reading ch) = ch_nIndex ch"
  "ch_pEventLoop (enable_reading ch) = ch_pEventLoop ch"
  "ch_nEvents (enable_reading ch) = ch_nEvents ch OR READ_EVENT"
  by (simp_all add: enable_reading_def)

lemma enable_writing_fields [simp]:
  "ch_Fd (enable_writing ch) = ch_Fd ch" "ch_nIndex (enable_writing ch) = ch_nIndex ch"
  "ch_pEventLoop (enable_writing ch) = ch_pEventLoop ch"
  "ch_nEvents (enable_writing ch) = ch_nEvents ch OR WRITE_EVENT"
  by (simp_all add: enable_writing_def)

lemma disable_writing_fields [simp]:
  "ch_Fd (disable_writing ch) = ch_Fd ch" "ch_nIndex (disable_writing ch) = ch_nIndex ch"
  "ch_pEventLoop (disable_writing ch) = ch_pEventLoop ch"
  "ch_nEvents (disable_writing ch) = ch_nEvents ch AND NOT WRITE_EVENT"
  by (simp_all add: disable_writing_def)

lemma disable_all_fields [simp]:
  "ch_Fd (disable_all ch) = ch_Fd ch" "ch_nIndex (disable_all ch) = ch_nIndex ch"
  "ch_pEventLoop (disable_all ch) = ch_pEventLoop ch" "ch_nEvents (disable_all ch) = NONE_EVENT"
  by (simp_all add: disable_all_def)

section \<open>The store of channels\<close>

record 'cb chan_store =
  s_Channels :: "nat \<Rightarrow> 'cb channel option"

definition with_chan :: "nat \<Rightarrow> ('cb, 'a) chan_store_scheme \<Rightarrow> ('cb channel \<Rightarrow> 'b res) \<Rightarrow> 'b res" where
  "with_chan c s f = (case s_Channels s c of None \<Rightarrow> Inl BadPointer | Some ch \<Rightarrow> f ch)"

definition put_chan ::
    "nat \<Rightarrow> 'cb channel \<Rightarrow> ('cb, 'a) chan_store_scheme \<Rightarrow> ('cb, 'a) chan_store_scheme" where
  "put_chan c ch s = s\<lparr>s_Channels := (s_Channels s)(c \<mapsto> ch)\<rparr>"

lemma put_chan_same [simp]: "s_Channels (put_chan c ch s) c = Some ch"
  by (simp add: put_chan_def)

lemma put_chan_other [simp]: "c' \<noteq> c \<Longrightarrow> s_Channels (put_chan c ch s) c' = s_Channels s c'"
  by (simp add: put_chan_def)

lemma s_Channels_put_chan: "s_Channels (put_chan c ch s) = (s_Channels s)(c \<mapsto> ch)"
  by (simp add: put_chan_def)

lemma with_chan_Some [simp]: "s_Channels s c = Some ch \<Longrightarrow> with_chan c s f = f ch"
  by (simp add: with_chan_def)

lemma with_chan_None [simp]: "s_Channels s c = None \<Longrightarrow> with_chan c s f = Inl BadPointer"
  by (simp add: with_chan_def)

lemma with_chan_Inr [res_simps]:
  "with_chan c s f = Inr x \<longleftrightarrow> (\<exists>ch. s_Channels s c = Some ch \<and> f ch = Inr x)"
  by (cases "s_Channels s c") simp_all

text \<open>\<open>delete pChannel\<close>, with the destructor's assertion.\<close>

definition Channel_delete ::
    "nat \<Rightarrow> ('cb, 'a) chan_store_scheme \<Rightarrow> ('cb, 'a) chan_store_scheme res" where
  "Channel_delete c s =
     with_chan c s (\<lambda>ch. check (\<not> ch_bEventHandling ch)
       (Inr (s\<lparr>s_Channels := (s_Channels s)(c := None)\<rparr>)))"

section \<open>Dispatch\<close>

text \<open>
  One \<open>if\<close> of \<open>HandleEvent\<close>: it reads the reported events, then the callback, from the object
  as it is at that moment. The read callback is given the receive time.
\<close>

definition fire ::
    "('cb \<Rightarrow> TimeStamp option \<Rightarrow> ('cb, 'a) chan_store_scheme \<Rightarrow> ('cb, 'a) chan_store_scheme res) \<Rightarrow>
     nat \<Rightarrow> (events \<Rightarrow> bool) \<Rightarrow> ('cb channel \<Rightarrow> 'cb option) \<Rightarrow> TimeStamp option \<Rightarrow>
     ('cb, 'a) chan_store_scheme \<Rightarrow> ('cb, 'a) chan_store_scheme res" where
  "fire run c cond callback t s =
     with_chan c s (\<lambda>ch.
       if cond (ch_nREvents ch)
       then (case callback ch of None \<Rightarrow> Inr s | Some cb \<Rightarrow> run cb t s)
       else Inr s)"

definition close_cond :: "events \<Rightarrow> bool" where
  "close_cond r \<longleftrightarrow> r AND POLLHUP \<noteq> 0 \<and> \<not> r AND POLLIN \<noteq> 0"

definition error_cond :: "events \<Rightarrow> bool" where
  "error_cond r \<longleftrightarrow> r AND (POLLERR OR POLLNVAL) \<noteq> 0"

definition read_cond :: "events \<Rightarrow> bool" where
  "read_cond r \<longleftrightarrow> r AND (POLLIN OR POLLPRI OR POLLRDHUP) \<noteq> 0"

definition write_cond :: "events \<Rightarrow> bool" where
  "write_cond r \<longleftrightarrow> r AND POLLOUT \<noteq> 0"

lemmas cond_defs = close_cond_def error_cond_def read_cond_def write_cond_def

definition Channel_HandleEvent ::
    "('cb \<Rightarrow> TimeStamp option \<Rightarrow> ('cb, 'a) chan_store_scheme \<Rightarrow> ('cb, 'a) chan_store_scheme res) \<Rightarrow>
     nat \<Rightarrow> TimeStamp \<Rightarrow> ('cb, 'a) chan_store_scheme \<Rightarrow> ('cb, 'a) chan_store_scheme res" where
  "Channel_HandleEvent run c receiveTime s =
     with_chan c s (\<lambda>ch.
     rbind (fire run c close_cond ch_CloseCallBack None (put_chan c (ch\<lparr>ch_bEventHandling := True\<rparr>) s)) (\<lambda>s1.
     rbind (fire run c error_cond ch_ErrorCallBack None s1) (\<lambda>s2.
     rbind (fire run c read_cond ch_ReadCallBack (Some receiveTime) s2) (\<lambda>s3.
     rbind (fire run c write_cond ch_WriteCallBack None s3) (\<lambda>s4.
     with_chan c s4 (\<lambda>ch'. Inr (put_chan c (ch'\<lparr>ch_bEventHandling := False\<rparr>) s4)))))))"

text \<open>The same as a table: which callbacks are called, in which order.\<close>

definition dispatch :: "TimeStamp \<Rightarrow> 'cb channel \<Rightarrow> ('cb \<times> TimeStamp option) list" where
  "dispatch receiveTime ch =
     concat
       [if close_cond (ch_nREvents ch) then map (\<lambda>cb. (cb, None)) (case ch_CloseCallBack ch of None \<Rightarrow> [] | Some cb \<Rightarrow> [cb]) else [],
        if error_cond (ch_nREvents ch) then map (\<lambda>cb. (cb, None)) (case ch_ErrorCallBack ch of None \<Rightarrow> [] | Some cb \<Rightarrow> [cb]) else [],
        if read_cond (ch_nREvents ch) then map (\<lambda>cb. (cb, Some receiveTime)) (case ch_ReadCallBack ch of None \<Rightarrow> [] | Some cb \<Rightarrow> [cb]) else [],
        if write_cond (ch_nREvents ch) then map (\<lambda>cb. (cb, None)) (case ch_WriteCallBack ch of None \<Rightarrow> [] | Some cb \<Rightarrow> [cb]) else []]"

text \<open>
  What the dispatch relies on: while a callback runs, the channel stays alive, keeps its
  callbacks and the reported events, and stays marked as handling.
\<close>

definition same_dispatch :: "'cb channel \<Rightarrow> 'cb channel \<Rightarrow> bool" where
  "same_dispatch a b \<longleftrightarrow>
     ch_nREvents a = ch_nREvents b \<and> ch_CloseCallBack a = ch_CloseCallBack b \<and>
     ch_ErrorCallBack a = ch_ErrorCallBack b \<and> ch_ReadCallBack a = ch_ReadCallBack b \<and>
     ch_WriteCallBack a = ch_WriteCallBack b"

definition keeps_channel ::
    "nat \<Rightarrow> 'cb channel \<Rightarrow>
     ('cb \<Rightarrow> TimeStamp option \<Rightarrow> ('cb, 'a) chan_store_scheme \<Rightarrow> ('cb, 'a) chan_store_scheme res) \<Rightarrow> bool" where
  "keeps_channel c ch run \<longleftrightarrow>
     (\<forall>cb t s s'. (\<exists>ch1. s_Channels s c = Some ch1 \<and> same_dispatch ch ch1) \<longrightarrow>
        run cb t s = Inr s' \<longrightarrow> (\<exists>ch2. s_Channels s' c = Some ch2 \<and> same_dispatch ch ch2))"

lemma same_dispatch_refl [simp]: "same_dispatch ch ch"
  by (simp add: same_dispatch_def)

lemma same_dispatch_handling [simp]:
  "same_dispatch ch (ch\<lparr>ch_bEventHandling := b\<rparr>)" "same_dispatch (ch\<lparr>ch_bEventHandling := b\<rparr>) ch"
  by (simp_all add: same_dispatch_def)

text \<open>A \<open>fire\<close> on a channel that still dispatches as \<open>ch\<close>: run the entries of the table.\<close>

lemma fire_table:
  assumes s: "s_Channels s c = Some ch1" "same_dispatch ch ch1"
    and sel: "callback ch1 = callback ch"
  shows "fire run c cond callback t s =
    rfold (\<lambda>(cb, t). run cb t)
      (if cond (ch_nREvents ch) then map (\<lambda>cb. (cb, t)) (case callback ch of None \<Rightarrow> [] | Some cb \<Rightarrow> [cb]) else []) s"
  using assms by (auto simp: fire_def same_dispatch_def split: option.split)

lemma rfold_keeps:
  assumes "keeps_channel c ch run" and "rfold (\<lambda>(cb, t). run cb t) xs s = Inr s'"
    and "s_Channels s c = Some ch1" and "same_dispatch ch ch1"
  obtains ch2 where "s_Channels s' c = Some ch2" and "same_dispatch ch ch2"
proof -
  have "\<exists>ch2. s_Channels s' c = Some ch2 \<and> same_dispatch ch ch2"
  proof (rule rfold_invariant [OF assms(2)])
    show "\<exists>ch2. s_Channels s c = Some ch2 \<and> same_dispatch ch ch2" using assms(3,4) by blast
    show "\<exists>ch2. s_Channels y c = Some ch2 \<and> same_dispatch ch ch2"
      if "\<exists>ch2. s_Channels x c = Some ch2 \<and> same_dispatch ch ch2" "(case e of (cb, t) \<Rightarrow> run cb t) x = Inr y"
      for e x y
      using that assms(1) unfolding keeps_channel_def by (cases e) auto
  qed
  with that show thesis by blast
qed

text \<open>Chaining one more \<open>if\<close> after callbacks that kept the channel.\<close>

lemma fire_after:
  assumes run: "keeps_channel c ch run" and s: "s_Channels s c = Some ch1" "same_dispatch ch ch1"
    and sel: "\<And>ch2. same_dispatch ch ch2 \<Longrightarrow> callback ch2 = callback ch"
  shows "rbind (rfold (\<lambda>(cb, t). run cb t) xs s) (fire run c cond callback t) =
    rfold (\<lambda>(cb, t). run cb t)
      (xs @ (if cond (ch_nREvents ch)
             then map (\<lambda>cb. (cb, t)) (case callback ch of None \<Rightarrow> [] | Some cb \<Rightarrow> [cb]) else [])) s"
proof (cases "rfold (\<lambda>(cb, t). run cb t) xs s")
  case (Inr s')
  from rfold_keeps [OF run Inr s] obtain ch2 where
    "s_Channels s' c = Some ch2" "same_dispatch ch ch2" by blast
  from fire_table [OF this sel [OF this(2)], of run cond t] Inr show ?thesis
    by (simp add: rfold_append)
qed (simp add: rfold_append)

lemma HandleEvent_table:
  assumes s: "s_Channels s c = Some ch" and run: "keeps_channel c ch run"
  shows "Channel_HandleEvent run c receiveTime s =
    rbind (rfold (\<lambda>(cb, t). run cb t) (dispatch receiveTime ch)
             (put_chan c (ch\<lparr>ch_bEventHandling := True\<rparr>) s))
      (\<lambda>s'. with_chan c s' (\<lambda>ch'. Inr (put_chan c (ch'\<lparr>ch_bEventHandling := False\<rparr>) s')))"
proof -
  let ?s = "put_chan c (ch\<lparr>ch_bEventHandling := True\<rparr>) s"
  have s1: "s_Channels ?s c = Some (ch\<lparr>ch_bEventHandling := True\<rparr>)" by simp
  note step = fire_after [OF run s1 same_dispatch_handling(1)]
  let ?done = "\<lambda>s'. with_chan c s' (\<lambda>ch'. Inr (put_chan c (ch'\<lparr>ch_bEventHandling := False\<rparr>) s'))"
  have "Channel_HandleEvent run c receiveTime s =
    rbind (rbind (rbind (rbind (rbind (rfold (\<lambda>(cb, t). run cb t) [] ?s)
      (fire run c close_cond ch_CloseCallBack None))
      (fire run c error_cond ch_ErrorCallBack None))
      (fire run c read_cond ch_ReadCallBack (Some receiveTime)))
      (fire run c write_cond ch_WriteCallBack None)) ?done"
    using s by (simp add: Channel_HandleEvent_def rbind_assoc)
  also have "\<dots> = rbind (rfold (\<lambda>(cb, t). run cb t) (dispatch receiveTime ch) ?s) ?done"
    unfolding dispatch_def
    by (subst step, simp add: same_dispatch_def)+ simp
  finally show ?thesis .
qed

section \<open>Properties\<close>


text \<open>A store that logs its callbacks, and a channel reported readable, writable and hung up.\<close>

record log_store = "nat chan_store" +
  s_Log :: "(nat \<times> TimeStamp option) list"

definition log_run :: "nat \<Rightarrow> TimeStamp option \<Rightarrow> log_store \<Rightarrow> log_store res" where
  "log_run cb t s = Inr (s\<lparr>s_Log := s_Log s @ [(cb, t)]\<rparr>)"

definition log_channel :: "nat channel" where
  "log_channel = Channel_SetCloseCallBack 3 (Channel_SetErrorCallBack 2 (Channel_SetWriteCallBack 1
     (Channel_SetReadCallBack 0 (Channel_SetREvents 0x2014 (Channel_new 0 5)))))"


end
