(* ===== verification/EPollers.thy ===== *)
theory EPollers
  imports Channels
begin

text \<open>
  \<open>reactor/EPoller\<close>: the poller over \<open>epoll\<close>. It keeps a map from descriptors to channels and
  tells the kernel, through \<open>epoll_ctl\<close>, which events each channel wants; a channel's index is
  its state with the poller (new, added, deleted). The kernel's side is an argument: \<open>ctl\<close> is
  \<open>epoll_ctl\<close> on an abstract kernel state, \<open>interest\<close> reads the interest list off that state,
  and \<open>epoll_ok\<close> says what the manual page promises. The locale \<open>channel_poller\<close> is the contract
  of a poller towards the channels, as a map from channels to wanted events.
\<close>

section \<open>The poller\<close>

datatype epoll_op = EPOLL_CTL_ADD | EPOLL_CTL_MOD | EPOLL_CTL_DEL

type_synonym 'k epoll_ctl = "epoll_op \<Rightarrow> int \<Rightarrow> events \<times> nat \<Rightarrow> 'k \<Rightarrow> 'k \<times> int"

definition NEW :: int where "NEW = - 1"
definition ADDED :: int where "ADDED = 1"
definition DELETED :: int where "DELETED = 2"
definition INIT_EVENT_LIST_SIZE :: nat where "INIT_EVENT_LIST_SIZE = 16"

lemmas index_defs = NEW_def ADDED_def DELETED_def

text \<open>
  \<open>s_Self\<close> and \<open>s_ThreadId\<close> are the loop that owns the poller and its thread; of \<open>m_vEvents\<close>
  only the size matters between two polls.
\<close>

record ('cb, 'k) epoll_store = "'cb chan_store" +
  s_Self :: nat
  s_ThreadId :: nat
  s_mpChannel :: "int \<Rightarrow> nat option"
  s_vEvents :: nat
  s_Kernel :: 'k

definition EPoller_update ::
    "'k epoll_ctl \<Rightarrow> epoll_op \<Rightarrow> nat \<Rightarrow> ('cb, 'k, 'a) epoll_store_scheme \<Rightarrow>
     ('cb, 'k, 'a) epoll_store_scheme res" where
  "EPoller_update ctl nOperation c s =
     with_chan c s (\<lambda>ch.
       (let (k, n) = ctl nOperation (ch_Fd ch) (ch_nEvents ch, c) (s_Kernel s)
        in if n < 0 \<and> nOperation \<noteq> EPOLL_CTL_DEL then Inl Aborted else Inr (s\<lparr>s_Kernel := k\<rparr>)))"

definition EPoller_UpdateChannel ::
    "'k epoll_ctl \<Rightarrow> nat \<Rightarrow> nat \<Rightarrow> ('cb, 'k, 'a) epoll_store_scheme \<Rightarrow>
     ('cb, 'k, 'a) epoll_store_scheme res" where
  "EPoller_UpdateChannel ctl tid c s =
     assert_in_loop (tid = s_ThreadId s)
       (with_chan c s (\<lambda>ch.
          (let nIndex = ch_nIndex ch; nFd = ch_Fd ch in
           if nIndex = NEW \<or> nIndex = DELETED
           then rbind
             (if nIndex = NEW
              then check (s_mpChannel s nFd = None)
                     (Inr (s\<lparr>s_mpChannel := (s_mpChannel s)(nFd \<mapsto> c)\<rparr>))
              else check (s_mpChannel s nFd \<noteq> None) (check (s_mpChannel s nFd = Some c) (Inr s)))
             (\<lambda>s1. EPoller_update ctl EPOLL_CTL_ADD c (put_chan c (Channel_SetIndex ADDED ch) s1))
           else check (s_mpChannel s nFd \<noteq> None) (check (s_mpChannel s nFd = Some c)
             (check (nIndex = ADDED)
               (if Channel_IsNoneEvent ch
                then rbind (EPoller_update ctl EPOLL_CTL_DEL c s) (\<lambda>s1.
                       Inr (put_chan c (Channel_SetIndex DELETED ch) s1))
                else EPoller_update ctl EPOLL_CTL_MOD c s))))))"

definition EPoller_RemoveChannel ::
    "'k epoll_ctl \<Rightarrow> nat \<Rightarrow> nat \<Rightarrow> ('cb, 'k, 'a) epoll_store_scheme \<Rightarrow>
     ('cb, 'k, 'a) epoll_store_scheme res" where
  "EPoller_RemoveChannel ctl tid c s =
     assert_in_loop (tid = s_ThreadId s)
       (with_chan c s (\<lambda>ch.
          (let nIndex = ch_nIndex ch; nFd = ch_Fd ch in
           check (s_mpChannel s nFd \<noteq> None) (check (s_mpChannel s nFd = Some c)
             (check (Channel_IsNoneEvent ch) (check (nIndex = ADDED \<or> nIndex = DELETED)
               (rbind
                 (if nIndex = ADDED
                  then EPoller_update ctl EPOLL_CTL_DEL c (s\<lparr>s_mpChannel := (s_mpChannel s)(nFd := None)\<rparr>)
                  else Inr (s\<lparr>s_mpChannel := (s_mpChannel s)(nFd := None)\<rparr>))
                 (\<lambda>s1. Inr (put_chan c (Channel_SetIndex NEW ch) s1)))))))))"

text \<open>
  \<open>epoll_wait\<close> returns the ready entries (events and \<open>data.ptr\<close>), nothing, or an error. The
  channels reported are appended to \<open>pActiveChannels\<close>.
\<close>

datatype poll_result = PollEvents "(events \<times> nat) list" | PollError

fun EPoller_fillActiveChannels ::
    "(events \<times> nat) list \<Rightarrow> nat list \<Rightarrow> ('cb, 'k, 'a) epoll_store_scheme \<Rightarrow>
     (nat list \<times> ('cb, 'k, 'a) epoll_store_scheme) res" where
  "EPoller_fillActiveChannels [] active s = Inr (active, s)"
| "EPoller_fillActiveChannels ((ev, c) # es) active s =
     with_chan c s (\<lambda>ch.
       check (s_mpChannel s (ch_Fd ch) \<noteq> None)
         (check (s_mpChannel s (ch_Fd ch) = Some c)
           (EPoller_fillActiveChannels es (active @ [c]) (put_chan c (Channel_SetREvents ev ch) s))))"

definition EPoller_Poll ::
    "poll_result \<Rightarrow> nat list \<Rightarrow> ('cb, 'k, 'a) epoll_store_scheme \<Rightarrow>
     (nat list \<times> ('cb, 'k, 'a) epoll_store_scheme) res" where
  "EPoller_Poll r active s =
     (case r of
        PollError \<Rightarrow> Inr (active, s)
      | PollEvents es \<Rightarrow>
          (if es = [] then Inr (active, s)
           else check (length es \<le> s_vEvents s)
             (rbind (EPoller_fillActiveChannels es active s) (\<lambda>(active', s').
                Inr (active', if length es = s_vEvents s' then s'\<lparr>s_vEvents := 2 * s_vEvents s'\<rparr>
                              else s')))))"

section \<open>The kernel and the invariant\<close>

text \<open>
  What \<open>epoll_ctl\<close> documents: a call that fails changes nothing, one that succeeds sets or
  removes the entry of the descriptor, and deleting an entry that is there succeeds.
\<close>

definition epoll_ok :: "'k epoll_ctl \<Rightarrow> ('k \<Rightarrow> int \<Rightarrow> (events \<times> nat) option) \<Rightarrow> bool" where
  "epoll_ok ctl interest \<longleftrightarrow>
     (\<forall>op fd e k k' n. ctl op fd e k = (k', n) \<longrightarrow>
        interest k' =
          (if n < 0 then interest k
           else (interest k)(fd := (if op = EPOLL_CTL_DEL then None else Some e))) \<and>
        (op = EPOLL_CTL_DEL \<longrightarrow> interest k fd \<noteq> None \<longrightarrow> 0 \<le> n))"

text \<open>What the poller should have told the kernel about a descriptor.\<close>

definition wanted :: "('cb, 'k, 'a) epoll_store_scheme \<Rightarrow> int \<Rightarrow> (events \<times> nat) option" where
  "wanted s fd =
     (case s_mpChannel s fd of
        None \<Rightarrow> None
      | Some c \<Rightarrow>
          (case s_Channels s c of
             None \<Rightarrow> None
           | Some ch \<Rightarrow> (if ch_nIndex ch = ADDED then Some (ch_nEvents ch, c) else None)))"

text \<open>
  The invariant, except that the channels in \<open>X\<close> may have changed the events they want without
  telling the poller yet: the map holds exactly the channels that are not new, a deleted channel
  wants no event, and the kernel watches what is wanted.
\<close>

definition ep_map :: "('cb, 'k, 'a) epoll_store_scheme \<Rightarrow> bool" where
  "ep_map s \<longleftrightarrow>
     (\<forall>fd c. s_mpChannel s fd = Some c \<longleftrightarrow>
        (\<exists>ch. s_Channels s c = Some ch \<and> ch_Fd ch = fd \<and> ch_nIndex ch \<noteq> NEW))"

definition ep_index :: "nat set \<Rightarrow> ('cb, 'k, 'a) epoll_store_scheme \<Rightarrow> bool" where
  "ep_index X s \<longleftrightarrow>
     (\<forall>c ch. s_Channels s c = Some ch \<longrightarrow> ch_nIndex ch \<in> {NEW, ADDED, DELETED} \<and>
        (ch_nIndex ch = DELETED \<longrightarrow> c \<notin> X \<longrightarrow> ch_nEvents ch = NONE_EVENT))"

definition ep_watch ::
    "('k \<Rightarrow> int \<Rightarrow> (events \<times> nat) option) \<Rightarrow> nat set \<Rightarrow> ('cb, 'k, 'a) epoll_store_scheme \<Rightarrow> int \<Rightarrow> bool" where
  "ep_watch interest X s fd \<longleftrightarrow>
     interest (s_Kernel s) fd = wanted s fd \<or>
     s_mpChannel s fd \<in> Some ` X \<and> (interest (s_Kernel s) fd = None \<longleftrightarrow> wanted s fd = None)"

definition ep_inv ::
    "('k \<Rightarrow> int \<Rightarrow> (events \<times> nat) option) \<Rightarrow> nat set \<Rightarrow> ('cb, 'k, 'a) epoll_store_scheme \<Rightarrow> bool" where
  "ep_inv interest X s \<longleftrightarrow>
     ep_map s \<and> ep_index X s \<and> (\<forall>fd. ep_watch interest X s fd) \<and> 0 < s_vEvents s"

lemma ep_inv_chan:
  "ep_inv interest X s \<Longrightarrow> s_Channels s c = Some ch \<Longrightarrow>
   s_mpChannel s (ch_Fd ch) = Some c \<longleftrightarrow> ch_nIndex ch \<noteq> NEW"
  unfolding ep_inv_def ep_map_def by auto

lemma ep_inv_index:
  "ep_inv interest X s \<Longrightarrow> s_Channels s c = Some ch \<Longrightarrow> ch_nIndex ch \<in> {NEW, ADDED, DELETED}"
  unfolding ep_inv_def ep_index_def by blast

lemma ep_inv_mapped:
  "ep_inv interest X s \<Longrightarrow> s_mpChannel s fd = Some c \<Longrightarrow>
   \<exists>ch. s_Channels s c = Some ch \<and> ch_Fd ch = fd \<and> ch_nIndex ch \<noteq> NEW"
  unfolding ep_inv_def ep_map_def by blast

text \<open>Changing the events of a channel, or its other fields, outside the poller.\<close>

lemma put_chan_fields [simp]:
  "s_mpChannel (put_chan c ch s) = s_mpChannel s" "s_Kernel (put_chan c ch s) = s_Kernel s"
  "s_vEvents (put_chan c ch s) = s_vEvents s" "s_Self (put_chan c ch s) = s_Self s"
  "s_ThreadId (put_chan c ch s) = s_ThreadId s"
  by (simp_all add: put_chan_def)

lemma wanted_put_chan:
  "wanted (put_chan c ch s) fd =
     (if s_mpChannel s fd = Some c
      then (if ch_nIndex ch = ADDED then Some (ch_nEvents ch, c) else None) else wanted s fd)"
  by (auto simp: wanted_def s_Channels_put_chan split: option.split)

lemma ep_inv_put_chan:
  assumes inv: "ep_inv interest X s" and s: "s_Channels s c = Some ch"
    and ch': "ch_Fd ch' = ch_Fd ch" "ch_nIndex ch' = ch_nIndex ch"
  shows "ep_inv interest (insert c X) (put_chan c ch' s)"
    and "ch_nEvents ch' = ch_nEvents ch \<Longrightarrow> ep_inv interest X (put_chan c ch' s)"
proof -
  have map: "ep_map (put_chan c ch' s)"
    using inv s ch' unfolding ep_inv_def ep_map_def by (auto simp: s_Channels_put_chan split: if_splits)
  have w: "wanted s fd = (if ch_nIndex ch = ADDED then Some (ch_nEvents ch, c) else None)"
    if "s_mpChannel s fd = Some c" for fd
    using that s by (simp add: wanted_def)
  have "ep_watch interest (insert c X) (put_chan c ch' s) fd" for fd
  proof -
    have "ep_watch interest X s fd" using inv by (simp add: ep_inv_def)
    then show ?thesis
      using w [of fd] ch' by (auto simp: ep_watch_def wanted_put_chan split: if_splits)
  qed
  moreover have "ep_index (insert c X) (put_chan c ch' s)"
    using inv s ch' unfolding ep_inv_def ep_index_def by (auto simp: s_Channels_put_chan split: if_splits)
  ultimately show "ep_inv interest (insert c X) (put_chan c ch' s)"
    using map inv by (simp add: ep_inv_def)
  assume ev: "ch_nEvents ch' = ch_nEvents ch"
  have "ep_watch interest X (put_chan c ch' s) fd" for fd
  proof -
    have "ep_watch interest X s fd" using inv by (simp add: ep_inv_def)
    then show ?thesis
      using w [of fd] ch' ev by (auto simp: ep_watch_def wanted_put_chan split: if_splits)
  qed
  moreover have "ep_index X (put_chan c ch' s)"
    using inv s ch' ev unfolding ep_inv_def ep_index_def by (auto simp: s_Channels_put_chan split: if_splits)
  ultimately show "ep_inv interest X (put_chan c ch' s)"
    using map inv by (simp add: ep_inv_def)
qed

text \<open>A state in which channel \<open>c\<close> has index \<open>i\<close> and the kernel was told so.\<close>

definition told ::
    "nat \<Rightarrow> 'cb channel \<Rightarrow> 'k \<Rightarrow> (int \<Rightarrow> nat option) \<Rightarrow> ('cb, 'k, 'a) epoll_store_scheme \<Rightarrow>
     ('cb, 'k, 'a) epoll_store_scheme" where
  "told c ch k mp s = s\<lparr>s_Channels := (s_Channels s)(c \<mapsto> ch), s_mpChannel := mp, s_Kernel := k\<rparr>"

lemma told_fields [simp]:
  "s_Channels (told c ch k mp s) = (s_Channels s)(c \<mapsto> ch)" "s_mpChannel (told c ch k mp s) = mp"
  "s_Kernel (told c ch k mp s) = k" "s_vEvents (told c ch k mp s) = s_vEvents s"
  "s_Self (told c ch k mp s) = s_Self s" "s_ThreadId (told c ch k mp s) = s_ThreadId s"
  by (simp_all add: told_def)

lemma told_eqs:
  "(told c ch k' mp s)\<lparr>s_Kernel := k\<rparr> = told c ch k mp s"
  "told c ch k mp (s\<lparr>s_mpChannel := mp'\<rparr>) = told c ch k mp s"
  "(put_chan c ch s)\<lparr>s_Kernel := k\<rparr> = told c ch k (s_mpChannel s) s"
  "put_chan c ch (s\<lparr>s_Kernel := k\<rparr>) = told c ch k (s_mpChannel s) s"
  "put_chan c ch (s\<lparr>s_mpChannel := mp\<rparr>) = told c ch (s_Kernel s) mp s"
  by (simp_all add: told_def put_chan_def)

lemma told_same: "s_Channels s c = Some ch \<Longrightarrow> s\<lparr>s_Kernel := k\<rparr> = told c ch k (s_mpChannel s) s"
  by (simp add: told_def fun_upd_idem)

lemma told_inv:
  assumes inv: "ep_inv interest {c} s" and s: "s_Channels s c = Some ch"
    and fresh: "s_mpChannel s (ch_Fd ch) \<in> {None, Some c}"
    and ch': "ch_Fd ch' = ch_Fd ch" "ch_nEvents ch' = ch_nEvents ch"
      "ch_nIndex ch' \<in> {NEW, ADDED, DELETED}" "ch_nIndex ch' = DELETED \<longrightarrow> ch_nEvents ch = NONE_EVENT"
    and mp: "mp = (s_mpChannel s)(ch_Fd ch := (if ch_nIndex ch' = NEW then None else Some c))"
    and k: "interest k = (interest (s_Kernel s))
      (ch_Fd ch := (if ch_nIndex ch' = ADDED then Some (ch_nEvents ch, c) else None))"
  shows "ep_inv interest {} (told c ch' k mp s)"
proof -
  have other: "ch_Fd ch2 \<noteq> ch_Fd ch" if "s_Channels s c2 = Some ch2" "c2 \<noteq> c" "ch_nIndex ch2 \<noteq> NEW" for c2 ch2
    using that inv fresh ep_inv_chan [OF inv that(1)] by auto
  have "ep_map (told c ch' k mp s)"
    using inv s ch' mp fresh other unfolding ep_inv_def ep_map_def by auto
  moreover have "ep_index {} (told c ch' k mp s)"
    using inv ch' unfolding ep_inv_def ep_index_def by (auto split: if_splits)
  moreover have "ep_watch interest {} (told c ch' k mp s) fd" for fd
  proof (cases "fd = ch_Fd ch")
    case True
    then show ?thesis using k mp ch' by (auto simp: ep_watch_def wanted_def NEW_def ADDED_def)
  next
    case False
    have "s_mpChannel s fd \<noteq> Some c" using ep_inv_mapped [OF inv, of fd c] s False by auto
    moreover from this have "wanted (told c ch' k mp s) fd = wanted s fd"
      using False mp by (auto simp: wanted_def split: option.splits)
    moreover have "ep_watch interest {c} s fd" using inv by (simp add: ep_inv_def)
    ultimately show ?thesis using False k by (auto simp: ep_watch_def)
  qed
  ultimately show ?thesis using inv by (simp add: ep_inv_def)
qed

section \<open>The operations keep the invariant\<close>

definition next_index :: "'cb channel \<Rightarrow> int" where
  "next_index ch = (if ch_nIndex ch = ADDED \<and> Channel_IsNoneEvent ch then DELETED else ADDED)"

lemma epoll_okD:
  assumes "epoll_ok ctl interest" and "ctl op fd e k = (k', n)"
  shows "0 \<le> n \<Longrightarrow> interest k' = (interest k)(fd := (if op = EPOLL_CTL_DEL then None else Some e))"
    and "op = EPOLL_CTL_DEL \<Longrightarrow> interest k fd \<noteq> None \<Longrightarrow> 0 \<le> n"
  using assms unfolding epoll_ok_def by (metis not_less)+

lemma SetIndex_fields [simp]:
  "ch_Fd (Channel_SetIndex i ch) = ch_Fd ch" "ch_nEvents (Channel_SetIndex i ch) = ch_nEvents ch"
  "ch_nIndex (Channel_SetIndex i ch) = i" "ch_pEventLoop (Channel_SetIndex i ch) = ch_pEventLoop ch"
  by (simp_all add: Channel_SetIndex_def)

lemma SetIndex_same: "ch_nIndex ch = i \<Longrightarrow> Channel_SetIndex i ch = ch"
  by (simp add: Channel_SetIndex_def)

lemma index_distinct [simp]:
  "NEW \<noteq> ADDED" "ADDED \<noteq> NEW" "NEW \<noteq> DELETED" "DELETED \<noteq> NEW" "ADDED \<noteq> DELETED" "DELETED \<noteq> ADDED"
  by (simp_all add: index_defs)

lemma interest_added:
  assumes "ep_inv interest {c} s" and "s_Channels s c = Some ch" and "ch_nIndex ch = ADDED"
  shows "interest (s_Kernel s) (ch_Fd ch) \<noteq> None"
proof -
  have "s_mpChannel s (ch_Fd ch) = Some c" using ep_inv_chan [OF assms(1,2)] assms(3) by simp
  then have "wanted s (ch_Fd ch) \<noteq> None" using assms(2,3) by (simp add: wanted_def)
  moreover have "ep_watch interest {c} s (ch_Fd ch)" using assms(1) by (simp add: ep_inv_def)
  ultimately show ?thesis by (auto simp: ep_watch_def)
qed

lemma UpdateChannel_ok:
  assumes inv: "ep_inv interest {c} s" and s: "s_Channels s c = Some ch"
    and fresh: "s_mpChannel s (ch_Fd ch) \<in> {None, Some c}" and ctl: "epoll_ok ctl interest"
  shows "ensures {Aborted} (\<lambda>s'. ep_inv interest {} s' \<and>
      (\<exists>k. s' = told c (Channel_SetIndex (next_index ch) ch) k ((s_mpChannel s)(ch_Fd ch \<mapsto> c)) s))
    (EPoller_UpdateChannel ctl (s_ThreadId s) c s)"
proof -
  let ?fd = "ch_Fd ch" and ?mp = "(s_mpChannel s)(ch_Fd ch \<mapsto> c)"
  note mapped = ep_inv_chan [OF inv s]
  have goal: "ep_inv interest {} (told c (Channel_SetIndex i ch) k ?mp s)"
    if "i \<in> {ADDED, DELETED}" "i = DELETED \<longrightarrow> ch_nEvents ch = NONE_EVENT"
      "interest k = (interest (s_Kernel s))(?fd := (if i = ADDED then Some (ch_nEvents ch, c) else None))" for i k
    using that by (intro told_inv [OF inv s fresh]) auto
  consider "ch_nIndex ch = NEW" | "ch_nIndex ch = DELETED" | "ch_nIndex ch = ADDED" "Channel_IsNoneEvent ch"
    | "ch_nIndex ch = ADDED" "\<not> Channel_IsNoneEvent ch"
    using ep_inv_index [OF inv s] by blast
  then show ?thesis
  proof cases
    case 1
    obtain k n where k: "ctl EPOLL_CTL_ADD ?fd (ch_nEvents ch, c) (s_Kernel s) = (k, n)" by fastforce
    from goal [of ADDED k] epoll_okD(1) [OF ctl k] 1 k mapped fresh s show ?thesis
      by (auto simp: EPoller_UpdateChannel_def EPoller_update_def Let_def next_index_def told_eqs)
  next
    case 2
    obtain k n where k: "ctl EPOLL_CTL_ADD ?fd (ch_nEvents ch, c) (s_Kernel s) = (k, n)" by fastforce
    have "?mp = s_mpChannel s" using mapped 2 by (simp add: fun_upd_idem)
    with goal [of ADDED k] epoll_okD(1) [OF ctl k] 2 k mapped s show ?thesis
      by (auto simp: EPoller_UpdateChannel_def EPoller_update_def Let_def next_index_def told_eqs)
  next
    case 3
    obtain k n where k: "ctl EPOLL_CTL_DEL ?fd (ch_nEvents ch, c) (s_Kernel s) = (k, n)" by fastforce
    have n: "0 \<le> n" using epoll_okD(2) [OF ctl k refl interest_added [OF inv s 3(1)]] .
    have "?mp = s_mpChannel s" using mapped 3 by (simp add: fun_upd_idem)
    with goal [of DELETED k] epoll_okD(1) [OF ctl k n] 3 k n mapped s show ?thesis
      by (auto simp: EPoller_UpdateChannel_def EPoller_update_def Let_def next_index_def told_eqs
          Channel_IsNoneEvent_def)
  next
    case 4
    obtain k n where k: "ctl EPOLL_CTL_MOD ?fd (ch_nEvents ch, c) (s_Kernel s) = (k, n)" by fastforce
    have "?mp = s_mpChannel s" "(s_Channels s)(c \<mapsto> ch) = s_Channels s"
      using mapped 4 s by (simp_all add: fun_upd_idem)
    with goal [of ADDED k] epoll_okD(1) [OF ctl k] 4 k mapped s SetIndex_same [OF 4(1)] show ?thesis
      by (auto simp: EPoller_UpdateChannel_def EPoller_update_def Let_def next_index_def told_same [OF s])
  qed
qed

lemma ep_inv_weaken: "ep_inv interest {} s \<Longrightarrow> ep_inv interest X s"
  unfolding ep_inv_def ep_index_def ep_watch_def by auto

lemma RemoveChannel_ok:
  assumes inv: "ep_inv interest {} s" and s: "s_Channels s c = Some ch"
    and ch: "ch_nIndex ch \<noteq> NEW" "Channel_IsNoneEvent ch" and ctl: "epoll_ok ctl interest"
  shows "\<exists>k. EPoller_RemoveChannel ctl (s_ThreadId s) c s =
      Inr (told c (Channel_SetIndex NEW ch) k ((s_mpChannel s)(ch_Fd ch := None)) s) \<and>
    ep_inv interest {} (told c (Channel_SetIndex NEW ch) k ((s_mpChannel s)(ch_Fd ch := None)) s)"
proof -
  let ?fd = "ch_Fd ch" and ?mp = "(s_mpChannel s)(ch_Fd ch := None)"
  have inv': "ep_inv interest {c} s" by (rule ep_inv_weaken [OF inv])
  have mapped: "s_mpChannel s ?fd = Some c" using ep_inv_chan [OF inv s] ch(1) by simp
  have goal: "ep_inv interest {} (told c (Channel_SetIndex NEW ch) k ?mp s)"
    if "interest k = (interest (s_Kernel s))(?fd := None)" for k
    using that mapped by (intro told_inv [OF inv' s]) auto
  show ?thesis
  proof (cases "ch_nIndex ch = ADDED")
    case True
    obtain k n where k: "ctl EPOLL_CTL_DEL ?fd (ch_nEvents ch, c) (s_Kernel s) = (k, n)" by fastforce
    have n: "0 \<le> n" using epoll_okD(2) [OF ctl k refl interest_added [OF inv' s True]] .
    from epoll_okD(1) [OF ctl k n] have "interest k = (interest (s_Kernel s))(?fd := None)" by simp
    from goal [OF this] True k n mapped s ch(2) show ?thesis
      by (auto simp: EPoller_RemoveChannel_def Let_def EPoller_update_def told_eqs)
  next
    case False
    with ep_inv_index [OF inv s] ch(1) have d: "ch_nIndex ch = DELETED" by blast
    have "wanted s ?fd = None" using mapped s d by (simp add: wanted_def)
    moreover have "ep_watch interest {} s ?fd" using inv by (simp add: ep_inv_def)
    ultimately have "interest (s_Kernel s) ?fd = None" by (simp add: ep_watch_def)
    then have "interest (s_Kernel s) = (interest (s_Kernel s))(?fd := None)" by (simp add: fun_upd_idem)
    from goal [OF this] d mapped s ch(2) show ?thesis
      by (auto simp: EPoller_RemoveChannel_def Let_def told_eqs intro!: exI [of _ "s_Kernel s"])
  qed
qed

section \<open>Polling\<close>

text \<open>What \<open>epoll_wait\<close> reports: at most as many entries as there is room, all of them watched.\<close>

definition wait_ok ::
    "('k \<Rightarrow> int \<Rightarrow> (events \<times> nat) option) \<Rightarrow> poll_result \<Rightarrow> ('cb, 'k, 'a) epoll_store_scheme \<Rightarrow> bool" where
  "wait_ok interest r s \<longleftrightarrow>
     (case r of
        PollError \<Rightarrow> True
      | PollEvents es \<Rightarrow> length es \<le> s_vEvents s \<and> distinct (map snd es) \<and>
          (\<forall>(ev, c) \<in> set es. \<exists>fd ev'. interest (s_Kernel s) fd = Some (ev', c)))"

text \<open>The channels with the reported events stored.\<close>

fun reported :: "(events \<times> nat) list \<Rightarrow> (nat \<Rightarrow> 'cb channel option) \<Rightarrow> nat \<Rightarrow> 'cb channel option" where
  "reported [] h = h"
| "reported ((ev, c) # es) h = reported es (h(c := map_option (Channel_SetREvents ev) (h c)))"

lemma reported_out: "c \<notin> snd ` set es \<Longrightarrow> reported es h c = h c"
  by (induction es arbitrary: h) auto

lemma reported_in:
  "distinct (map snd es) \<Longrightarrow> (ev, c) \<in> set es \<Longrightarrow>
   reported es h c = map_option (Channel_SetREvents ev) (h c)"
proof (induction es arbitrary: h)
  case (Cons e es)
  then show ?case
  proof (cases "e = (ev, c)")
    case True
    with Cons.prems(1) show ?thesis by (simp add: reported_out)
  next
    case False
    with Cons.prems have "(ev, c) \<in> set es" by auto
    moreover from this Cons.prems have "snd e \<noteq> c" by (force simp: image_iff)
    ultimately show ?thesis using Cons.IH Cons.prems(1) by (cases e) auto
  qed
qed simp

lemma interest_channel:
  assumes "ep_inv interest {} s" and "interest (s_Kernel s) fd = Some (ev, c)"
  shows "s_mpChannel s fd = Some c \<and>
    (\<exists>ch. s_Channels s c = Some ch \<and> ch_Fd ch = fd \<and> ch_nIndex ch = ADDED \<and> ch_nEvents ch = ev)"
proof -
  have w: "wanted s fd = Some (ev, c)" using assms by (simp add: ep_inv_def ep_watch_def)
  then obtain c' where m: "s_mpChannel s fd = Some c'" by (auto simp: wanted_def split: option.splits)
  from ep_inv_mapped [OF assms(1) m] obtain ch where
    ch: "s_Channels s c' = Some ch" "ch_Fd ch = fd" by blast
  with w m show ?thesis by (auto simp: wanted_def split: if_splits)
qed

lemma SetREvents_fields [simp]:
  "ch_Fd (Channel_SetREvents ev ch) = ch_Fd ch" "ch_nIndex (Channel_SetREvents ev ch) = ch_nIndex ch"
  "ch_nEvents (Channel_SetREvents ev ch) = ch_nEvents ch"
  "ch_nREvents (Channel_SetREvents ev ch) = ev"
  by (simp_all add: Channel_SetREvents_def)

lemma fillActiveChannels_ok:
  assumes "ep_inv interest {} s"
    and "\<forall>(ev, c) \<in> set es. \<exists>fd ev'. interest (s_Kernel s) fd = Some (ev', c)"
  shows "EPoller_fillActiveChannels es active s =
      Inr (active @ map snd es, s\<lparr>s_Channels := reported es (s_Channels s)\<rparr>) \<and>
    ep_inv interest {} (s\<lparr>s_Channels := reported es (s_Channels s)\<rparr>)"
  using assms
proof (induction es arbitrary: active s)
  case (Cons e es)
  obtain ev c where e: "e = (ev, c)" by (cases e)
  from Cons.prems(2) e obtain fd ev' where i: "interest (s_Kernel s) fd = Some (ev', c)" by auto
  from interest_channel [OF Cons.prems(1) i] obtain ch where
    ch: "s_Channels s c = Some ch" "s_mpChannel s (ch_Fd ch) = Some c" by blast
  let ?s = "put_chan c (Channel_SetREvents ev ch) s"
  have inv: "ep_inv interest {} ?s" by (rule ep_inv_put_chan(2) [OF Cons.prems(1) ch(1)]) simp_all
  have chans: "s_Channels ?s = (s_Channels s)(c := map_option (Channel_SetREvents ev) (s_Channels s c))"
    by (simp add: s_Channels_put_chan ch(1))
  have s: "?s\<lparr>s_Channels := reported es (s_Channels ?s)\<rparr> = s\<lparr>s_Channels := reported (e # es) (s_Channels s)\<rparr>"
    unfolding chans e by (simp add: put_chan_def)
  have "\<forall>(ev, c) \<in> set es. \<exists>fd ev'. interest (s_Kernel ?s) fd = Some (ev', c)"
    using Cons.prems(2) by simp
  from Cons.IH [OF inv this, of "active @ [c]"] ch e show ?case unfolding s by simp
qed simp

lemma ep_inv_vEvents:
  "0 < n \<Longrightarrow> ep_inv interest X s \<Longrightarrow> ep_inv interest X (s\<lparr>s_vEvents := n\<rparr>)"
proof -
  assume "0 < n" and inv: "ep_inv interest X s"
  moreover have "wanted (s\<lparr>s_vEvents := n\<rparr>) fd = wanted s fd" for fd
    by (simp add: wanted_def split: option.split)
  ultimately show ?thesis by (simp add: ep_inv_def ep_map_def ep_index_def ep_watch_def)
qed

lemma Poll_ok:
  assumes inv: "ep_inv interest {} s" and r: "wait_ok interest r s"
  shows "\<exists>s'. EPoller_Poll r active s =
      Inr (active @ (case r of PollError \<Rightarrow> [] | PollEvents es \<Rightarrow> map snd es), s') \<and>
    ep_inv interest {} s' \<and>
    s_Channels s' = (case r of PollError \<Rightarrow> s_Channels s | PollEvents es \<Rightarrow> reported es (s_Channels s)) \<and>
    s_mpChannel s' = s_mpChannel s \<and> s_Kernel s' = s_Kernel s \<and>
    s_vEvents s' = (case r of PollError \<Rightarrow> s_vEvents s
      | PollEvents es \<Rightarrow> if length es = s_vEvents s then 2 * s_vEvents s else s_vEvents s)"
proof (cases r)
  case PollError
  then show ?thesis using inv by (simp add: EPoller_Poll_def)
next
  case (PollEvents es)
  have pos: "0 < s_vEvents s" using inv by (simp add: ep_inv_def)
  show ?thesis
  proof (cases "es = []")
    case True
    then show ?thesis using inv PollEvents pos by (simp add: EPoller_Poll_def)
  next
    case False
    let ?s = "s\<lparr>s_Channels := reported es (s_Channels s)\<rparr>"
    have w: "\<forall>(ev, c) \<in> set es. \<exists>fd ev'. interest (s_Kernel s) fd = Some (ev', c)"
      and len: "length es \<le> s_vEvents s"
      using r PollEvents by (auto simp: wait_ok_def)
    note f = fillActiveChannels_ok [OF inv w, of active]
    have "ep_inv interest {} (?s\<lparr>s_vEvents := 2 * s_vEvents s\<rparr>)"
      using f pos by (simp add: ep_inv_vEvents)
    then show ?thesis
      using f len False PollEvents by (cases "length es = s_vEvents s") (simp_all add: EPoller_Poll_def)
  qed
qed

section \<open>The contract of a poller\<close>

text \<open>
  To its loop a poller is a map from the registered channels to the events the kernel watches
  for them: \<open>want\<close> sets the entry of a channel, \<open>forget\<close> removes an entry with no event left and
  fails an assertion otherwise.
\<close>

datatype poller_op = WantOp nat events | ForgetOp nat

fun poller_step ::
    "(nat \<Rightarrow> events \<Rightarrow> 's \<Rightarrow> 's res) \<Rightarrow> (nat \<Rightarrow> 's \<Rightarrow> 's res) \<Rightarrow> poller_op \<Rightarrow> 's \<Rightarrow> 's res" where
  "poller_step want forget (WantOp c ev) s = want c ev s"
| "poller_step want forget (ForgetOp c) s = forget c s"

fun watch_step :: "poller_op \<Rightarrow> (nat \<Rightarrow> events option) \<Rightarrow> (nat \<Rightarrow> events option) res" where
  "watch_step (WantOp c ev) m = Inr (m(c \<mapsto> ev))"
| "watch_step (ForgetOp c) m = check (m c = Some NONE_EVENT) (Inr (m(c := None)))"

fun op_channel :: "poller_op \<Rightarrow> nat" where
  "op_channel (WantOp c ev) = c"
| "op_channel (ForgetOp c) = c"

locale channel_poller =
  fixes want :: "nat \<Rightarrow> events \<Rightarrow> 's \<Rightarrow> 's res" and forget :: "nat \<Rightarrow> 's \<Rightarrow> 's res"
    and pinv :: "'s \<Rightarrow> bool" and view :: "'s \<Rightarrow> nat \<Rightarrow> events option" and known :: "'s \<Rightarrow> nat \<Rightarrow> bool"
  assumes want_ok: "pinv s \<Longrightarrow> known s c \<Longrightarrow>
      ensures {Aborted} (\<lambda>s'. pinv s' \<and> view s' = (view s)(c \<mapsto> ev) \<and> known s' = known s) (want c ev s)"
    and forget_ok: "pinv s \<Longrightarrow> known s c \<Longrightarrow> view s c = Some NONE_EVENT \<Longrightarrow>
      ensures {Aborted} (\<lambda>s'. pinv s' \<and> view s' = (view s)(c := None) \<and> known s' = known s) (forget c s)"
    and forget_busy: "pinv s \<Longrightarrow> known s c \<Longrightarrow> view s c \<noteq> Some NONE_EVENT \<Longrightarrow>
      forget c s = Inl AssertFailed"
begin

lemma step_watches:
  assumes "pinv s" and "known s (op_channel p)"
  shows "case watch_step p (view s) of
      Inl e \<Rightarrow> poller_step want forget p s = Inl e
    | Inr m \<Rightarrow> ensures {Aborted} (\<lambda>s'. pinv s' \<and> view s' = m \<and> known s' = known s) (poller_step want forget p s)"
  using assms want_ok forget_ok forget_busy by (cases p) (auto simp: check_def)

lemma run_watches:
  assumes "pinv s" and "\<forall>p \<in> set ps. known s (op_channel p)"
  shows "case rfold watch_step ps (view s) of
      Inl e \<Rightarrow> ensures {e, Aborted} (\<lambda>_. False) (rfold (poller_step want forget) ps s)
    | Inr m \<Rightarrow> ensures {Aborted} (\<lambda>s'. pinv s' \<and> view s' = m) (rfold (poller_step want forget) ps s)"
  using assms
proof (induction ps arbitrary: s)
  case (Cons p ps)
  note step = step_watches [OF Cons.prems(1), of p]
  show ?case
  proof (cases "watch_step p (view s)")
    case (Inl e)
    with step Cons.prems(2) show ?thesis by simp
  next
    case m: (Inr m)
    show ?thesis
    proof (cases "poller_step want forget p s")
      case (Inl e)
      with step m Cons.prems(2) have "e = Aborted" by simp
      with Inl show ?thesis by (auto split: sum.split)
    next
      case (Inr s')
      with step m Cons.prems(2) have s': "pinv s'" "view s' = m" "known s' = known s" by auto
      have "rfold (poller_step want forget) (p # ps) s = rfold (poller_step want forget) ps s'"
        using Inr by simp
      moreover have "rfold watch_step (p # ps) (view s) = rfold watch_step ps (view s')"
        using m s' by simp
      ultimately show ?thesis using Cons.IH [of s'] Cons.prems(2) s' by (simp only:) simp
    qed
  qed
qed simp

end

text \<open>The operations of the contract on \<open>EPoller\<close>: a change of the wanted events, then the call.\<close>

definition EPoller_want ::
    "'k epoll_ctl \<Rightarrow> nat \<Rightarrow> nat \<Rightarrow> events \<Rightarrow> ('cb, 'k, 'a) epoll_store_scheme \<Rightarrow>
     ('cb, 'k, 'a) epoll_store_scheme res" where
  "EPoller_want ctl tid c ev s =
     with_chan c s (\<lambda>ch. EPoller_UpdateChannel ctl tid c (put_chan c (ch\<lparr>ch_nEvents := ev\<rparr>) s))"

definition EPoller_view ::
    "('k \<Rightarrow> int \<Rightarrow> (events \<times> nat) option) \<Rightarrow> ('cb, 'k, 'a) epoll_store_scheme \<Rightarrow> nat \<Rightarrow> events option" where
  "EPoller_view interest s c =
     (case s_Channels s c of
        None \<Rightarrow> None
      | Some ch \<Rightarrow>
          (if s_mpChannel s (ch_Fd ch) = Some c
           then Some (case interest (s_Kernel s) (ch_Fd ch) of None \<Rightarrow> NONE_EVENT | Some (ev, _) \<Rightarrow> ev)
           else None))"

text \<open>A live channel whose descriptor no other channel has.\<close>

definition fd_of :: "('cb, 'a) chan_store_scheme \<Rightarrow> nat \<Rightarrow> int option" where
  "fd_of s c = map_option ch_Fd (s_Channels s c)"

definition own_fd :: "('cb, 'a) chan_store_scheme \<Rightarrow> nat \<Rightarrow> bool" where
  "own_fd s c \<longleftrightarrow> (\<exists>fd. fd_of s c = Some fd \<and> (\<forall>c'. fd_of s c' = Some fd \<longrightarrow> c' = c))"

lemma EPoller_view_eq:
  assumes inv: "ep_inv interest {} s"
  shows "EPoller_view interest s c =
    (case s_Channels s c of None \<Rightarrow> None
     | Some ch \<Rightarrow> if ch_nIndex ch = NEW then None else Some (ch_nEvents ch))"
proof (cases "s_Channels s c")
  case (Some ch)
  have m: "s_mpChannel s (ch_Fd ch) = Some c \<longleftrightarrow> ch_nIndex ch \<noteq> NEW" by (rule ep_inv_chan [OF inv Some])
  have w: "interest (s_Kernel s) (ch_Fd ch) = wanted s (ch_Fd ch)"
    using inv by (simp add: ep_inv_def ep_watch_def)
  have "ch_nIndex ch = DELETED \<Longrightarrow> ch_nEvents ch = NONE_EVENT" "ch_nIndex ch \<in> {NEW, ADDED, DELETED}"
    using inv Some unfolding ep_inv_def ep_index_def by auto
  with Some m w show ?thesis by (auto simp: EPoller_view_def wanted_def)
qed (simp add: EPoller_view_def)

lemma own_fd_fresh:
  assumes "ep_inv interest X s" and "own_fd s c" and "s_Channels s c = Some ch"
  shows "s_mpChannel s (ch_Fd ch) \<in> {None, Some c}"
proof (cases "s_mpChannel s (ch_Fd ch)")
  case (Some c')
  from ep_inv_mapped [OF assms(1) this] have "fd_of s c' = Some (ch_Fd ch)" by (auto simp: fd_of_def)
  with assms(2,3) Some show ?thesis by (auto simp: own_fd_def fd_of_def)
qed simp

lemma fd_of_upd:
  "s_Channels s c = Some ch \<Longrightarrow> s_Channels s' = (s_Channels s)(c \<mapsto> ch') \<Longrightarrow> ch_Fd ch' = ch_Fd ch \<Longrightarrow>
   fd_of s' = fd_of s"
  by (simp add: fd_of_def fun_eq_iff)

lemma own_fd_cong: "fd_of s' = fd_of s \<Longrightarrow> own_fd s' = own_fd s"
  by (simp add: own_fd_def fun_eq_iff)

lemma EPoller_want_ok:
  assumes inv: "ep_inv interest {} s" and own: "own_fd s c" and ctl: "epoll_ok ctl interest"
  shows "ensures {Aborted} (\<lambda>s'. ep_inv interest {} s' \<and> s_ThreadId s' = s_ThreadId s \<and>
      EPoller_view interest s' = (EPoller_view interest s)(c \<mapsto> ev) \<and> own_fd s' = own_fd s)
    (EPoller_want ctl (s_ThreadId s) c ev s)"
proof -
  from own obtain ch where s: "s_Channels s c = Some ch" by (auto simp: own_fd_def fd_of_def)
  define ch' where "ch' = ch\<lparr>ch_nEvents := ev\<rparr>"
  have ch': "ch_Fd ch' = ch_Fd ch" "ch_nIndex ch' = ch_nIndex ch" "ch_nEvents ch' = ev"
    by (simp_all add: ch'_def)
  define t where "t = put_chan c ch' s"
  have i: "ep_inv interest {c} t" unfolding t_def by (rule ep_inv_put_chan(1) [OF inv s ch'(1,2)])
  have t: "s_Channels t c = Some ch'" "s_ThreadId t = s_ThreadId s" "s_Channels t = (s_Channels s)(c \<mapsto> ch')"
    by (simp_all add: t_def s_Channels_put_chan)
  have fd_t: "fd_of t = fd_of s" by (rule fd_of_upd [OF s t(3) ch'(1)])
  have "own_fd t c" using own own_fd_cong [OF fd_t] by simp
  note ok = UpdateChannel_ok [OF i t(1) own_fd_fresh [OF i this t(1)] ctl]
  have "EPoller_want ctl (s_ThreadId s) c ev s = EPoller_UpdateChannel ctl (s_ThreadId t) c t"
    using s by (simp add: EPoller_want_def t(2)) (simp add: t_def ch'_def)
  moreover have "ep_inv interest {} s1 \<and> s_ThreadId s1 = s_ThreadId s \<and>
      EPoller_view interest s1 = (EPoller_view interest s)(c \<mapsto> ev) \<and> own_fd s1 = own_fd s"
    if inv1: "ep_inv interest {} s1" and s1: "s1 = told c (Channel_SetIndex (next_index ch') ch') k mp t"
    for s1 k mp
  proof -
    have ch1: "s_Channels s1 = (s_Channels s)(c \<mapsto> Channel_SetIndex (next_index ch') ch')"
      using s1 t(3) by simp
    have "EPoller_view interest s1 c' = ((EPoller_view interest s)(c \<mapsto> ev)) c'" for c'
      unfolding EPoller_view_eq [OF inv1] EPoller_view_eq [OF inv] fun_upd_apply ch1
      by (simp add: next_index_def ch')
    moreover have "own_fd s1 = own_fd s" by (rule own_fd_cong, rule fd_of_upd [OF s ch1]) (simp add: ch')
    ultimately show ?thesis using inv1 s1 t(2) by auto
  qed
  ultimately show ?thesis using ok by (auto elim: ensures_mono)
qed

lemma EPoller_forget_ok:
  assumes inv: "ep_inv interest {} s" and own: "own_fd s c"
    and v: "EPoller_view interest s c = Some NONE_EVENT" and ctl: "epoll_ok ctl interest"
  shows "ensures {Aborted} (\<lambda>s'. ep_inv interest {} s' \<and> s_ThreadId s' = s_ThreadId s \<and>
      EPoller_view interest s' = (EPoller_view interest s)(c := None) \<and> own_fd s' = own_fd s)
    (EPoller_RemoveChannel ctl (s_ThreadId s) c s)"
proof -
  from own obtain ch where s: "s_Channels s c = Some ch" by (auto simp: own_fd_def fd_of_def)
  with v have ch: "ch_nIndex ch \<noteq> NEW" "Channel_IsNoneEvent ch"
    by (auto simp: EPoller_view_eq [OF inv] Channel_IsNoneEvent_def split: if_splits)
  from RemoveChannel_ok [OF inv s ch ctl] obtain k where
    r: "EPoller_RemoveChannel ctl (s_ThreadId s) c s =
        Inr (told c (Channel_SetIndex NEW ch) k ((s_mpChannel s)(ch_Fd ch := None)) s)"
    and inv1: "ep_inv interest {} (told c (Channel_SetIndex NEW ch) k ((s_mpChannel s)(ch_Fd ch := None)) s)"
      (is "ep_inv interest {} ?s1") by blast
  have ch1: "s_Channels ?s1 = (s_Channels s)(c \<mapsto> Channel_SetIndex NEW ch)" by simp
  have "EPoller_view interest ?s1 c' = ((EPoller_view interest s)(c := None)) c'" for c'
    unfolding EPoller_view_eq [OF inv1] EPoller_view_eq [OF inv] fun_upd_apply ch1 by simp
  moreover have "own_fd ?s1 = own_fd s" by (rule own_fd_cong, rule fd_of_upd [OF s ch1]) simp
  ultimately show ?thesis using r inv1 by auto
qed

lemma EPoller_forget_busy:
  assumes inv: "ep_inv interest {} s" and own: "own_fd s c"
    and v: "EPoller_view interest s c \<noteq> Some NONE_EVENT"
  shows "EPoller_RemoveChannel ctl (s_ThreadId s) c s = Inl AssertFailed"
proof -
  from own obtain ch where s: "s_Channels s c = Some ch" by (auto simp: own_fd_def fd_of_def)
  show ?thesis
  proof (cases "ch_nIndex ch = NEW")
    case True
    with own_fd_fresh [OF inv own s] ep_inv_chan [OF inv s] have "s_mpChannel s (ch_Fd ch) = None" by auto
    then show ?thesis using s by (simp add: EPoller_RemoveChannel_def)
  next
    case False
    with v s have "\<not> Channel_IsNoneEvent ch"
      by (auto simp: EPoller_view_eq [OF inv] Channel_IsNoneEvent_def)
    then show ?thesis using s by (simp add: EPoller_RemoveChannel_def check_def Let_def)
  qed
qed

interpretation epoll: channel_poller "EPoller_want ctl tid" "EPoller_RemoveChannel ctl tid"
    "\<lambda>s :: ('cb, 'k, 'a) epoll_store_scheme.
       ep_inv interest {} s \<and> s_ThreadId s = tid \<and> epoll_ok ctl interest"
    "EPoller_view interest" own_fd
  for ctl tid interest
proof
  fix s :: "('cb, 'k, 'a) epoll_store_scheme" and c ev
  assume a: "ep_inv interest {} s \<and> s_ThreadId s = tid \<and> epoll_ok ctl interest" and own: "own_fd s c"
  then have inv: "ep_inv interest {} s" and tid: "s_ThreadId s = tid" and ctl: "epoll_ok ctl interest"
    by simp_all
  show "ensures {Aborted} (\<lambda>s'. (ep_inv interest {} s' \<and> s_ThreadId s' = tid \<and> epoll_ok ctl interest) \<and>
      EPoller_view interest s' = (EPoller_view interest s)(c \<mapsto> ev) \<and> own_fd s' = own_fd s)
    (EPoller_want ctl tid c ev s)"
    using EPoller_want_ok [OF inv own ctl, of ev] tid ctl by (auto elim: ensures_mono)
  show "ensures {Aborted} (\<lambda>s'. (ep_inv interest {} s' \<and> s_ThreadId s' = tid \<and> epoll_ok ctl interest) \<and>
      EPoller_view interest s' = (EPoller_view interest s)(c := None) \<and> own_fd s' = own_fd s)
    (EPoller_RemoveChannel ctl tid c s)" if "EPoller_view interest s c = Some NONE_EVENT"
    using EPoller_forget_ok [OF inv own that ctl] tid ctl by (auto elim: ensures_mono)
  show "EPoller_RemoveChannel ctl tid c s = Inl AssertFailed"
    if "EPoller_view interest s c \<noteq> Some NONE_EVENT"
    using EPoller_forget_busy [OF inv own that] tid by simp
qed

section \<open>Properties\<close>

text \<open>
  C7: Through any sequence of changes of the events channels want and of removals, the interest
  list of the kernel shows for every channel exactly the events it wanted last, and nothing for
  a channel that is not registered; removing a channel that still wants events, or that is not
  registered, fails an assertion, and an \<open>epoll_ctl\<close> the kernel refuses aborts. No assertion of
  the poller fails otherwise.
\<close>

theorem epoll_watches_wanted:
  assumes "ep_inv interest {} s" and "s_ThreadId s = tid" and "epoll_ok ctl interest"
    and "\<forall>p \<in> set ps. own_fd s (op_channel p)"
  shows "case rfold watch_step ps (EPoller_view interest s) of
      Inl e \<Rightarrow> ensures {e, Aborted} (\<lambda>_. False)
        (rfold (poller_step (EPoller_want ctl tid) (EPoller_RemoveChannel ctl tid)) ps s)
    | Inr m \<Rightarrow> ensures {Aborted} (\<lambda>s'. ep_inv interest {} s' \<and> EPoller_view interest s' = m)
        (rfold (poller_step (EPoller_want ctl tid) (EPoller_RemoveChannel ctl tid)) ps s)"
proof -
  have "ep_inv interest {} s \<and> s_ThreadId s = tid \<and> epoll_ok ctl interest" using assms by simp
  from epoll.run_watches [OF this assms(4)] show ?thesis
    by (cases "rfold watch_step ps (EPoller_view interest s)") (auto elim: ensures_mono)
qed

text \<open>A kernel: the interest list as a map, adding twice or deleting what is not there refused.\<close>

fun demo_ctl :: "(int \<Rightarrow> (events \<times> nat) option) epoll_ctl" where
  "demo_ctl EPOLL_CTL_ADD fd e k = (if k fd = None then (k(fd \<mapsto> e), 0) else (k, - 1))"
| "demo_ctl EPOLL_CTL_MOD fd e k = (if k fd = None then (k, - 1) else (k(fd \<mapsto> e), 0))"
| "demo_ctl EPOLL_CTL_DEL fd e k = (if k fd = None then (k, - 1) else (k(fd := None), 0))"

definition demo_interest :: "(int \<Rightarrow> (events \<times> nat) option) \<Rightarrow> int \<Rightarrow> (events \<times> nat) option" where
  "demo_interest k = k"

lemma demo_epoll_ok: "epoll_ok demo_ctl demo_interest"
proof -
  have "demo_interest k' = (if n < 0 then demo_interest k
      else (demo_interest k)(fd := (if op = EPOLL_CTL_DEL then None else Some e))) \<and>
    (op = EPOLL_CTL_DEL \<longrightarrow> demo_interest k fd \<noteq> None \<longrightarrow> 0 \<le> n)"
    if "demo_ctl op fd e k = (k', n)" for op fd e k k' n
    using that by (cases op) (auto simp: demo_interest_def split: if_splits)
  then show ?thesis unfolding epoll_ok_def by blast
qed

definition EPoller_init ::
    "nat \<Rightarrow> nat \<Rightarrow> 'k \<Rightarrow> (nat \<Rightarrow> 'cb channel option) \<Rightarrow> ('cb, 'k) epoll_store" where
  "EPoller_init self tid k chans =
     \<lparr>s_Channels = chans, s_Self = self, s_ThreadId = tid, s_mpChannel = (\<lambda>_. None),
      s_vEvents = INIT_EVENT_LIST_SIZE, s_Kernel = k\<rparr>"

text \<open>A poller with two new channels, on descriptors 5 and 6.\<close>

definition demo_store :: "(nat, int \<Rightarrow> (events \<times> nat) option) epoll_store" where
  "demo_store = EPoller_init 0 1 (\<lambda>_. None) [3 \<mapsto> Channel_new 0 5, 4 \<mapsto> Channel_new 0 6]"

lemma demo_store_inv: "ep_inv demo_interest {} demo_store"
  by (auto simp: demo_store_def EPoller_init_def ep_inv_def ep_map_def ep_index_def ep_watch_def
      wanted_def Channel_new_def index_defs INIT_EVENT_LIST_SIZE_def demo_interest_def)

lemma demo_store_own: "own_fd demo_store 3" "own_fd demo_store 4" "s_ThreadId demo_store = 1"
  by (auto simp: demo_store_def EPoller_init_def own_fd_def fd_of_def Channel_new_def)

theorem epoll_watches_wanted_witness:
  "ensures {Aborted} (\<lambda>s'. EPoller_view demo_interest s' 3 = Some READ_EVENT \<and>
       EPoller_view demo_interest s' 4 = None)
     (rfold (poller_step (EPoller_want demo_ctl 1) (EPoller_RemoveChannel demo_ctl 1))
       [WantOp 3 WRITE_EVENT, WantOp 4 READ_EVENT, WantOp 3 NONE_EVENT, WantOp 4 NONE_EVENT,
        WantOp 3 READ_EVENT, ForgetOp 4] demo_store)" (is "ensures _ _ (rfold _ ?ps _)")
proof -
  have "\<forall>p \<in> set ?ps. own_fd demo_store (op_channel p)" by (simp add: demo_store_own)
  from epoll_watches_wanted [OF demo_store_inv demo_store_own(3) demo_epoll_ok this] show ?thesis
    by (auto elim!: ensures_mono)
qed

text \<open>
  \<open>Poll\<close> appends the channels \<open>epoll_wait\<close> reports to the active channels, in the order
  reported, with the reported events stored in them; it fails no assertion, leaves the
  registrations alone, and doubles the room for events when all of it was used.
\<close>

theorem Poll_reports_ready:
  assumes "ep_inv interest {} s" and "wait_ok interest (PollEvents es) s"
  shows "\<exists>s'. EPoller_Poll (PollEvents es) active s = Inr (active @ map snd es, s') \<and>
    ep_inv interest {} s' \<and>
    (\<forall>(ev, c) \<in> set es. \<exists>ch. s_Channels s c = Some ch \<and> s_Channels s' c = Some (Channel_SetREvents ev ch)) \<and>
    (\<forall>c. c \<notin> snd ` set es \<longrightarrow> s_Channels s' c = s_Channels s c) \<and>
    s_vEvents s' = (if length es = s_vEvents s then 2 * s_vEvents s else s_vEvents s)"
proof -
  have live: "\<exists>ch. s_Channels s c = Some ch" if "(ev, c) \<in> set es" for ev c
    using assms(2) that interest_channel [OF assms(1)] unfolding wait_ok_def by fastforce
  have d: "distinct (map snd es)" using assms(2) by (simp add: wait_ok_def)
  from Poll_ok [OF assms, of active] obtain s' where
    s': "EPoller_Poll (PollEvents es) active s = Inr (active @ map snd es, s')" "ep_inv interest {} s'"
      "s_Channels s' = reported es (s_Channels s)"
      "s_vEvents s' = (if length es = s_vEvents s then 2 * s_vEvents s else s_vEvents s)" by auto
  moreover have "\<exists>ch. s_Channels s c = Some ch \<and> s_Channels s' c = Some (Channel_SetREvents ev ch)"
    if "(ev, c) \<in> set es" for ev c
    using live [OF that] reported_in [OF d that, of "s_Channels s"] s'(3) by auto
  moreover have "s_Channels s' c = s_Channels s c" if "c \<notin> snd ` set es" for c
    using reported_out [OF that, of "s_Channels s"] s'(3) by simp
  ultimately show ?thesis by blast
qed

definition demo_watching :: "(nat, int \<Rightarrow> (events \<times> nat) option) epoll_store" where
  "demo_watching =
     \<lparr>s_Channels = [3 \<mapsto> (Channel_new 0 5)\<lparr>ch_nEvents := READ_EVENT, ch_nIndex := ADDED\<rparr>],
      s_Self = 0, s_ThreadId = 1, s_mpChannel = [5 \<mapsto> 3], s_vEvents = 1, s_Kernel = [5 \<mapsto> (READ_EVENT, 3)]\<rparr>"

theorem Poll_reports_ready_witness:
  "\<exists>s'. EPoller_Poll (PollEvents [(POLLIN, 3)]) [] demo_watching = Inr ([3], s') \<and> s_vEvents s' = 2"
proof -
  have i: "ep_inv demo_interest {} demo_watching"
    by (auto simp: demo_watching_def ep_inv_def ep_map_def ep_index_def ep_watch_def wanted_def
        Channel_new_def demo_interest_def)
  have "wait_ok demo_interest (PollEvents [(POLLIN, 3)]) demo_watching"
    by (auto simp: wait_ok_def demo_watching_def demo_interest_def)
  from Poll_reports_ready [OF i this, of "[]"] show ?thesis by (auto simp: demo_watching_def)
qed

end
