(* ===== verification/TimerQueues.thy ===== *)
theory TimerQueues
  imports TimeStamps "HOL-Library.Product_Lexorder"
begin

text \<open>
  \<open>reactor/Timer\<close>, \<open>reactor/TimerId.h\<close> and \<open>reactor/TimerQueue\<close>: the timers of an event loop.
  Timers live in a heap, from addresses to timers. The queue keeps two ordered sets of them,
  one by expiration and one by address and sequence number, plus the cancellations that arrive
  while expired timers run. Allocation is an argument (\<open>new\<close> may throw), a callback is the list
  of calls it makes on the queue, and the clock readings are arguments. \<open>delete\<close> of an address
  that holds no timer, and any use of one, is the fault \<open>BadPointer\<close>.
\<close>

section \<open>Timers\<close>

record 'cb timer =
  m_CallBack :: 'cb
  m_Expiration :: TimeStamp
  m_dInterval :: rat
  m_bRepeat :: bool
  m_Sequence :: int

record TimerId =
  m_pTimer :: nat
  m_Seq :: int

definition Timer_new :: "'cb \<Rightarrow> TimeStamp \<Rightarrow> rat \<Rightarrow> int \<Rightarrow> 'cb timer" where
  "Timer_new cb when dInterval sequence =
     \<lparr>m_CallBack = cb, m_Expiration = when, m_dInterval = dInterval,
      m_bRepeat = (dInterval > 0), m_Sequence = sequence\<rparr>"

definition Timer_Restart :: "TimeStamp \<Rightarrow> 'cb timer \<Rightarrow> 'cb timer" where
  "Timer_Restart now t =
     (if m_bRepeat t then t\<lparr>m_Expiration := AddTime now (m_dInterval t)\<rparr>
      else t\<lparr>m_Expiration := TimeStamp_Invalid\<rparr>)"

text \<open>The constructor \<open>TimerId(pTimer, seq = 0)\<close> with its default sequence number.\<close>

definition TimerId_of :: "nat \<Rightarrow> TimerId" where
  "TimerId_of p = \<lparr>m_pTimer = p, m_Seq = 0\<rparr>"

section \<open>The queue\<close>

datatype timer_functor = AddTimerInLoop nat | CancelInLoop TimerId

text \<open>
  \<open>m_TimerFd\<close> is what \<open>timerfd_settime\<close> was last given, with the expiration it stands for,
  and nothing once the descriptor (one shot) has expired and been read;
  \<open>m_Queued\<close> holds the functors other threads hand to the loop.
\<close>

record 'cb timer_queue =
  m_TimerList :: "(TimeStamp \<times> nat) list"
  m_bCallingExpiredTimer :: bool
  m_ActiveTimers :: "(nat \<times> int) list"
  m_CancelTimers :: "(nat \<times> int) list"
  m_TimerFd :: "(TimeStamp \<times> int \<times> int) option"
  m_Timers :: "nat \<Rightarrow> 'cb timer option"
  s_NumCreated :: int
  m_Queued :: "timer_functor list"

definition TimerQueue_init :: "'cb timer_queue" where
  "TimerQueue_init =
     \<lparr>m_TimerList = [], m_bCallingExpiredTimer = False, m_ActiveTimers = [], m_CancelTimers = [],
      m_TimerFd = None, m_Timers = (\<lambda>_. None), s_NumCreated = 0, m_Queued = []\<rparr>"

definition UINTPTR_MAX :: nat where
  "UINTPTR_MAX = 2 ^ 64 - 1"

text \<open>The relative time the timer descriptor is armed with: at least 100 microseconds.\<close>

definition howMuchTimeFromNow :: "TimeStamp \<Rightarrow> TimeStamp \<Rightarrow> int \<times> int" where
  "howMuchTimeFromNow clk when =
     (let d = m_MicroSecondsSinceEpoch when - m_MicroSecondsSinceEpoch clk;
          microSeconds = (if d < 100 then 100 else d)
      in (c_div microSeconds MICRO_SECOND_PER_SECOND,
          c_mod microSeconds MICRO_SECOND_PER_SECOND * 1000))"

text \<open>The descriptor \<open>timerfd_create\<close> returns; a failure is logged as fatal.\<close>

definition createTimerfd :: "int \<Rightarrow> int res" where
  "createTimerfd nTimerFd = (if nTimerFd < 0 then Inl Aborted else Inr nTimerFd)"

definition resetTimerFd :: "TimeStamp \<Rightarrow> TimeStamp \<Rightarrow> 'cb timer_queue \<Rightarrow> 'cb timer_queue" where
  "resetTimerFd clk expiration q =
     q\<lparr>m_TimerFd := Some (expiration, howMuchTimeFromNow clk expiration)\<rparr>"

definition readTimerFd :: "'cb timer_queue \<Rightarrow> 'cb timer_queue" where
  "readTimerFd q = q\<lparr>m_TimerFd := None\<rparr>"

definition TimerQueue_insert :: "bool \<Rightarrow> nat \<Rightarrow> 'cb timer_queue \<Rightarrow> (bool \<times> 'cb timer_queue) res" where
  "TimerQueue_insert inLoop p q =
     assert_in_loop inLoop
       (check (length (m_TimerList q) = length (m_ActiveTimers q))
         (case m_Timers q p of
            None \<Rightarrow> Inl BadPointer
          | Some t \<Rightarrow>
              (let when = m_Expiration t;
                   bEariestChanged = (m_TimerList q = [] \<or> when < fst (hd (m_TimerList q)));
                   (l, new1) = oset_insert (when, p) (m_TimerList q);
                   (a, new2) = oset_insert (p, m_Sequence t) (m_ActiveTimers q)
               in check new1 (check new2 (check (length l = length a)
                    (Inr (bEariestChanged, q\<lparr>m_TimerList := l, m_ActiveTimers := a\<rparr>)))))))"

definition TimerQueue_addTimerInLoop ::
    "bool \<Rightarrow> TimeStamp \<Rightarrow> nat \<Rightarrow> 'cb timer_queue \<Rightarrow> 'cb timer_queue res" where
  "TimerQueue_addTimerInLoop inLoop clk p q =
     assert_in_loop inLoop
       (rbind (TimerQueue_insert inLoop p q) (\<lambda>(bEariestChanged, q').
          if bEariestChanged
          then (case m_Timers q' p of
                  None \<Rightarrow> Inl BadPointer
                | Some t \<Rightarrow> Inr (resetTimerFd clk (m_Expiration t) q'))
          else Inr q'))"

definition Timer_delete :: "nat \<Rightarrow> 'cb timer_queue \<Rightarrow> 'cb timer_queue res" where
  "Timer_delete p q =
     (case m_Timers q p of
        None \<Rightarrow> Inl BadPointer
      | Some _ \<Rightarrow> Inr (q\<lparr>m_Timers := (m_Timers q)(p := None)\<rparr>))"

definition TimerQueue_cancelInLoop :: "bool \<Rightarrow> TimerId \<Rightarrow> 'cb timer_queue \<Rightarrow> 'cb timer_queue res" where
  "TimerQueue_cancelInLoop inLoop tid q =
     assert_in_loop inLoop
       (check (length (m_TimerList q) = length (m_ActiveTimers q))
         (let timer = (m_pTimer tid, m_Seq tid) in
          rbind
            (if timer \<in> set (m_ActiveTimers q)
             then (case m_Timers q (m_pTimer tid) of
                     None \<Rightarrow> Inl BadPointer
                   | Some t \<Rightarrow>
                       (let (l, n) = oset_erase (m_Expiration t, m_pTimer tid) (m_TimerList q)
                        in check (n = 1)
                          (rbind (Timer_delete (m_pTimer tid) (q\<lparr>m_TimerList := l\<rparr>)) (\<lambda>q'.
                             Inr (q'\<lparr>m_ActiveTimers := fst (oset_erase timer (m_ActiveTimers q'))\<rparr>)))))
             else if m_bCallingExpiredTimer q
             then Inr (q\<lparr>m_CancelTimers := fst (oset_insert timer (m_CancelTimers q))\<rparr>)
             else Inr q)
            (\<lambda>q'. check (length (m_TimerList q') = length (m_ActiveTimers q')) (Inr q'))))"

text \<open>
  \<open>AddTimer\<close> and \<open>Cancel\<close> go through \<open>RunInLoop\<close>: at once in the loop's thread, queued
  otherwise. \<open>alloc\<close> is \<open>new Timer\<close>: an address, or nothing when it throws.
\<close>

type_synonym 'cb allocator = "(nat \<Rightarrow> 'cb timer option) \<Rightarrow> nat option"

definition TimerQueue_AddTimer ::
    "'cb allocator \<Rightarrow> bool \<Rightarrow> TimeStamp \<Rightarrow> 'cb \<Rightarrow> TimeStamp \<Rightarrow> rat \<Rightarrow> 'cb timer_queue \<Rightarrow>
     (TimerId \<times> 'cb timer_queue) res" where
  "TimerQueue_AddTimer alloc inLoop clk cb when dInterval q =
     (case alloc (m_Timers q) of
        None \<Rightarrow> Inl BadAlloc
      | Some p \<Rightarrow>
          (let n = s_NumCreated q + 1;
               q' = q\<lparr>m_Timers := (m_Timers q)(p \<mapsto> Timer_new cb when dInterval n), s_NumCreated := n\<rparr>
           in rbind (if inLoop then TimerQueue_addTimerInLoop inLoop clk p q'
                     else Inr (q'\<lparr>m_Queued := m_Queued q' @ [AddTimerInLoop p]\<rparr>))
                (\<lambda>q''. Inr (TimerId_of p, q''))))"

definition TimerQueue_Cancel :: "bool \<Rightarrow> TimerId \<Rightarrow> 'cb timer_queue \<Rightarrow> 'cb timer_queue res" where
  "TimerQueue_Cancel inLoop tid q =
     (if inLoop then TimerQueue_cancelInLoop inLoop tid q
      else Inr (q\<lparr>m_Queued := m_Queued q @ [CancelInLoop tid]\<rparr>))"

text \<open>The loop runs a queued functor.\<close>

fun TimerQueue_runFunctor :: "TimeStamp \<Rightarrow> timer_functor \<Rightarrow> 'cb timer_queue \<Rightarrow> 'cb timer_queue res" where
  "TimerQueue_runFunctor clk (AddTimerInLoop p) q = TimerQueue_addTimerInLoop True clk p q"
| "TimerQueue_runFunctor clk (CancelInLoop tid) q = TimerQueue_cancelInLoop True tid q"

definition TimerQueue_runQueued :: "TimeStamp \<Rightarrow> 'cb timer_queue \<Rightarrow> 'cb timer_queue res" where
  "TimerQueue_runQueued clk q =
     (case m_Queued q of
        [] \<Rightarrow> Inr q
      | f # fs \<Rightarrow> TimerQueue_runFunctor clk f (q\<lparr>m_Queued := fs\<rparr>))"

section \<open>Expired timers\<close>

text \<open>The loop over the expired entries that erases them from the active timers.\<close>

fun erase_active :: "(TimeStamp \<times> nat) list \<Rightarrow> 'cb timer_queue \<Rightarrow> 'cb timer_queue res" where
  "erase_active [] q = Inr q"
| "erase_active ((w, p) # es) q =
     (case m_Timers q p of
        None \<Rightarrow> Inl BadPointer
      | Some t \<Rightarrow>
          (let (a, n) = oset_erase (p, m_Sequence t) (m_ActiveTimers q)
           in check (n = 1) (erase_active es (q\<lparr>m_ActiveTimers := a\<rparr>))))"

definition TimerQueue_getExpired ::
    "TimeStamp \<Rightarrow> 'cb timer_queue \<Rightarrow> ((TimeStamp \<times> nat) list \<times> 'cb timer_queue) res" where
  "TimerQueue_getExpired now q =
     check (length (m_TimerList q) = length (m_ActiveTimers q))
       (let sentry = (now, UINTPTR_MAX);
            vExpired = takeWhile (\<lambda>e. e < sentry) (m_TimerList q);
            rest = dropWhile (\<lambda>e. e < sentry) (m_TimerList q)
        in check (rest = [] \<or> now < fst (hd rest))
          (rbind (erase_active vExpired (q\<lparr>m_TimerList := rest\<rparr>)) (\<lambda>q'.
             check (length (m_TimerList q') = length (m_ActiveTimers q')) (Inr (vExpired, q')))))"

text \<open>What a timer's callback may do to the queue, each call with its clock reading.\<close>

datatype 'cb timer_call = CallAdd TimeStamp 'cb TimeStamp rat | CallCancel TimerId

fun do_timer_call :: "'cb allocator \<Rightarrow> 'cb timer_call \<Rightarrow> 'cb timer_queue \<Rightarrow> 'cb timer_queue res" where
  "do_timer_call alloc (CallAdd clk cb when d) q =
     rbind (TimerQueue_AddTimer alloc True clk cb when d q) (\<lambda>(tid, q'). Inr q')"
| "do_timer_call alloc (CallCancel tid) q = TimerQueue_Cancel True tid q"

definition Timer_Run ::
    "'cb allocator \<Rightarrow> ('cb \<Rightarrow> 'cb timer_call list) \<Rightarrow> TimeStamp \<times> nat \<Rightarrow> 'cb timer_queue \<Rightarrow>
     'cb timer_queue res" where
  "Timer_Run alloc body e q =
     (case m_Timers q (snd e) of
        None \<Rightarrow> Inl BadPointer
      | Some t \<Rightarrow> rfold (do_timer_call alloc) (body (m_CallBack t)) q)"

fun reset_loop :: "TimeStamp \<Rightarrow> (TimeStamp \<times> nat) list \<Rightarrow> 'cb timer_queue \<Rightarrow> 'cb timer_queue res" where
  "reset_loop now [] q = Inr q"
| "reset_loop now ((w, p) # es) q =
     (case m_Timers q p of
        None \<Rightarrow> Inl BadPointer
      | Some t \<Rightarrow>
          rbind
            (if m_bRepeat t \<and> (p, m_Sequence t) \<notin> set (m_CancelTimers q)
             then rbind (TimerQueue_insert True p (q\<lparr>m_Timers := (m_Timers q)(p \<mapsto> Timer_Restart now t)\<rparr>))
                    (\<lambda>(_, q'). Inr q')
             else Timer_delete p q)
            (reset_loop now es))"

definition TimerQueue_reset ::
    "TimeStamp \<Rightarrow> TimeStamp \<Rightarrow> (TimeStamp \<times> nat) list \<Rightarrow> 'cb timer_queue \<Rightarrow> 'cb timer_queue res" where
  "TimerQueue_reset clk now vExpired q =
     rbind (reset_loop now vExpired q) (\<lambda>q'.
     case m_TimerList q' of
       [] \<Rightarrow> Inr q'
     | (w, p) # _ \<Rightarrow>
         (case m_Timers q' p of
            None \<Rightarrow> Inl BadPointer
          | Some t \<Rightarrow>
              (if TimeStamp_IsValid (m_Expiration t) then Inr (resetTimerFd clk (m_Expiration t) q')
               else Inr q')))"

definition TimerQueue_handleRead ::
    "'cb allocator \<Rightarrow> ('cb \<Rightarrow> 'cb timer_call list) \<Rightarrow> bool \<Rightarrow> TimeStamp \<Rightarrow> TimeStamp \<Rightarrow>
     'cb timer_queue \<Rightarrow> 'cb timer_queue res" where
  "TimerQueue_handleRead alloc body inLoop now clk q =
     assert_in_loop inLoop
       (rbind (TimerQueue_getExpired now (readTimerFd q)) (\<lambda>(vExpired, q1).
        rbind (rfold (Timer_Run alloc body) vExpired
                 (q1\<lparr>m_bCallingExpiredTimer := True, m_CancelTimers := []\<rparr>)) (\<lambda>q2.
        TimerQueue_reset clk now vExpired (q2\<lparr>m_bCallingExpiredTimer := False\<rparr>))))"

text \<open>The destructor deletes the timers still in the list.\<close>

definition TimerQueue_destroy :: "'cb timer_queue \<Rightarrow> 'cb timer_queue res" where
  "TimerQueue_destroy q = rfold (\<lambda>e. Timer_delete (snd e)) (m_TimerList q) q"

section \<open>The invariant\<close>

text \<open>
  Every live timer is in exactly one place: in both ordered sets, among the functors still
  queued, or in the set \<open>D\<close> of those a running handler holds (the expired ones). So no timer
  leaks, none is freed while an entry refers to it, and the two sets agree.
\<close>

definition listed :: "'cb timer_queue \<Rightarrow> nat set" where
  "listed q = snd ` set (m_TimerList q)"

fun functor_timers :: "timer_functor \<Rightarrow> nat list" where
  "functor_timers (AddTimerInLoop p) = [p]"
| "functor_timers (CancelInLoop _) = []"

definition queued :: "'cb timer_queue \<Rightarrow> nat list" where
  "queued q = concat (map functor_timers (m_Queued q))"

definition active_of :: "'cb timer_queue \<Rightarrow> TimeStamp \<times> nat \<Rightarrow> nat \<times> int" where
  "active_of q e = (snd e, case m_Timers q (snd e) of None \<Rightarrow> 0 | Some t \<Rightarrow> m_Sequence t)"

definition tq_inv :: "nat set \<Rightarrow> 'cb timer_queue \<Rightarrow> bool" where
  "tq_inv D q \<longleftrightarrow>
     oset (m_TimerList q) \<and> oset (m_ActiveTimers q) \<and>
     (\<forall>w p. (w, p) \<in> set (m_TimerList q) \<longrightarrow> map_option m_Expiration (m_Timers q p) = Some w) \<and>
     set (m_ActiveTimers q) = active_of q ` set (m_TimerList q) \<and>
     dom (m_Timers q) = listed q \<union> D \<union> set (queued q) \<and>
     listed q \<inter> D = {} \<and> listed q \<inter> set (queued q) = {} \<and> D \<inter> set (queued q) = {} \<and>
     distinct (queued q) \<and> 0 \<le> s_NumCreated q \<and>
     (\<forall>p t. m_Timers q p = Some t \<longrightarrow>
        p < UINTPTR_MAX \<and> 1 \<le> m_Sequence t \<and> m_Sequence t \<le> s_NumCreated q \<and>
        (m_bRepeat t \<longrightarrow> 0 < m_dInterval t))"

lemma tq_inv_init [simp]: "tq_inv {} TimerQueue_init"
  by (simp add: tq_inv_def TimerQueue_init_def listed_def queued_def)

lemma tq_entry:
  "tq_inv D q \<Longrightarrow> (w, p) \<in> set (m_TimerList q) \<Longrightarrow> \<exists>t. m_Timers q p = Some t \<and> m_Expiration t = w"
  by (simp add: tq_inv_def)

lemma tq_inv_inj:
  assumes "tq_inv D q"
  shows "inj_on (active_of q) (set (m_TimerList q))"
proof (rule inj_onI)
  fix e e'
  assume e: "e \<in> set (m_TimerList q)" "e' \<in> set (m_TimerList q)" and "active_of q e = active_of q e'"
  then have p: "snd e = snd e'" by (simp add: active_of_def)
  from e obtain t t' where "m_Timers q (snd e) = Some t" "m_Expiration t = fst e"
    "m_Timers q (snd e') = Some t'" "m_Expiration t' = fst e'"
    using tq_entry [OF assms] by (metis prod.collapse)
  with p show "e = e'" by (simp add: prod_eq_iff)
qed

lemma tq_inv_lengths:
  assumes "tq_inv D q"
  shows "length (m_TimerList q) = length (m_ActiveTimers q)"
proof -
  have d: "distinct (m_TimerList q)" "distinct (m_ActiveTimers q)"
    and a: "set (m_ActiveTimers q) = active_of q ` set (m_TimerList q)"
    using assms by (auto simp: tq_inv_def oset_def)
  have "card (set (m_ActiveTimers q)) = card (set (m_TimerList q))"
    unfolding a by (rule card_image [OF tq_inv_inj [OF assms]])
  then show ?thesis by (simp only: distinct_card [OF d(1)] distinct_card [OF d(2)])
qed

lemma tq_inv_held:
  assumes "tq_inv D q" and "p \<in> D"
  obtains t where "m_Timers q p = Some t" and "p < UINTPTR_MAX"
proof -
  from assms have "p \<in> dom (m_Timers q)" by (simp add: tq_inv_def)
  then obtain t where t: "m_Timers q p = Some t" by blast
  with assms(1) have "p < UINTPTR_MAX" by (simp add: tq_inv_def)
  with t that show thesis by blast
qed

lemma active_sequence:
  assumes "tq_inv D q" and "(p, s) \<in> set (m_ActiveTimers q)"
  obtains t where "m_Timers q p = Some t" and "m_Sequence t = s" and "1 \<le> s"
    and "(m_Expiration t, p) \<in> set (m_TimerList q)"
proof -
  from assms obtain w where w: "(w, p) \<in> set (m_TimerList q)" and s: "active_of q (w, p) = (p, s)"
    by (auto simp: tq_inv_def active_of_def)
  from tq_entry [OF assms(1) w] obtain t where t: "m_Timers q p = Some t" "m_Expiration t = w"
    by blast
  with assms(1) have "1 \<le> m_Sequence t" by (auto simp: tq_inv_def)
  with t w s that show thesis by (simp add: active_of_def)
qed

text \<open>Taking a held timer into both sets.\<close>

definition enlist :: "nat \<Rightarrow> 'cb timer \<Rightarrow> 'cb timer_queue \<Rightarrow> 'cb timer_queue" where
  "enlist p t q = q\<lparr>m_TimerList := insort (m_Expiration t, p) (m_TimerList q),
                    m_ActiveTimers := insort (p, m_Sequence t) (m_ActiveTimers q)\<rparr>"

lemma enlist_fields [simp]:
  "m_TimerList (enlist p t q) = insort (m_Expiration t, p) (m_TimerList q)"
  "m_ActiveTimers (enlist p t q) = insort (p, m_Sequence t) (m_ActiveTimers q)"
  "m_Timers (enlist p t q) = m_Timers q" "s_NumCreated (enlist p t q) = s_NumCreated q"
  "queued (enlist p t q) = queued q" "active_of (enlist p t q) = active_of q"
  "listed (enlist p t q) = insert p (listed q)" "m_TimerFd (enlist p t q) = m_TimerFd q"
  "m_CancelTimers (enlist p t q) = m_CancelTimers q"
  "m_bCallingExpiredTimer (enlist p t q) = m_bCallingExpiredTimer q"
  "m_Queued (enlist p t q) = m_Queued q"
  by (auto simp: enlist_def queued_def listed_def active_of_def fun_eq_iff set_insort_key)

lemma fresh_entry:
  assumes "tq_inv D q" and "p \<notin> listed q" and "m_Timers q p = Some t"
  shows "(m_Expiration t, p) \<notin> set (m_TimerList q)" and "(p, m_Sequence t) \<notin> set (m_ActiveTimers q)"
proof -
  show n: "(m_Expiration t, p) \<notin> set (m_TimerList q)" using assms(2) by (force simp: listed_def)
  show "(p, m_Sequence t) \<notin> set (m_ActiveTimers q)"
  proof
    assume "(p, m_Sequence t) \<in> set (m_ActiveTimers q)"
    with assms(1) obtain t' where "m_Timers q p = Some t'" "(m_Expiration t', p) \<in> set (m_TimerList q)"
      by (rule active_sequence)
    with n assms(3) show False by simp
  qed
qed

lemma enlist_inv:
  assumes inv: "tq_inv D q" and p: "p \<in> D" and t: "m_Timers q p = Some t"
  shows "tq_inv (D - {p}) (enlist p t q)"
proof -
  have new: "p \<notin> listed q" using inv p by (auto simp: tq_inv_def)
  note fresh = fresh_entry [OF inv new t]
  have "active_of q (m_Expiration t, p) = (p, m_Sequence t)" using t by (simp add: active_of_def)
  with inv p t new fresh show ?thesis
    unfolding tq_inv_def by (auto simp: oset_insort set_insort_key)
qed

lemma insert_ok:
  assumes "tq_inv D q" and "p \<in> D" and "m_Timers q p = Some t"
  shows "TimerQueue_insert True p q =
    Inr (m_TimerList q = [] \<or> m_Expiration t < fst (hd (m_TimerList q)), enlist p t q)"
proof -
  have new: "p \<notin> listed q" using assms(1,2) by (auto simp: tq_inv_def)
  from assms(3) fresh_entry [OF assms(1) new assms(3)] tq_inv_lengths [OF assms(1)]
  show ?thesis by (simp add: TimerQueue_insert_def enlist_def Let_def)
qed

section \<open>Adding and cancelling\<close>

lemma tq_inv_resetTimerFd [simp]: "tq_inv D (resetTimerFd clk w q) = tq_inv D q"
  by (simp add: tq_inv_def resetTimerFd_def listed_def queued_def active_of_def)

lemma readTimerFd_fields [simp]:
  "m_TimerList (readTimerFd q) = m_TimerList q" "m_Timers (readTimerFd q) = m_Timers q"
  "m_TimerFd (readTimerFd q) = None" "m_Queued (readTimerFd q) = m_Queued q"
  "m_CancelTimers (readTimerFd q) = m_CancelTimers q" "tq_inv D (readTimerFd q) = tq_inv D q"
  by (simp_all add: tq_inv_def readTimerFd_def listed_def queued_def active_of_def)

lemma addTimerInLoop_ok:
  assumes "tq_inv D q" and "p \<in> D" and "m_Timers q p = Some t"
  shows "\<exists>q'. TimerQueue_addTimerInLoop True clk p q = Inr q' \<and> tq_inv (D - {p}) q'"
  using insert_ok [OF assms] enlist_inv [OF assms] assms(3)
  by (simp add: TimerQueue_addTimerInLoop_def)

text \<open>What \<open>new\<close> promises: an address that is not in use, below the largest one.\<close>

definition allocator_ok :: "'cb allocator \<Rightarrow> bool" where
  "allocator_ok alloc \<longleftrightarrow> (\<forall>h p. alloc h = Some p \<longrightarrow> h p = None \<and> p < UINTPTR_MAX)"

definition with_new :: "nat \<Rightarrow> 'cb timer \<Rightarrow> 'cb timer_queue \<Rightarrow> 'cb timer_queue" where
  "with_new p t q =
     q\<lparr>m_Timers := (m_Timers q)(p \<mapsto> t), s_NumCreated := s_NumCreated q + 1\<rparr>"

lemma with_new_fields [simp]:
  "m_TimerList (with_new p t q) = m_TimerList q" "m_ActiveTimers (with_new p t q) = m_ActiveTimers q"
  "m_Timers (with_new p t q) = (m_Timers q)(p \<mapsto> t)" "s_NumCreated (with_new p t q) = s_NumCreated q + 1"
  "queued (with_new p t q) = queued q" "listed (with_new p t q) = listed q"
  "m_Queued (with_new p t q) = m_Queued q" "m_TimerFd (with_new p t q) = m_TimerFd q"
  "m_CancelTimers (with_new p t q) = m_CancelTimers q"
  "m_bCallingExpiredTimer (with_new p t q) = m_bCallingExpiredTimer q"
  by (simp_all add: with_new_def queued_def listed_def)

lemma active_of_with_new:
  "p \<notin> listed q \<Longrightarrow> e \<in> set (m_TimerList q) \<Longrightarrow> active_of (with_new p t q) e = active_of q e"
  by (auto simp: active_of_def listed_def)

lemma with_new_inv:
  assumes inv: "tq_inv D q" and p: "m_Timers q p = None" "p < UINTPTR_MAX"
    and t: "m_Sequence t = s_NumCreated q + 1" "m_bRepeat t \<longrightarrow> 0 < m_dInterval t"
  shows "tq_inv (insert p D) (with_new p t q)"
proof -
  have "p \<notin> dom (m_Timers q)" using p(1) by auto
  with inv have new: "p \<notin> listed q" "p \<notin> D" "p \<notin> set (queued q)"
    unfolding tq_inv_def by simp_all
  have act: "active_of (with_new p t q) ` set (m_TimerList q) = active_of q ` set (m_TimerList q)"
    using new(1) by (intro image_cong refl) (rule active_of_with_new)
  have seqs: "p' < UINTPTR_MAX \<and> 1 \<le> m_Sequence t' \<and> m_Sequence t' \<le> s_NumCreated q + 1 \<and>
      (m_bRepeat t' \<longrightarrow> 0 < m_dInterval t')"
    if "((m_Timers q)(p \<mapsto> t)) p' = Some t'" for p' t'
    using that inv p t by (cases "p' = p") (fastforce simp: tq_inv_def)+
  have ent: "map_option m_Expiration (((m_Timers q)(p \<mapsto> t)) p') = Some w"
    if "(w, p') \<in> set (m_TimerList q)" for w p'
  proof -
    from that new(1) have "p' \<noteq> p" by (force simp: listed_def)
    with that inv show ?thesis by (simp add: tq_inv_def)
  qed
  from inv new seqs ent show ?thesis
    unfolding tq_inv_def by (auto simp: act)
qed

lemma with_queued_inv:
  assumes "tq_inv D q" and "set (functor_timers f) \<subseteq> D"
  shows "tq_inv (D - set (functor_timers f)) (q\<lparr>m_Queued := m_Queued q @ [f]\<rparr>)"
proof -
  let ?q = "q\<lparr>m_Queued := m_Queued q @ [f]\<rparr>"
  have "queued ?q = queued q @ functor_timers f" "listed ?q = listed q" "active_of ?q = active_of q"
    by (simp_all add: queued_def listed_def active_of_def fun_eq_iff)
  moreover have "distinct (functor_timers f)" by (cases f) auto
  ultimately show ?thesis using assms unfolding tq_inv_def by auto
qed

lemma pop_queued_inv:
  assumes "tq_inv D q" and "m_Queued q = f # fs"
  shows "tq_inv (D \<union> set (functor_timers f)) (q\<lparr>m_Queued := fs\<rparr>)"
proof -
  let ?q = "q\<lparr>m_Queued := fs\<rparr>"
  have "queued q = functor_timers f @ queued ?q" using assms(2) by (simp add: queued_def)
  moreover have "listed ?q = listed q" "active_of ?q = active_of q"
    by (simp_all add: listed_def active_of_def fun_eq_iff)
  ultimately show ?thesis using assms(1) unfolding tq_inv_def by auto
qed

lemma AddTimer_ok:
  assumes inv: "tq_inv D q" and alloc: "allocator_ok alloc"
  shows "ensures {BadAlloc} (\<lambda>(tid, q'). tq_inv D q' \<and> m_Seq tid = 0)
    (TimerQueue_AddTimer alloc inLoop clk cb when d q)"
proof (cases "alloc (m_Timers q)")
  case None
  then show ?thesis by (simp add: TimerQueue_AddTimer_def)
next
  case (Some p)
  with alloc have p: "m_Timers q p = None" "p < UINTPTR_MAX" by (auto simp: allocator_ok_def)
  let ?t = "Timer_new cb when d (s_NumCreated q + 1)"
  let ?q = "with_new p ?t q"
  have i: "tq_inv (insert p D) ?q" by (rule with_new_inv [OF inv p]) (simp_all add: Timer_new_def)
  have "p \<notin> dom (m_Timers q)" using p(1) by auto
  with inv have "p \<notin> D" unfolding tq_inv_def by simp
  then have D: "insert p D - {p} = D" by auto
  have "m_Timers ?q p = Some ?t" by simp
  from addTimerInLoop_ok [OF i _ this, of clk] obtain q' where
    "TimerQueue_addTimerInLoop True clk p ?q = Inr q'" "tq_inv D q'" using D by auto
  moreover from with_queued_inv [OF i, of "AddTimerInLoop p"] D
  have "tq_inv D (?q\<lparr>m_Queued := m_Queued q @ [AddTimerInLoop p]\<rparr>)" by simp
  ultimately show ?thesis using Some
    by (cases inLoop)
      (simp_all add: TimerQueue_AddTimer_def with_new_def [symmetric] Let_def TimerId_of_def)
qed

text \<open>Taking entries out of both sets, and freeing a timer that is held.\<close>

lemma detach_inv:
  assumes inv: "tq_inv D q" and "oset L" "set (m_TimerList q) = set L \<union> X" "set L \<inter> X = {}"
    and "oset A" "set A = active_of q ` set L"
  shows "tq_inv (D \<union> snd ` X) (q\<lparr>m_TimerList := L, m_ActiveTimers := A\<rparr>)"
proof -
  let ?q = "q\<lparr>m_TimerList := L, m_ActiveTimers := A\<rparr>"
  have same: "queued ?q = queued q" "active_of ?q = active_of q" "listed ?q = snd ` set L"
    by (simp_all add: queued_def listed_def active_of_def fun_eq_iff)
  have l: "listed q = snd ` set L \<union> snd ` X" using assms(3) by (auto simp: listed_def)
  have "snd ` set L \<inter> snd ` X = {}"
  proof (rule ccontr)
    assume "snd ` set L \<inter> snd ` X \<noteq> {}"
    then obtain w w' p where "(w, p) \<in> set L" "(w', p) \<in> X" by auto
    with assms(3,4) tq_entry [OF inv, of w p] tq_entry [OF inv, of w' p] show False by auto
  qed
  with inv assms l show ?thesis unfolding tq_inv_def same by auto
qed

lemma Timer_delete_ok:
  assumes inv: "tq_inv D q" and p: "p \<in> D"
  shows "\<exists>q'. Timer_delete p q = Inr q' \<and> tq_inv (D - {p}) q' \<and>
    q' = q\<lparr>m_Timers := (m_Timers q)(p := None)\<rparr>"
proof -
  from inv p obtain t where t: "m_Timers q p = Some t" by (rule tq_inv_held)
  let ?q = "q\<lparr>m_Timers := (m_Timers q)(p := None)\<rparr>"
  have new: "p \<notin> listed q" "p \<notin> set (queued q)" using inv p unfolding tq_inv_def by auto
  have same: "queued ?q = queued q" "listed ?q = listed q"
    by (simp_all add: queued_def listed_def)
  have act: "active_of ?q ` set (m_TimerList q) = active_of q ` set (m_TimerList q)"
    using new(1) by (intro image_cong refl) (auto simp: active_of_def listed_def)
  have ent: "map_option m_Expiration (((m_Timers q)(p := None)) p') = Some w"
    if "(w, p') \<in> set (m_TimerList q)" for w p'
  proof -
    from that new(1) have "p' \<noteq> p" by (force simp: listed_def)
    with that inv show ?thesis by (simp add: tq_inv_def)
  qed
  have "tq_inv (D - {p}) ?q"
    using inv p new ent unfolding tq_inv_def same by (auto simp: act)
  with t show ?thesis by (simp add: Timer_delete_def)
qed

lemma tq_inv_cancel_flags [simp]:
  "tq_inv D (q\<lparr>m_CancelTimers := c\<rparr>) = tq_inv D q"
  "tq_inv D (q\<lparr>m_bCallingExpiredTimer := b\<rparr>) = tq_inv D q"
  "tq_inv D (q\<lparr>m_bCallingExpiredTimer := b, m_CancelTimers := c\<rparr>) = tq_inv D q"
  by (simp_all add: tq_inv_def listed_def queued_def active_of_def)

lemma cancelInLoop_ok:
  assumes inv: "tq_inv D q"
  shows "\<exists>q'. TimerQueue_cancelInLoop True tid q = Inr q' \<and> tq_inv D q' \<and>
    set (m_TimerList q') \<subseteq> set (m_TimerList q) \<and> m_TimerFd q' = m_TimerFd q"
proof (cases "(m_pTimer tid, m_Seq tid) \<in> set (m_ActiveTimers q)")
  case False
  with inv tq_inv_lengths [OF inv] show ?thesis
    by (auto simp: TimerQueue_cancelInLoop_def Let_def)
next
  case True
  let ?p = "m_pTimer tid" and ?s = "m_Seq tid"
  from inv True obtain t where t: "m_Timers q ?p = Some t" "m_Sequence t = ?s"
    "(m_Expiration t, ?p) \<in> set (m_TimerList q)" by (rule active_sequence)
  let ?e = "(m_Expiration t, ?p)"
  let ?L = "remove1 ?e (m_TimerList q)" and ?A = "remove1 (?p, ?s) (m_ActiveTimers q)"
  have os: "oset (m_TimerList q)" "oset (m_ActiveTimers q)"
    and sa: "set (m_ActiveTimers q) = active_of q ` set (m_TimerList q)"
    using inv by (simp_all add: tq_inv_def)
  have e: "active_of q ?e = (?p, ?s)" using t by (simp add: active_of_def)
  have "set ?A = active_of q ` set ?L"
    using os sa e t(3) inj_on_image_set_diff [OF tq_inv_inj [OF inv], of "set (m_TimerList q)" "{?e}"]
    by simp
  with os t(3) detach_inv [OF inv, of ?L "{?e}" ?A]
  have d: "tq_inv (insert ?p D) (q\<lparr>m_TimerList := ?L, m_ActiveTimers := ?A\<rparr>)" (is "tq_inv _ ?q")
    by (auto simp: oset_remove1)
  have "?p \<in> listed q" using t(3) by (force simp: listed_def)
  with inv have "?p \<notin> D" unfolding tq_inv_def by auto
  with Timer_delete_ok [OF d, of ?p]
  have f: "tq_inv D (?q\<lparr>m_Timers := (m_Timers q)(?p := None)\<rparr>)" by simp
  have "TimerQueue_cancelInLoop True tid q = Inr (?q\<lparr>m_Timers := (m_Timers q)(?p := None)\<rparr>)"
    using True t tq_inv_lengths [OF inv] tq_inv_lengths [OF f]
    by (simp add: TimerQueue_cancelInLoop_def Timer_delete_def Let_def)
  with f os show ?thesis by auto
qed

section \<open>Expiry\<close>

lemma erase_active_ok:
  assumes "\<And>w p. (w, p) \<in> set es \<Longrightarrow> m_Timers q p \<noteq> None"
    and "active_of q ` set es \<subseteq> set (m_ActiveTimers q)" and "oset (m_ActiveTimers q)"
    and "distinct (map (active_of q) es)"
  shows "\<exists>A. erase_active es q = Inr (q\<lparr>m_ActiveTimers := A\<rparr>) \<and> oset A \<and>
    set A = set (m_ActiveTimers q) - active_of q ` set es"
  using assms
proof (induction es arbitrary: q)
  case Nil
  then show ?case by (intro exI [of _ "m_ActiveTimers q"]) simp
next
  case (Cons e es)
  obtain w p where e: "e = (w, p)" by (cases e)
  from Cons.prems(1) [of w p] e obtain t where t: "m_Timers q p = Some t" by auto
  let ?q = "q\<lparr>m_ActiveTimers := remove1 (p, m_Sequence t) (m_ActiveTimers q)\<rparr>"
  have act: "active_of ?q = active_of q" by (simp add: active_of_def fun_eq_iff)
  have a: "active_of q e = (p, m_Sequence t)" using e t by (simp add: active_of_def)
  have "\<exists>A. erase_active es ?q = Inr (?q\<lparr>m_ActiveTimers := A\<rparr>) \<and> oset A \<and>
      set A = set (m_ActiveTimers ?q) - active_of ?q ` set es"
    using Cons.prems a by (intro Cons.IH) (auto simp: act oset_remove1)
  then obtain A where A: "erase_active es ?q = Inr (?q\<lparr>m_ActiveTimers := A\<rparr>)" "oset A"
    "set A = set (m_ActiveTimers ?q) - active_of q ` set es" by (auto simp: act)
  have "(p, m_Sequence t) \<in> set (m_ActiveTimers q)" using Cons.prems(2) a by auto
  with A t e a Cons.prems(3) show ?case
    by (intro exI [of _ A]) (auto simp: Let_def)
qed

definition expired :: "TimeStamp \<Rightarrow> 'cb timer_queue \<Rightarrow> (TimeStamp \<times> nat) list" where
  "expired now q = filter (\<lambda>e. fst e \<le> now) (m_TimerList q)"

lemma sorted_split_at:
  assumes "sorted xs" and down: "\<And>x y. x \<in> set xs \<Longrightarrow> y \<in> set xs \<Longrightarrow> x \<le> y \<Longrightarrow> P y \<Longrightarrow> P x"
  shows "takeWhile P xs = filter P xs" and "dropWhile P xs = filter (\<lambda>x. \<not> P x) xs"
proof -
  have late: "\<not> P x" if x: "x \<in> set (dropWhile P xs)" for x
  proof -
    obtain y ys where y: "dropWhile P xs = y # ys" using x by (cases "dropWhile P xs") auto
    have "\<not> P y" using hd_dropWhile [of P xs] y by simp
    moreover have "y \<le> x" using sorted_dropWhile [OF assms(1), of P] x y by auto
    moreover have "x \<in> set xs" "y \<in> set xs" using x y set_dropWhileD [of _ P xs] by auto
    ultimately show ?thesis using down by blast
  qed
  then show "takeWhile P xs = filter P xs" by (rule takeWhile_eq_filter)
  have "filter (\<lambda>x. \<not> P x) (takeWhile P xs) = []"
    by (auto simp: filter_empty_conv dest: set_takeWhileD)
  moreover have "filter (\<lambda>x. \<not> P x) (dropWhile P xs) = dropWhile P xs"
    using late by (simp add: filter_id_conv)
  ultimately show "dropWhile P xs = filter (\<lambda>x. \<not> P x) xs"
    by (metis append_Nil filter_append takeWhile_dropWhile_id)
qed

lemma before_sentry:
  assumes "tq_inv D q" and "e \<in> set (m_TimerList q)"
  shows "e < (now, UINTPTR_MAX) \<longleftrightarrow> fst e \<le> now"
proof -
  obtain w p where e: "e = (w, p)" by (cases e)
  with assms tq_entry obtain t where "m_Timers q p = Some t" by blast
  with assms(1) have "p < UINTPTR_MAX" by (simp add: tq_inv_def)
  with e show ?thesis by (auto simp: less_prod_def)
qed

lemma getExpired_ok:
  assumes inv: "tq_inv D q"
  shows "\<exists>q'. TimerQueue_getExpired now q = Inr (expired now q, q') \<and>
    tq_inv (D \<union> snd ` set (expired now q)) q' \<and>
    m_TimerList q' = filter (\<lambda>e. \<not> fst e \<le> now) (m_TimerList q) \<and> m_Timers q' = m_Timers q \<and>
    m_TimerFd q' = m_TimerFd q \<and> s_NumCreated q' = s_NumCreated q \<and> m_Queued q' = m_Queued q"
proof -
  let ?P = "\<lambda>e. e < (now, UINTPTR_MAX)" and ?T = "m_TimerList q"
  let ?E = "expired now q" and ?R = "filter (\<lambda>e. \<not> fst e \<le> now) ?T"
  have os: "oset ?T" "oset (m_ActiveTimers q)" and sa: "set (m_ActiveTimers q) = active_of q ` set ?T"
    using inv by (simp_all add: tq_inv_def)
  have tw: "takeWhile ?P ?T = ?E" "dropWhile ?P ?T = ?R"
    using os(1) before_sentry [OF inv, of _ now]
    by (subst sorted_split_at; auto simp: oset_def expired_def intro!: filter_cong)+
  have later: "?R = [] \<or> now < fst (hd ?R)"
  proof (cases "?R")
    case (Cons r rs)
    then have "r \<in> set ?R" by simp
    then have "\<not> fst r \<le> now" by simp
    with Cons show ?thesis by simp
  qed simp
  have sub: "set ?E \<subseteq> set ?T" by (auto simp: expired_def)
  let ?q = "q\<lparr>m_TimerList := ?R\<rparr>"
  have act: "active_of ?q = active_of q" by (simp add: active_of_def fun_eq_iff)
  have inj: "inj_on (active_of q) (set ?E)" using tq_inv_inj [OF inv] sub by (rule inj_on_subset)
  have "distinct ?E" using os(1) by (simp add: oset_def expired_def)
  with inj have "distinct (map (active_of q) ?E)" by (simp add: distinct_map)
  moreover have "active_of q ` set ?E \<subseteq> set (m_ActiveTimers q)" using sub sa by auto
  moreover have "m_Timers q p \<noteq> None" if "(w, p) \<in> set ?E" for w p
    using that sub tq_entry [OF inv] by fastforce
  ultimately obtain A where A: "erase_active ?E ?q = Inr (?q\<lparr>m_ActiveTimers := A\<rparr>)" "oset A"
    "set A = set (m_ActiveTimers q) - active_of q ` set ?E"
    using erase_active_ok [of ?E ?q] os(2) act by auto
  have "set ?T - set ?E = set ?R" by (auto simp: expired_def)
  then have sA: "set A = active_of q ` set ?R"
    using A(3) sa sub inj_on_image_set_diff [OF tq_inv_inj [OF inv], of "set ?T" "set ?E"] by simp
  have "tq_inv (D \<union> snd ` set ?E) (q\<lparr>m_TimerList := ?R, m_ActiveTimers := A\<rparr>)" (is "tq_inv _ ?q'")
    using os(1) by (intro detach_inv [OF inv _ _ _ A(2) sA])
      (auto simp: oset_def expired_def intro: sorted_filter [of "\<lambda>e. e", simplified])
  moreover have "TimerQueue_getExpired now q = Inr (?E, ?q')"
    using tq_inv_lengths [OF inv] later A(1) tq_inv_lengths [OF calculation]
    unfolding TimerQueue_getExpired_def Let_def tw by simp
  ultimately show ?thesis by auto
qed

section \<open>Running the expired timers\<close>

lemma do_timer_call_ok:
  assumes "tq_inv D q" and "allocator_ok alloc"
  shows "ensures {BadAlloc} (tq_inv D) (do_timer_call alloc c q)"
proof (cases c)
  case (CallAdd clk cb w d)
  have "ensures {BadAlloc} (tq_inv D) (rbind (TimerQueue_AddTimer alloc True clk cb w d q) (\<lambda>(tid, q'). Inr q'))"
    by (rule ensures_rbind [OF AddTimer_ok [OF assms]]) auto
  with CallAdd show ?thesis by simp
next
  case (CallCancel tid)
  with cancelInLoop_ok [OF assms(1), of tid] show ?thesis by (auto simp: TimerQueue_Cancel_def)
qed

lemma Timer_Run_ok:
  assumes "tq_inv D q" and "snd e \<in> D" and "allocator_ok alloc"
  shows "ensures {BadAlloc} (tq_inv D) (Timer_Run alloc body e q)"
proof -
  from assms(1,2) obtain t where "m_Timers q (snd e) = Some t" by (rule tq_inv_held)
  then show ?thesis
    using assms(1,3) by (auto simp: Timer_Run_def intro!: ensures_rfold do_timer_call_ok)
qed

lemma restart_inv:
  assumes "tq_inv D q" and "p \<in> D" and "m_Timers q p = Some t" and "m_Sequence t' = m_Sequence t"
    and "m_bRepeat t' = m_bRepeat t" and "m_dInterval t' = m_dInterval t"
  shows "tq_inv D (q\<lparr>m_Timers := (m_Timers q)(p \<mapsto> t')\<rparr>)"
proof -
  let ?q = "q\<lparr>m_Timers := (m_Timers q)(p \<mapsto> t')\<rparr>"
  have same: "queued ?q = queued q" "listed ?q = listed q" by (simp_all add: queued_def listed_def)
  have act: "active_of ?q = active_of q" using assms(3,4) by (simp add: active_of_def fun_eq_iff)
  have "p \<notin> listed q" using assms(1,2) unfolding tq_inv_def by auto
  then have ne: "p' \<noteq> p" if "(w, p') \<in> set (m_TimerList q)" for w p'
    using that by (force simp: listed_def)
  have "dom ((m_Timers q)(p \<mapsto> t')) = dom (m_Timers q)" using assms(3) by auto
  with assms ne show ?thesis unfolding tq_inv_def same act by auto
qed

lemma Timer_Restart_fields [simp]:
  "m_Sequence (Timer_Restart now t) = m_Sequence t" "m_bRepeat (Timer_Restart now t) = m_bRepeat t"
  "m_dInterval (Timer_Restart now t) = m_dInterval t"
  by (simp_all add: Timer_Restart_def)

text \<open>What \<open>reset\<close> makes of the heap: the expired timers restarted or freed, the others as they were.\<close>

definition reset_heap ::
    "TimeStamp \<Rightarrow> (nat \<times> int) set \<Rightarrow> nat set \<Rightarrow> (nat \<Rightarrow> 'cb timer option) \<Rightarrow> nat \<Rightarrow> 'cb timer option" where
  "reset_heap now cancelled D h p =
     (if p \<notin> D then h p
      else case h p of
        None \<Rightarrow> None
      | Some t \<Rightarrow>
          (if m_bRepeat t \<and> (p, m_Sequence t) \<notin> cancelled then Some (Timer_Restart now t) else None))"

lemma reset_heap_step:
  "p \<in> D \<Longrightarrow> h p = Some t \<Longrightarrow>
   reset_heap now c D h =
   reset_heap now c (D - {p})
     (h(p := if m_bRepeat t \<and> (p, m_Sequence t) \<notin> c then Some (Timer_Restart now t) else None))"
  by (auto simp: reset_heap_def fun_eq_iff)

lemma reset_loop_ok:
  assumes "tq_inv D q" and "D = snd ` set es" and "distinct (map snd es)"
  shows "\<exists>q'. reset_loop now es q = Inr q' \<and> tq_inv {} q' \<and> m_Queued q' = m_Queued q \<and>
    m_TimerFd q' = m_TimerFd q \<and>
    m_Timers q' = reset_heap now (set (m_CancelTimers q)) D (m_Timers q)"
  using assms
proof (induction es arbitrary: D q)
  case Nil
  then show ?case by (simp add: reset_heap_def fun_eq_iff)
next
  case (Cons e es)
  obtain w p where e: "e = (w, p)" by (cases e)
  with Cons.prems have pD: "p \<in> D" and rest: "D - {p} = snd ` set es" by auto
  from Cons.prems(1) pD obtain t where t: "m_Timers q p = Some t" by (rule tq_inv_held)
  let ?q = "q\<lparr>m_Timers := (m_Timers q)(p \<mapsto> Timer_Restart now t)\<rparr>"
  have i: "tq_inv D ?q" using restart_inv [OF Cons.prems(1) pD t] by simp
  have t': "m_Timers ?q p = Some (Timer_Restart now t)" by simp
  note ins = insert_ok [OF i pD t'] and inv1 = enlist_inv [OF i pD t']
  obtain q2 where del: "Timer_delete p q = Inr q2" and inv2: "tq_inv (D - {p}) q2"
    and q2: "q2 = q\<lparr>m_Timers := (m_Timers q)(p := None)\<rparr>"
    using Timer_delete_ok [OF Cons.prems(1) pD] by blast
  have "distinct (map snd es)" using Cons.prems(3) by simp
  note IH = Cons.IH [OF _ rest this]
  show ?case
  proof (cases "m_bRepeat t \<and> (p, m_Sequence t) \<notin> set (m_CancelTimers q)")
    case True
    then have "reset_loop now (e # es) q = reset_loop now es (enlist p (Timer_Restart now t) ?q)"
      using e t ins by simp
    moreover have "reset_heap now (set (m_CancelTimers q)) D (m_Timers q) =
        reset_heap now (set (m_CancelTimers q)) (D - {p}) (m_Timers ?q)"
      using reset_heap_step [where h = "m_Timers q", OF pD t] True by simp
    ultimately show ?thesis using IH [OF inv1] by (simp add: fun_upd_def)
  next
    case False
    then have "reset_loop now (e # es) q = reset_loop now es q2"
      using e t del by (simp only: reset_loop.simps if_False option.case rbind.simps)
    moreover have "reset_heap now (set (m_CancelTimers q)) D (m_Timers q) =
        reset_heap now (set (m_CancelTimers q)) (D - {p}) (m_Timers q2)"
      using reset_heap_step [where h = "m_Timers q", OF pD t] False q2 by auto
    ultimately show ?thesis using IH [OF inv2] q2 by (simp add: fun_upd_def)
  qed
qed

lemma tq_head_live:
  assumes "tq_inv D q" and "m_TimerList q = (w, p) # es"
  shows "\<exists>t. m_Timers q p = Some t \<and> m_Expiration t = w"
  using tq_entry [OF assms(1), of w p] assms(2) by simp

lemma TimerQueue_reset_ok:
  assumes "tq_inv (snd ` set es) q" and "distinct (map snd es)"
  shows "\<exists>q'. TimerQueue_reset clk now es q = Inr q' \<and> tq_inv {} q' \<and> m_Queued q' = m_Queued q \<and>
    m_Timers q' = reset_heap now (set (m_CancelTimers q)) (snd ` set es) (m_Timers q) \<and>
    (m_TimerList q' \<noteq> [] \<longrightarrow>
       (if TimeStamp_IsValid (fst (hd (m_TimerList q')))
        then \<exists>r. m_TimerFd q' = Some (fst (hd (m_TimerList q')), r)
        else m_TimerFd q' = m_TimerFd q))"
proof -
  from reset_loop_ok [OF assms(1) refl assms(2)] obtain q1 where
    q1: "reset_loop now es q = Inr q1" "tq_inv {} q1" "m_Queued q1 = m_Queued q"
      "m_TimerFd q1 = m_TimerFd q"
      "m_Timers q1 = reset_heap now (set (m_CancelTimers q)) (snd ` set es) (m_Timers q)" by blast
  show ?thesis
  proof (cases "m_TimerList q1")
    case Nil
    with q1 show ?thesis by (simp add: TimerQueue_reset_def)
  next
    case (Cons e es')
    obtain w p where "e = (w, p)" by (cases e)
    with Cons tq_head_live [OF q1(2), of w p es'] obtain t where
      t: "m_TimerList q1 = (w, p) # es'" "m_Timers q1 p = Some t" "m_Expiration t = w" by auto
    let ?q' = "if TimeStamp_IsValid w then resetTimerFd clk w q1 else q1"
    have "TimerQueue_reset clk now es q = Inr ?q'"
      using q1(1) t by (simp add: TimerQueue_reset_def)
    with q1 t show ?thesis
      by (intro exI [of _ ?q']) (simp, simp add: resetTimerFd_def)
  qed
qed

lemma expired_distinct:
  assumes "tq_inv D q"
  shows "distinct (map snd (expired now q))"
proof -
  have "oset (m_TimerList q)" using assms by (simp add: tq_inv_def)
  then have "distinct (expired now q)" by (simp add: expired_def oset_def)
  moreover have "inj_on snd (set (expired now q))"
  proof (rule inj_onI)
    fix e e'
    assume e: "e \<in> set (expired now q)" "e' \<in> set (expired now q)" and p: "snd e = snd e'"
    then have "e \<in> set (m_TimerList q)" "e' \<in> set (m_TimerList q)" by (auto simp: expired_def)
    with tq_entry [OF assms] p show "e = e'"
      by (metis option.inject prod.collapse)
  qed
  ultimately show ?thesis by (simp add: distinct_map)
qed

lemma timer_read_ok:
  assumes inv: "tq_inv {} q" and alloc: "allocator_ok alloc"
  shows "ensures {BadAlloc} (tq_inv {}) (TimerQueue_handleRead alloc body True now clk q)"
proof -
  let ?E = "expired now q" and ?D = "snd ` set (expired now q)"
  have inv': "tq_inv {} (readTimerFd q)" using inv by simp
  have E: "expired now (readTimerFd q) = ?E" by (simp add: expired_def)
  obtain q1 where q1: "TimerQueue_getExpired now (readTimerFd q) = Inr (?E, q1)" "tq_inv ?D q1"
    using getExpired_ok [OF inv', of now] E by auto
  let ?q1 = "q1\<lparr>m_bCallingExpiredTimer := True, m_CancelTimers := []\<rparr>"
  have "ensures {BadAlloc} (tq_inv ?D) (rfold (Timer_Run alloc body) ?E ?q1)"
    using q1 alloc by (intro ensures_rfold Timer_Run_ok) auto
  then show ?thesis
    unfolding TimerQueue_handleRead_def q1
  proof (simp, elim ensures_rbind)
    fix q2
    assume "tq_inv ?D q2"
    then have "tq_inv ?D (q2\<lparr>m_bCallingExpiredTimer := False\<rparr>)" by simp
    from TimerQueue_reset_ok [OF this expired_distinct [OF inv], of clk now]
    show "ensures {BadAlloc} (tq_inv {})
        (TimerQueue_reset clk now ?E (q2\<lparr>m_bCallingExpiredTimer := False\<rparr>))" by auto
  qed
qed

section \<open>Runs of the queue\<close>

text \<open>
  What happens to a timer queue: \<open>AddTimer\<close> and \<open>Cancel\<close> from the loop's thread or another
  one, a queued functor run by the loop, and the timer descriptor becoming readable.
\<close>

datatype 'cb tq_event =
    EvAdd bool TimeStamp 'cb TimeStamp rat
  | EvCancel bool TimerId
  | EvRunQueued TimeStamp
  | EvRead TimeStamp TimeStamp

fun tq_exec ::
    "'cb allocator \<Rightarrow> ('cb \<Rightarrow> 'cb timer_call list) \<Rightarrow> 'cb tq_event \<Rightarrow> 'cb timer_queue \<Rightarrow>
     'cb timer_queue res" where
  "tq_exec alloc body (EvAdd inLoop clk cb w d) q =
     rbind (TimerQueue_AddTimer alloc inLoop clk cb w d q) (\<lambda>(tid, q'). Inr q')"
| "tq_exec alloc body (EvCancel inLoop tid) q = TimerQueue_Cancel inLoop tid q"
| "tq_exec alloc body (EvRunQueued clk) q = TimerQueue_runQueued clk q"
| "tq_exec alloc body (EvRead now clk) q = TimerQueue_handleRead alloc body True now clk q"

inductive tq_move ::
    "'cb allocator \<Rightarrow> ('cb \<Rightarrow> 'cb timer_call list) \<Rightarrow> ('cb tq_event \<Rightarrow> bool) \<Rightarrow>
     'cb timer_queue \<Rightarrow> 'cb timer_queue \<Rightarrow> bool"
  for alloc body allowed where
  tq_event: "allowed ev \<Longrightarrow> tq_exec alloc body ev q = Inr q' \<Longrightarrow> tq_move alloc body allowed q q'"

inductive_cases tq_moveE: "tq_move alloc body allowed q q'"

lemma runQueued_ok:
  assumes inv: "tq_inv {} q"
  shows "\<exists>q'. TimerQueue_runQueued clk q = Inr q' \<and> tq_inv {} q'"
proof (cases "m_Queued q")
  case Nil
  with inv show ?thesis by (simp add: TimerQueue_runQueued_def)
next
  case (Cons f fs)
  let ?q = "q\<lparr>m_Queued := fs\<rparr>"
  have i: "tq_inv (set (functor_timers f)) ?q" using pop_queued_inv [OF inv Cons] by simp
  show ?thesis
  proof (cases f)
    case (AddTimerInLoop p)
    with i have ip: "tq_inv {p} ?q" by simp
    obtain t where "m_Timers ?q p = Some t" using tq_inv_held [OF ip] by blast
    from addTimerInLoop_ok [OF ip _ this, of clk] show ?thesis
      using Cons AddTimerInLoop by (simp add: TimerQueue_runQueued_def)
  next
    case (CancelInLoop tid)
    with i cancelInLoop_ok [of "{}" ?q tid] show ?thesis
      using Cons by (auto simp: TimerQueue_runQueued_def)
  qed
qed

lemma tq_exec_ok:
  assumes inv: "tq_inv {} q" and alloc: "allocator_ok alloc"
  shows "ensures {BadAlloc} (tq_inv {}) (tq_exec alloc body ev q)"
proof (cases ev)
  case (EvAdd inLoop clk cb w d)
  have "ensures {BadAlloc} (tq_inv {})
      (rbind (TimerQueue_AddTimer alloc inLoop clk cb w d q) (\<lambda>(tid, q'). Inr q'))"
    by (rule ensures_rbind [OF AddTimer_ok [OF inv alloc]]) auto
  with EvAdd show ?thesis by simp
next
  case (EvCancel inLoop tid)
  with inv cancelInLoop_ok [OF inv, of tid] with_queued_inv [OF inv, of "CancelInLoop tid"]
  show ?thesis by (auto simp: TimerQueue_Cancel_def)
next
  case (EvRunQueued clk)
  with runQueued_ok [OF inv, of clk] show ?thesis by auto
next
  case (EvRead now clk)
  with timer_read_ok [OF inv alloc] show ?thesis by simp
qed

definition tq_start :: "'cb timer_queue \<Rightarrow> bool" where
  "tq_start q \<longleftrightarrow> q = TimerQueue_init"

text \<open>The allocator law rides along in the invariant, so the system needs no locale of its own.\<close>

interpretation timers: invariant_system tq_start "tq_move alloc body allowed"
  "\<lambda>q. allocator_ok alloc \<longrightarrow> tq_inv {} q" for alloc body allowed
proof
  show "allocator_ok alloc \<longrightarrow> tq_inv {} q" if "tq_start q" for q
    using that by (simp add: tq_start_def)
  show "allocator_ok alloc \<longrightarrow> tq_inv {} q'"
    if "tq_move alloc body allowed q q'" "allocator_ok alloc \<longrightarrow> tq_inv {} q" for q q'
  proof
    assume "allocator_ok alloc"
    with that(2) have "ensures {BadAlloc} (tq_inv {}) (tq_exec alloc body ev q)" for ev
      by (intro tq_exec_ok) simp_all
    with that(1) show "tq_inv {} q'" by (elim tq_moveE) (metis ensures_simps(2))
  qed
qed

lemma tq_reach_inv:
  "reach tq_start (tq_move alloc body allowed) q \<Longrightarrow> allocator_ok alloc \<Longrightarrow> tq_inv {} q"
  using timers.reach_keeps by blast

section \<open>A timer that fires\<close>

text \<open>Cancelling an identifier with sequence number 0 takes no timer away.\<close>

lemma cancel_seq0:
  assumes "tq_inv D q" and "m_Seq tid = 0"
  shows "\<exists>c. TimerQueue_cancelInLoop True tid q = Inr (q\<lparr>m_CancelTimers := c\<rparr>) \<and>
    (set c = set (m_CancelTimers q) \<or> set c = insert (m_pTimer tid, 0) (set (m_CancelTimers q)))"
proof -
  have "(m_pTimer tid, m_Seq tid) \<notin> set (m_ActiveTimers q)"
  proof
    assume "(m_pTimer tid, m_Seq tid) \<in> set (m_ActiveTimers q)"
    with assms(1) have "1 \<le> m_Seq tid" by (rule active_sequence)
    with assms(2) show False by simp
  qed
  moreover have "set (fst (oset_insert x xs)) = insert x (set xs)" for x :: "nat \<times> int" and xs
    by (auto simp: oset_insert_def set_insort_key)
  ultimately show ?thesis
    using assms(2) tq_inv_lengths [OF assms(1)]
    by (cases "m_bCallingExpiredTimer q")
      (auto simp: TimerQueue_cancelInLoop_def intro: exI [of _ "m_CancelTimers q"])
qed

fun issued_only :: "'cb timer_call \<Rightarrow> bool" where
  "issued_only (CallAdd _ _ _ _) = True"
| "issued_only (CallCancel tid) = (m_Seq tid = 0)"

text \<open>Callbacks that cancel only identifiers \<open>AddTimer\<close> returned keep every timer that lives.\<close>

definition keeps_timers :: "'cb timer_queue \<Rightarrow> 'cb timer_queue \<Rightarrow> bool" where
  "keeps_timers q q' \<longleftrightarrow>
     (\<forall>p t. m_Timers q p = Some t \<longrightarrow> m_Timers q' p = Some t) \<and>
     (\<forall>c \<in> set (m_CancelTimers q'). c \<in> set (m_CancelTimers q) \<or> snd c = 0) \<and>
     m_Queued q' = m_Queued q"

lemma keeps_timers_refl [simp]: "keeps_timers q q"
  by (simp add: keeps_timers_def)

lemma keeps_timers_trans: "keeps_timers a b \<Longrightarrow> keeps_timers b c \<Longrightarrow> keeps_timers a c"
  unfolding keeps_timers_def by auto

lemma TimerQueue_insert_frame:
  assumes "TimerQueue_insert True p q = Inr (b, q')"
  shows "m_Timers q' = m_Timers q \<and> m_CancelTimers q' = m_CancelTimers q \<and> m_Queued q' = m_Queued q"
proof -
  obtain t where t: "m_Timers q p = Some t"
    using assms by (cases "m_Timers q p") (simp_all add: TimerQueue_insert_def check_def split: if_splits)
  obtain l n1 where 1: "oset_insert (m_Expiration t, p) (m_TimerList q) = (l, n1)"
    by (cases "oset_insert (m_Expiration t, p) (m_TimerList q)")
  obtain a n2 where 2: "oset_insert (p, m_Sequence t) (m_ActiveTimers q) = (a, n2)"
    by (cases "oset_insert (p, m_Sequence t) (m_ActiveTimers q)")
  from assms have "q' = q\<lparr>m_TimerList := l, m_ActiveTimers := a\<rparr>"
    by (simp add: TimerQueue_insert_def t 1 2 check_Inr)
  then show ?thesis by simp
qed

lemma insert_keeps_timers:
  assumes "TimerQueue_addTimerInLoop True clk p q = Inr q'"
  shows "m_Timers q' = m_Timers q \<and> m_CancelTimers q' = m_CancelTimers q \<and> m_Queued q' = m_Queued q"
proof -
  from assms obtain b q1 where ins: "TimerQueue_insert True p q = Inr (b, q1)"
    by (auto simp: TimerQueue_addTimerInLoop_def rbind_Inr)
  with assms have "q' = q1 \<or> (\<exists>w. q' = resetTimerFd clk w q1)"
    by (cases b; cases "m_Timers q1 p") (auto simp: TimerQueue_addTimerInLoop_def)
  with TimerQueue_insert_frame [OF ins] show ?thesis by (auto simp: resetTimerFd_def)
qed

lemma AddTimer_frame:
  assumes "TimerQueue_AddTimer alloc True clk cb w d q = Inr (tid, q')" and "allocator_ok alloc"
  shows "keeps_timers q q'"
proof -
  obtain p where p: "alloc (m_Timers q) = Some p"
    using assms(1) by (cases "alloc (m_Timers q)") (simp_all add: TimerQueue_AddTimer_def)
  have "TimerQueue_addTimerInLoop True clk p (with_new p (Timer_new cb w d (s_NumCreated q + 1)) q) = Inr q'"
    using assms(1) by (simp add: TimerQueue_AddTimer_def p with_new_def Let_def rbind_Inr)
  note frame = insert_keeps_timers [OF this]
  from assms(2) p have "m_Timers q p = None" by (simp add: allocator_ok_def)
  then show ?thesis using frame by (simp add: keeps_timers_def)
qed

lemma call_keeps_timers:
  assumes "tq_inv D q" and "allocator_ok alloc" and "issued_only c" and "do_timer_call alloc c q = Inr q'"
  shows "keeps_timers q q'"
proof (cases c)
  case (CallAdd clk cb w d)
  with assms(4) obtain tid where "TimerQueue_AddTimer alloc True clk cb w d q = Inr (tid, q')"
    by (cases "TimerQueue_AddTimer alloc True clk cb w d q") (auto simp: split_beta)
  then show ?thesis using assms(2) by (rule AddTimer_frame)
next
  case (CallCancel tid)
  with assms(3) have "m_Seq tid = 0" by simp
  from cancel_seq0 [OF assms(1) this] obtain l where
    l: "TimerQueue_cancelInLoop True tid q = Inr (q\<lparr>m_CancelTimers := l\<rparr>)"
    "set l = set (m_CancelTimers q) \<or> set l = insert (m_pTimer tid, 0) (set (m_CancelTimers q))"
    by blast
  from assms(4) CallCancel l(1) have "q' = q\<lparr>m_CancelTimers := l\<rparr>"
    by (simp add: TimerQueue_Cancel_def)
  with l(2) show ?thesis by (auto simp: keeps_timers_def)
qed

lemma run_keeps_timers:
  assumes "tq_inv D q" and "allocator_ok alloc" and "\<And>cb c. c \<in> set (body cb) \<Longrightarrow> issued_only c"
    and "rfold (Timer_Run alloc body) es q = Inr q'" and "snd ` set es \<subseteq> D"
  shows "keeps_timers q q'"
proof -
  have call: "keeps_timers q s' \<and> tq_inv D s'"
    if "issued_only c" "keeps_timers q s \<and> tq_inv D s" "do_timer_call alloc c s = Inr s'" for c s s'
  proof
    from that have s: "keeps_timers q s" "tq_inv D s" by simp_all
    from call_keeps_timers [OF s(2) assms(2) that(1,3)] show "keeps_timers q s'"
      by (rule keeps_timers_trans [OF s(1)])
    from do_timer_call_ok [OF s(2) assms(2), of c] that(3) show "tq_inv D s'" by simp
  qed
  have run: "keeps_timers q s' \<and> tq_inv D s'"
    if s: "keeps_timers q s \<and> tq_inv D s" and r: "Timer_Run alloc body e s = Inr s'" for e s s'
  proof -
    from r obtain t where "m_Timers s (snd e) = Some t"
      by (cases "m_Timers s (snd e)") (simp_all add: Timer_Run_def)
    with r have f: "rfold (do_timer_call alloc) (body (m_CallBack t)) s = Inr s'"
      by (simp add: Timer_Run_def)
    have step: "keeps_timers q y \<and> tq_inv D y"
      if "c \<in> set (body (m_CallBack t))" "keeps_timers q x \<and> tq_inv D x"
        "do_timer_call alloc c x = Inr y" for c x y
      using call [OF assms(3) [OF that(1)] that(2,3)] .
    show ?thesis
      by (rule rfold_invariant [where P = "\<lambda>x. keeps_timers q x \<and> tq_inv D x", OF f s step])
  qed
  have "keeps_timers q q' \<and> tq_inv D q'"
    by (rule rfold_invariant [where P = "\<lambda>x. keeps_timers q x \<and> tq_inv D x", OF assms(4)])
      (simp add: assms(1), erule (1) run)
  then show ?thesis by blast
qed

text \<open>The three parts of a \<open>handleRead\<close> that returned, with what each did.\<close>

lemma handleRead_parts:
  assumes inv: "tq_inv {} q" and alloc: "allocator_ok alloc"
    and r: "TimerQueue_handleRead alloc body True now clk q = Inr q'"
  obtains q1 q2 where "TimerQueue_getExpired now (readTimerFd q) = Inr (expired now q, q1)"
    and "tq_inv (snd ` set (expired now q)) q1" and "m_Timers q1 = m_Timers q"
    and "m_Queued q1 = m_Queued q" and "m_TimerFd q1 = None"
    and "m_TimerList q1 = filter (\<lambda>e. \<not> fst e \<le> now) (m_TimerList q)"
    and "rfold (Timer_Run alloc body) (expired now q)
           (q1\<lparr>m_bCallingExpiredTimer := True, m_CancelTimers := []\<rparr>) = Inr q2"
    and "tq_inv (snd ` set (expired now q)) q2"
    and "TimerQueue_reset clk now (expired now q) (q2\<lparr>m_bCallingExpiredTimer := False\<rparr>) = Inr q'"
proof -
  let ?E = "expired now q" and ?D = "snd ` set (expired now q)"
  have i: "tq_inv {} (readTimerFd q)" using inv by simp
  have E: "expired now (readTimerFd q) = ?E" by (simp add: expired_def)
  from getExpired_ok [OF i, of now] obtain q1 where
    q1: "TimerQueue_getExpired now (readTimerFd q) = Inr (?E, q1)" "tq_inv ?D q1"
      "m_Timers q1 = m_Timers q" "m_Queued q1 = m_Queued q" "m_TimerFd q1 = None"
      "m_TimerList q1 = filter (\<lambda>e. \<not> fst e \<le> now) (m_TimerList q)"
    by (auto simp: E)
  let ?q1 = "q1\<lparr>m_bCallingExpiredTimer := True, m_CancelTimers := []\<rparr>"
  from r q1(1) obtain q2 where q2: "rfold (Timer_Run alloc body) ?E ?q1 = Inr q2"
    "TimerQueue_reset clk now ?E (q2\<lparr>m_bCallingExpiredTimer := False\<rparr>) = Inr q'"
    by (auto simp: TimerQueue_handleRead_def rbind_Inr)
  have "ensures {BadAlloc} (tq_inv ?D) (rfold (Timer_Run alloc body) ?E ?q1)"
    using q1 alloc by (intro ensures_rfold Timer_Run_ok) auto
  with q2 that q1 show thesis by simp
qed

lemma tq_live_listed:
  assumes "tq_inv {} q" and "m_Timers q p = Some t" and "p \<notin> set (queued q)"
  shows "(m_Expiration t, p) \<in> set (m_TimerList q)"
proof -
  from assms have "p \<in> listed q" unfolding tq_inv_def by (auto simp: dom_def)
  then obtain w where w: "(w, p) \<in> set (m_TimerList q)" by (auto simp: listed_def)
  from tq_entry [OF assms(1) this] assms(2) w show ?thesis by auto
qed

lemma handleRead_timer:
  assumes inv: "tq_inv {} q" and alloc: "allocator_ok alloc"
    and ids: "\<forall>cb. \<forall>c \<in> set (body cb). issued_only c"
    and r: "TimerQueue_handleRead alloc body True now clk q = Inr q'"
    and e: "(w, p) \<in> set (m_TimerList q)" and t: "m_Timers q p = Some t"
  shows "if now < w then m_Timers q' p = Some t \<and> (w, p) \<in> set (m_TimerList q')
    else if m_bRepeat t
    then m_Timers q' p = Some (Timer_Restart now t) \<and>
      (AddTime now (m_dInterval t), p) \<in> set (m_TimerList q')
    else m_Timers q' p = None"
proof -
  let ?E = "expired now q" and ?D = "snd ` set (expired now q)"
  from inv alloc r obtain q1 q2 where q1: "tq_inv ?D q1" "m_Timers q1 = m_Timers q"
      "m_Queued q1 = m_Queued q"
    and run: "rfold (Timer_Run alloc body) ?E (q1\<lparr>m_bCallingExpiredTimer := True, m_CancelTimers := []\<rparr>) = Inr q2"
    and q2: "tq_inv ?D q2"
    and rst: "TimerQueue_reset clk now ?E (q2\<lparr>m_bCallingExpiredTimer := False\<rparr>) = Inr q'"
    by (rule handleRead_parts) blast
  have "keeps_timers (q1\<lparr>m_bCallingExpiredTimer := True, m_CancelTimers := []\<rparr>) q2"
    using ids by (intro run_keeps_timers [OF _ alloc _ run subset_refl]) (auto simp: q1(1))
  then have k: "m_Timers q2 p = Some t" "m_Queued q2 = m_Queued q"
    "\<forall>c \<in> set (m_CancelTimers q2). snd c = 0"
    using t q1 by (auto simp: keeps_timers_def)
  have "tq_inv ?D (q2\<lparr>m_bCallingExpiredTimer := False\<rparr>)" using q2 by simp
  from TimerQueue_reset_ok [OF this expired_distinct [OF inv], of clk now] rst
  have q': "tq_inv {} q'" "m_Queued q' = m_Queued q"
    "m_Timers q' = reset_heap now (set (m_CancelTimers q2)) ?D (m_Timers q2)"
    using k(2) by auto
  have w: "m_Expiration t = w" using tq_entry [OF inv e] t by auto
  have seq: "(p, m_Sequence t) \<notin> set (m_CancelTimers q2)"
    using k(3) inv t by (fastforce simp: tq_inv_def)
  have nq: "p \<notin> set (queued q')"
  proof -
    have "p \<in> listed q" using e by (force simp: listed_def)
    with inv have "p \<notin> set (queued q)" unfolding tq_inv_def by auto
    then show ?thesis using q'(2) by (simp add: queued_def)
  qed
  have pD: "p \<in> ?D \<longleftrightarrow> \<not> now < w"
  proof
    assume "p \<in> ?D"
    then obtain w' where "(w', p) \<in> set (m_TimerList q)" "w' \<le> now" by (auto simp: expired_def)
    with tq_entry [OF inv this(1)] t w show "\<not> now < w" by auto
  next
    assume "\<not> now < w"
    with e show "p \<in> ?D" by (force simp: expired_def)
  qed
  consider "now < w" | "\<not> now < w" "m_bRepeat t" | "\<not> now < w" "\<not> m_bRepeat t" by blast
  then show ?thesis
  proof cases
    case 1
    with pD k(1) q'(3) have "m_Timers q' p = Some t" by (simp add: reset_heap_def)
    with tq_live_listed [OF q'(1) _ nq] 1 w show ?thesis by auto
  next
    case 2
    with pD k(1) q'(3) seq have "m_Timers q' p = Some (Timer_Restart now t)"
      by (simp add: reset_heap_def)
    with tq_live_listed [OF q'(1) _ nq] 2 show ?thesis by (auto simp: Timer_Restart_def)
  next
    case 3
    with pD k(1) q'(3) seq show ?thesis by (simp add: reset_heap_def)
  qed
qed

section \<open>The armed descriptor\<close>

definition armed :: "'cb timer_queue \<Rightarrow> bool" where
  "armed q \<longleftrightarrow>
     (\<forall>e \<in> set (m_TimerList q). case m_TimerFd q of None \<Rightarrow> False | Some (x, _) \<Rightarrow> x \<le> fst e)"

text \<open>While the callbacks run the descriptor may be unarmed, if \<open>reset\<close> will arm it.\<close>

definition armed_or_valid :: "'cb timer_queue \<Rightarrow> bool" where
  "armed_or_valid q \<longleftrightarrow> armed q \<or> (\<forall>e \<in> set (m_TimerList q). TimeStamp_IsValid (fst e))"

lemma armed_subset:
  assumes "set (m_TimerList q') \<subseteq> set (m_TimerList q)" and "m_TimerFd q' = m_TimerFd q"
  shows "armed q \<Longrightarrow> armed q'" and "armed_or_valid q \<Longrightarrow> armed_or_valid q'"
  using assms by (auto simp: armed_or_valid_def armed_def)

lemma tq_head_first:
  assumes "tq_inv D q" and "e \<in> set (m_TimerList q)"
  shows "hd (m_TimerList q) \<in> set (m_TimerList q)" and "fst (hd (m_TimerList q)) \<le> fst e"
proof -
  obtain h es where l: "m_TimerList q = h # es" using assms(2) by (cases "m_TimerList q") auto
  then show "hd (m_TimerList q) \<in> set (m_TimerList q)" by simp
  have "sorted (h # es)" using assms(1) l by (simp add: tq_inv_def oset_def)
  with assms(2) l have "h \<le> e" by auto
  then show "fst (hd (m_TimerList q)) \<le> fst e" using l by (auto simp: less_eq_prod_def)
qed

lemma IsValid_mono: "TimeStamp_IsValid a \<Longrightarrow> a \<le> b \<Longrightarrow> TimeStamp_IsValid b"
  by (cases a; cases b) (simp add: TimeStamp_IsValid_def)

lemma addTimerInLoop_armed:
  assumes inv: "tq_inv D q" and "p \<in> D" and t: "m_Timers q p = Some t"
    and r: "TimerQueue_addTimerInLoop True clk p q = Inr q'"
  shows "armed q \<Longrightarrow> armed q'" and "armed_or_valid q \<Longrightarrow> armed_or_valid q'"
proof -
  let ?w = "m_Expiration t" and ?l = "m_TimerList q"
  note first = tq_head_first [OF inv]
  have q': "q' = (if ?l = [] \<or> ?w < fst (hd ?l) then resetTimerFd clk ?w (enlist p t q) else enlist p t q)"
    using r insert_ok [OF assms(1-3)] t by (auto simp: TimerQueue_addTimerInLoop_def)
  have l': "set (m_TimerList q') = insert (?w, p) (set ?l)"
    using q' by (auto simp: resetTimerFd_def set_insort_key)
  have new: "armed q'" if "?l = [] \<or> ?w < fst (hd ?l)"
    unfolding armed_def l'
  proof
    fix e
    assume e: "e \<in> insert (?w, p) (set ?l)"
    from that q' have fd: "m_TimerFd q' = Some (?w, howMuchTimeFromNow clk ?w)"
      by (simp add: resetTimerFd_def)
    show "case m_TimerFd q' of None \<Rightarrow> False | Some (x, _) \<Rightarrow> x \<le> fst e"
      using e that first(2) [of e] unfolding fd by (auto intro: order.trans [OF less_imp_le])
  qed
  show "armed q'" if a: "armed q"
  proof (cases "?l = [] \<or> ?w < fst (hd ?l)")
    case True
    then show ?thesis by (rule new)
  next
    case False
    then have h: "hd ?l \<in> set ?l" "fst (hd ?l) \<le> ?w" by auto
    with a obtain x r where "m_TimerFd q = Some (x, r)" "x \<le> fst (hd ?l)"
      by (fastforce simp: armed_def split: option.splits)
    moreover from False q' have "m_TimerFd q' = m_TimerFd q" by simp
    ultimately show ?thesis using a h l' by (auto simp: armed_def)
  qed
  then show "armed_or_valid q'" if "armed_or_valid q"
    using that unfolding armed_or_valid_def
  proof (elim disjE)
    assume v: "\<forall>e \<in> set ?l. TimeStamp_IsValid (fst e)"
    show "armed q' \<or> (\<forall>e \<in> set (m_TimerList q'). TimeStamp_IsValid (fst e))"
    proof (cases "?l = [] \<or> ?w < fst (hd ?l)")
      case True
      then show ?thesis using new by blast
    next
      case False
      then have h: "hd ?l \<in> set ?l" "fst (hd ?l) \<le> ?w" by auto
      with v have "TimeStamp_IsValid ?w" by (blast intro: IsValid_mono)
      with v show ?thesis by (simp add: l')
    qed
  qed simp
qed

lemma AddTimer_armed:
  assumes inv: "tq_inv D q" and alloc: "allocator_ok alloc"
    and r: "TimerQueue_AddTimer alloc inLoop clk cb w d q = Inr (tid, q')"
  shows "armed q \<Longrightarrow> armed q'" and "armed_or_valid q \<Longrightarrow> armed_or_valid q'"
proof -
  obtain p where p: "alloc (m_Timers q) = Some p"
    using r by (cases "alloc (m_Timers q)") (simp_all add: TimerQueue_AddTimer_def)
  let ?t = "Timer_new cb w d (s_NumCreated q + 1)"
  let ?q = "with_new p ?t q"
  have f: "m_Timers q p = None" "p < UINTPTR_MAX" using alloc p by (auto simp: allocator_ok_def)
  have i: "tq_inv (insert p D) ?q" by (rule with_new_inv [OF inv f]) (simp_all add: Timer_new_def)
  have a: "armed ?q = armed q" "armed_or_valid ?q = armed_or_valid q"
    by (simp_all add: armed_def armed_or_valid_def)
  have t: "m_Timers ?q p = Some ?t" by simp
  have q': "(if inLoop then TimerQueue_addTimerInLoop True clk p ?q
      else Inr (?q\<lparr>m_Queued := m_Queued ?q @ [AddTimerInLoop p]\<rparr>)) = Inr q'"
    using r by (cases inLoop) (simp_all add: TimerQueue_AddTimer_def p with_new_def Let_def rbind_Inr)
  show "armed q'" if "armed q"
    using q' addTimerInLoop_armed(1) [OF i _ t] a that by (cases inLoop) (auto simp: armed_def)
  show "armed_or_valid q'" if "armed_or_valid q"
    using q' addTimerInLoop_armed(2) [OF i _ t] a that
    by (cases inLoop) (auto simp: armed_or_valid_def armed_def)
qed

lemma do_timer_call_armed:
  assumes "tq_inv D q" and "allocator_ok alloc" and "do_timer_call alloc c q = Inr q'"
    and "armed_or_valid q"
  shows "armed_or_valid q'"
proof (cases c)
  case (CallAdd clk cb w d)
  with assms(3) obtain tid where "TimerQueue_AddTimer alloc True clk cb w d q = Inr (tid, q')"
    by (cases "TimerQueue_AddTimer alloc True clk cb w d q") (auto simp: split_beta)
  from AddTimer_armed(2) [OF assms(1,2) this assms(4)] show ?thesis .
next
  case (CallCancel tid)
  with assms(3) cancelInLoop_ok [OF assms(1), of tid]
  have "set (m_TimerList q') \<subseteq> set (m_TimerList q)" "m_TimerFd q' = m_TimerFd q"
    by (auto simp: TimerQueue_Cancel_def)
  from armed_subset(2) [OF this assms(4)] show ?thesis .
qed

lemma Timer_Run_armed:
  assumes "tq_inv D q" and alloc: "allocator_ok alloc" and r: "Timer_Run alloc body e q = Inr q'"
    and "armed_or_valid q"
  shows "tq_inv D q' \<and> armed_or_valid q'"
proof -
  from r obtain t where "m_Timers q (snd e) = Some t"
    by (cases "m_Timers q (snd e)") (simp_all add: Timer_Run_def)
  with r have f: "rfold (do_timer_call alloc) (body (m_CallBack t)) q = Inr q'"
    by (simp add: Timer_Run_def)
  have s: "tq_inv D q \<and> armed_or_valid q" using assms by simp
  have step: "tq_inv D y \<and> armed_or_valid y"
    if "c \<in> set (body (m_CallBack t))" "tq_inv D x \<and> armed_or_valid x" "do_timer_call alloc c x = Inr y"
    for c x y
    using that do_timer_call_armed [of D x alloc c y] do_timer_call_ok [of D x alloc c] alloc by simp
  show ?thesis
    by (rule rfold_invariant [where P = "\<lambda>x. tq_inv D x \<and> armed_or_valid x", OF f s step])
qed

text \<open>After \<open>reset\<close> every entry is an old one or a repeating timer due after \<open>now\<close>.\<close>

lemma reset_entries:
  assumes q: "tq_inv D q" and q': "tq_inv {} q'" "m_Queued q' = m_Queued q"
      "m_Timers q' = reset_heap now c D (m_Timers q)"
    and e: "(w, p) \<in> set (m_TimerList q')"
  shows "(w, p) \<in> set (m_TimerList q) \<or> now \<le> w"
proof (cases "p \<in> D")
  case True
  from tq_entry [OF q'(1) e] obtain t' where t': "m_Timers q' p = Some t'" "m_Expiration t' = w" by blast
  with True q'(3) obtain t where t: "m_Timers q p = Some t" "m_bRepeat t" "t' = Timer_Restart now t"
    by (auto simp: reset_heap_def split: option.splits if_splits)
  with q have "0 < m_dInterval t" by (auto simp: tq_inv_def)
  with t t' AddTime_mono [of "m_dInterval t" now] show ?thesis by (auto simp: Timer_Restart_def)
next
  case False
  from tq_entry [OF q'(1) e] obtain t where t: "m_Timers q' p = Some t" "m_Expiration t = w" by blast
  with False q'(3) have tq: "m_Timers q p = Some t" by (simp add: reset_heap_def)
  have "p \<in> listed q'" using e by (force simp: listed_def)
  with q'(1) have "p \<notin> set (queued q')" unfolding tq_inv_def by auto
  with q'(2) have "p \<notin> set (queued q)" by (simp add: queued_def)
  with False q tq have "p \<in> listed q" unfolding tq_inv_def by (auto simp: dom_def)
  then obtain w' where "(w', p) \<in> set (m_TimerList q)" by (auto simp: listed_def)
  with tq_entry [OF q this] tq t show ?thesis by auto
qed

lemma handleRead_armed:
  assumes inv: "tq_inv {} q" and alloc: "allocator_ok alloc" and now: "TimeStamp_IsValid now"
    and r: "TimerQueue_handleRead alloc body True now clk q = Inr q'"
  shows "armed q'"
proof -
  let ?E = "expired now q" and ?D = "snd ` set (expired now q)"
  from inv alloc r obtain q1 q2 where q1: "tq_inv ?D q1"
      "m_TimerList q1 = filter (\<lambda>e. \<not> fst e \<le> now) (m_TimerList q)"
    and run: "rfold (Timer_Run alloc body) ?E (q1\<lparr>m_bCallingExpiredTimer := True, m_CancelTimers := []\<rparr>) = Inr q2"
    and q2: "tq_inv ?D q2"
    and rst: "TimerQueue_reset clk now ?E (q2\<lparr>m_bCallingExpiredTimer := False\<rparr>) = Inr q'"
    by (rule handleRead_parts) blast
  have "armed_or_valid (q1\<lparr>m_bCallingExpiredTimer := True, m_CancelTimers := []\<rparr>)"
    using now by (auto simp: armed_or_valid_def q1(2) intro: IsValid_mono [OF now])
  with q1(1) have s: "tq_inv ?D (q1\<lparr>m_bCallingExpiredTimer := True, m_CancelTimers := []\<rparr>) \<and>
      armed_or_valid (q1\<lparr>m_bCallingExpiredTimer := True, m_CancelTimers := []\<rparr>)" by simp
  have step: "tq_inv ?D y \<and> armed_or_valid y"
    if "e \<in> set ?E" "tq_inv ?D x \<and> armed_or_valid x" "Timer_Run alloc body e x = Inr y" for e x y
    using that Timer_Run_armed [OF _ alloc, of ?D x body e y] by simp
  have av: "tq_inv ?D q2 \<and> armed_or_valid q2"
    by (rule rfold_invariant [where P = "\<lambda>x. tq_inv ?D x \<and> armed_or_valid x", OF run s step])
  have "tq_inv ?D (q2\<lparr>m_bCallingExpiredTimer := False\<rparr>)" using q2 by simp
  from TimerQueue_reset_ok [OF this expired_distinct [OF inv], of clk now] rst
  have q': "tq_inv {} q'" "m_Queued q' = m_Queued q2"
    "m_Timers q' = reset_heap now (set (m_CancelTimers q2)) ?D (m_Timers q2)"
    "m_TimerList q' \<noteq> [] \<longrightarrow>
       (if TimeStamp_IsValid (fst (hd (m_TimerList q')))
        then \<exists>r. m_TimerFd q' = Some (fst (hd (m_TimerList q')), r)
        else m_TimerFd q' = m_TimerFd q2)" by auto
  note first = tq_head_first [OF q'(1)]
  show ?thesis
  proof (cases "m_TimerList q' = []")
    case True
    then show ?thesis by (simp add: armed_def)
  next
    case False
    let ?h = "hd (m_TimerList q')"
    show ?thesis
    proof (cases "TimeStamp_IsValid (fst ?h)")
      case True
      with False q'(4) obtain r where "m_TimerFd q' = Some (fst ?h, r)" by auto
      with first show ?thesis by (auto simp: armed_def)
    next
      case invalid: False
      from False have h: "(fst ?h, snd ?h) \<in> set (m_TimerList q')" by simp
      from reset_entries [OF q2 q'(1-3) h] invalid IsValid_mono [OF now]
      have old: "?h \<in> set (m_TimerList q2)" by auto
      with av invalid have "armed q2" by (auto simp: armed_or_valid_def)
      with old obtain x r where "m_TimerFd q2 = Some (x, r)" "x \<le> fst ?h"
        by (fastforce simp: armed_def split: option.splits)
      moreover have "m_TimerFd q' = m_TimerFd q2" using q'(4) False invalid by simp
      ultimately show ?thesis using first(2) by (auto simp: armed_def intro: order.trans)
    qed
  qed
qed

text \<open>The clock never reads the invalid time.\<close>

fun valid_clock :: "'cb tq_event \<Rightarrow> bool" where
  "valid_clock (EvRead now clk) = TimeStamp_IsValid now"
| "valid_clock _ = True"

lemma runQueued_armed:
  assumes inv: "tq_inv {} q" and a: "armed q" and r: "TimerQueue_runQueued clk q = Inr q'"
  shows "armed q'"
proof (cases "m_Queued q")
  case Nil
  with r a show ?thesis by (simp add: TimerQueue_runQueued_def)
next
  case (Cons f fs)
  let ?q = "q\<lparr>m_Queued := fs\<rparr>"
  have i: "tq_inv (set (functor_timers f)) ?q" using pop_queued_inv [OF inv Cons] by simp
  have a': "armed ?q" using a by (simp add: armed_def)
  show ?thesis
  proof (cases f)
    case (AddTimerInLoop p)
    with i have ip: "tq_inv {p} ?q" by simp
    obtain t where t: "m_Timers ?q p = Some t" using tq_inv_held [OF ip] by blast
    have "TimerQueue_addTimerInLoop True clk p ?q = Inr q'"
      using r Cons AddTimerInLoop by (simp add: TimerQueue_runQueued_def)
    from addTimerInLoop_armed(1) [OF ip _ t this a'] show ?thesis by simp
  next
    case (CancelInLoop tid)
    with r Cons i cancelInLoop_ok [of "{}" ?q tid] armed_subset(1) [of q' ?q] a' show ?thesis
      by (auto simp: TimerQueue_runQueued_def)
  qed
qed

lemma tq_exec_armed:
  assumes inv: "tq_inv {} q" and alloc: "allocator_ok alloc" and a: "armed q" and "valid_clock ev"
    and r: "tq_exec alloc body ev q = Inr q'"
  shows "armed q'"
proof (cases ev)
  case (EvAdd inLoop clk cb w d)
  with r obtain tid where "TimerQueue_AddTimer alloc inLoop clk cb w d q = Inr (tid, q')"
    by (cases "TimerQueue_AddTimer alloc inLoop clk cb w d q") (auto simp: split_beta)
  from AddTimer_armed(1) [OF inv alloc this a] show ?thesis .
next
  case (EvCancel inLoop tid)
  with r cancelInLoop_ok [OF inv, of tid] a armed_subset(1) [of q' q] show ?thesis
    by (cases inLoop) (auto simp: TimerQueue_Cancel_def armed_def)
next
  case (EvRunQueued clk)
  with r runQueued_armed [OF inv a] show ?thesis by simp
next
  case (EvRead now clk)
  with r assms(4) handleRead_armed [OF inv alloc] show ?thesis by simp
qed

interpretation armed_timers: invariant_system tq_start "tq_move alloc body valid_clock"
  "\<lambda>q. allocator_ok alloc \<longrightarrow> tq_inv {} q \<and> armed q" for alloc body
proof
  show "allocator_ok alloc \<longrightarrow> tq_inv {} q \<and> armed q" if "tq_start q" for q
    using that by (simp add: tq_start_def armed_def TimerQueue_init_def tq_inv_init [unfolded TimerQueue_init_def])
  show "allocator_ok alloc \<longrightarrow> tq_inv {} q' \<and> armed q'"
    if m: "tq_move alloc body valid_clock q q'" and k: "allocator_ok alloc \<longrightarrow> tq_inv {} q \<and> armed q" for q q'
  proof
    assume alloc: "allocator_ok alloc"
    from m obtain ev where ev: "valid_clock ev" "tq_exec alloc body ev q = Inr q'" by (elim tq_moveE)
    with k alloc tq_exec_ok [of q alloc body ev] tq_exec_armed [of q alloc ev body q']
    show "tq_inv {} q' \<and> armed q'" by simp
  qed
qed

section \<open>Properties\<close>

text \<open>
  C5: Whatever calls the program makes on a timer queue, in the loop's thread or another one and
  inside callbacks, no assertion fails, no freed timer is used, none is freed twice and none
  leaks: every further event keeps the invariant, or ends in \<open>std::bad_alloc\<close>.
\<close>

theorem timers_never_fault:
  assumes "reach tq_start (tq_move alloc body allowed) q" and "allocator_ok alloc"
  shows "ensures {BadAlloc} (tq_inv {}) (tq_exec alloc body ev q)"
  using tq_exec_ok [OF tq_reach_inv [OF assms] assms(2)] .

definition first_free :: "nat \<Rightarrow> 'cb allocator" where
  "first_free p h = (if h p = None then Some p else if h (p + 1) = None then Some (p + 1) else None)"

lemma allocator_first_free: "p + 1 < UINTPTR_MAX \<Longrightarrow> allocator_ok (first_free p)"
  by (auto simp: allocator_ok_def first_free_def split: if_splits)

text \<open>A concrete queue: a repeating timer at 5 and a one-shot timer at 900, both running \<open>cb\<close>.\<close>

definition two_timers :: "nat timer_queue" where
  "two_timers =
     \<lparr>m_TimerList = [(TimeStamp 5, 1), (TimeStamp 900, 2)], m_bCallingExpiredTimer = False,
      m_ActiveTimers = [(1, 1), (2, 2)], m_CancelTimers = [],
      m_TimerFd = Some (TimeStamp 5, 0, 100000),
      m_Timers = [1 \<mapsto> Timer_new 7 (TimeStamp 5) 1 1, 2 \<mapsto> Timer_new 8 (TimeStamp 900) 0 2],
      s_NumCreated = 2, m_Queued = []\<rparr>"

lemma two_timers_steps:
  "tq_exec (first_free 1) body (EvAdd True (TimeStamp 1) 7 (TimeStamp 5) 1) TimerQueue_init =
     Inr (two_timers\<lparr>m_TimerList := [(TimeStamp 5, 1)], m_ActiveTimers := [(1, 1)],
       m_Timers := [1 \<mapsto> Timer_new 7 (TimeStamp 5) 1 1], s_NumCreated := 1\<rparr>)"
  "tq_exec (first_free 1) body (EvAdd True (TimeStamp 1) 8 (TimeStamp 900) 0)
     (two_timers\<lparr>m_TimerList := [(TimeStamp 5, 1)], m_ActiveTimers := [(1, 1)],
       m_Timers := [1 \<mapsto> Timer_new 7 (TimeStamp 5) 1 1], s_NumCreated := 1\<rparr>) = Inr two_timers"
  by (simp_all add: TimerQueue_AddTimer_def first_free_def TimerQueue_init_def Timer_new_def
      TimerQueue_addTimerInLoop_def TimerQueue_insert_def Let_def resetTimerFd_def two_timers_def
      howMuchTimeFromNow_def c_div_def c_mod_def MICRO_SECOND_PER_SECOND_def less_eq_TimeStamp_def
      less_TimeStamp_def TimeStamp_lt_def numeral_2_eq_2)

lemma two_timers_reach: "reach tq_start (tq_move (first_free 1) body valid_clock) two_timers"
proof -
  have s: "reach tq_start (tq_move (first_free 1) body valid_clock) TimerQueue_init"
    by (rule reach_init) (simp add: tq_start_def)
  have "reach tq_start (tq_move (first_free 1) body valid_clock)
      (two_timers\<lparr>m_TimerList := [(TimeStamp 5, 1)], m_ActiveTimers := [(1, 1)],
         m_Timers := [1 \<mapsto> Timer_new 7 (TimeStamp 5) 1 1], s_NumCreated := 1\<rparr>)"
    by (rule reach_step [OF s], rule tq_event [OF _ two_timers_steps(1)]) simp
  then show ?thesis
    by (rule reach_step, intro tq_event [OF _ two_timers_steps(2)]) simp
qed

text \<open>The callback 7 cancels the identifier it was given when it was added; 8 adds a timer.\<close>

fun demo_body :: "nat \<Rightarrow> nat timer_call list" where
  "demo_body cb = (if cb = 7 then [CallCancel (TimerId_of 1)] else [])"

theorem timers_never_fault_witness:
  "ensures {BadAlloc} (tq_inv {})
     (tq_exec (first_free 1) demo_body (EvRead (TimeStamp 100) (TimeStamp 100)) two_timers)"
  by (rule timers_never_fault [OF two_timers_reach allocator_first_free]) (simp add: UINTPTR_MAX_def)


definition two_timers_later :: "nat timer_queue" where
  "two_timers_later =
     \<lparr>m_TimerList = [(TimeStamp 900, 2), (TimeStamp 1000100, 1)], m_bCallingExpiredTimer = False,
      m_ActiveTimers = [(1, 1), (2, 2)], m_CancelTimers = [(1, 0)],
      m_TimerFd = Some (TimeStamp 900, 0, 800000),
      m_Timers = [1 \<mapsto> Timer_new 7 (TimeStamp 1000100) 1 1, 2 \<mapsto> Timer_new 8 (TimeStamp 900) 0 2],
      s_NumCreated = 2, m_Queued = []\<rparr>"

lemma two_timers_read:
  "TimerQueue_handleRead (first_free 1) demo_body True (TimeStamp 100) (TimeStamp 100) two_timers =
     Inr two_timers_later"
  by (simp add: TimerQueue_handleRead_def TimerQueue_getExpired_def two_timers_def Let_def
      UINTPTR_MAX_def readTimerFd_def Timer_new_def Timer_Run_def TimerQueue_Cancel_def TimerId_of_def
      TimerQueue_cancelInLoop_def TimerQueue_reset_def Timer_Restart_def TimerQueue_insert_def
      AddTime_def MICRO_SECOND_PER_SECOND_def trunc_rat_def TimeStamp_IsValid_def resetTimerFd_def
      howMuchTimeFromNow_def c_div_def c_mod_def oset_insert_def oset_erase_def two_timers_later_def
      less_TimeStamp_def TimeStamp_lt_def less_eq_TimeStamp_def fun_eq_iff)


text \<open>
  The identifier \<open>AddTimer\<close> returns carries the default sequence number 0 while sequence
  numbers start at 1, so cancelling it in the loop's thread takes no timer away: the lists and
  the heap are as before, and the timer stays live and listed.
\<close>

theorem Cancel_returned_id_keeps_timer:
  assumes "reach tq_start (tq_move alloc body allowed) q" and "allocator_ok alloc"
    and "TimerQueue_AddTimer alloc True clk cb w d q = Inr (tid, q1)"
  shows "\<exists>c. TimerQueue_Cancel True tid q1 = Inr (q1\<lparr>m_CancelTimers := c\<rparr>) \<and>
    m_Timers q1 (m_pTimer tid) = Some (Timer_new cb w d (s_NumCreated q + 1)) \<and>
    (w, m_pTimer tid) \<in> set (m_TimerList (q1\<lparr>m_CancelTimers := c\<rparr>))"
proof -
  note inv = tq_reach_inv [OF assms(1,2)]
  obtain p where p: "alloc (m_Timers q) = Some p"
    using assms(3) by (cases "alloc (m_Timers q)") (simp_all add: TimerQueue_AddTimer_def)
  let ?t = "Timer_new cb w d (s_NumCreated q + 1)"
  have f: "m_Timers q p = None" "p < UINTPTR_MAX" using assms(2) p by (auto simp: allocator_ok_def)
  have i: "tq_inv {p} (with_new p ?t q)"
    by (rule with_new_inv [OF inv f]) (simp_all add: Timer_new_def)
  have q1: "TimerQueue_addTimerInLoop True clk p (with_new p ?t q) = Inr q1" and tid: "tid = TimerId_of p"
    using assms(3) by (simp_all add: TimerQueue_AddTimer_def p with_new_def Let_def rbind_Inr)
  have t: "m_Timers (with_new p ?t q) p = Some ?t" by simp
  from q1 insert_ok [OF i _ t] have
    q1': "q1 = enlist p ?t (with_new p ?t q) \<or>
      q1 = resetTimerFd clk (m_Expiration ?t) (enlist p ?t (with_new p ?t q))"
    by (auto simp: TimerQueue_addTimerInLoop_def split: if_splits)
  have "tq_inv {} q1"
    using addTimerInLoop_ok [OF i _ t, of clk] q1 by simp
  from cancel_seq0 [OF this, of tid] tid obtain c where
    "TimerQueue_Cancel True tid q1 = Inr (q1\<lparr>m_CancelTimers := c\<rparr>)"
    by (auto simp: TimerQueue_Cancel_def TimerId_of_def)
  moreover have "(w, p) \<in> set (m_TimerList q1)" "m_Timers q1 p = Some ?t"
    using q1' by (auto simp: resetTimerFd_def set_insort_key Timer_new_def)
  ultimately show ?thesis using tid by (auto simp: TimerId_of_def)
qed

theorem Cancel_returned_id_keeps_timer_witness:
  "\<exists>q1 c. TimerQueue_AddTimer (first_free 1) True (TimeStamp 1) (7 :: nat) (TimeStamp 5) 1
     TimerQueue_init = Inr (TimerId_of 1, q1) \<and>
   TimerQueue_Cancel True (TimerId_of 1) q1 = Inr (q1\<lparr>m_CancelTimers := c\<rparr>)"
proof -
  have s: "reach tq_start (tq_move (first_free 1) demo_body valid_clock) TimerQueue_init"
    by (rule reach_init) (simp add: tq_start_def)
  have a: "allocator_ok (first_free 1)" by (rule allocator_first_free) (simp add: UINTPTR_MAX_def)
  obtain q1 where q1: "TimerQueue_AddTimer (first_free 1) True (TimeStamp 1) (7 :: nat) (TimeStamp 5) 1
      TimerQueue_init = Inr (TimerId_of 1, q1)"
    by (simp add: TimerQueue_AddTimer_def first_free_def TimerQueue_init_def Timer_new_def
        TimerQueue_addTimerInLoop_def TimerQueue_insert_def Let_def)
  from Cancel_returned_id_keeps_timer [OF s a q1] q1 show ?thesis by blast
qed



text \<open>
  The relative time the descriptor is armed with is the time left, or 100 microseconds when
  less is left or the expiration has passed; its seconds are not negative and its nanoseconds
  lie in a second, as \<open>timerfd_settime\<close> requires, and it is never zero, which would disarm it.
\<close>

theorem howMuchTimeFromNow_valid:
  "case howMuchTimeFromNow clk w of (sec, nsec) \<Rightarrow>
     0 \<le> sec \<and> 0 \<le> nsec \<and> nsec < 1000000000 \<and>
     sec * 1000000000 + nsec =
       1000 * max 100 (m_MicroSecondsSinceEpoch w - m_MicroSecondsSinceEpoch clk)"
proof -
  define d where "d = max 100 (m_MicroSecondsSinceEpoch w - m_MicroSecondsSinceEpoch clk)"
  have d: "100 \<le> d" by (simp add: d_def)
  have h: "howMuchTimeFromNow clk w = (c_div d 1000000, c_mod d 1000000 * 1000)"
    unfolding howMuchTimeFromNow_def Let_def MICRO_SECOND_PER_SECOND_def d_def max_def by simp
  have "c_div d 1000000 = d div 1000000" "c_mod d 1000000 = d mod 1000000"
    using d by (simp_all add: c_mod_def minus_div_mult_eq_mod)
  moreover have "d div 1000000 * 1000000000 + d mod 1000000 * 1000 = 1000 * d" by presburger
  moreover have "0 \<le> d mod 1000000" "d mod 1000000 < 1000000" "0 \<le> d div 1000000"
    using d by (simp_all add: pos_imp_zdiv_nonneg_iff)
  ultimately show ?thesis unfolding h d_def [symmetric] by simp
qed

end
