(* ===== verification/EventLoops.thy ===== *)
theory EventLoops
  imports EPollers TimerQueues
begin

text \<open>
  \<open>reactor/EventLoop\<close>: one thread that polls, dispatches the active channels and then runs the
  functors queued for it. Its state extends the store of channels and the poller. A functor is
  a value of a type \<open>'f\<close> and a callback one of \<open>'cb\<close>; what running them does is an argument. The
  last sections run the loop's thread against other threads that queue functors.
\<close>

section \<open>The loop\<close>

text \<open>\<open>l_nWakeUp\<close> is the counter of the \<open>eventfd\<close> behind \<open>m_nWakeUpFd\<close>.\<close>

record ('cb, 'k, 'f) event_loop = "('cb, 'k) epoll_store" +
  l_bLooping :: bool
  l_bQuit :: bool
  l_PollReturnTime :: TimeStamp
  l_bCallingFunctors :: bool
  l_nWakeUp :: nat
  l_ActiveChannels :: "nat list"
  l_vPendingFunctors :: "'f list"

definition EventLoop_IsInLoopThread :: "nat \<Rightarrow> ('cb, 'k, 'a) epoll_store_scheme \<Rightarrow> bool" where
  "EventLoop_IsInLoopThread tid s \<longleftrightarrow> tid = s_ThreadId s"

definition EventLoop_AssertInLoopThread ::
    "nat \<Rightarrow> ('cb, 'k, 'a) epoll_store_scheme \<Rightarrow> 'b res \<Rightarrow> 'b res" where
  "EventLoop_AssertInLoopThread tid s r = assert_in_loop (EventLoop_IsInLoopThread tid s) r"

lemma AssertInLoopThread_own [simp]: "EventLoop_AssertInLoopThread (s_ThreadId s) s r = r"
  by (simp add: EventLoop_AssertInLoopThread_def EventLoop_IsInLoopThread_def)

definition EventLoop_UpdateChannel ::
    "'k epoll_ctl \<Rightarrow> nat \<Rightarrow> nat \<Rightarrow> ('cb, 'k, 'a) epoll_store_scheme \<Rightarrow>
     ('cb, 'k, 'a) epoll_store_scheme res" where
  "EventLoop_UpdateChannel ctl tid c s =
     with_chan c s (\<lambda>ch. check (ch_pEventLoop ch = s_Self s)
       (EventLoop_AssertInLoopThread tid s (EPoller_UpdateChannel ctl tid c s)))"

definition EventLoop_RemoveChannel ::
    "'k epoll_ctl \<Rightarrow> nat \<Rightarrow> nat \<Rightarrow> ('cb, 'k, 'a) epoll_store_scheme \<Rightarrow>
     ('cb, 'k, 'a) epoll_store_scheme res" where
  "EventLoop_RemoveChannel ctl tid c s =
     with_chan c s (\<lambda>ch. check (ch_pEventLoop ch = s_Self s)
       (EventLoop_AssertInLoopThread tid s (EPoller_RemoveChannel ctl tid c s)))"

text \<open>The operations of \<open>Channel\<close> that change its events and call \<open>update()\<close>.\<close>

definition Channel_update ::
    "'k epoll_ctl \<Rightarrow> nat \<Rightarrow> nat \<Rightarrow> ('cb, 'k, 'a) epoll_store_scheme \<Rightarrow>
     ('cb, 'k, 'a) epoll_store_scheme res" where
  "Channel_update ctl tid c s = EventLoop_UpdateChannel ctl tid c s"

definition Channel_EnableReading ::
    "'k epoll_ctl \<Rightarrow> nat \<Rightarrow> nat \<Rightarrow> ('cb, 'k, 'a) epoll_store_scheme \<Rightarrow>
     ('cb, 'k, 'a) epoll_store_scheme res" where
  "Channel_EnableReading ctl tid c s =
     with_chan c s (\<lambda>ch. Channel_update ctl tid c (put_chan c (enable_reading ch) s))"

definition Channel_EnableWriting ::
    "'k epoll_ctl \<Rightarrow> nat \<Rightarrow> nat \<Rightarrow> ('cb, 'k, 'a) epoll_store_scheme \<Rightarrow>
     ('cb, 'k, 'a) epoll_store_scheme res" where
  "Channel_EnableWriting ctl tid c s =
     with_chan c s (\<lambda>ch. Channel_update ctl tid c (put_chan c (enable_writing ch) s))"

definition Channel_DisableWriting ::
    "'k epoll_ctl \<Rightarrow> nat \<Rightarrow> nat \<Rightarrow> ('cb, 'k, 'a) epoll_store_scheme \<Rightarrow>
     ('cb, 'k, 'a) epoll_store_scheme res" where
  "Channel_DisableWriting ctl tid c s =
     with_chan c s (\<lambda>ch. Channel_update ctl tid c (put_chan c (disable_writing ch) s))"

definition Channel_DisableAll ::
    "'k epoll_ctl \<Rightarrow> nat \<Rightarrow> nat \<Rightarrow> ('cb, 'k, 'a) epoll_store_scheme \<Rightarrow>
     ('cb, 'k, 'a) epoll_store_scheme res" where
  "Channel_DisableAll ctl tid c s =
     with_chan c s (\<lambda>ch. Channel_update ctl tid c (put_chan c (disable_all ch) s))"

lemmas Channel_change_defs = Channel_EnableReading_def Channel_EnableWriting_def
  Channel_DisableWriting_def Channel_DisableAll_def

text \<open>What each of them does, when the channel belongs to this loop and has its descriptor alone.\<close>

lemma Channel_change_ok:
  assumes inv: "ep_inv interest {} s" and c: "s_Channels s c = Some ch" "ch_pEventLoop ch = s_Self s"
    and own: "own_fd s c" and ctl: "epoll_ok ctl interest"
    and ch': "ch_Fd ch' = ch_Fd ch" "ch_nIndex ch' = ch_nIndex ch" "ch_pEventLoop ch' = ch_pEventLoop ch"
  shows "ensures {Aborted} (\<lambda>s'. ep_inv interest {} s' \<and>
      (\<exists>k. s' = told c (Channel_SetIndex (next_index ch') ch') k ((s_mpChannel s)(ch_Fd ch \<mapsto> c)) s))
    (Channel_update ctl (s_ThreadId s) c (put_chan c ch' s))"
proof -
  let ?s = "put_chan c ch' s"
  have i: "ep_inv interest {c} ?s" by (rule ep_inv_put_chan(1) [OF inv c(1) ch'(1,2)])
  have s: "s_Channels ?s c = Some ch'" by simp
  have "fd_of ?s = fd_of s" by (rule fd_of_upd [OF c(1) _ ch'(1)]) (simp add: s_Channels_put_chan)
  with own own_fd_cong have "own_fd ?s c" by metis
  note ok = UpdateChannel_ok [OF i s own_fd_fresh [OF i this s] ctl]
  have "Channel_update ctl (s_ThreadId s) c ?s = EPoller_UpdateChannel ctl (s_ThreadId ?s) c ?s"
    using c ch'(3)
    by (simp add: Channel_update_def EventLoop_UpdateChannel_def EventLoop_AssertInLoopThread_def
        EventLoop_IsInLoopThread_def)
  moreover have "told c (Channel_SetIndex (next_index ch') ch') k mp ?s =
      told c (Channel_SetIndex (next_index ch') ch') k mp s" for k mp
    by (simp add: told_def put_chan_def)
  ultimately show ?thesis using ok ch'(1) by (simp del: told_fields)
qed

section \<open>Functors from other threads\<close>

text \<open>\<open>WakeUp\<close> adds to the counter; a write that would overflow it fails with a log message.\<close>

definition EventLoop_WakeUp ::
    "('cb, 'k, 'f, 'a) event_loop_scheme \<Rightarrow> ('cb, 'k, 'f, 'a) event_loop_scheme" where
  "EventLoop_WakeUp s = (if l_nWakeUp s < 2 ^ 64 - 2 then s\<lparr>l_nWakeUp := l_nWakeUp s + 1\<rparr> else s)"

definition EventLoop_handleRead ::
    "('cb, 'k, 'f, 'a) event_loop_scheme \<Rightarrow> ('cb, 'k, 'f, 'a) event_loop_scheme" where
  "EventLoop_handleRead s = s\<lparr>l_nWakeUp := 0\<rparr>"

text \<open>\<open>QueueInLoop\<close> in its two steps: the push under the mutex, then the wake-up.\<close>

definition queue_push ::
    "'f \<Rightarrow> ('cb, 'k, 'f, 'a) event_loop_scheme \<Rightarrow> ('cb, 'k, 'f, 'a) event_loop_scheme" where
  "queue_push f s = s\<lparr>l_vPendingFunctors := l_vPendingFunctors s @ [f]\<rparr>"

definition queue_wake ::
    "nat \<Rightarrow> ('cb, 'k, 'f, 'a) event_loop_scheme \<Rightarrow> ('cb, 'k, 'f, 'a) event_loop_scheme" where
  "queue_wake tid s =
     (if \<not> EventLoop_IsInLoopThread tid s \<or> l_bCallingFunctors s then EventLoop_WakeUp s else s)"

definition EventLoop_QueueInLoop ::
    "nat \<Rightarrow> 'f \<Rightarrow> ('cb, 'k, 'f, 'a) event_loop_scheme \<Rightarrow> ('cb, 'k, 'f, 'a) event_loop_scheme" where
  "EventLoop_QueueInLoop tid f s = queue_wake tid (queue_push f s)"

definition EventLoop_RunInLoop ::
    "('f \<Rightarrow> ('cb, 'k, 'f, 'a) event_loop_scheme \<Rightarrow> ('cb, 'k, 'f, 'a) event_loop_scheme res) \<Rightarrow>
     nat \<Rightarrow> 'f \<Rightarrow> ('cb, 'k, 'f, 'a) event_loop_scheme \<Rightarrow> ('cb, 'k, 'f, 'a) event_loop_scheme res" where
  "EventLoop_RunInLoop run tid f s =
     (if EventLoop_IsInLoopThread tid s then run f s else Inr (EventLoop_QueueInLoop tid f s))"

definition EventLoop_Quit ::
    "nat \<Rightarrow> ('cb, 'k, 'f, 'a) event_loop_scheme \<Rightarrow> ('cb, 'k, 'f, 'a) event_loop_scheme" where
  "EventLoop_Quit tid s =
     (let s1 = s\<lparr>l_bQuit := True\<rparr>
      in if \<not> EventLoop_IsInLoopThread tid s1 then EventLoop_WakeUp s1 else s1)"

text \<open>\<open>doPendingFunctors\<close>, split where it takes the functors out.\<close>

definition take_functors ::
    "('cb, 'k, 'f, 'a) event_loop_scheme \<Rightarrow> 'f list \<times> ('cb, 'k, 'f, 'a) event_loop_scheme" where
  "take_functors s = (l_vPendingFunctors s, s\<lparr>l_bCallingFunctors := True, l_vPendingFunctors := []\<rparr>)"

definition EventLoop_doPendingFunctors ::
    "('f \<Rightarrow> ('cb, 'k, 'f, 'a) event_loop_scheme \<Rightarrow> ('cb, 'k, 'f, 'a) event_loop_scheme res) \<Rightarrow>
     ('cb, 'k, 'f, 'a) event_loop_scheme \<Rightarrow> ('cb, 'k, 'f, 'a) event_loop_scheme res" where
  "EventLoop_doPendingFunctors run s =
     (let (vFunctors, s1) = take_functors s
      in rbind (rfold run vFunctors s1) (\<lambda>s2. Inr (s2\<lparr>l_bCallingFunctors := False\<rparr>)))"

section \<open>Looping\<close>

text \<open>
  One turn of the loop, given what \<open>epoll_wait\<close> returns and the time then; and \<open>Loop\<close> on a list
  of such returns. When the list ends before \<open>Quit\<close> is seen the loop is still polling.
\<close>

definition EventLoop_turn ::
    "('cb \<Rightarrow> TimeStamp option \<Rightarrow> ('cb, 'k, 'f, 'a) event_loop_scheme \<Rightarrow> ('cb, 'k, 'f, 'a) event_loop_scheme res) \<Rightarrow>
     ('f \<Rightarrow> ('cb, 'k, 'f, 'a) event_loop_scheme \<Rightarrow> ('cb, 'k, 'f, 'a) event_loop_scheme res) \<Rightarrow>
     poll_result \<times> TimeStamp \<Rightarrow> ('cb, 'k, 'f, 'a) event_loop_scheme \<Rightarrow>
     ('cb, 'k, 'f, 'a) event_loop_scheme res" where
  "EventLoop_turn run_cb run p s =
     rbind (EPoller_Poll (fst p) [] s) (\<lambda>(active, s1).
     rbind (rfold (\<lambda>c. Channel_HandleEvent run_cb c (snd p)) active
              (s1\<lparr>l_PollReturnTime := snd p, l_ActiveChannels := active\<rparr>))
       (EventLoop_doPendingFunctors run))"

fun EventLoop_while ::
    "('cb \<Rightarrow> TimeStamp option \<Rightarrow> ('cb, 'k, 'f, 'a) event_loop_scheme \<Rightarrow> ('cb, 'k, 'f, 'a) event_loop_scheme res) \<Rightarrow>
     ('f \<Rightarrow> ('cb, 'k, 'f, 'a) event_loop_scheme \<Rightarrow> ('cb, 'k, 'f, 'a) event_loop_scheme res) \<Rightarrow>
     (poll_result \<times> TimeStamp) list \<Rightarrow> ('cb, 'k, 'f, 'a) event_loop_scheme \<Rightarrow>
     ('cb, 'k, 'f, 'a) event_loop_scheme res" where
  "EventLoop_while run_cb run [] s = Inr (if l_bQuit s then s\<lparr>l_bLooping := False\<rparr> else s)"
| "EventLoop_while run_cb run (p # ps) s =
     (if l_bQuit s then Inr (s\<lparr>l_bLooping := False\<rparr>)
      else rbind (EventLoop_turn run_cb run p s) (EventLoop_while run_cb run ps))"

definition EventLoop_Loop ::
    "('cb \<Rightarrow> TimeStamp option \<Rightarrow> ('cb, 'k, 'f, 'a) event_loop_scheme \<Rightarrow> ('cb, 'k, 'f, 'a) event_loop_scheme res) \<Rightarrow>
     ('f \<Rightarrow> ('cb, 'k, 'f, 'a) event_loop_scheme \<Rightarrow> ('cb, 'k, 'f, 'a) event_loop_scheme res) \<Rightarrow>
     nat \<Rightarrow> (poll_result \<times> TimeStamp) list \<Rightarrow> ('cb, 'k, 'f, 'a) event_loop_scheme \<Rightarrow>
     ('cb, 'k, 'f, 'a) event_loop_scheme res" where
  "EventLoop_Loop run_cb run tid ps s =
     check (\<not> l_bLooping s)
       (EventLoop_AssertInLoopThread tid s
         (EventLoop_while run_cb run ps (s\<lparr>l_bLooping := True, l_bQuit := False\<rparr>)))"

text \<open>The descriptor \<open>eventfd\<close> returns, which the constructor is given as that of \<open>wc\<close>.\<close>

definition createEventFd :: "int \<Rightarrow> int res" where
  "createEventFd nEvtFd = (if nEvtFd < 0 then Inl Aborted else Inr nEvtFd)"

text \<open>
  The constructor: it aborts when the thread already has a loop, and registers the channels of
  the timer descriptor (address \<open>tc\<close>) and of the wake-up descriptor (\<open>wc\<close>).
\<close>

definition EventLoop_new ::
    "'k epoll_ctl \<Rightarrow> nat option \<Rightarrow> nat \<Rightarrow> nat \<Rightarrow> 'k \<Rightarrow> nat \<times> int \<times> 'cb \<Rightarrow> nat \<times> int \<times> 'cb \<Rightarrow>
     ('cb, 'k, 'f) event_loop res" where
  "EventLoop_new ctl t_pLoopInThisThread self tid k tc wc =
     (let timer = Channel_SetReadCallBack (snd (snd tc)) (Channel_new self (fst (snd tc)));
          wakeup = Channel_SetReadCallBack (snd (snd wc)) (Channel_new self (fst (snd wc)));
          s = epoll_store.extend (EPoller_init self tid k [fst tc \<mapsto> timer, fst wc \<mapsto> wakeup])
            (event_loop.fields False False TimeStamp_Invalid False 0 [] [])
      in rbind (Channel_EnableReading ctl tid (fst tc) s) (\<lambda>s1.
         if t_pLoopInThisThread \<noteq> None then Inl Aborted
         else Channel_EnableReading ctl tid (fst wc) s1))"

definition EventLoop_destroy :: "('cb, 'k, 'f, 'a) event_loop_scheme \<Rightarrow> unit res" where
  "EventLoop_destroy s = check (\<not> l_bLooping s) (Inr ())"

text \<open>Timers, through the loop's timer queue.\<close>

definition EventLoop_RunAt ::
    "'t allocator \<Rightarrow> bool \<Rightarrow> TimeStamp \<Rightarrow> TimeStamp \<Rightarrow> 't \<Rightarrow> 't timer_queue \<Rightarrow> (TimerId \<times> 't timer_queue) res" where
  "EventLoop_RunAt alloc inLoop clk rTime cb q = TimerQueue_AddTimer alloc inLoop clk cb rTime 0 q"

definition EventLoop_RunAfter ::
    "'t allocator \<Rightarrow> bool \<Rightarrow> TimeStamp \<Rightarrow> TimeStamp \<Rightarrow> rat \<Rightarrow> 't \<Rightarrow> 't timer_queue \<Rightarrow> (TimerId \<times> 't timer_queue) res" where
  "EventLoop_RunAfter alloc inLoop now clk dDelay cb q =
     EventLoop_RunAt alloc inLoop clk (AddTime now dDelay) cb q"

definition EventLoop_RunEvery ::
    "'t allocator \<Rightarrow> bool \<Rightarrow> TimeStamp \<Rightarrow> TimeStamp \<Rightarrow> rat \<Rightarrow> 't \<Rightarrow> 't timer_queue \<Rightarrow> (TimerId \<times> 't timer_queue) res" where
  "EventLoop_RunEvery alloc inLoop now clk dInterval cb q =
     TimerQueue_AddTimer alloc inLoop clk cb (AddTime now dInterval) dInterval q"

definition EventLoop_Cancel :: "bool \<Rightarrow> TimerId \<Rightarrow> 't timer_queue \<Rightarrow> 't timer_queue res" where
  "EventLoop_Cancel inLoop timerId q = TimerQueue_Cancel inLoop timerId q"

section \<open>The loop's thread against the others\<close>

text \<open>
  The loop's thread is polling, handling the active channels, or running the functors it took.
  Other threads push a functor and then write the wake-up descriptor; \<open>g_Waking\<close> counts those
  between the two. \<open>g_Posted\<close> and \<open>g_Ran\<close> record the functors queued and run.
\<close>

datatype 'f phase = Polling | Handling | Running "'f list"

record ('cb, 'k, 'f) loop_run = "('cb, 'k, 'f) event_loop" +
  g_Phase :: "'f phase"
  g_Waking :: nat
  g_Posted :: "'f list"
  g_Ran :: "'f list"

definition loop_start :: "('cb, 'k, 'f) loop_run \<Rightarrow> bool" where
  "loop_start s \<longleftrightarrow>
     l_vPendingFunctors s = [] \<and> \<not> l_bCallingFunctors s \<and> g_Phase s = Polling \<and> g_Waking s = 0 \<and>
     g_Posted s = [] \<and> g_Ran s = []"

inductive loop_move :: "('cb, 'k, 'f) loop_run \<Rightarrow> ('cb, 'k, 'f) loop_run \<Rightarrow> bool" where
  other_push: "tid \<noteq> s_ThreadId s \<Longrightarrow>
    loop_move s ((queue_push f s)\<lparr>g_Waking := g_Waking s + 1, g_Posted := g_Posted s @ [f]\<rparr>)"
| other_wake: "tid \<noteq> s_ThreadId s \<Longrightarrow> 0 < g_Waking s \<Longrightarrow>
    loop_move s ((queue_wake tid s)\<lparr>g_Waking := g_Waking s - 1\<rparr>)"
| poll_other: "g_Phase s = Polling \<Longrightarrow> loop_move s (s\<lparr>g_Phase := Handling\<rparr>)"
| poll_wakeup: "g_Phase s = Polling \<Longrightarrow> 0 < l_nWakeUp s \<Longrightarrow>
    loop_move s ((EventLoop_handleRead s)\<lparr>g_Phase := Handling\<rparr>)"
| own_queue: "g_Phase s \<noteq> Polling \<Longrightarrow>
    loop_move s ((EventLoop_QueueInLoop (s_ThreadId s) f s)\<lparr>g_Posted := g_Posted s @ [f]\<rparr>)"
| own_take: "g_Phase s = Handling \<Longrightarrow> take_functors s = (fs, s1) \<Longrightarrow>
    loop_move s (s1\<lparr>g_Phase := Running fs\<rparr>)"
| own_run: "g_Phase s = Running (f # fs) \<Longrightarrow>
    loop_move s (s\<lparr>g_Phase := Running fs, g_Ran := g_Ran s @ [f]\<rparr>)"
| own_done: "g_Phase s = Running [] \<Longrightarrow>
    loop_move s (s\<lparr>g_Phase := Polling, l_bCallingFunctors := False\<rparr>)"

inductive_cases loop_moveE: "loop_move s t"

fun taken :: "'f phase \<Rightarrow> 'f list" where
  "taken (Running fs) = fs"
| "taken _ = []"

definition is_running :: "'f phase \<Rightarrow> bool" where
  "is_running p \<longleftrightarrow> (case p of Running _ \<Rightarrow> True | _ \<Rightarrow> False)"

lemma is_running_simps [simp]:
  "\<not> is_running Polling" "\<not> is_running Handling" "is_running (Running fs)"
  by (simp_all add: is_running_def)

definition loop_inv :: "('cb, 'k, 'f) loop_run \<Rightarrow> bool" where
  "loop_inv s \<longleftrightarrow>
     g_Posted s = g_Ran s @ taken (g_Phase s) @ l_vPendingFunctors s \<and>
     l_bCallingFunctors s = is_running (g_Phase s) \<and>
     (l_vPendingFunctors s \<noteq> [] \<longrightarrow> g_Phase s \<noteq> Handling \<longrightarrow> 0 < l_nWakeUp s \<or> 0 < g_Waking s)"

lemma queue_push_fields [simp]:
  "l_vPendingFunctors (queue_push f s) = l_vPendingFunctors s @ [f]"
  "l_bCallingFunctors (queue_push f s) = l_bCallingFunctors s" "l_nWakeUp (queue_push f s) = l_nWakeUp s"
  "s_ThreadId (queue_push f s) = s_ThreadId s"
  by (simp_all add: queue_push_def)

lemma WakeUp_fields [simp]:
  "l_vPendingFunctors (EventLoop_WakeUp s) = l_vPendingFunctors s"
  "l_bCallingFunctors (EventLoop_WakeUp s) = l_bCallingFunctors s" "0 < l_nWakeUp (EventLoop_WakeUp s)"
  "s_ThreadId (EventLoop_WakeUp s) = s_ThreadId s"
  by (simp_all add: EventLoop_WakeUp_def)

lemma queue_wake_fields [simp]:
  "l_vPendingFunctors (queue_wake tid s) = l_vPendingFunctors s"
  "l_bCallingFunctors (queue_wake tid s) = l_bCallingFunctors s"
  by (simp_all add: queue_wake_def)

lemma run_fields [simp]:
  "g_Phase (queue_push f s) = g_Phase s" "g_Waking (queue_push f s) = g_Waking s"
  "g_Posted (queue_push f s) = g_Posted s" "g_Ran (queue_push f s) = g_Ran s"
  "g_Phase (queue_wake tid s) = g_Phase s" "g_Waking (queue_wake tid s) = g_Waking s"
  "g_Posted (queue_wake tid s) = g_Posted s" "g_Ran (queue_wake tid s) = g_Ran s"
  by (simp_all add: queue_push_def queue_wake_def EventLoop_WakeUp_def)

lemma queue_wake_other: "tid \<noteq> s_ThreadId s \<Longrightarrow> 0 < l_nWakeUp (queue_wake tid s)"
  by (simp add: queue_wake_def EventLoop_IsInLoopThread_def)

lemma queue_wake_own: "l_bCallingFunctors s \<Longrightarrow> 0 < l_nWakeUp (queue_wake tid s)"
  by (simp add: queue_wake_def)

lemma loop_inv_start: "loop_start s \<Longrightarrow> loop_inv s"
  by (simp add: loop_start_def loop_inv_def)

lemma loop_inv_move: "loop_move s t \<Longrightarrow> loop_inv s \<Longrightarrow> loop_inv t"
proof (induction rule: loop_move.induct)
  case (other_push tid s f)
  then show ?case by (simp add: loop_inv_def)
next
  case (other_wake tid s)
  with queue_wake_other [OF other_wake(1)] show ?case by (simp add: loop_inv_def)
next
  case (poll_other s)
  then show ?case by (simp add: loop_inv_def)
next
  case (poll_wakeup s)
  then show ?case by (simp add: loop_inv_def EventLoop_handleRead_def)
next
  case (own_queue s f)
  then have c: "g_Phase s = Handling \<or> l_bCallingFunctors s"
    by (cases "g_Phase s") (simp_all add: loop_inv_def)
  let ?t = "queue_wake (s_ThreadId s) (queue_push f s)"
  have "g_Phase s = Handling \<or> 0 < l_nWakeUp ?t" using c queue_wake_own [of "queue_push f s" "s_ThreadId s"] by auto
  with own_queue show ?case by (auto simp: loop_inv_def EventLoop_QueueInLoop_def)
next
  case (own_take s fs s1)
  then show ?case by (auto simp: loop_inv_def take_functors_def)
next
  case (own_run s f fs)
  then show ?case by (simp add: loop_inv_def)
next
  case (own_done s)
  then show ?case by (simp add: loop_inv_def)
qed

interpretation loop_system: invariant_system loop_start loop_move loop_inv
  by unfold_locales (auto intro: loop_inv_start loop_inv_move)

section \<open>Properties\<close>


definition demo_loop :: "(nat, unit, nat) loop_run" where
  "demo_loop = \<lparr>s_Channels = (\<lambda>_. None), s_Self = 0, s_ThreadId = 1, s_mpChannel = (\<lambda>_. None),
     s_vEvents = 16, s_Kernel = (), l_bLooping = True, l_bQuit = False,
     l_PollReturnTime = TimeStamp_Invalid, l_bCallingFunctors = False, l_nWakeUp = 0,
     l_ActiveChannels = [], l_vPendingFunctors = [], g_Phase = Polling, g_Waking = 0,
     g_Posted = [], g_Ran = []\<rparr>"


text \<open>
  A loop can be created in a thread that has none; it then watches the timer descriptor and
  the wake-up descriptor for reading. In a thread that already has a loop the constructor aborts.
\<close>

theorem EventLoop_new_one_per_thread:
  assumes ctl: "epoll_ok ctl interest" and k: "interest k = (\<lambda>_. None)"
    and ne: "tc \<noteq> wc" "tfd \<noteq> wfd"
  shows "ensures {Aborted} (\<lambda>s. ep_inv interest {} s \<and> existing = None \<and>
      EPoller_view interest s tc = Some READ_EVENT \<and> EPoller_view interest s wc = Some READ_EVENT)
    (EventLoop_new ctl existing self tid k (tc, tfd, tcb) (wc, wfd, wcb) :: ('cb, 'k, 'f) event_loop res)"
proof -
  let ?t = "Channel_SetReadCallBack tcb (Channel_new self tfd)"
  let ?w = "Channel_SetReadCallBack wcb (Channel_new self wfd)"
  define s :: "('cb, 'k, 'f) event_loop" where "s = epoll_store.extend (EPoller_init self tid k [tc \<mapsto> ?t, wc \<mapsto> ?w])
    (event_loop.fields False False TimeStamp_Invalid False 0 [] [])"
  have f: "s_Channels s = [tc \<mapsto> ?t, wc \<mapsto> ?w]" "s_Self s = self" "s_ThreadId s = tid"
    "s_mpChannel s = (\<lambda>_. None)" "s_vEvents s = 16" "s_Kernel s = k"
    by (simp_all add: s_def epoll_store.defs event_loop.defs EPoller_init_def INIT_EVENT_LIST_SIZE_def)
  have t: "ch_Fd ?t = tfd" "ch_nIndex ?t = NEW" "ch_pEventLoop ?t = self"
    and w: "ch_Fd ?w = wfd" "ch_nIndex ?w = NEW" "ch_pEventLoop ?w = self"
    by (simp_all add: Channel_SetReadCallBack_def Channel_new_def NEW_def)
  have ev: "ch_nEvents (enable_reading ?t) = READ_EVENT" "ch_nEvents (enable_reading ?w) = READ_EVENT"
    by (simp_all add: enable_reading_def Channel_SetReadCallBack_def Channel_new_def)
  have inv: "ep_inv interest {} s"
    using k t w ne by (auto simp: ep_inv_def ep_map_def ep_index_def ep_watch_def wanted_def f split: if_splits)
  have fd: "fd_of s = [tc \<mapsto> tfd, wc \<mapsto> wfd]"
    using t w ne by (auto simp: fd_of_def f fun_eq_iff)
  have own: "own_fd s tc" "own_fd s wc" using ne by (auto simp: own_fd_def fd split: if_splits)
  have st: "s_Channels s tc = Some ?t" "s_Channels s wc = Some ?w" using ne by (simp_all add: f)
  let ?t1 = "enable_reading ?t" and ?w1 = "enable_reading ?w"
  let ?t2 = "Channel_SetIndex (next_index ?t1) ?t1" and ?w2 = "Channel_SetIndex (next_index ?w1) ?w1"
  have ni: "next_index ?t1 = ADDED" "next_index ?w1 = ADDED"
    using t w by (simp_all add: next_index_def)
  show ?thesis
    unfolding EventLoop_new_def Let_def s_def [symmetric] fst_conv snd_conv
  proof (rule ensures_rbind)
    show "ensures {Aborted} (\<lambda>s1. ep_inv interest {} s1 \<and> (\<exists>k mp. s1 = told tc ?t2 k mp s))
        (Channel_EnableReading ctl tid tc s)"
      using Channel_change_ok [OF inv st(1) _ own(1) ctl enable_reading_fields(1-3)] st(1) t(3) f(2,3)
      by (auto simp: Channel_EnableReading_def elim!: ensures_mono)
    fix s1
    assume s1: "ep_inv interest {} s1 \<and> (\<exists>k mp. s1 = told tc ?t2 k mp s)"
    then obtain k1 mp1 where inv1: "ep_inv interest {} s1" and s1: "s1 = told tc ?t2 k1 mp1 s" by blast
    have c1: "s_Channels s1 = (s_Channels s)(tc \<mapsto> ?t2)" "s_ThreadId s1 = tid" "s_Self s1 = self"
      using s1 f by simp_all
    have "fd_of s1 = fd_of s" by (rule fd_of_upd [OF st(1) c1(1)]) (simp add: t)
    with own(2) own_fd_cong have own1: "own_fd s1 wc" by metis
    have st1: "s_Channels s1 wc = Some ?w" using st(2) c1(1) ne by simp
    have "ensures {Aborted} (\<lambda>s2. ep_inv interest {} s2 \<and> (\<exists>k mp. s2 = told wc ?w2 k mp s1))
        (Channel_EnableReading ctl tid wc s1)"
      using Channel_change_ok [OF inv1 st1 _ own1 ctl enable_reading_fields(1-3)] st1 w(3) c1(2,3)
      by (auto simp: Channel_EnableReading_def elim!: ensures_mono)
    moreover have "EPoller_view interest s2 tc = Some READ_EVENT \<and> EPoller_view interest s2 wc = Some READ_EVENT"
      if "ep_inv interest {} s2" "s2 = told wc ?w2 k mp s1" for s2 k mp
      using that c1(1) ne ni ev by (simp add: EPoller_view_eq)
    ultimately show "ensures {Aborted} (\<lambda>s. ep_inv interest {} s \<and> existing = None \<and>
        EPoller_view interest s tc = Some READ_EVENT \<and> EPoller_view interest s wc = Some READ_EVENT)
        (if existing \<noteq> None then Inl Aborted else Channel_EnableReading ctl tid wc s1)"
      by (auto elim!: ensures_mono)
  qed
qed

theorem EventLoop_new_one_per_thread_witness:
  "ensures {Aborted} (\<lambda>s. EPoller_view demo_interest s 8 = Some READ_EVENT)
     (EventLoop_new demo_ctl None 0 1 (\<lambda>_. None) (7, 4, 0) (8, 5, 1) ::
        (nat, int \<Rightarrow> (events \<times> nat) option, nat) event_loop res)"
proof -
  have k: "demo_interest (\<lambda>_. None) = (\<lambda>_. None)" by (simp add: demo_interest_def)
  have "ensures {Aborted} (\<lambda>s. ep_inv demo_interest {} s \<and> None = (None :: nat option) \<and>
      EPoller_view demo_interest s 7 = Some READ_EVENT \<and> EPoller_view demo_interest s 8 = Some READ_EVENT)
     (EventLoop_new demo_ctl None 0 1 (\<lambda>_. None) (7, 4, 0) (8, 5, 1) ::
        (nat, int \<Rightarrow> (events \<times> nat) option, nat) event_loop res)"
    by (rule EventLoop_new_one_per_thread [OF demo_epoll_ok]) (use k in simp_all)
  then show ?thesis by (auto elim!: ensures_mono)
qed

end
