(* ===== verification/SockByteOrder.thy ===== *)
theory SockByteOrder
  imports Prelude
begin

text \<open>
  The inline conversions of \<open>reactor/SocketOps.h\<close> between host and network order
  (\<open>htonl\<close>, \<open>ntohl\<close> and their 16-bit kin): the identity on a big-endian host, a byte swap on
  a little-endian one. The lemmas say that the memory image of a converted value is its
  network-order bytes on either host, which is what makes the wire format of
  \<open>Buffer::AppendInt32\<close> and of the protobuf codec independent of the machine.
\<close>

definition byte_swap16 :: "16 word \<Rightarrow> 16 word" where
  "byte_swap16 w = be_word16 (rev (be_bytes16 w))"

definition byte_swap32 :: "32 word \<Rightarrow> 32 word" where
  "byte_swap32 w = be_word32 (rev (be_bytes32 w))"

definition HostToNetwork16 :: "endian \<Rightarrow> 16 word \<Rightarrow> 16 word" where
  "HostToNetwork16 e w = (case e of BigEndian \<Rightarrow> w | LittleEndian \<Rightarrow> byte_swap16 w)"

definition HostToNetwork32 :: "endian \<Rightarrow> 32 word \<Rightarrow> 32 word" where
  "HostToNetwork32 e w = (case e of BigEndian \<Rightarrow> w | LittleEndian \<Rightarrow> byte_swap32 w)"

definition NetworkToHost16 :: "endian \<Rightarrow> 16 word \<Rightarrow> 16 word" where
  "NetworkToHost16 e w = (case e of BigEndian \<Rightarrow> w | LittleEndian \<Rightarrow> byte_swap16 w)"

definition NetworkToHost32 :: "endian \<Rightarrow> 32 word \<Rightarrow> 32 word" where
  "NetworkToHost32 e w = (case e of BigEndian \<Rightarrow> w | LittleEndian \<Rightarrow> byte_swap32 w)"

text \<open>The conversions of 64 bits, as two halves.\<close>

definition be_bytes64 :: "64 word \<Rightarrow> byte list" where
  "be_bytes64 w = be_bytes32 (ucast (drop_bit 32 w)) @ be_bytes32 (ucast w)"

definition be_word64 :: "byte list \<Rightarrow> 64 word" where
  "be_word64 bs = push_bit 32 (ucast (be_word32 (take 4 bs))) OR ucast (be_word32 (drop 4 bs))"

definition byte_swap64 :: "64 word \<Rightarrow> 64 word" where
  "byte_swap64 w = be_word64 (rev (be_bytes64 w))"

definition HostToNetwork64 :: "endian \<Rightarrow> 64 word \<Rightarrow> 64 word" where
  "HostToNetwork64 e w = (case e of BigEndian \<Rightarrow> w | LittleEndian \<Rightarrow> byte_swap64 w)"

definition NetworkToHost64 :: "endian \<Rightarrow> 64 word \<Rightarrow> 64 word" where
  "NetworkToHost64 e w = (case e of BigEndian \<Rightarrow> w | LittleEndian \<Rightarrow> byte_swap64 w)"

lemma be_bytes16_be_word16: "be_bytes16 (be_word16 [a, b]) = [a, b]"
  unfolding be_bytes16_def be_word16.simps list.inject
  by (intro conjI bit_word_eqI; auto simp: bit_simps dest: bit_imp_le_length)

lemma be_bytes_be_word:
  "length as = 2 \<Longrightarrow> be_bytes16 (be_word16 as) = as"
  "length bs = 4 \<Longrightarrow> be_bytes32 (be_word32 bs) = bs"
  by (auto simp: numeral_eq_Suc length_Suc_conv be_bytes16_be_word16 be_bytes32_be_word32
      simp del: be_word16.simps be_word32.simps)

lemma be_bytes16_swap: "be_bytes16 (byte_swap16 w) = rev (be_bytes16 w)"
  unfolding byte_swap16_def by (rule be_bytes_be_word) simp

lemma be_bytes32_swap: "be_bytes32 (byte_swap32 w) = rev (be_bytes32 w)"
  unfolding byte_swap32_def by (rule be_bytes_be_word) simp

lemma byte_swap_swap [simp]:
  "byte_swap16 (byte_swap16 v) = v" "byte_swap32 (byte_swap32 w) = w"
  by (simp_all add: byte_swap16_def [of "byte_swap16 v"] byte_swap32_def [of "byte_swap32 w"]
        be_bytes16_swap be_bytes32_swap)

text \<open>The bytes of a converted value in memory are its network-order bytes.\<close>

lemma host_bytes_HostToNetwork [simp]:
  "host_bytes16 e (HostToNetwork16 e v) = be_bytes16 v"
  "host_bytes32 e (HostToNetwork32 e w) = be_bytes32 w"
  by (simp_all add: host_bytes16_def host_bytes32_def HostToNetwork16_def HostToNetwork32_def
        be_bytes16_swap be_bytes32_swap split: endian.splits)

text \<open>Reading network-order bytes back and converting gives the value they encode.\<close>

lemma NetworkToHost_host_word [simp]:
  "NetworkToHost16 e (host_word16 e (be_bytes16 v)) = v"
  "NetworkToHost32 e (host_word32 e (be_bytes32 w)) = w"
  by (simp_all add: NetworkToHost16_def NetworkToHost32_def host_word16_def host_word32_def
        byte_swap16_def [symmetric] byte_swap32_def [symmetric] split: endian.splits)

lemma NetworkToHost_HostToNetwork [simp]:
  "NetworkToHost16 e (HostToNetwork16 e v) = v"
  "NetworkToHost32 e (HostToNetwork32 e w) = w"
  by (simp_all add: NetworkToHost16_def NetworkToHost32_def HostToNetwork16_def
        HostToNetwork32_def split: endian.splits)

lemma be_bytes64_be_word64: "length bs = 8 \<Longrightarrow> be_bytes64 (be_word64 bs) = bs"
proof -
  assume len: "length bs = 8"
  have high: "ucast (drop_bit 32 (push_bit 32 (ucast a) OR ucast b :: 64 word)) = (a :: 32 word)"
    for a b :: "32 word"
    by (rule bit_word_eqI) (auto simp: bit_simps dest: bit_imp_le_length)
  have low: "ucast (push_bit 32 (ucast a) OR ucast b :: 64 word) = (b :: 32 word)" for a b :: "32 word"
    by (rule bit_word_eqI) (auto simp: bit_simps)
  show ?thesis unfolding be_bytes64_def be_word64_def high low using len by (simp add: be_bytes_be_word)
qed

lemma be_word64_be_bytes64: "be_word64 (be_bytes64 w) = w"
  unfolding be_word64_def be_bytes64_def
  by (simp, rule bit_word_eqI) (auto simp: bit_simps)

lemma NetworkToHost64_HostToNetwork64 [simp]: "NetworkToHost64 e (HostToNetwork64 e w) = w"
proof -
  have "be_bytes64 (byte_swap64 w) = rev (be_bytes64 w)"
    unfolding byte_swap64_def by (rule be_bytes64_be_word64) (simp add: be_bytes64_def)
  then have "byte_swap64 (byte_swap64 w) = w"
    by (simp add: byte_swap64_def [of "byte_swap64 w"] be_word64_be_bytes64)
  then show ?thesis by (simp add: NetworkToHost64_def HostToNetwork64_def split: endian.splits)
qed

end
