(* ===== verification/NetBuffer.thy ===== *)
theory NetBuffer
  imports SockByteOrder
begin

text \<open>
  \<open>reactor/Buffer.h\<close> and \<open>reactor/Buffer.cpp\<close>: the byte buffer every connection reads into
  and writes from. A buffer is a vector with two indices; its readable bytes
  \<open>Buffer_contents\<close> lie between them. The operations keep \<open>buffer_inv\<close>, never fail an
  assertion or leave the vector while it holds, and act on the contents as a byte queue,
  which is stated as the locale \<open>byte_queue\<close> and interpreted on the buffer. \<open>size_t\<close>
  arithmetic wraps as in the code, so the two operations that break the invariant
  (\<open>Buffer_Shrink\<close>, \<open>Buffer_HasWritted\<close>) show what they really leave behind.
\<close>

section \<open>State\<close>

record buffer =
  m_vBuffer :: "byte list"
  m_unReaderIndex :: nat
  m_unWriterIndex :: nat

definition CHEAP_PREPEND :: nat where "CHEAP_PREPEND = 8"
definition INITIAL_SIZE :: nat where "INITIAL_SIZE = 1024"

definition Buffer_init :: buffer where
  "Buffer_init =
     \<lparr>m_vBuffer = replicate (CHEAP_PREPEND + INITIAL_SIZE) 0,
      m_unReaderIndex = CHEAP_PREPEND, m_unWriterIndex = CHEAP_PREPEND\<rparr>"

definition Buffer_PrependableBytes :: "buffer \<Rightarrow> nat" where
  "Buffer_PrependableBytes b = m_unReaderIndex b"

definition Buffer_ReadableBytes :: "buffer \<Rightarrow> nat" where
  "Buffer_ReadableBytes b = size_minus (m_unWriterIndex b) (m_unReaderIndex b)"

definition Buffer_WriteableBytes :: "buffer \<Rightarrow> nat" where
  "Buffer_WriteableBytes b = size_minus (length (m_vBuffer b)) (m_unWriterIndex b)"

definition Buffer_Swap :: "buffer \<Rightarrow> buffer \<Rightarrow> buffer \<times> buffer" where
  "Buffer_Swap a b =
     (a\<lparr>m_vBuffer := m_vBuffer b, m_unReaderIndex := m_unReaderIndex b,
        m_unWriterIndex := m_unWriterIndex b\<rparr>,
      b\<lparr>m_vBuffer := m_vBuffer a, m_unReaderIndex := m_unReaderIndex a,
        m_unWriterIndex := m_unWriterIndex a\<rparr>)"

section \<open>Taking bytes out\<close>

text \<open>A pointer into the buffer is the index it points at: \<open>Peek()\<close> is the reader index.\<close>

definition Buffer_Peek :: "buffer \<Rightarrow> nat" where
  "Buffer_Peek b = m_unReaderIndex b"

definition Buffer_BeginWrite :: "buffer \<Rightarrow> nat" where
  "Buffer_BeginWrite b = m_unWriterIndex b"

definition Buffer_Retrieve :: "nat \<Rightarrow> buffer \<Rightarrow> buffer res" where
  "Buffer_Retrieve n b =
     check (n \<le> Buffer_ReadableBytes b)
       (Inr (b\<lparr>m_unReaderIndex := size_plus (m_unReaderIndex b) n\<rparr>))"

definition Buffer_RetrieveUntil :: "nat \<Rightarrow> buffer \<Rightarrow> buffer res" where
  "Buffer_RetrieveUntil pEnd b =
     check (Buffer_Peek b \<le> pEnd)
       (check (pEnd \<le> Buffer_BeginWrite b)
         (Buffer_Retrieve (size_minus pEnd (Buffer_Peek b)) b))"

definition Buffer_RetrieveAll :: "buffer \<Rightarrow> buffer" where
  "Buffer_RetrieveAll b =
     b\<lparr>m_unReaderIndex := CHEAP_PREPEND, m_unWriterIndex := CHEAP_PREPEND\<rparr>"

definition Buffer_RetrieveAsString :: "buffer \<Rightarrow> (byte list \<times> buffer) res" where
  "Buffer_RetrieveAsString b =
     rbind (mem_read (m_vBuffer b) (Buffer_Peek b) (Buffer_ReadableBytes b))
       (\<lambda>s. Inr (s, Buffer_RetrieveAll b))"

definition Buffer_RetrieveInt8 :: "buffer \<Rightarrow> buffer res" where
  "Buffer_RetrieveInt8 = Buffer_Retrieve 1"

definition Buffer_RetrieveInt16 :: "buffer \<Rightarrow> buffer res" where
  "Buffer_RetrieveInt16 = Buffer_Retrieve 2"

definition Buffer_RetrieveInt32 :: "buffer \<Rightarrow> buffer res" where
  "Buffer_RetrieveInt32 = Buffer_Retrieve 4"

section \<open>Putting bytes in\<close>

text \<open>
  \<open>makeSpace\<close> grows the vector when the free space before and after the contents is too
  small, and slides the contents down to \<open>CHEAP_PREPEND\<close> when it is enough.
\<close>

definition Buffer_makeSpace :: "nat \<Rightarrow> buffer \<Rightarrow> buffer res" where
  "Buffer_makeSpace n b =
     (if size_plus (Buffer_WriteableBytes b) (Buffer_PrependableBytes b)
           < size_plus n CHEAP_PREPEND
      then rbind (vector_resize (m_vBuffer b) (size_plus (m_unWriterIndex b) n))
             (\<lambda>v. Inr (b\<lparr>m_vBuffer := v\<rparr>))
      else check (CHEAP_PREPEND < m_unReaderIndex b)
        (let unReadable = Buffer_ReadableBytes b in
         rbind (mem_read (m_vBuffer b) (m_unReaderIndex b) unReadable) (\<lambda>d.
         rbind (mem_write (m_vBuffer b) CHEAP_PREPEND d) (\<lambda>v.
         let b' = b\<lparr>m_vBuffer := v, m_unReaderIndex := CHEAP_PREPEND,
                    m_unWriterIndex := size_plus CHEAP_PREPEND unReadable\<rparr>
         in check (unReadable = Buffer_ReadableBytes b') (Inr b')))))"

definition Buffer_EnsureWritableBytes :: "nat \<Rightarrow> buffer \<Rightarrow> buffer res" where
  "Buffer_EnsureWritableBytes n b =
     rbind (if Buffer_WriteableBytes b < n then Buffer_makeSpace n b else Inr b)
       (\<lambda>b'. check (n \<le> Buffer_WriteableBytes b') (Inr b'))"

definition Buffer_HasWritted :: "nat \<Rightarrow> buffer \<Rightarrow> buffer" where
  "Buffer_HasWritted n b = b\<lparr>m_unWriterIndex := size_plus (m_unWriterIndex b) n\<rparr>"

definition Buffer_Append :: "byte list \<Rightarrow> buffer \<Rightarrow> buffer res" where
  "Buffer_Append d b =
     rbind (Buffer_EnsureWritableBytes (length d) b) (\<lambda>b'.
     rbind (mem_write (m_vBuffer b') (Buffer_BeginWrite b') d) (\<lambda>v.
     Inr (Buffer_HasWritted (length d) (b'\<lparr>m_vBuffer := v\<rparr>))))"

definition Buffer_AppendInt8 :: "8 word \<Rightarrow> buffer \<Rightarrow> buffer res" where
  "Buffer_AppendInt8 v = Buffer_Append [v]"

definition Buffer_AppendInt16 :: "endian \<Rightarrow> 16 word \<Rightarrow> buffer \<Rightarrow> buffer res" where
  "Buffer_AppendInt16 e v = Buffer_Append (host_bytes16 e (HostToNetwork16 e v))"

definition Buffer_AppendInt32 :: "endian \<Rightarrow> 32 word \<Rightarrow> buffer \<Rightarrow> buffer res" where
  "Buffer_AppendInt32 e v = Buffer_Append (host_bytes32 e (HostToNetwork32 e v))"

definition Buffer_Prepend :: "byte list \<Rightarrow> buffer \<Rightarrow> buffer res" where
  "Buffer_Prepend d b =
     check (length d \<le> Buffer_PrependableBytes b)
       (let r = size_minus (m_unReaderIndex b) (length d) in
        rbind (mem_write (m_vBuffer b) r d) (\<lambda>v.
        Inr (b\<lparr>m_vBuffer := v, m_unReaderIndex := r\<rparr>)))"

text \<open>
  \<open>Shrink\<close> copies the readable bytes to \<open>CHEAP_PREPEND\<close> of a fresh vector and swaps the
  vectors; it does not set the indices.
\<close>

definition Buffer_Shrink :: "nat \<Rightarrow> buffer \<Rightarrow> buffer res" where
  "Buffer_Shrink unReserve b =
     rbind (vector_resize [] (size_plus (size_plus CHEAP_PREPEND (Buffer_ReadableBytes b)) unReserve))
       (\<lambda>buf. rbind (mem_read (m_vBuffer b) (Buffer_Peek b) (Buffer_ReadableBytes b))
       (\<lambda>d. rbind (mem_write buf CHEAP_PREPEND d)
       (\<lambda>buf'. Inr (b\<lparr>m_vBuffer := buf'\<rparr>))))"

section \<open>Reading integers\<close>

definition Buffer_PeekInt8 :: "buffer \<Rightarrow> 8 word res" where
  "Buffer_PeekInt8 b =
     check (1 \<le> Buffer_ReadableBytes b)
       (rbind (mem_read (m_vBuffer b) (Buffer_Peek b) 1) (\<lambda>bs. Inr (hd bs)))"

definition Buffer_PeekInt16 :: "endian \<Rightarrow> buffer \<Rightarrow> 16 word res" where
  "Buffer_PeekInt16 e b =
     check (2 \<le> Buffer_ReadableBytes b)
       (rbind (mem_read (m_vBuffer b) (Buffer_Peek b) 2)
         (\<lambda>bs. Inr (NetworkToHost16 e (host_word16 e bs))))"

definition Buffer_PeekInt32 :: "endian \<Rightarrow> buffer \<Rightarrow> 32 word res" where
  "Buffer_PeekInt32 e b =
     check (4 \<le> Buffer_ReadableBytes b)
       (rbind (mem_read (m_vBuffer b) (Buffer_Peek b) 4)
         (\<lambda>bs. Inr (NetworkToHost32 e (host_word32 e bs))))"

definition Buffer_ReadInt8 :: "buffer \<Rightarrow> (8 word \<times> buffer) res" where
  "Buffer_ReadInt8 b =
     rbind (Buffer_PeekInt8 b) (\<lambda>v. rbind (Buffer_RetrieveInt8 b) (\<lambda>b'. Inr (v, b')))"

definition Buffer_ReadInt16 :: "endian \<Rightarrow> buffer \<Rightarrow> (16 word \<times> buffer) res" where
  "Buffer_ReadInt16 e b =
     rbind (Buffer_PeekInt16 e b) (\<lambda>v. rbind (Buffer_RetrieveInt16 b) (\<lambda>b'. Inr (v, b')))"

text \<open>
  \<open>ReadInt32\<close> stores the peeked value in an \<open>int8_t\<close> and returns that as an \<open>int32_t\<close>: the
  value is cut to its low byte and sign extended.
\<close>

definition Buffer_ReadInt32 :: "endian \<Rightarrow> buffer \<Rightarrow> (32 word \<times> buffer) res" where
  "Buffer_ReadInt32 e b =
     rbind (Buffer_PeekInt32 e b) (\<lambda>v.
     let result = (ucast v :: 8 word) in
     rbind (Buffer_RetrieveInt32 b) (\<lambda>b'. Inr (scast result, b')))"

section \<open>Reading from a descriptor\<close>

text \<open>
  \<open>readv\<close> fills the free space behind the contents and then a 65536-byte array on the
  stack. What the kernel returns is the argument: the bytes read, or an error number.
\<close>

datatype io_read = ReadBytes "byte list" | ReadError int

fun io_length :: "io_read \<Rightarrow> nat" where
  "io_length (ReadBytes d) = length d"
| "io_length (ReadError _) = 0"

definition EXTRA_BUF :: nat where "EXTRA_BUF = 65536"

definition Buffer_ReadFd :: "io_read \<Rightarrow> buffer \<Rightarrow> (int \<times> int option \<times> buffer) res" where
  "Buffer_ReadFd io b =
     (let unWritable = Buffer_WriteableBytes b in
      case io of
        ReadError e \<Rightarrow> Inr (- 1, Some e, b)
      | ReadBytes d \<Rightarrow>
          rbind (mem_write (m_vBuffer b) (Buffer_BeginWrite b) (take unWritable d)) (\<lambda>v.
          let b' = b\<lparr>m_vBuffer := v\<rparr> in
          if length d \<le> unWritable
          then Inr (int (length d), None,
                    b'\<lparr>m_unWriterIndex := size_plus (m_unWriterIndex b') (length d)\<rparr>)
          else rbind (Buffer_Append (drop unWritable d)
                       (b'\<lparr>m_unWriterIndex := length (m_vBuffer b')\<rparr>))
                 (\<lambda>b''. Inr (int (length d), None, b''))))"

section \<open>The invariant and the contents\<close>

definition buffer_inv :: "buffer \<Rightarrow> bool" where
  "buffer_inv b \<longleftrightarrow>
     m_unReaderIndex b \<le> m_unWriterIndex b \<and> m_unWriterIndex b \<le> length (m_vBuffer b) \<and>
     CHEAP_PREPEND \<le> m_unWriterIndex b \<and> length (m_vBuffer b) \<le> vector_max"

definition Buffer_contents :: "buffer \<Rightarrow> byte list" where
  "Buffer_contents b =
     take (m_unWriterIndex b - m_unReaderIndex b) (drop (m_unReaderIndex b) (m_vBuffer b))"

text \<open>\<open>n\<close> more bytes fit before the vector would exceed its largest size.\<close>

definition Buffer_room :: "nat \<Rightarrow> buffer \<Rightarrow> bool" where
  "Buffer_room n b \<longleftrightarrow> m_unWriterIndex b + n \<le> vector_max"

lemma buffer_sizes [simp]:
  assumes "buffer_inv b"
  shows "Buffer_ReadableBytes b = m_unWriterIndex b - m_unReaderIndex b"
    and "Buffer_WriteableBytes b = length (m_vBuffer b) - m_unWriterIndex b"
    and "Buffer_PrependableBytes b = m_unReaderIndex b"
  using assms by (auto simp: buffer_inv_def Buffer_ReadableBytes_def Buffer_WriteableBytes_def
      Buffer_PrependableBytes_def)

lemma length_Buffer_contents [simp]:
  "buffer_inv b \<Longrightarrow> length (Buffer_contents b) = m_unWriterIndex b - m_unReaderIndex b"
  by (auto simp: Buffer_contents_def buffer_inv_def)

lemma Buffer_ReadableBytes_contents: "buffer_inv b \<Longrightarrow> Buffer_ReadableBytes b = length (Buffer_contents b)"
  by simp

lemma buffer_inv_init [simp]: "buffer_inv Buffer_init"
  by (simp add: buffer_inv_def Buffer_init_def CHEAP_PREPEND_def INITIAL_SIZE_def vector_max_def)

lemma contents_init [simp]: "Buffer_contents Buffer_init = []"
  by (simp add: Buffer_contents_def Buffer_init_def)

lemma take_drop_write:
  assumes "r \<le> w" and "w + length d \<le> length v"
  shows "take (w + length d - r) (drop r (take w v @ d @ drop (w + length d) v)) =
    take (w - r) (drop r v) @ d"
proof -
  have "drop r (take w v @ d @ drop (w + length d) v) =
      take (w - r) (drop r v) @ d @ drop (w + length d) v"
    using assms by (simp add: drop_take[symmetric])
  moreover have "length (take (w - r) (drop r v)) = w - r" using assms by simp
  moreover have "w + length d - r = (w - r) + length d" using assms by simp
  ultimately show ?thesis by simp
qed

text \<open>Writing at the writer index and moving it, once the space is there.\<close>

lemma write_at_end:
  assumes "buffer_inv b" and "m_unWriterIndex b + length d \<le> length (m_vBuffer b)"
  defines "b' \<equiv> Buffer_HasWritted (length d)
    (b\<lparr>m_vBuffer := take (m_unWriterIndex b) (m_vBuffer b) @ d @
                    drop (m_unWriterIndex b + length d) (m_vBuffer b)\<rparr>)"
  shows "buffer_inv b'" and "Buffer_contents b' = Buffer_contents b @ d"
    and "m_unWriterIndex b' = m_unWriterIndex b + length d"
    and "m_unReaderIndex b' = m_unReaderIndex b"
proof -
  have "size_plus (m_unWriterIndex b) (length d) = m_unWriterIndex b + length d"
    using assms(1,2) by (intro size_plus_vector) (auto simp: buffer_inv_def)
  then show w: "m_unWriterIndex b' = m_unWriterIndex b + length d"
    by (simp add: b'_def Buffer_HasWritted_def)
  show r: "m_unReaderIndex b' = m_unReaderIndex b"
    by (simp add: b'_def Buffer_HasWritted_def)
  have v: "m_vBuffer b' = take (m_unWriterIndex b) (m_vBuffer b) @ d @
      drop (m_unWriterIndex b + length d) (m_vBuffer b)"
    by (simp add: b'_def Buffer_HasWritted_def)
  show "buffer_inv b'" using assms(1,2) by (simp add: buffer_inv_def w r v)
  show "Buffer_contents b' = Buffer_contents b @ d"
    unfolding Buffer_contents_def w r v
    using assms(1,2) by (intro take_drop_write) (simp_all add: buffer_inv_def)
qed

section \<open>Every operation on a well-formed buffer\<close>

lemma Retrieve_ok:
  assumes "buffer_inv b" and "n \<le> length (Buffer_contents b)"
  shows "\<exists>b'. Buffer_Retrieve n b = Inr b' \<and> buffer_inv b' \<and>
    Buffer_contents b' = drop n (Buffer_contents b) \<and> m_unWriterIndex b' = m_unWriterIndex b"
proof -
  from assms have n: "m_unReaderIndex b + n \<le> m_unWriterIndex b"
    by (auto simp: buffer_inv_def)
  then have "size_plus (m_unReaderIndex b) n = m_unReaderIndex b + n"
    using assms(1) by (intro size_plus_vector) (auto simp: buffer_inv_def)
  then have "Buffer_Retrieve n b = Inr (b\<lparr>m_unReaderIndex := m_unReaderIndex b + n\<rparr>)"
    using assms by (simp add: Buffer_Retrieve_def)
  with n assms(1) show ?thesis
    by (simp add: buffer_inv_def Buffer_contents_def drop_take add.commute)
qed

lemma Retrieve_too_much:
  "buffer_inv b \<Longrightarrow> length (Buffer_contents b) < n \<Longrightarrow> Buffer_Retrieve n b = Inl AssertFailed"
  by (simp add: Buffer_Retrieve_def check_def)

lemma RetrieveAll_ok [simp]:
  "buffer_inv b \<Longrightarrow> buffer_inv (Buffer_RetrieveAll b)"
  "Buffer_contents (Buffer_RetrieveAll b) = []"
  by (simp_all add: buffer_inv_def Buffer_RetrieveAll_def Buffer_contents_def CHEAP_PREPEND_def)

lemma read_contents:
  "buffer_inv b \<Longrightarrow>
    mem_read (m_vBuffer b) (m_unReaderIndex b) (m_unWriterIndex b - m_unReaderIndex b) =
      Inr (Buffer_contents b)"
  by (simp add: buffer_inv_def mem_read_def Buffer_contents_def)

lemma RetrieveAsString_ok:
  "buffer_inv b \<Longrightarrow>
    Buffer_RetrieveAsString b = Inr (Buffer_contents b, Buffer_RetrieveAll b)"
  by (simp add: Buffer_RetrieveAsString_def Buffer_Peek_def read_contents)

text \<open>The growing and the sliding branch of \<open>makeSpace\<close>.\<close>

lemma makeSpace_ok:
  assumes "buffer_inv b" and "Buffer_room n b"
    and "length (m_vBuffer b) < m_unWriterIndex b + n"
  shows "\<exists>b'. Buffer_makeSpace n b = Inr b' \<and> buffer_inv b' \<and>
    Buffer_contents b' = Buffer_contents b \<and> m_unWriterIndex b' + n \<le> length (m_vBuffer b') \<and>
    m_unWriterIndex b' \<le> m_unWriterIndex b \<and> length (m_vBuffer b) \<le> length (m_vBuffer b') \<and>
    (8 \<le> m_unReaderIndex b \<longrightarrow> 8 \<le> m_unReaderIndex b')"
proof -
  let ?r = "m_unReaderIndex b" and ?w = "m_unWriterIndex b" and ?v = "m_vBuffer b"
  have inv: "?r \<le> ?w" "?w \<le> length ?v" "8 \<le> ?w" "length ?v \<le> vector_max" and fit: "?w + n \<le> vector_max"
    using assms(1,2) by (simp_all add: buffer_inv_def Buffer_room_def CHEAP_PREPEND_def)
  have sz: "size_plus (length ?v - ?w) ?r = length ?v - ?w + ?r" "size_plus n 8 = n + 8"
    "size_plus ?w n = ?w + n"
    using inv fit by (simp_all add: size_plus_vector)
  show ?thesis
  proof (cases "length ?v - ?w + ?r < n + 8")
    case True
    with assms inv fit sz show ?thesis
      by (simp add: Buffer_makeSpace_def CHEAP_PREPEND_def vector_resize_def buffer_inv_def
          Buffer_contents_def)
  next
    case False
    with assms(3) inv have slide: "8 < ?r" by linarith
    have len: "length (Buffer_contents b) = ?w - ?r" using assms(1) by simp
    define v' where "v' = take 8 ?v @ Buffer_contents b @ drop (8 + (?w - ?r)) ?v"
    have v': "mem_write ?v 8 (Buffer_contents b) = Inr v'"
      using inv slide len unfolding v'_def by (subst mem_write_ok) auto
    have len': "length v' = length ?v" using mem_write_length [OF v'] .
    define b' where "b' = b\<lparr>m_vBuffer := v', m_unReaderIndex := 8, m_unWriterIndex := 8 + (?w - ?r)\<rparr>"
    have inv': "buffer_inv b'" using inv slide len' by (auto simp: b'_def buffer_inv_def CHEAP_PREPEND_def)
    have "Buffer_contents b' = take (?w - ?r) (drop 8 v')"
      by (simp add: Buffer_contents_def b'_def)
    also have "\<dots> = Buffer_contents b" using inv slide len by (simp add: v'_def)
    finally have "Buffer_contents b' = Buffer_contents b" .
    moreover have "Buffer_makeSpace n b = Inr b'"
      using False assms(1) sz slide v' inv inv' read_contents [OF assms(1)]
      by (simp add: Buffer_makeSpace_def CHEAP_PREPEND_def b'_def [symmetric] Let_def)
         (simp add: b'_def)
    moreover have "8 + (?w - ?r) + n \<le> length v'"
      using False inv slide len' by linarith
    ultimately show ?thesis using inv' inv slide len' by (simp add: b'_def)
  qed
qed

lemma EnsureWritableBytes_ok:
  assumes "buffer_inv b" and "Buffer_room n b"
  shows "\<exists>b'. Buffer_EnsureWritableBytes n b = Inr b' \<and> buffer_inv b' \<and>
    Buffer_contents b' = Buffer_contents b \<and> m_unWriterIndex b' + n \<le> length (m_vBuffer b') \<and>
    m_unWriterIndex b' \<le> m_unWriterIndex b \<and> length (m_vBuffer b) \<le> length (m_vBuffer b') \<and>
    (8 \<le> m_unReaderIndex b \<longrightarrow> 8 \<le> m_unReaderIndex b')"
proof (cases "length (m_vBuffer b) < m_unWriterIndex b + n")
  case True
  from makeSpace_ok [OF assms True] obtain b' where b': "Buffer_makeSpace n b = Inr b'"
    "buffer_inv b'" "Buffer_contents b' = Buffer_contents b"
    "m_unWriterIndex b' + n \<le> length (m_vBuffer b')" "m_unWriterIndex b' \<le> m_unWriterIndex b"
    "length (m_vBuffer b) \<le> length (m_vBuffer b')" "8 \<le> m_unReaderIndex b \<longrightarrow> 8 \<le> m_unReaderIndex b'"
    by blast
  moreover have "Buffer_WriteableBytes b < n" using True assms(1) by (auto simp: buffer_inv_def)
  moreover have "n \<le> Buffer_WriteableBytes b'" using b' by simp
  ultimately show ?thesis by (simp add: Buffer_EnsureWritableBytes_def)
next
  case False
  with assms(1) show ?thesis
    by (auto simp: Buffer_EnsureWritableBytes_def)
qed

text \<open>What a buffer promises after an operation: well-formed, with these contents, at
  most \<open>n\<close> bytes of room used, and the space for a header kept if it was there.\<close>

definition buffer_after :: "buffer \<Rightarrow> byte list \<Rightarrow> nat \<Rightarrow> buffer \<Rightarrow> bool" where
  "buffer_after b c n b' \<longleftrightarrow>
     buffer_inv b' \<and> Buffer_contents b' = c \<and> m_unWriterIndex b' \<le> m_unWriterIndex b + n \<and>
     (8 \<le> m_unReaderIndex b \<longrightarrow> 8 \<le> m_unReaderIndex b')"

lemma Append_after:
  assumes "buffer_inv b" and "Buffer_room (length d) b"
  shows "\<exists>b'. Buffer_Append d b = Inr b' \<and> buffer_after b (Buffer_contents b @ d) (length d) b'"
proof -
  from EnsureWritableBytes_ok [OF assms] obtain b1 where
    b1: "Buffer_EnsureWritableBytes (length d) b = Inr b1" "buffer_inv b1"
      "Buffer_contents b1 = Buffer_contents b"
      "m_unWriterIndex b1 + length d \<le> length (m_vBuffer b1)"
      "m_unWriterIndex b1 \<le> m_unWriterIndex b" "length (m_vBuffer b) \<le> length (m_vBuffer b1)"
      "8 \<le> m_unReaderIndex b \<longrightarrow> 8 \<le> m_unReaderIndex b1"
    by blast
  define b2 where "b2 = Buffer_HasWritted (length d)
    (b1\<lparr>m_vBuffer := take (m_unWriterIndex b1) (m_vBuffer b1) @ d @
                     drop (m_unWriterIndex b1 + length d) (m_vBuffer b1)\<rparr>)"
  note after = write_at_end [OF b1(2,4), folded b2_def]
  have "length (m_vBuffer b2) = length (m_vBuffer b1)"
    using b1(4) by (simp add: b2_def Buffer_HasWritted_def)
  moreover have "Buffer_Append d b = Inr b2"
    using b1 by (simp add: Buffer_Append_def Buffer_BeginWrite_def b2_def)
  ultimately show ?thesis using after b1 by (simp add: buffer_after_def)
qed

lemma Append_contents:
  "buffer_inv b \<Longrightarrow> Buffer_room (length d) b \<Longrightarrow> Buffer_Append d b = Inr b' \<Longrightarrow>
     buffer_inv b' \<and> Buffer_contents b' = Buffer_contents b @ d"
  using Append_after [of b d] by (auto simp: buffer_after_def)

lemma Prepend_ok:
  assumes "buffer_inv b" and "length d \<le> m_unReaderIndex b"
  shows "\<exists>b'. Buffer_Prepend d b = Inr b' \<and> buffer_inv b' \<and>
    Buffer_contents b' = d @ Buffer_contents b \<and> m_unWriterIndex b' = m_unWriterIndex b"
proof -
  let ?r = "m_unReaderIndex b - length d" and ?v = "m_vBuffer b"
  have inv: "m_unReaderIndex b \<le> m_unWriterIndex b" "m_unWriterIndex b \<le> length ?v"
    "length ?v \<le> vector_max" "8 \<le> m_unWriterIndex b"
    using assms(1) by (simp_all add: buffer_inv_def CHEAP_PREPEND_def)
  define b' where "b' = b\<lparr>m_vBuffer := take ?r ?v @ d @ drop (m_unReaderIndex b) ?v,
    m_unReaderIndex := ?r\<rparr>"
  have "mem_write ?v ?r d = Inr (take ?r ?v @ d @ drop (m_unReaderIndex b) ?v)"
    using assms inv by (subst mem_write_ok) auto
  then have "Buffer_Prepend d b = Inr b'"
    using assms inv by (simp add: Buffer_Prepend_def b'_def Let_def)
  moreover have "buffer_inv b'" using inv assms(2) by (auto simp: b'_def buffer_inv_def CHEAP_PREPEND_def)
  moreover have "Buffer_contents b' = d @ Buffer_contents b"
    using inv assms(2) by (simp add: b'_def Buffer_contents_def)
  ultimately show ?thesis by (simp add: b'_def)
qed

section \<open>The buffer as a byte queue\<close>

text \<open>
  The contract the clients of the buffer use (\<open>TcpConnection\<close>, the codec): bytes go in at one
  end while there is room and come out at the other in the same order.
\<close>

datatype queue_op = PutOp "byte list" | GetOp nat | ClearOp

fun queue_step ::
  "(byte list \<Rightarrow> 'q \<Rightarrow> 'q res) \<Rightarrow> (nat \<Rightarrow> 'q \<Rightarrow> 'q res) \<Rightarrow> ('q \<Rightarrow> 'q) \<Rightarrow> queue_op \<Rightarrow> 'q \<Rightarrow> 'q res"
  where
  "queue_step put get clear (PutOp d) q = put d q"
| "queue_step put get clear (GetOp n) q = get n q"
| "queue_step put get clear ClearOp q = Inr (clear q)"

text \<open>The specification: the same operations on a list of bytes.\<close>

definition list_get :: "nat \<Rightarrow> byte list \<Rightarrow> byte list res" where
  "list_get n c = check (n \<le> length c) (Inr (drop n c))"

abbreviation list_step :: "queue_op \<Rightarrow> byte list \<Rightarrow> byte list res" where
  "list_step \<equiv> queue_step (\<lambda>d c. Inr (c @ d)) list_get (\<lambda>_. [])"

fun put_bytes :: "queue_op \<Rightarrow> nat" where
  "put_bytes (PutOp d) = length d"
| "put_bytes _ = 0"

locale byte_queue =
  fixes wf :: "'q \<Rightarrow> bool" and bytes :: "'q \<Rightarrow> byte list" and room :: "nat \<Rightarrow> 'q \<Rightarrow> bool"
    and put :: "byte list \<Rightarrow> 'q \<Rightarrow> 'q res" and get :: "nat \<Rightarrow> 'q \<Rightarrow> 'q res" and clear :: "'q \<Rightarrow> 'q"
  assumes put_ok: "wf q \<Longrightarrow> room (length d + n) q \<Longrightarrow>
      \<exists>q'. put d q = Inr q' \<and> wf q' \<and> bytes q' = bytes q @ d \<and> room n q'"
    and get_ok: "wf q \<Longrightarrow> n \<le> length (bytes q) \<Longrightarrow>
      \<exists>q'. get n q = Inr q' \<and> wf q' \<and> bytes q' = drop n (bytes q) \<and> (\<forall>k. room k q \<longrightarrow> room k q')"
    and get_fails: "wf q \<Longrightarrow> length (bytes q) < n \<Longrightarrow> get n q = Inl AssertFailed"
    and clear_ok: "wf q \<Longrightarrow> wf (clear q) \<and> bytes (clear q) = []"
    and clear_room: "wf q \<Longrightarrow> room k q \<Longrightarrow> room k (clear q)"
begin

lemma step_refines:
  assumes "wf q" and "room (put_bytes op + n) q"
  shows "case list_step op (bytes q) of
      Inl e \<Rightarrow> queue_step put get clear op q = Inl e
    | Inr c \<Rightarrow> \<exists>q'. queue_step put get clear op q = Inr q' \<and> wf q' \<and> bytes q' = c \<and> room n q'"
proof (cases op)
  case (PutOp d)
  with assms put_ok [of q d n] show ?thesis by simp
next
  case (GetOp k)
  with assms get_ok [of q k] get_fails [of q k] show ?thesis
    by (cases "k \<le> length (bytes q)") (auto simp: list_get_def)
next
  case ClearOp
  with assms clear_ok [of q] clear_room [of q n] show ?thesis by simp
qed

lemma run_refines:
  "wf q \<Longrightarrow> room (sum_list (map put_bytes ops)) q \<Longrightarrow>
    (case rfold list_step ops (bytes q) of
      Inl e \<Rightarrow> rfold (queue_step put get clear) ops q = Inl e
    | Inr c \<Rightarrow> \<exists>q'. rfold (queue_step put get clear) ops q = Inr q' \<and> wf q' \<and> bytes q' = c)"
proof (induction ops arbitrary: q)
  case (Cons op ops)
  have room': "room (put_bytes op + sum_list (map put_bytes ops)) q" using Cons.prems(2) by simp
  show ?case
  proof (cases "list_step op (bytes q)")
    case (Inl e)
    with step_refines [OF Cons.prems(1) room'] show ?thesis by simp
  next
    case (Inr c)
    with step_refines [OF Cons.prems(1) room'] obtain q' where
      "queue_step put get clear op q = Inr q'" "wf q'" "bytes q' = c"
      "room (sum_list (map put_bytes ops)) q'" by auto
    with Inr Cons.IH [of q'] show ?thesis by (cases "rfold list_step ops c") auto
  qed
qed simp

end

interpretation netbuf: byte_queue buffer_inv Buffer_contents Buffer_room
  Buffer_Append Buffer_Retrieve Buffer_RetrieveAll
proof
  show "\<exists>b'. Buffer_Append d b = Inr b' \<and> buffer_inv b' \<and>
      Buffer_contents b' = Buffer_contents b @ d \<and> Buffer_room n b'"
    if "buffer_inv b" and "Buffer_room (length d + n) b" for b d n
    using Append_after [of b d] that by (force simp: buffer_after_def Buffer_room_def)
  show "\<exists>b'. Buffer_Retrieve n b = Inr b' \<and> buffer_inv b' \<and>
      Buffer_contents b' = drop n (Buffer_contents b) \<and> (\<forall>k. Buffer_room k b \<longrightarrow> Buffer_room k b')"
    if "buffer_inv b" and "n \<le> length (Buffer_contents b)" for b n
    using Retrieve_ok [OF that] by (auto simp: Buffer_room_def)
  show "Buffer_Retrieve n b = Inl AssertFailed"
    if "buffer_inv b" and "length (Buffer_contents b) < n" for b n
    using that by (rule Retrieve_too_much)
  show "buffer_inv (Buffer_RetrieveAll b) \<and> Buffer_contents (Buffer_RetrieveAll b) = []"
    if "buffer_inv b" for b using that by simp
  show "Buffer_room k (Buffer_RetrieveAll b)" if "buffer_inv b" and "Buffer_room k b" for b k
    using that by (simp add: Buffer_room_def buffer_inv_def Buffer_RetrieveAll_def)
qed

section \<open>Integers\<close>

lemma read_prefix:
  assumes "buffer_inv b" and "n \<le> length (Buffer_contents b)"
  shows "mem_read (m_vBuffer b) (m_unReaderIndex b) n = Inr (take n (Buffer_contents b))"
proof -
  from assms have "m_unReaderIndex b + n \<le> m_unWriterIndex b" "n \<le> m_unWriterIndex b - m_unReaderIndex b"
    by (auto simp: buffer_inv_def)
  with assms(1) show ?thesis by (simp add: buffer_inv_def mem_read_def Buffer_contents_def min_def)
qed

lemma PeekInt32_ok:
  assumes "buffer_inv b" and "Buffer_contents b = be_bytes32 v @ c"
  shows "Buffer_PeekInt32 e b = Inr v"
  using assms read_prefix [of b 4] length_Buffer_contents [of b]
  by (simp add: Buffer_PeekInt32_def Buffer_Peek_def)

lemma PeekInt16_ok:
  assumes "buffer_inv b" and "Buffer_contents b = be_bytes16 v @ c"
  shows "Buffer_PeekInt16 e b = Inr v"
  using assms read_prefix [of b 2] length_Buffer_contents [of b]
  by (simp add: Buffer_PeekInt16_def Buffer_Peek_def)

lemma PeekInt8_ok:
  assumes "buffer_inv b" and "Buffer_contents b = v # c"
  shows "Buffer_PeekInt8 b = Inr v"
  using assms read_prefix [of b 1] length_Buffer_contents [of b]
  by (simp add: Buffer_PeekInt8_def Buffer_Peek_def)

lemma AppendInt32_ok:
  assumes "buffer_inv b" and "Buffer_room (4 + n) b"
  shows "\<exists>b'. Buffer_AppendInt32 e v b = Inr b' \<and> buffer_inv b' \<and>
    Buffer_contents b' = Buffer_contents b @ be_bytes32 v \<and> Buffer_room n b'"
  using netbuf.put_ok [of b "be_bytes32 v" n] assms by (simp add: Buffer_AppendInt32_def)

lemma AppendInt16_ok:
  assumes "buffer_inv b" and "Buffer_room (2 + n) b"
  shows "\<exists>b'. Buffer_AppendInt16 e v b = Inr b' \<and> buffer_inv b' \<and>
    Buffer_contents b' = Buffer_contents b @ be_bytes16 v \<and> Buffer_room n b'"
  using netbuf.put_ok [of b "be_bytes16 v" n] assms by (simp add: Buffer_AppendInt16_def)

lemma AppendInt8_ok:
  assumes "buffer_inv b" and "Buffer_room (1 + n) b"
  shows "\<exists>b'. Buffer_AppendInt8 v b = Inr b' \<and> buffer_inv b' \<and>
    Buffer_contents b' = Buffer_contents b @ [v] \<and> Buffer_room n b'"
  using netbuf.put_ok [of b "[v]" n] assms by (simp add: Buffer_AppendInt8_def)

lemma RetrieveInt_ok:
  assumes "buffer_inv b" and "Buffer_contents b = d @ c"
  shows "\<exists>b'. Buffer_Retrieve (length d) b = Inr b' \<and> buffer_inv b' \<and> Buffer_contents b' = c"
  using netbuf.get_ok [of b "length d"] assms length_Buffer_contents [of b] by auto

lemma ReadInt8_ok:
  assumes "buffer_inv b" and "Buffer_contents b = v # c"
  shows "\<exists>b'. Buffer_ReadInt8 b = Inr (v, b') \<and> buffer_inv b' \<and> Buffer_contents b' = c"
  using RetrieveInt_ok [of b "[v]" c] PeekInt8_ok [OF assms] assms
  by (auto simp: Buffer_ReadInt8_def Buffer_RetrieveInt8_def)

lemma ReadInt16_ok:
  assumes "buffer_inv b" and "Buffer_contents b = be_bytes16 v @ c"
  shows "\<exists>b'. Buffer_ReadInt16 e b = Inr (v, b') \<and> buffer_inv b' \<and> Buffer_contents b' = c"
  using RetrieveInt_ok [OF assms] PeekInt16_ok [OF assms]
  by (auto simp: Buffer_ReadInt16_def Buffer_RetrieveInt16_def)

lemma RetrieveInt32_ok:
  assumes "buffer_inv b" and "Buffer_contents b = be_bytes32 v @ c"
  shows "\<exists>b'. Buffer_RetrieveInt32 b = Inr b' \<and> buffer_inv b' \<and> Buffer_contents b' = c"
  using RetrieveInt_ok [OF assms] by (simp add: Buffer_RetrieveInt32_def)

section \<open>Reading from a descriptor and shrinking\<close>

lemma ReadFd_bytes_ok:
  assumes "buffer_inv b" and "Buffer_room (length d) b"
  shows "\<exists>b'. Buffer_ReadFd (ReadBytes d) b = Inr (int (length d), None, b') \<and>
    buffer_inv b' \<and> Buffer_contents b' = Buffer_contents b @ d"
proof -
  let ?w = "m_unWriterIndex b" and ?v = "m_vBuffer b"
  let ?n = "length ?v - ?w"
  have inv: "?w \<le> length ?v" using assms(1) by (simp add: buffer_inv_def)
  show ?thesis
  proof (cases "length d \<le> ?n")
    case True
    with inv have fits: "?w + length d \<le> length ?v" by linarith
    note after = write_at_end [OF assms(1) fits]
    from True fits assms(1) after(1,2) show ?thesis
      by (simp add: Buffer_ReadFd_def Buffer_BeginWrite_def Buffer_HasWritted_def Let_def)
  next
    case False
    let ?d = "take ?n d"
    from False have len: "length ?d = ?n" by simp
    with inv have fits: "?w + length ?d \<le> length ?v" by linarith
    define b1 where "b1 = Buffer_HasWritted (length ?d)
      (b\<lparr>m_vBuffer := take ?w ?v @ ?d @ drop (?w + length ?d) ?v\<rparr>)"
    note after = write_at_end [OF assms(1) fits, folded b1_def]
    have w1: "m_unWriterIndex b1 = length ?v" and v1: "m_vBuffer b1 = take ?w ?v @ ?d"
      using after(3) len inv by (simp_all add: b1_def Buffer_HasWritted_def)
    have room: "Buffer_room (length (drop ?n d)) b1"
      using assms(2) False inv w1 by (simp add: Buffer_room_def)
    from Append_after [OF after(1) room] obtain b2 where
      "Buffer_Append (drop ?n d) b1 = Inr b2" "buffer_inv b2"
      "Buffer_contents b2 = Buffer_contents b1 @ drop ?n d" by (auto simp: buffer_after_def)
    moreover have "b\<lparr>m_vBuffer := take ?w ?v @ ?d, m_unWriterIndex := length (take ?w ?v @ ?d)\<rparr> = b1"
      using w1 v1 inv len by (simp add: b1_def Buffer_HasWritted_def)
    ultimately show ?thesis
      using False inv len assms(1) after(2)
      by (simp add: Buffer_ReadFd_def Buffer_BeginWrite_def Let_def)
  qed
qed

lemma Shrink_result:
  assumes "buffer_inv b" and "8 + length (Buffer_contents b) + n \<le> vector_max"
  shows "Buffer_Shrink n b =
    Inr (b\<lparr>m_vBuffer := replicate 8 0 @ Buffer_contents b @ replicate n 0\<rparr>)"
proof -
  let ?l = "length (Buffer_contents b)"
  have l: "Buffer_ReadableBytes b = ?l" using assms(1) by simp
  have sz: "size_plus (size_plus CHEAP_PREPEND ?l) n = 8 + ?l + n"
    using assms(2) unfolding CHEAP_PREPEND_def by (subst size_plus_vector; simp)+
  have v: "vector_resize [] (8 + ?l + n) = Inr (replicate (8 + ?l + n) 0)"
    using assms(2) by (simp add: vector_resize_def)
  have r: "mem_read (m_vBuffer b) (Buffer_Peek b) ?l = Inr (Buffer_contents b)"
    using read_contents [OF assms(1)] assms(1) by (simp add: Buffer_Peek_def)
  have "mem_write (replicate (8 + ?l + n) 0) CHEAP_PREPEND (Buffer_contents b) =
      Inr (replicate 8 0 @ Buffer_contents b @ replicate n 0)"
    unfolding CHEAP_PREPEND_def by (subst mem_write_ok) (simp_all add: min_def)
  then show ?thesis unfolding Buffer_Shrink_def l sz v r by simp
qed

section \<open>Properties\<close>

text \<open>C1: A buffer refines a plain byte queue. From a well-formed buffer, any sequence of
  \<open>Append\<close>, \<open>Retrieve\<close> and \<open>RetrieveAll\<close> that fits in the largest vector behaves as the same
  sequence on the list of readable bytes: the same assertion fails at the same point, or both
  succeed and the readable bytes are the queue's, through every growth and every slide of the
  contents.\<close>

theorem buffer_refines_byte_queue:
  assumes "buffer_inv b" and "Buffer_room (sum_list (map put_bytes ops)) b"
  shows "case rfold list_step ops (Buffer_contents b) of
      Inl e \<Rightarrow> rfold (queue_step Buffer_Append Buffer_Retrieve Buffer_RetrieveAll) ops b = Inl e
    | Inr c \<Rightarrow> \<exists>b'. rfold (queue_step Buffer_Append Buffer_Retrieve Buffer_RetrieveAll) ops b = Inr b'
        \<and> buffer_inv b' \<and> Buffer_contents b' = c"
  using assms by (rule netbuf.run_refines)

theorem buffer_refines_byte_queue_witness:
  "\<exists>b'. rfold (queue_step Buffer_Append Buffer_Retrieve Buffer_RetrieveAll)
     [PutOp [1, 2, 3], GetOp 2, PutOp [4]] Buffer_init = Inr b' \<and> buffer_inv b' \<and>
     Buffer_contents b' = [3, 4]"
proof -
  have "Buffer_room (sum_list (map put_bytes [PutOp [1, 2, 3], GetOp 2, PutOp [4]])) Buffer_init"
    by (simp add: Buffer_room_def Buffer_init_def CHEAP_PREPEND_def vector_max_def)
  from buffer_refines_byte_queue [OF buffer_inv_init this] show ?thesis
    by (simp add: list_get_def)
qed

text \<open>Integers survive the buffer on either kind of host: a 32-bit, a 16-bit and an 8-bit
  value appended to an empty buffer are stored in network byte order and come back, in this
  order, as the values appended, leaving the buffer empty.\<close>

theorem buffer_int_roundtrip:
  assumes "buffer_inv b" and "Buffer_contents b = []" and "Buffer_room 7 b"
  shows "\<exists>b1 b2 b3 b4 b5 b6.
    Buffer_AppendInt32 e u b = Inr b1 \<and> Buffer_AppendInt16 e v b1 = Inr b2 \<and>
    Buffer_AppendInt8 w b2 = Inr b3 \<and>
    Buffer_contents b3 = be_bytes32 u @ be_bytes16 v @ [w] \<and>
    Buffer_PeekInt32 e b3 = Inr u \<and> Buffer_RetrieveInt32 b3 = Inr b4 \<and>
    Buffer_ReadInt16 e b4 = Inr (v, b5) \<and> Buffer_ReadInt8 b5 = Inr (w, b6) \<and>
    buffer_inv b6 \<and> Buffer_contents b6 = []"
proof -
  from assms AppendInt32_ok [of b 3 e u] obtain b1 where
    b1: "Buffer_AppendInt32 e u b = Inr b1" "buffer_inv b1" "Buffer_contents b1 = be_bytes32 u"
      "Buffer_room 3 b1" by auto
  then obtain b2 where b2: "Buffer_AppendInt16 e v b1 = Inr b2" "buffer_inv b2"
      "Buffer_contents b2 = be_bytes32 u @ be_bytes16 v" "Buffer_room 1 b2"
    using AppendInt16_ok [of b1 1 e v] by auto
  then obtain b3 where b3: "Buffer_AppendInt8 w b2 = Inr b3" "buffer_inv b3"
      "Buffer_contents b3 = be_bytes32 u @ be_bytes16 v @ [w]"
    using AppendInt8_ok [of b2 0 w] by auto
  with RetrieveInt32_ok obtain b4 where
    b4: "Buffer_RetrieveInt32 b3 = Inr b4" "buffer_inv b4" "Buffer_contents b4 = be_bytes16 v @ [w]"
    by blast
  with ReadInt16_ok obtain b5 where
    b5: "Buffer_ReadInt16 e b4 = Inr (v, b5)" "buffer_inv b5" "Buffer_contents b5 = [w]" by blast
  with ReadInt8_ok obtain b6 where
    "Buffer_ReadInt8 b5 = Inr (w, b6)" "buffer_inv b6" "Buffer_contents b6 = []" by blast
  with b1 b2 b3 b4 b5 PeekInt32_ok [OF b3(2,3)] show ?thesis by blast
qed

theorem buffer_int_roundtrip_witness:
  "\<exists>b3. Buffer_contents b3 = be_bytes32 70000 @ be_bytes16 513 @ [7] \<and>
    Buffer_PeekInt32 LittleEndian b3 = Inr 70000"
proof -
  have "Buffer_room 7 Buffer_init"
    by (simp add: Buffer_room_def Buffer_init_def CHEAP_PREPEND_def vector_max_def)
  from buffer_int_roundtrip [OF buffer_inv_init contents_init this, of LittleEndian 70000 513 7]
  show ?thesis by blast
qed

text \<open>\<open>ReadInt32\<close> does not return the integer in the buffer: it keeps the low byte only and
  sign extends it, so the result is the stored value exactly when that lies in the range of a
  signed byte, while \<open>PeekInt32\<close> on the same buffer returns the value itself.\<close>

theorem ReadInt32_truncates:
  assumes "buffer_inv b" and "Buffer_contents b = be_bytes32 v @ c"
  shows "Buffer_PeekInt32 e b = Inr v \<and>
    (\<exists>b'. Buffer_ReadInt32 e b = Inr (scast (ucast v :: 8 word), b') \<and> Buffer_contents b' = c) \<and>
    ((\<exists>b'. Buffer_ReadInt32 e b = Inr (v, b')) \<longleftrightarrow> - 128 \<le> sint v \<and> sint v < 128)"
proof -
  from RetrieveInt32_ok [OF assms] obtain b' where
    b': "Buffer_RetrieveInt32 b = Inr b'" "Buffer_contents b' = c" by blast
  then have "Buffer_ReadInt32 e b = Inr (scast (ucast v :: 8 word), b')"
    using PeekInt32_ok [OF assms, of e] by (simp add: Buffer_ReadInt32_def)
  with b' PeekInt32_ok [OF assms, of e] show ?thesis
    by (simp add: int8_cast_id_iff [symmetric])
qed

theorem ReadInt32_truncates_witness:
  "\<exists>b b'. buffer_inv b \<and> Buffer_contents b = be_bytes32 1000 \<and>
     Buffer_ReadInt32 BigEndian b = Inr (- 24, b')"
proof -
  have "Buffer_room (4 + 0) Buffer_init"
    by (simp add: Buffer_room_def Buffer_init_def CHEAP_PREPEND_def vector_max_def)
  from AppendInt32_ok [OF buffer_inv_init this, of BigEndian 1000] obtain b where
    b: "buffer_inv b" "Buffer_contents b = be_bytes32 1000 @ []" by auto
  from ReadInt32_truncates [OF b, of BigEndian] b show ?thesis by auto
qed

text \<open>\<open>ReadFd\<close> appends exactly the bytes the kernel returned and reports their number,
  whether they fit behind the contents or overflow into the stack array; on an error the
  buffer is unchanged and the error number is handed out.\<close>

theorem ReadFd_appends:
  assumes "buffer_inv b" and "Buffer_room (io_length io) b"
  shows "case io of
      ReadError err \<Rightarrow> Buffer_ReadFd io b = Inr (- 1, Some err, b)
    | ReadBytes d \<Rightarrow> \<exists>b'. Buffer_ReadFd io b = Inr (int (length d), None, b') \<and>
        buffer_inv b' \<and> Buffer_contents b' = Buffer_contents b @ d"
  using ReadFd_bytes_ok [OF assms(1)] assms(2)
  by (cases io) (auto simp: Buffer_ReadFd_def)

theorem ReadFd_appends_witness:
  "\<exists>b'. Buffer_ReadFd (ReadBytes (replicate 2000 7)) Buffer_init = Inr (2000, None, b') \<and>
     Buffer_contents b' = replicate 2000 7"
proof -
  have "Buffer_room (io_length (ReadBytes (replicate 2000 7))) Buffer_init"
    by (simp add: Buffer_room_def Buffer_init_def CHEAP_PREPEND_def vector_max_def)
  from ReadFd_appends [OF buffer_inv_init this] show ?thesis by auto
qed

text \<open>\<open>Shrink\<close> moves the contents to \<open>CHEAP_PREPEND\<close> but leaves the indices. With the reader
  index at \<open>CHEAP_PREPEND\<close> it keeps the contents and leaves \<open>unReserve\<close> writable bytes; with
  the reader index more than \<open>unReserve\<close> past it, the writer index lies behind the vector, the
  invariant is gone and \<open>WriteableBytes\<close> wraps around to almost \<open>2 ^ 64\<close>.\<close>

theorem Shrink_stale_indices:
  assumes "buffer_inv b" and "8 + length (Buffer_contents b) + n \<le> vector_max"
  shows "\<exists>b'. Buffer_Shrink n b = Inr b' \<and>
    (m_unReaderIndex b = CHEAP_PREPEND \<longrightarrow>
       buffer_inv b' \<and> Buffer_contents b' = Buffer_contents b \<and> Buffer_WriteableBytes b' = n) \<and>
    (CHEAP_PREPEND + n < m_unReaderIndex b \<longrightarrow>
       \<not> buffer_inv b' \<and>
       Buffer_WriteableBytes b' = 2 ^ 64 - (m_unReaderIndex b - (CHEAP_PREPEND + n)))"
proof -
  define b' where "b' = b\<lparr>m_vBuffer := replicate 8 0 @ Buffer_contents b @ replicate n 0\<rparr>"
  have inv: "m_unReaderIndex b \<le> m_unWriterIndex b" "m_unWriterIndex b \<le> vector_max"
    using assms(1) by (auto simp: buffer_inv_def)
  have len: "length (m_vBuffer b') = 8 + (m_unWriterIndex b - m_unReaderIndex b) + n"
    using assms(1) by (simp add: b'_def)
  have one: "buffer_inv b' \<and> Buffer_contents b' = Buffer_contents b \<and> Buffer_WriteableBytes b' = n"
    if "m_unReaderIndex b = CHEAP_PREPEND"
  proof -
    have i: "buffer_inv b'"
      using that inv assms len by (auto simp: b'_def buffer_inv_def CHEAP_PREPEND_def)
    moreover have "Buffer_contents b' = Buffer_contents b"
      using that assms(1) by (simp add: b'_def Buffer_contents_def [of "b\<lparr>m_vBuffer := _\<rparr>"] CHEAP_PREPEND_def)
    moreover have "Buffer_WriteableBytes b' = n"
      using i that len inv by (simp add: b'_def CHEAP_PREPEND_def)
    ultimately show ?thesis by blast
  qed
  have two: "\<not> buffer_inv b' \<and>
      Buffer_WriteableBytes b' = 2 ^ 64 - (m_unReaderIndex b - (CHEAP_PREPEND + n))"
    if "CHEAP_PREPEND + n < m_unReaderIndex b"
  proof -
    have less: "length (m_vBuffer b') < m_unWriterIndex b'"
      using that inv len by (simp add: b'_def CHEAP_PREPEND_def)
    moreover have "m_unWriterIndex b' \<le> 2 ^ 64"
      using inv vector_max_twice by (simp add: b'_def)
    ultimately have "Buffer_WriteableBytes b' = 2 ^ 64 - (m_unWriterIndex b' - length (m_vBuffer b'))"
      unfolding Buffer_WriteableBytes_def by (rule size_minus_wraps)
    with less that inv len show ?thesis by (simp add: b'_def buffer_inv_def CHEAP_PREPEND_def)
  qed
  from one two show ?thesis using Shrink_result [OF assms] by (auto simp: b'_def)
qed

theorem Shrink_stale_indices_witness:
  "\<exists>b b'. buffer_inv b \<and> m_unReaderIndex b = 20 \<and> Buffer_Shrink 2 b = Inr b' \<and> \<not> buffer_inv b'"
proof -
  define b where "b = Buffer_init\<lparr>m_unReaderIndex := 20, m_unWriterIndex := 30\<rparr>"
  have inv: "buffer_inv b"
    by (simp add: b_def buffer_inv_def Buffer_init_def CHEAP_PREPEND_def INITIAL_SIZE_def vector_max_def)
  have "8 + length (Buffer_contents b) + 2 \<le> vector_max"
    using inv by (simp add: b_def vector_max_def)
  from Shrink_stale_indices [OF inv this] obtain b' where "Buffer_Shrink 2 b = Inr b'"
    and "\<not> buffer_inv b'" by (auto simp: b_def CHEAP_PREPEND_def)
  moreover have "m_unReaderIndex b = 20" by (simp add: b_def)
  ultimately show ?thesis using inv by blast
qed

end
