(* ===== verification/TcpConnections.thy ===== *)
theory TcpConnections
  imports EventLoops NetBuffer
begin

text \<open>
  \<open>reactor/TcpConnection\<close>: one connection on its loop, with its channel, its two buffers and its
  state. The state record extends the loop's. What the socket does is an argument of each
  operation (the bytes a read returns, how much a write takes); what the user's callbacks do is
  the argument \<open>user\<close>. The fields \<open>w_\<close> and \<open>g_\<close> record the bytes written to the socket, the
  shutdown, and what was accepted for sending; \<open>c_vBatch\<close> holds the functors \<open>doPendingFunctors\<close>
  has taken and not yet run.
\<close>

section \<open>State\<close>

datatype conn_state = eTCS_Connecting | eTCS_Connected | eTCS_Disconnecting | eTCS_Disconnected

datatype conn_cb = HandleRead | HandleWrite | HandleClose | HandleError

text \<open>
  The functors the connection and its server queue in the loop. The first two are bound to the
  raw \<open>this\<close>; the others hold a \<open>shared_ptr\<close>, which keeps the connection alive.
\<close>

datatype conn_functor =
  SendInLoop "byte list" | ShutDownInLoop | WriteComplete | ConnectedDestroyed

text \<open>What the user is called for.\<close>

datatype conn_event = OnConnection | OnMessage TimeStamp | OnClose | OnWriteComplete

text \<open>\<open>write\<close> takes some bytes, or fails.\<close>

datatype io_write = Wrote nat | WriteFails

record 'k conn = "(conn_cb, 'k, conn_functor) event_loop" +
  c_eConnectState :: conn_state
  c_pChannel :: nat
  c_InputBuffer :: buffer
  c_OutputBuffer :: buffer
  c_ConnCallBack :: bool
  c_MsgCallBack :: bool
  c_WriteCompleteCallBack :: bool
  c_CloseCallBack :: bool
  c_bAlive :: bool
  w_Wire :: "byte list"
  w_ShutDown :: "byte list option"
  g_Accepted :: "byte list"
  g_bClosed :: bool
  c_vBatch :: "conn_functor list"

text \<open>\<open>user\<close> runs a callback of the user on the whole state.\<close>

type_synonym 'k conn_user = "conn_event \<Rightarrow> 'k conn \<Rightarrow> 'k conn res"

definition Connection_IsConnected :: "'k conn \<Rightarrow> bool" where
  "Connection_IsConnected s \<longleftrightarrow> c_eConnectState s = eTCS_Connected"

definition Connection_setConnectedState :: "conn_state \<Rightarrow> 'k conn \<Rightarrow> 'k conn" where
  "Connection_setConnectedState eTCS s = s\<lparr>c_eConnectState := eTCS\<rparr>"

definition Connection_SetConnectionCallBack :: "'k conn \<Rightarrow> 'k conn" where
  "Connection_SetConnectionCallBack s = s\<lparr>c_ConnCallBack := True\<rparr>"

definition Connection_SetMessageCallBack :: "'k conn \<Rightarrow> 'k conn" where
  "Connection_SetMessageCallBack s = s\<lparr>c_MsgCallBack := True\<rparr>"

definition Connection_SetWriteCompleteCallBack :: "'k conn \<Rightarrow> 'k conn" where
  "Connection_SetWriteCompleteCallBack s = s\<lparr>c_WriteCompleteCallBack := True\<rparr>"

definition Connection_SetCloseCallBack :: "'k conn \<Rightarrow> 'k conn" where
  "Connection_SetCloseCallBack s = s\<lparr>c_CloseCallBack := True\<rparr>"

text \<open>The channel the constructor makes.\<close>

definition Connection_channel :: "nat \<Rightarrow> int \<Rightarrow> conn_cb channel" where
  "Connection_channel pEventLoop nSockFd =
     Channel_SetErrorCallBack HandleError (Channel_SetCloseCallBack HandleClose
       (Channel_SetWriteCallBack HandleWrite (Channel_SetReadCallBack HandleRead
         (Channel_new pEventLoop nSockFd))))"

definition Connection_new :: "(conn_cb, 'k, conn_functor) event_loop \<Rightarrow> nat \<Rightarrow> int \<Rightarrow> 'k conn res" where
  "Connection_new l c nSockFd =
     check (0 \<le> nSockFd)
       (Inr (event_loop.extend (put_chan c (Connection_channel (s_Self l) nSockFd) l)
          (conn.fields eTCS_Connecting c Buffer_init Buffer_init False False False False True [] None [] False [])))"

section \<open>Sending\<close>

text \<open>Shutting down the socket's write side; what had been accepted then is recorded.\<close>

definition Socket_ShutDownWrite :: "'k conn \<Rightarrow> 'k conn" where
  "Socket_ShutDownWrite s =
     s\<lparr>w_ShutDown := Some (g_Accepted s)\<rparr>"

definition Connection_shutDownInLoop :: "nat \<Rightarrow> 'k conn \<Rightarrow> 'k conn res" where
  "Connection_shutDownInLoop tid s =
     EventLoop_AssertInLoopThread tid s
       (with_chan (c_pChannel s) s (\<lambda>ch.
          Inr (if \<not> Channel_IsWriting ch then Socket_ShutDownWrite s else s)))"

definition queue_write_complete :: "nat \<Rightarrow> 'k conn \<Rightarrow> 'k conn" where
  "queue_write_complete tid s =
     (if c_WriteCompleteCallBack s then EventLoop_QueueInLoop tid WriteComplete s else s)"

text \<open>
  The data that did not go out at once is appended to the output buffer, and the channel is
  told to wait until the socket is writable.
\<close>

definition send_rest :: "'k epoll_ctl \<Rightarrow> nat \<Rightarrow> byte list \<Rightarrow> 'k conn \<Rightarrow> 'k conn res" where
  "send_rest ctl tid rest s =
     (if 0 < length rest
      then rbind (Buffer_Append rest (c_OutputBuffer s)) (\<lambda>b.
        let s1 = s\<lparr>c_OutputBuffer := b\<rparr> in
        with_chan (c_pChannel s1) s1 (\<lambda>ch.
          if \<not> Channel_IsWriting ch then Channel_EnableWriting ctl tid (c_pChannel s1) s1 else Inr s1))
      else Inr s)"

definition Connection_sendInLoop ::
    "'k epoll_ctl \<Rightarrow> nat \<Rightarrow> io_write \<Rightarrow> byte list \<Rightarrow> 'k conn \<Rightarrow> 'k conn res" where
  "Connection_sendInLoop ctl tid w pData s =
     EventLoop_AssertInLoopThread tid s
       (if c_eConnectState s = eTCS_Disconnected then Inr s
        else with_chan (c_pChannel s) s (\<lambda>ch.
          let s = s\<lparr>g_Accepted := g_Accepted s @ pData\<rparr> in
          if \<not> Channel_IsWriting ch \<and> Buffer_ReadableBytes (c_OutputBuffer s) = 0
          then (case w of
                  Wrote n \<Rightarrow>
                    (let nRemaining = size_minus (length pData) n;
                         s1 = s\<lparr>w_Wire := w_Wire s @ take n pData\<rparr>;
                         s2 = (if nRemaining = 0 then queue_write_complete tid s1 else s1)
                     in check (nRemaining \<le> length pData) (send_rest ctl tid (drop n pData) s2))
                | WriteFails \<Rightarrow> send_rest ctl tid pData s)
          else send_rest ctl tid pData s))"

definition Connection_Send ::
    "'k epoll_ctl \<Rightarrow> nat \<Rightarrow> io_write \<Rightarrow> byte list \<Rightarrow> 'k conn \<Rightarrow> 'k conn res" where
  "Connection_Send ctl tid w rStrMsg s =
     (if Connection_IsConnected s
      then (if EventLoop_IsInLoopThread tid s then Connection_sendInLoop ctl tid w rStrMsg s
            else Inr (EventLoop_QueueInLoop tid (SendInLoop rStrMsg) s))
      else Inr s)"

text \<open>\<open>Send(Buffer*)\<close> also empties the caller's buffer; a null pointer sends nothing.\<close>

definition Connection_SendBuffer ::
    "'k epoll_ctl \<Rightarrow> nat \<Rightarrow> io_write \<Rightarrow> buffer option \<Rightarrow> 'k conn \<Rightarrow> (buffer option \<times> 'k conn) res" where
  "Connection_SendBuffer ctl tid w pBuf s =
     (case pBuf of
        None \<Rightarrow> Inr (None, s)
      | Some b \<Rightarrow>
          (if Connection_IsConnected s
           then rbind (Buffer_RetrieveAsString b) (\<lambda>(data, b').
             rbind (if EventLoop_IsInLoopThread tid s then Connection_sendInLoop ctl tid w data s
                    else Inr (EventLoop_QueueInLoop tid (SendInLoop data) s))
               (\<lambda>s'. Inr (Some b', s')))
           else Inr (Some b, s)))"

definition Connection_ShutDown :: "nat \<Rightarrow> 'k conn \<Rightarrow> 'k conn res" where
  "Connection_ShutDown tid s =
     (if Connection_IsConnected s
      then (let s1 = Connection_setConnectedState eTCS_Disconnecting s
            in if EventLoop_IsInLoopThread tid s1 then Connection_shutDownInLoop tid s1
               else Inr (EventLoop_QueueInLoop tid ShutDownInLoop s1))
      else Inr s)"

section \<open>The handlers\<close>

definition Connection_handleError :: "'k conn \<Rightarrow> 'k conn res" where
  "Connection_handleError s = Inr s"

definition Connection_handleClose ::
    "'k epoll_ctl \<Rightarrow> 'k conn_user \<Rightarrow> nat \<Rightarrow> 'k conn \<Rightarrow> 'k conn res" where
  "Connection_handleClose ctl user tid s =
     EventLoop_AssertInLoopThread tid s
       (check (c_eConnectState s = eTCS_Connected \<or> c_eConnectState s = eTCS_Disconnecting)
         (rbind (Channel_DisableAll ctl tid (c_pChannel s) (s\<lparr>g_bClosed := True\<rparr>)) (\<lambda>s1.
            if c_CloseCallBack s1 then user OnClose s1 else Inl BadFunctionCall)))"

definition Connection_handleRead ::
    "'k epoll_ctl \<Rightarrow> 'k conn_user \<Rightarrow> nat \<Rightarrow> io_read \<Rightarrow> TimeStamp \<Rightarrow> 'k conn \<Rightarrow> 'k conn res" where
  "Connection_handleRead ctl user tid io receiveTime s =
     rbind (Buffer_ReadFd io (c_InputBuffer s)) (\<lambda>(unReadSize, nSavedErrno, b).
       let s1 = s\<lparr>c_InputBuffer := b\<rparr> in
       if 0 < unReadSize
       then (if c_MsgCallBack s1 then user (OnMessage receiveTime) s1 else Inr s1)
       else if unReadSize = 0 then Connection_handleClose ctl user tid s1
       else Connection_handleError s1)"

definition Connection_handleWrite ::
    "'k epoll_ctl \<Rightarrow> nat \<Rightarrow> io_write \<Rightarrow> 'k conn \<Rightarrow> 'k conn res" where
  "Connection_handleWrite ctl tid w s =
     EventLoop_AssertInLoopThread tid s
       (with_chan (c_pChannel s) s (\<lambda>ch.
          if Channel_IsWriting ch
          then (case w of
                  Wrote (Suc n) \<Rightarrow>
                    rbind (mem_read (m_vBuffer (c_OutputBuffer s)) (Buffer_Peek (c_OutputBuffer s))
                             (Suc n)) (\<lambda>sent.
                    rbind (Buffer_Retrieve (Suc n) (c_OutputBuffer s)) (\<lambda>b.
                    let s1 = s\<lparr>c_OutputBuffer := b, w_Wire := w_Wire s @ sent\<rparr> in
                    if Buffer_ReadableBytes b = 0
                    then rbind (Channel_DisableWriting ctl tid (c_pChannel s1) s1) (\<lambda>s2.
                           let s3 = queue_write_complete tid s2 in
                           if c_eConnectState s3 = eTCS_Disconnecting
                           then Connection_shutDownInLoop tid s3 else Inr s3)
                    else Inr s1))
                | _ \<Rightarrow> Inl Aborted)
          else Inr s))"

definition Connection_ConnectedEstablished ::
    "'k epoll_ctl \<Rightarrow> 'k conn_user \<Rightarrow> nat \<Rightarrow> 'k conn \<Rightarrow> 'k conn res" where
  "Connection_ConnectedEstablished ctl user tid s =
     EventLoop_AssertInLoopThread tid s
       (check (c_eConnectState s = eTCS_Connecting)
         (rbind (Channel_EnableReading ctl tid (c_pChannel s)
                   (Connection_setConnectedState eTCS_Connected s)) (\<lambda>s1.
            if c_ConnCallBack s1 then user OnConnection s1 else Inr s1)))"

definition Connection_ConnectedDestroyed :: "'k epoll_ctl \<Rightarrow> nat \<Rightarrow> 'k conn \<Rightarrow> 'k conn res" where
  "Connection_ConnectedDestroyed ctl tid s =
     EventLoop_AssertInLoopThread tid s
       (check (c_eConnectState s = eTCS_Connected \<or> c_eConnectState s = eTCS_Disconnecting)
         (rbind (Channel_DisableAll ctl tid (c_pChannel s)
                   (Connection_setConnectedState eTCS_Disconnected s)) (\<lambda>s1.
            EventLoop_RemoveChannel ctl tid (c_pChannel s1) s1)))"

text \<open>The destructor, which deletes the channel.\<close>

definition Connection_destroy :: "'k conn \<Rightarrow> 'k conn res" where
  "Connection_destroy s =
     rbind (Channel_delete (c_pChannel s) s) (\<lambda>s1. Inr (s1\<lparr>c_bAlive := False\<rparr>))"

text \<open>Running a functor: one bound to \<open>this\<close> uses the object even when it is gone.\<close>

definition Connection_runFunctor ::
    "'k epoll_ctl \<Rightarrow> 'k conn_user \<Rightarrow> nat \<Rightarrow> io_write \<Rightarrow> conn_functor \<Rightarrow> 'k conn \<Rightarrow> 'k conn res" where
  "Connection_runFunctor ctl user tid w f s =
     (if \<not> c_bAlive s then Inl BadPointer
      else case f of
        SendInLoop data \<Rightarrow> Connection_sendInLoop ctl tid w data s
      | ShutDownInLoop \<Rightarrow> Connection_shutDownInLoop tid s
      | WriteComplete \<Rightarrow> user OnWriteComplete s
      | ConnectedDestroyed \<Rightarrow> Connection_ConnectedDestroyed ctl tid s)"

text \<open>The callbacks of the library: the first only logs, the second drops what was read.\<close>

definition DefaultConnectionCallBack :: "'k conn \<Rightarrow> 'k conn" where
  "DefaultConnectionCallBack s = s"

definition DefaultMessageCallBack :: "'k conn \<Rightarrow> 'k conn" where
  "DefaultMessageCallBack s = s\<lparr>c_InputBuffer := Buffer_RetrieveAll (c_InputBuffer s)\<rparr>"

section \<open>Frames\<close>

text \<open>What the channel operations and the queueing of functors leave alone.\<close>

lemma told_conn [simp]:
  "c_eConnectState (told c ch k mp s) = c_eConnectState s"
  "c_pChannel (told c ch k mp s) = c_pChannel s"
  "c_InputBuffer (told c ch k mp s) = c_InputBuffer s"
  "c_OutputBuffer (told c ch k mp s) = c_OutputBuffer s"
  "c_ConnCallBack (told c ch k mp s) = c_ConnCallBack s"
  "c_MsgCallBack (told c ch k mp s) = c_MsgCallBack s"
  "c_WriteCompleteCallBack (told c ch k mp s) = c_WriteCompleteCallBack s"
  "c_CloseCallBack (told c ch k mp s) = c_CloseCallBack s"
  "c_bAlive (told c ch k mp s) = c_bAlive s"
  "w_Wire (told c ch k mp s) = w_Wire s"
  "w_ShutDown (told c ch k mp s) = w_ShutDown s"
  "g_Accepted (told c ch k mp s) = g_Accepted s"
  "g_bClosed (told c ch k mp s) = g_bClosed s"
  "l_vPendingFunctors (told c ch k mp s) = l_vPendingFunctors s"
  "l_bCallingFunctors (told c ch k mp s) = l_bCallingFunctors s"
  by (simp_all add: told_def)

lemma QueueInLoop_conn [simp]:
  "c_eConnectState (EventLoop_QueueInLoop tid f s) = c_eConnectState s"
  "c_pChannel (EventLoop_QueueInLoop tid f s) = c_pChannel s"
  "c_InputBuffer (EventLoop_QueueInLoop tid f s) = c_InputBuffer s"
  "c_OutputBuffer (EventLoop_QueueInLoop tid f s) = c_OutputBuffer s"
  "c_ConnCallBack (EventLoop_QueueInLoop tid f s) = c_ConnCallBack s"
  "c_MsgCallBack (EventLoop_QueueInLoop tid f s) = c_MsgCallBack s"
  "c_WriteCompleteCallBack (EventLoop_QueueInLoop tid f s) = c_WriteCompleteCallBack s"
  "c_CloseCallBack (EventLoop_QueueInLoop tid f s) = c_CloseCallBack s"
  "c_bAlive (EventLoop_QueueInLoop tid f s) = c_bAlive s"
  "w_Wire (EventLoop_QueueInLoop tid f s) = w_Wire s"
  "w_ShutDown (EventLoop_QueueInLoop tid f s) = w_ShutDown s"
  "g_Accepted (EventLoop_QueueInLoop tid f s) = g_Accepted s"
  "g_bClosed (EventLoop_QueueInLoop tid f s) = g_bClosed s"
  "s_Channels (EventLoop_QueueInLoop tid f s) = s_Channels s"
  "s_Self (EventLoop_QueueInLoop tid f s) = s_Self s"
  "s_ThreadId (EventLoop_QueueInLoop tid f s) = s_ThreadId s"
  "s_mpChannel (EventLoop_QueueInLoop tid f s) = s_mpChannel s"
  "s_vEvents (EventLoop_QueueInLoop tid f s) = s_vEvents s"
  "s_Kernel (EventLoop_QueueInLoop tid f s) = s_Kernel s"
  by (simp_all add: EventLoop_QueueInLoop_def queue_wake_def queue_push_def EventLoop_WakeUp_def)

definition same_base :: "('cb, 'k, 'a) epoll_store_scheme \<Rightarrow> ('cb, 'k, 'b) epoll_store_scheme \<Rightarrow> bool" where
  "same_base s t \<longleftrightarrow>
     s_Channels s = s_Channels t \<and> s_Self s = s_Self t \<and> s_ThreadId s = s_ThreadId t \<and>
     s_mpChannel s = s_mpChannel t \<and> s_vEvents s = s_vEvents t \<and> s_Kernel s = s_Kernel t"

lemma same_base_ep_inv: "same_base s t \<Longrightarrow> ep_inv interest X s = ep_inv interest X t"
proof -
  assume b: "same_base s t"
  then have e: "s_Channels s = s_Channels t" "s_mpChannel s = s_mpChannel t"
    by (simp_all add: same_base_def)
  have "wanted s fd = wanted t fd" for fd unfolding wanted_def e ..
  then have "wanted s = wanted t" by (rule ext)
  with b show ?thesis by (simp add: same_base_def ep_inv_def ep_map_def ep_index_def ep_watch_def)
qed

text \<open>The connection's channel is alive, belongs to the loop and has its descriptor alone.\<close>

definition chan_ok :: "('k \<Rightarrow> int \<Rightarrow> (events \<times> nat) option) \<Rightarrow> 'k conn \<Rightarrow> bool" where
  "chan_ok interest s \<longleftrightarrow>
     ep_inv interest {} s \<and> own_fd s (c_pChannel s) \<and>
     (\<exists>ch. s_Channels s (c_pChannel s) = Some ch \<and> ch_pEventLoop ch = s_Self s)"

definition writing :: "'k conn \<Rightarrow> bool" where
  "writing s \<longleftrightarrow> (\<exists>ch. s_Channels s (c_pChannel s) = Some ch \<and> Channel_IsWriting ch)"

lemma chan_ok_cong:
  assumes "same_base s t" and "c_pChannel s = c_pChannel t"
  shows "chan_ok interest s = chan_ok interest t" and "writing s = writing t"
proof -
  from assms(1) have "own_fd s = own_fd t"
    by (intro own_fd_cong) (simp add: same_base_def fd_of_def fun_eq_iff)
  with assms show "chan_ok interest s = chan_ok interest t"
    by (simp add: chan_ok_def same_base_ep_inv [OF assms(1)]) (simp add: same_base_def)
  show "writing s = writing t" using assms by (simp add: writing_def same_base_def)
qed

lemma conn_updates [simp]:
  "chan_ok interest (s\<lparr>c_eConnectState := st\<rparr>) = chan_ok interest s"
  "chan_ok interest (s\<lparr>c_InputBuffer := b\<rparr>) = chan_ok interest s"
  "chan_ok interest (s\<lparr>c_OutputBuffer := b\<rparr>) = chan_ok interest s"
  "chan_ok interest (s\<lparr>w_Wire := d\<rparr>) = chan_ok interest s"
  "chan_ok interest (s\<lparr>w_ShutDown := sd\<rparr>) = chan_ok interest s"
  "chan_ok interest (s\<lparr>g_Accepted := d\<rparr>) = chan_ok interest s"
  "chan_ok interest (s\<lparr>g_bClosed := cl\<rparr>) = chan_ok interest s"
  "chan_ok interest (s\<lparr>l_bCallingFunctors := cl\<rparr>) = chan_ok interest s"
  "chan_ok interest (s\<lparr>l_vPendingFunctors := fs\<rparr>) = chan_ok interest s"
  "chan_ok interest (s\<lparr>c_vBatch := fs\<rparr>) = chan_ok interest s"
  "chan_ok interest (EventLoop_QueueInLoop tid f s) = chan_ok interest s"
  by (rule chan_ok_cong(1); simp add: same_base_def)+

lemma writing_updates [simp]:
  "writing (s\<lparr>c_eConnectState := st\<rparr>) = writing s" "writing (s\<lparr>c_InputBuffer := b\<rparr>) = writing s"
  "writing (s\<lparr>c_OutputBuffer := b\<rparr>) = writing s" "writing (s\<lparr>w_Wire := d\<rparr>) = writing s"
  "writing (s\<lparr>w_ShutDown := sd\<rparr>) = writing s" "writing (s\<lparr>g_Accepted := d\<rparr>) = writing s"
  "writing (s\<lparr>g_bClosed := cl\<rparr>) = writing s" "writing (s\<lparr>l_bCallingFunctors := cl\<rparr>) = writing s"
  "writing (s\<lparr>c_vBatch := fs\<rparr>) = writing s"
  "writing (s\<lparr>l_vPendingFunctors := fs\<rparr>) = writing s" "writing (EventLoop_QueueInLoop tid f s) = writing s"
  by (rule chan_ok_cong(2); simp add: same_base_def)+

lemma queue_write_complete_conn [simp]:
  "c_eConnectState (queue_write_complete tid s) = c_eConnectState s"
  "c_pChannel (queue_write_complete tid s) = c_pChannel s"
  "c_InputBuffer (queue_write_complete tid s) = c_InputBuffer s"
  "c_OutputBuffer (queue_write_complete tid s) = c_OutputBuffer s"
  "c_ConnCallBack (queue_write_complete tid s) = c_ConnCallBack s"
  "c_MsgCallBack (queue_write_complete tid s) = c_MsgCallBack s"
  "c_WriteCompleteCallBack (queue_write_complete tid s) = c_WriteCompleteCallBack s"
  "c_CloseCallBack (queue_write_complete tid s) = c_CloseCallBack s"
  "c_bAlive (queue_write_complete tid s) = c_bAlive s"
  "w_Wire (queue_write_complete tid s) = w_Wire s"
  "w_ShutDown (queue_write_complete tid s) = w_ShutDown s"
  "g_Accepted (queue_write_complete tid s) = g_Accepted s"
  "g_bClosed (queue_write_complete tid s) = g_bClosed s"
  "s_ThreadId (queue_write_complete tid s) = s_ThreadId s"
  "chan_ok interest (queue_write_complete tid s) = chan_ok interest s"
  "writing (queue_write_complete tid s) = writing s"
  by (simp_all add: queue_write_complete_def)

text \<open>What the events wanted become, as far as writing goes.\<close>

lemma IsWriting_changes [simp]:
  "Channel_IsWriting (enable_reading ch) = Channel_IsWriting ch" "Channel_IsWriting (enable_writing ch)"
  "\<not> Channel_IsWriting (disable_writing ch)" "\<not> Channel_IsWriting (disable_all ch)"
  "Channel_IsWriting (Channel_SetIndex i ch) = Channel_IsWriting ch"
proof -
  have "(e OR READ_EVENT) AND WRITE_EVENT = e AND WRITE_EVENT" for e
    by (simp add: bit.conj_disj_distrib2 event_defs)
  then show "Channel_IsWriting (enable_reading ch) = Channel_IsWriting ch"
    by (simp add: Channel_IsWriting_def)
  have "(e OR WRITE_EVENT) AND WRITE_EVENT = WRITE_EVENT" for e by (simp add: bit.conj_disj_distrib2 and.assoc)
  then show "Channel_IsWriting (enable_writing ch)"
    by (simp add: Channel_IsWriting_def event_defs)
  show "\<not> Channel_IsWriting (disable_writing ch)"
    by (simp add: Channel_IsWriting_def and.assoc)
qed (simp_all add: Channel_IsWriting_def Channel_SetIndex_def NONE_EVENT_def)

text \<open>
  The four channel operations on the connection's channel: the connection keeps all its fields,
  and is writing afterwards or not.
\<close>

definition after_change :: "('k \<Rightarrow> int \<Rightarrow> (events \<times> nat) option) \<Rightarrow> 'k conn \<Rightarrow> bool \<Rightarrow> 'k conn \<Rightarrow> bool" where
  "after_change interest s wr s' \<longleftrightarrow>
     chan_ok interest s' \<and> writing s' = wr \<and> (\<exists>ch k mp. s' = told (c_pChannel s) ch k mp s)"

lemma change_ok:
  assumes s: "chan_ok interest s" and ctl: "epoll_ok ctl interest"
    and f: "\<And>ch. ch_Fd (f ch) = ch_Fd ch \<and> ch_nIndex (f ch) = ch_nIndex ch \<and>
      ch_pEventLoop (f ch) = ch_pEventLoop ch"
  shows "ensures {Aborted} (\<lambda>s'. \<exists>ch i. s_Channels s (c_pChannel s) = Some ch \<and>
      s_Channels s' (c_pChannel s) = Some (Channel_SetIndex i (f ch)) \<and> i \<noteq> NEW \<and>
      after_change interest s (Channel_IsWriting (f ch)) s')
    (with_chan (c_pChannel s) s (\<lambda>ch.
       Channel_update ctl (s_ThreadId s) (c_pChannel s) (put_chan (c_pChannel s) (f ch) s)))"
proof -
  from s obtain ch where c: "s_Channels s (c_pChannel s) = Some ch" "ch_pEventLoop ch = s_Self s"
    and inv: "ep_inv interest {} s" and own: "own_fd s (c_pChannel s)" by (auto simp: chan_ok_def)
  have ni: "next_index (f ch) \<noteq> NEW" by (simp add: next_index_def)
  have "after_change interest s (Channel_IsWriting (f ch)) s1"
    if "ep_inv interest {} s1" and s1: "s1 = told (c_pChannel s) (Channel_SetIndex (next_index (f ch)) (f ch)) k mp s"
    for s1 k mp
  proof -
    have ch1: "s_Channels s1 = (s_Channels s)(c_pChannel s \<mapsto> Channel_SetIndex (next_index (f ch)) (f ch))"
      using s1 by simp
    have "fd_of s1 = fd_of s" by (rule fd_of_upd [OF c(1) ch1]) (simp add: f)
    with own own_fd_cong have "own_fd s1 (c_pChannel s)" by metis
    with that c f ch1 show ?thesis by (auto simp: after_change_def chan_ok_def writing_def)
  qed
  with Channel_change_ok [OF inv c own ctl, of "f ch"] f ni c show ?thesis
    by (auto elim!: ensures_mono)
qed

lemma EnableReading_conn:
  assumes "chan_ok interest s" and "epoll_ok ctl interest"
  shows "ensures {Aborted} (after_change interest s (writing s))
    (Channel_EnableReading ctl (s_ThreadId s) (c_pChannel s) s)"
  unfolding Channel_EnableReading_def
  by (rule ensures_mono [OF change_ok [OF assms]]) (auto simp: writing_def)

lemma EnableWriting_conn:
  assumes "chan_ok interest s" and "epoll_ok ctl interest"
  shows "ensures {Aborted} (after_change interest s True)
    (Channel_EnableWriting ctl (s_ThreadId s) (c_pChannel s) s)"
  unfolding Channel_EnableWriting_def
  by (rule ensures_mono [OF change_ok [OF assms]]) auto

lemma DisableWriting_conn:
  assumes "chan_ok interest s" and "epoll_ok ctl interest"
  shows "ensures {Aborted} (after_change interest s False)
    (Channel_DisableWriting ctl (s_ThreadId s) (c_pChannel s) s)"
  unfolding Channel_DisableWriting_def
  by (rule ensures_mono [OF change_ok [OF assms]]) auto

lemma DisableAll_conn:
  assumes "chan_ok interest s" and "epoll_ok ctl interest"
  shows "ensures {Aborted} (\<lambda>s'. after_change interest s False s' \<and>
      (\<exists>ch. s_Channels s' (c_pChannel s) = Some ch \<and> Channel_IsNoneEvent ch \<and> ch_nIndex ch \<noteq> NEW))
    (Channel_DisableAll ctl (s_ThreadId s) (c_pChannel s) s)"
  unfolding Channel_DisableAll_def
  by (rule ensures_mono [OF change_ok [OF assms]]) (auto simp: Channel_IsNoneEvent_def)

lemma RemoveChannel_conn:
  assumes s: "chan_ok interest s" and ctl: "epoll_ok ctl interest"
    and c: "s_Channels s (c_pChannel s) = Some ch" "Channel_IsNoneEvent ch" "ch_nIndex ch \<noteq> NEW"
  shows "\<exists>s'. EventLoop_RemoveChannel ctl (s_ThreadId s) (c_pChannel s) s = Inr s' \<and>
    after_change interest s False s' \<and> EPoller_view interest s' (c_pChannel s) = None"
proof -
  from s c have l: "ch_pEventLoop ch = s_Self s" and inv: "ep_inv interest {} s"
    and own: "own_fd s (c_pChannel s)" by (auto simp: chan_ok_def)
  from RemoveChannel_ok [OF inv c(1,3,2) ctl] obtain k where
    r: "EPoller_RemoveChannel ctl (s_ThreadId s) (c_pChannel s) s =
        Inr (told (c_pChannel s) (Channel_SetIndex NEW ch) k ((s_mpChannel s)(ch_Fd ch := None)) s)"
    and i: "ep_inv interest {} (told (c_pChannel s) (Channel_SetIndex NEW ch) k ((s_mpChannel s)(ch_Fd ch := None)) s)"
      (is "ep_inv interest {} ?s1") by blast
  have ch1: "s_Channels ?s1 = (s_Channels s)(c_pChannel s \<mapsto> Channel_SetIndex NEW ch)" by simp
  have "fd_of ?s1 = fd_of s" by (rule fd_of_upd [OF c(1) ch1]) simp
  with own own_fd_cong have "own_fd ?s1 (c_pChannel s)" by metis
  moreover have "\<not> Channel_IsWriting ch"
    using c(2) by (simp add: Channel_IsWriting_def Channel_IsNoneEvent_def NONE_EVENT_def)
  ultimately show ?thesis
    using r i c l by (auto simp: EventLoop_RemoveChannel_def after_change_def chan_ok_def writing_def
        EPoller_view_eq [OF i])
qed

section \<open>The invariant\<close>

text \<open>
  The bytes written and those in the output buffer are, in order, all that was accepted. While
  the connection is neither closed nor destroyed the channel waits for writing exactly when the
  output buffer has something to write, and if the write side was shut down, everything accepted
  by then had been written.
\<close>

definition conn_inv :: "('k \<Rightarrow> int \<Rightarrow> (events \<times> nat) option) \<Rightarrow> 'k conn \<Rightarrow> bool" where
  "conn_inv interest s \<longleftrightarrow>
     chan_ok interest s \<and> c_bAlive s \<and> buffer_inv (c_InputBuffer s) \<and> buffer_inv (c_OutputBuffer s) \<and>
     w_Wire s @ Buffer_contents (c_OutputBuffer s) = g_Accepted s \<and>
     (writing s \<longrightarrow> Buffer_contents (c_OutputBuffer s) \<noteq> []) \<and>
     (g_bClosed s \<or> c_eConnectState s = eTCS_Disconnected \<or>
      (Buffer_contents (c_OutputBuffer s) \<noteq> [] \<longrightarrow> writing s) \<and>
      (\<forall>a. w_ShutDown s = Some a \<longrightarrow> (\<exists>more. w_Wire s = a @ more)))"

text \<open>What an operation on the output side leaves alone.\<close>

definition keeps_rest :: "'k conn \<Rightarrow> 'k conn \<Rightarrow> bool" where
  "keeps_rest s s' \<longleftrightarrow>
     c_eConnectState s' = c_eConnectState s \<and> c_pChannel s' = c_pChannel s \<and>
     c_InputBuffer s' = c_InputBuffer s \<and> c_bAlive s' = c_bAlive s \<and> w_Wire s' = w_Wire s \<and>
     w_ShutDown s' = w_ShutDown s \<and> g_Accepted s' = g_Accepted s \<and> g_bClosed s' = g_bClosed s \<and>
     c_WriteCompleteCallBack s' = c_WriteCompleteCallBack s \<and> c_CloseCallBack s' = c_CloseCallBack s \<and>
     s_ThreadId s' = s_ThreadId s"

lemma after_change_keeps:
  "after_change interest s wr s' \<Longrightarrow>
   keeps_rest s s' \<and> c_OutputBuffer s' = c_OutputBuffer s \<and> chan_ok interest s' \<and> writing s' = wr"
  by (auto simp: after_change_def keeps_rest_def)

lemma keeps_rest_refl [simp]: "keeps_rest s s" "keeps_rest s (s\<lparr>c_OutputBuffer := b\<rparr>)"
  by (simp_all add: keeps_rest_def)

lemma keeps_rest_trans: "keeps_rest a b \<Longrightarrow> keeps_rest b c \<Longrightarrow> keeps_rest a c"
  by (simp add: keeps_rest_def)

lemma chan_ok_live: "chan_ok interest s \<Longrightarrow> \<exists>ch. s_Channels s (c_pChannel s) = Some ch"
  by (auto simp: chan_ok_def)

lemma send_rest_ok:
  assumes s: "chan_ok interest s" and ctl: "epoll_ok ctl interest"
    and b: "buffer_inv (c_OutputBuffer s)" "Buffer_room (length rest) (c_OutputBuffer s)"
  shows "ensures {Aborted} (\<lambda>s'. chan_ok interest s' \<and> keeps_rest s s' \<and>
      buffer_inv (c_OutputBuffer s') \<and>
      Buffer_contents (c_OutputBuffer s') = Buffer_contents (c_OutputBuffer s) @ rest \<and>
      writing s' = (writing s \<or> rest \<noteq> []))
    (send_rest ctl (s_ThreadId s) rest s)"
proof (cases "rest = []")
  case True
  then show ?thesis using assms by (simp add: send_rest_def)
next
  case False
  from Append_after [OF b] obtain b' where
    b': "Buffer_Append rest (c_OutputBuffer s) = Inr b'" "buffer_inv b'"
      "Buffer_contents b' = Buffer_contents (c_OutputBuffer s) @ rest"
    by (auto simp: buffer_after_def)
  let ?s = "s\<lparr>c_OutputBuffer := b'\<rparr>"
  from s obtain ch where ch: "s_Channels s (c_pChannel s) = Some ch" using chan_ok_live by blast
  have wr: "writing s = Channel_IsWriting ch" using ch by (simp add: writing_def)
  have c: "chan_ok interest ?s" using s by simp
  show ?thesis
  proof (cases "Channel_IsWriting ch")
    case True
    with False b' ch s wr show ?thesis by (simp add: send_rest_def Let_def)
  next
    case not: False
    have "send_rest ctl (s_ThreadId s) rest s = Channel_EnableWriting ctl (s_ThreadId ?s) (c_pChannel ?s) ?s"
      using False b' ch not by (simp add: send_rest_def Let_def)
    then show ?thesis
      using EnableWriting_conn [OF c ctl] False b'
      by (auto elim!: ensures_mono dest!: after_change_keeps intro: keeps_rest_trans [rotated])
  qed
qed

lemma sendInLoop_ok:
  assumes inv: "conn_inv interest s" and ctl: "epoll_ok ctl interest"
    and room: "Buffer_room (length pData) (c_OutputBuffer s)"
    and w: "\<And>n. w = Wrote n \<Longrightarrow> n \<le> length pData" and len: "length pData < 2 ^ 64"
  shows "ensures {Aborted} (conn_inv interest) (Connection_sendInLoop ctl (s_ThreadId s) w pData s)"
proof (cases "c_eConnectState s = eTCS_Disconnected")
  case True
  with inv show ?thesis by (simp add: Connection_sendInLoop_def)
next
  case False
  from inv have c: "chan_ok interest s" and b: "buffer_inv (c_InputBuffer s)" "buffer_inv (c_OutputBuffer s)"
    and alive: "c_bAlive s" and wire: "w_Wire s @ Buffer_contents (c_OutputBuffer s) = g_Accepted s"
    and wr: "writing s \<longrightarrow> Buffer_contents (c_OutputBuffer s) \<noteq> []"
    and open_ok: "g_bClosed s \<or> (Buffer_contents (c_OutputBuffer s) \<noteq> [] \<longrightarrow> writing s) \<and>
      (\<forall>a. w_ShutDown s = Some a \<longrightarrow> (\<exists>more. w_Wire s = a @ more))"
    using False by (auto simp: conn_inv_def)
  from c obtain ch where ch: "s_Channels s (c_pChannel s) = Some ch" using chan_ok_live by blast
  have wr_ch: "writing s = Channel_IsWriting ch" using ch by (simp add: writing_def)
  let ?s = "s\<lparr>g_Accepted := g_Accepted s @ pData\<rparr>"
  have rest: "ensures {Aborted} (conn_inv interest) (send_rest ctl (s_ThreadId s) (drop n pData) t)"
    if t: "chan_ok interest t" "keeps_rest (?s\<lparr>w_Wire := w_Wire s @ take n pData\<rparr>) t"
      "c_OutputBuffer t = c_OutputBuffer s" "writing t = writing s"
      and n: "n = 0 \<or> Buffer_contents (c_OutputBuffer s) = []" for n t
  proof -
    have room': "Buffer_room (length (drop n pData)) (c_OutputBuffer t)"
      using room t(3) by (auto simp: Buffer_room_def)
    have tid: "s_ThreadId t = s_ThreadId s" using t(2) by (simp add: keeps_rest_def)
    have "buffer_inv (c_OutputBuffer t)" using b(2) t(3) by simp
    note ok = send_rest_ok [OF t(1) ctl this room']
    show ?thesis
      unfolding tid [symmetric]
    proof (rule ensures_mono [OF ok], elim conjE)
      fix u
      assume u: "chan_ok interest u" "keeps_rest t u" "buffer_inv (c_OutputBuffer u)"
        "Buffer_contents (c_OutputBuffer u) = Buffer_contents (c_OutputBuffer t) @ drop n pData"
        "writing u = (writing t \<or> drop n pData \<noteq> [])"
      have k: "c_eConnectState u = c_eConnectState s" "c_InputBuffer u = c_InputBuffer s" "c_bAlive u"
        "w_Wire u = w_Wire s @ take n pData" "w_ShutDown u = w_ShutDown s"
        "g_Accepted u = g_Accepted s @ pData" "g_bClosed u = g_bClosed s"
        using u(2) t(2) alive by (simp_all add: keeps_rest_def)
      have "w_Wire u @ Buffer_contents (c_OutputBuffer u) = g_Accepted u"
        using u(4) k(4,6) wire n t(3) by auto
      then show "conn_inv interest u"
        unfolding conn_inv_def using u(1,3,4,5) k b wr open_ok t(3,4) False by auto
    qed
  qed
  show ?thesis
  proof (cases "\<not> Channel_IsWriting ch \<and> Buffer_ReadableBytes (c_OutputBuffer s) = 0")
    case True
    then have e: "Buffer_contents (c_OutputBuffer s) = []"
      using b(2) by (simp add: Buffer_ReadableBytes_contents flip: length_0_conv)
    show ?thesis
    proof (cases w)
      case (Wrote n)
      with w have n: "n \<le> length pData" by simp
      then have sm: "size_minus (length pData) n = length pData - n" using len by simp
      let ?s1 = "?s\<lparr>w_Wire := w_Wire s @ take n pData\<rparr>"
      let ?s2 = "if length pData - n = 0 then queue_write_complete (s_ThreadId s) ?s1 else ?s1"
      have "chan_ok interest ?s2" "keeps_rest ?s1 ?s2" "c_OutputBuffer ?s2 = c_OutputBuffer s"
        "writing ?s2 = writing s" using c by (simp_all add: keeps_rest_def)
      from rest [OF this] e have "ensures {Aborted} (conn_inv interest)
        (send_rest ctl (s_ThreadId s) (drop n pData) ?s2)" by blast
      moreover have "Connection_sendInLoop ctl (s_ThreadId s) w pData s =
          send_rest ctl (s_ThreadId s) (drop n pData) ?s2"
        using False ch True Wrote sm by (simp add: Connection_sendInLoop_def Let_def)
      ultimately show ?thesis by simp
    next
      case WriteFails
      from rest [of ?s 0] c have "ensures {Aborted} (conn_inv interest) (send_rest ctl (s_ThreadId s) pData ?s)"
        by (simp add: keeps_rest_def)
      then show ?thesis using False ch True WriteFails by (simp add: Connection_sendInLoop_def Let_def)
    qed
  next
    case busy: False
    from rest [of ?s 0] c have "ensures {Aborted} (conn_inv interest) (send_rest ctl (s_ThreadId s) pData ?s)"
      by (simp add: keeps_rest_def)
    then show ?thesis using False ch busy by (auto simp: Connection_sendInLoop_def Let_def)
  qed
qed

lemma shutDownInLoop_ok:
  assumes "conn_inv interest s"
  shows "\<exists>s'. Connection_shutDownInLoop (s_ThreadId s) s = Inr s' \<and> conn_inv interest s' \<and>
    s' = (if writing s then s else Socket_ShutDownWrite s)"
proof -
  from assms have "chan_ok interest s" by (simp add: conn_inv_def)
  then obtain ch where ch: "s_Channels s (c_pChannel s) = Some ch" using chan_ok_live by blast
  then have wr: "writing s = Channel_IsWriting ch" by (simp add: writing_def)
  have "conn_inv interest (Socket_ShutDownWrite s)" if "\<not> writing s"
    using assms that by (auto simp: conn_inv_def Socket_ShutDownWrite_def)
  with assms ch wr show ?thesis by (simp add: Connection_shutDownInLoop_def)
qed

lemma conn_inv_state:
  "conn_inv interest s \<Longrightarrow> c_eConnectState s \<noteq> eTCS_Disconnected \<Longrightarrow> conn_inv interest (s\<lparr>c_eConnectState := st\<rparr>)"
  by (auto simp: conn_inv_def)

lemma conn_inv_queue [simp]: "conn_inv interest (EventLoop_QueueInLoop tid f s) = conn_inv interest s"
  by (simp add: conn_inv_def)

lemma conn_inv_closed: "conn_inv interest s \<Longrightarrow> conn_inv interest (s\<lparr>g_bClosed := True\<rparr>)"
  by (simp add: conn_inv_def)

lemma conn_read_prefix:
  assumes "buffer_inv b" and "n \<le> length (Buffer_contents b)"
  shows "mem_read (m_vBuffer b) (Buffer_Peek b) n = Inr (take n (Buffer_contents b))"
proof -
  have n: "n \<le> m_unWriterIndex b - m_unReaderIndex b" using assms by simp
  with assms(1) have "m_unReaderIndex b + n \<le> length (m_vBuffer b) \<or> n = 0"
    by (auto simp: buffer_inv_def)
  moreover have "m_unReaderIndex b \<le> length (m_vBuffer b)" using assms(1) by (simp add: buffer_inv_def)
  ultimately show ?thesis using n
    by (auto simp: mem_read_def Buffer_Peek_def Buffer_contents_def min_absorb1)
qed

lemma Send_ok:
  assumes "conn_inv interest s" and "epoll_ok ctl interest"
    and "Buffer_room (length pData) (c_OutputBuffer s)"
    and "\<And>n. w = Wrote n \<Longrightarrow> n \<le> length pData" and "length pData < 2 ^ 64"
  shows "ensures {Aborted} (conn_inv interest) (Connection_Send ctl tid w pData s)"
  using sendInLoop_ok [OF assms] assms(1)
  by (auto simp: Connection_Send_def EventLoop_IsInLoopThread_def)

lemma ShutDown_ok:
  assumes "conn_inv interest s"
  shows "\<exists>s'. Connection_ShutDown tid s = Inr s' \<and> conn_inv interest s'"
proof (cases "Connection_IsConnected s")
  case True
  then have "conn_inv interest (s\<lparr>c_eConnectState := eTCS_Disconnecting\<rparr>)" (is "conn_inv _ ?s")
    using assms by (intro conn_inv_state) (simp_all add: Connection_IsConnected_def)
  with shutDownInLoop_ok [OF this] True show ?thesis
    by (cases "tid = s_ThreadId s")
      (auto simp: Connection_ShutDown_def Connection_setConnectedState_def EventLoop_IsInLoopThread_def Let_def)
next
  case False
  with assms show ?thesis by (simp add: Connection_ShutDown_def)
qed

text \<open>\<open>handleWrite\<close> when the socket takes \<open>n\<close> bytes.\<close>

lemma handleWrite_ok:
  assumes inv: "conn_inv interest s" and ctl: "epoll_ok ctl interest"
    and w: "\<And>n. w = Wrote n \<Longrightarrow> n \<le> length (Buffer_contents (c_OutputBuffer s))"
  shows "ensures {Aborted} (conn_inv interest) (Connection_handleWrite ctl (s_ThreadId s) w s)"
proof -
  from inv have c: "chan_ok interest s" and b: "buffer_inv (c_InputBuffer s)" "buffer_inv (c_OutputBuffer s)"
    and alive: "c_bAlive s" and wire: "w_Wire s @ Buffer_contents (c_OutputBuffer s) = g_Accepted s"
    and open_ok: "g_bClosed s \<or> c_eConnectState s = eTCS_Disconnected \<or>
      (Buffer_contents (c_OutputBuffer s) \<noteq> [] \<longrightarrow> writing s) \<and>
      (\<forall>a. w_ShutDown s = Some a \<longrightarrow> (\<exists>more. w_Wire s = a @ more))"
    by (auto simp: conn_inv_def)
  from c obtain ch where ch: "s_Channels s (c_pChannel s) = Some ch" using chan_ok_live by blast
  then have wr: "writing s = Channel_IsWriting ch" by (simp add: writing_def)
  show ?thesis
  proof (cases "Channel_IsWriting ch \<and> (\<exists>n. w = Wrote (Suc n))")
    case False
    then show ?thesis using inv ch
      by (cases w; cases "Channel_IsWriting ch") (auto simp: Connection_handleWrite_def split: nat.split)
  next
    case True
    then obtain n where n: "w = Wrote (Suc n)" "Suc n \<le> length (Buffer_contents (c_OutputBuffer s))"
      using w by blast
    let ?o = "c_OutputBuffer s"
    have rd: "mem_read (m_vBuffer ?o) (Buffer_Peek ?o) (Suc n) = Inr (take (Suc n) (Buffer_contents ?o))"
      by (rule conn_read_prefix [OF b(2) n(2)])
    from Retrieve_ok [OF b(2) n(2)] obtain b' where b': "Buffer_Retrieve (Suc n) ?o = Inr b'"
      "buffer_inv b'" "Buffer_contents b' = drop (Suc n) (Buffer_contents ?o)" by blast
    let ?s = "s\<lparr>c_OutputBuffer := b', w_Wire := w_Wire s @ take (Suc n) (Buffer_contents ?o)\<rparr>"
    have wire': "w_Wire ?s @ Buffer_contents (c_OutputBuffer ?s) = g_Accepted ?s"
      using wire b'(3) by (simp del: length_Buffer_contents)
    have c': "chan_ok interest ?s" "writing ?s" using c wr True by simp_all
    have more: "\<exists>more. w_Wire ?s = a @ more" if "\<exists>more. w_Wire s = a @ more" for a
      using that by auto
    have e: "Buffer_ReadableBytes b' = 0 \<longleftrightarrow> Buffer_contents b' = []"
      using b'(2) by (simp add: Buffer_ReadableBytes_contents flip: length_0_conv)
    show ?thesis
    proof (cases "Buffer_contents b' = []")
      case not: False
      have "conn_inv interest ?s"
        using c' b b' wire' alive open_ok not more by (auto simp: conn_inv_def)
      moreover have "Connection_handleWrite ctl (s_ThreadId s) w s = Inr ?s"
        using ch True n rd b' e not by (simp add: Connection_handleWrite_def Let_def)
      ultimately show ?thesis by simp
    next
      case empty: True
      let ?done = "\<lambda>s2. let s3 = queue_write_complete (s_ThreadId s) s2 in
        if c_eConnectState s3 = eTCS_Disconnecting then Connection_shutDownInLoop (s_ThreadId s) s3 else Inr s3"
      have "Connection_handleWrite ctl (s_ThreadId s) w s =
          rbind (Channel_DisableWriting ctl (s_ThreadId ?s) (c_pChannel ?s) ?s) ?done"
        using ch True n rd b' e empty by (simp add: Connection_handleWrite_def Let_def)
      moreover have "ensures {Aborted} (conn_inv interest)
          (rbind (Channel_DisableWriting ctl (s_ThreadId ?s) (c_pChannel ?s) ?s) ?done)"
      proof (rule ensures_rbind [OF DisableWriting_conn [OF c'(1) ctl]])
        fix s2
        assume "after_change interest ?s False s2"
        then have s2: "keeps_rest ?s s2" "c_OutputBuffer s2 = b'" "chan_ok interest s2" "\<not> writing s2"
          by (auto dest: after_change_keeps)
        have "conn_inv interest s2"
          using s2 b b' wire' alive open_ok empty more
          unfolding conn_inv_def keeps_rest_def by auto
        then have i: "conn_inv interest (queue_write_complete (s_ThreadId s) s2)"
          by (simp add: queue_write_complete_def)
        have t: "s_ThreadId (queue_write_complete (s_ThreadId s) s2) = s_ThreadId s"
          using s2(1) by (simp add: keeps_rest_def)
        from shutDownInLoop_ok [OF i, unfolded t] i
        show "ensures {Aborted} (conn_inv interest) (?done s2)" by (auto simp: Let_def)
      qed
      ultimately show ?thesis by simp
    qed
  qed
qed

lemma ConnectedDestroyed_ok:
  assumes inv: "conn_inv interest s" and ctl: "epoll_ok ctl interest"
    and st: "c_eConnectState s \<in> {eTCS_Connected, eTCS_Disconnecting}"
  shows "ensures {Aborted} (\<lambda>s'. conn_inv interest s' \<and> c_eConnectState s' = eTCS_Disconnected \<and>
      EPoller_view interest s' (c_pChannel s') = None)
    (Connection_ConnectedDestroyed ctl (s_ThreadId s) s)"
proof -
  let ?s = "Connection_setConnectedState eTCS_Disconnected s"
  have c: "chan_ok interest ?s" "s_ThreadId ?s = s_ThreadId s" "c_pChannel ?s = c_pChannel s"
    using inv by (simp_all add: conn_inv_def Connection_setConnectedState_def)
  have "Connection_ConnectedDestroyed ctl (s_ThreadId s) s =
      rbind (Channel_DisableAll ctl (s_ThreadId ?s) (c_pChannel ?s) ?s)
        (\<lambda>s1. EventLoop_RemoveChannel ctl (s_ThreadId s) (c_pChannel s1) s1)"
    using st c by (auto simp: Connection_ConnectedDestroyed_def check_def)
  moreover have "ensures {Aborted} (\<lambda>s'. conn_inv interest s' \<and> c_eConnectState s' = eTCS_Disconnected \<and>
      EPoller_view interest s' (c_pChannel s') = None)
    (rbind (Channel_DisableAll ctl (s_ThreadId ?s) (c_pChannel ?s) ?s)
        (\<lambda>s1. EventLoop_RemoveChannel ctl (s_ThreadId s) (c_pChannel s1) s1))"
  proof (rule ensures_rbind [OF DisableAll_conn [OF c(1) ctl]], elim conjE exE)
    fix s1 ch
    assume a: "after_change interest ?s False s1"
      and ch: "s_Channels s1 (c_pChannel ?s) = Some ch" "Channel_IsNoneEvent ch" "ch_nIndex ch \<noteq> NEW"
    from a have s1: "keeps_rest ?s s1" "c_OutputBuffer s1 = c_OutputBuffer ?s" "chan_ok interest s1"
      by (auto dest: after_change_keeps)
    then have p: "c_pChannel s1 = c_pChannel ?s" "s_ThreadId s1 = s_ThreadId s"
      by (simp_all add: keeps_rest_def Connection_setConnectedState_def)
    from RemoveChannel_conn [OF s1(3) ctl, unfolded p, OF ch] obtain s2 where
      r: "EventLoop_RemoveChannel ctl (s_ThreadId s) (c_pChannel s1) s1 = Inr s2"
      and s2: "after_change interest s1 False s2" "EPoller_view interest s2 (c_pChannel ?s) = None"
      by (auto simp: p)
    from s2(1) have k: "keeps_rest s1 s2" "c_OutputBuffer s2 = c_OutputBuffer s1" "chan_ok interest s2"
      "\<not> writing s2" by (auto dest: after_change_keeps)
    have "conn_inv interest s2" "c_eConnectState s2 = eTCS_Disconnected" "c_pChannel s2 = c_pChannel ?s"
      using inv k s1 by (auto simp: conn_inv_def keeps_rest_def Connection_setConnectedState_def)
    with r s2(2) show "ensures {Aborted} (\<lambda>s'. conn_inv interest s' \<and> c_eConnectState s' = eTCS_Disconnected \<and>
        EPoller_view interest s' (c_pChannel s') = None)
        (EventLoop_RemoveChannel ctl (s_ThreadId s) (c_pChannel s1) s1)" by simp
  qed
  ultimately show ?thesis by simp
qed

section \<open>The user's callbacks\<close>

text \<open>
  The interface to the program that uses the connection: its callbacks may do what they like
  through the connection's operations, as long as they keep the invariant.
\<close>

locale connection_user =
  fixes interest :: "'k \<Rightarrow> int \<Rightarrow> (events \<times> nat) option" and user :: "'k conn_user"
  assumes user_keeps: "conn_inv interest s \<Longrightarrow> ensures {Aborted} (conn_inv interest) (user ev s)"
begin

lemma handleClose_ok:
  assumes inv: "conn_inv interest s" and ctl: "epoll_ok ctl interest"
    and st: "c_eConnectState s \<in> {eTCS_Connected, eTCS_Disconnecting}" and cb: "c_CloseCallBack s"
  shows "ensures {Aborted} (conn_inv interest) (Connection_handleClose ctl user (s_ThreadId s) s)"
proof -
  let ?s = "s\<lparr>g_bClosed := True\<rparr>"
  have c: "chan_ok interest ?s" using inv by (simp add: conn_inv_def)
  have "Connection_handleClose ctl user (s_ThreadId s) s =
      rbind (Channel_DisableAll ctl (s_ThreadId ?s) (c_pChannel ?s) ?s)
        (\<lambda>s1. if c_CloseCallBack s1 then user OnClose s1 else Inl BadFunctionCall)"
    using st by (auto simp: Connection_handleClose_def check_def)
  moreover have "ensures {Aborted} (conn_inv interest)
      (rbind (Channel_DisableAll ctl (s_ThreadId ?s) (c_pChannel ?s) ?s)
        (\<lambda>s1. if c_CloseCallBack s1 then user OnClose s1 else Inl BadFunctionCall))"
  proof (rule ensures_rbind [OF DisableAll_conn [OF c ctl]], elim conjE exE)
    fix s1
    assume "after_change interest ?s False s1"
    then have "keeps_rest ?s s1" "c_OutputBuffer s1 = c_OutputBuffer ?s" "chan_ok interest s1" "\<not> writing s1"
      by (auto dest: after_change_keeps)
    then have "conn_inv interest s1" "c_CloseCallBack s1"
      using inv cb by (auto simp: conn_inv_def keeps_rest_def)
    with user_keeps show "ensures {Aborted} (conn_inv interest)
        (if c_CloseCallBack s1 then user OnClose s1 else Inl BadFunctionCall)" by simp
  qed
  ultimately show ?thesis by simp
qed

lemma handleRead_ok:
  assumes inv: "conn_inv interest s" and ctl: "epoll_ok ctl interest"
    and st: "c_eConnectState s \<in> {eTCS_Connected, eTCS_Disconnecting}" and cb: "c_CloseCallBack s"
    and room: "Buffer_room (io_length io) (c_InputBuffer s)"
  shows "ensures {Aborted} (conn_inv interest) (Connection_handleRead ctl user (s_ThreadId s) io t s)"
proof (cases io)
  case (ReadError e)
  with inv show ?thesis
    by (simp add: Connection_handleRead_def Buffer_ReadFd_def Connection_handleError_def conn_inv_def)
next
  case (ReadBytes d)
  have "buffer_inv (c_InputBuffer s)" using inv by (simp add: conn_inv_def)
  from ReadFd_bytes_ok [OF this] room ReadBytes obtain b' where
    b': "Buffer_ReadFd (ReadBytes d) (c_InputBuffer s) = Inr (int (length d), None, b')" "buffer_inv b'"
    by auto
  have i: "conn_inv interest (s\<lparr>c_InputBuffer := b'\<rparr>)" using inv b'(2) by (simp add: conn_inv_def)
  show ?thesis
  proof (cases "d = []")
    case True
    with b' ReadBytes handleClose_ok [OF i ctl] st cb show ?thesis
      by (simp add: Connection_handleRead_def)
  next
    case False
    with b' ReadBytes i user_keeps [OF i] show ?thesis by (simp add: Connection_handleRead_def Let_def)
  qed
qed

lemma ConnectedEstablished_ok:
  assumes inv: "conn_inv interest s" and ctl: "epoll_ok ctl interest" and st: "c_eConnectState s = eTCS_Connecting"
  shows "ensures {Aborted} (conn_inv interest) (Connection_ConnectedEstablished ctl user (s_ThreadId s) s)"
proof -
  let ?s = "Connection_setConnectedState eTCS_Connected s"
  have i: "conn_inv interest ?s"
    using inv st by (simp add: Connection_setConnectedState_def conn_inv_state)
  then have c: "chan_ok interest ?s" by (simp add: conn_inv_def)
  have "Connection_ConnectedEstablished ctl user (s_ThreadId s) s =
      rbind (Channel_EnableReading ctl (s_ThreadId ?s) (c_pChannel ?s) ?s)
        (\<lambda>s1. if c_ConnCallBack s1 then user OnConnection s1 else Inr s1)"
    using st by (simp add: Connection_ConnectedEstablished_def Connection_setConnectedState_def)
  moreover have "ensures {Aborted} (conn_inv interest)
      (rbind (Channel_EnableReading ctl (s_ThreadId ?s) (c_pChannel ?s) ?s)
        (\<lambda>s1. if c_ConnCallBack s1 then user OnConnection s1 else Inr s1))"
  proof (rule ensures_rbind [OF EnableReading_conn [OF c ctl]])
    fix s1
    assume "after_change interest ?s (writing ?s) s1"
    then have "keeps_rest ?s s1" "c_OutputBuffer s1 = c_OutputBuffer ?s" "chan_ok interest s1"
      "writing s1 = writing ?s" by (auto dest: after_change_keeps)
    then have "conn_inv interest s1" using i by (auto simp: conn_inv_def keeps_rest_def)
    with user_keeps show "ensures {Aborted} (conn_inv interest)
        (if c_ConnCallBack s1 then user OnConnection s1 else Inr s1)" by simp
  qed
  ultimately show ?thesis by simp
qed

end

text \<open>
  The callbacks the library itself supplies, with the close callback of a server: it queues
  \<open>ConnectedDestroyed\<close> in the loop.
\<close>

definition default_user :: "'k conn_user" where
  "default_user ev s =
     Inr (case ev of
        OnConnection \<Rightarrow> DefaultConnectionCallBack s
      | OnMessage _ \<Rightarrow> DefaultMessageCallBack s
      | OnClose \<Rightarrow> EventLoop_QueueInLoop (s_ThreadId s) ConnectedDestroyed s
      | OnWriteComplete \<Rightarrow> s)"

interpretation default_callbacks: connection_user interest default_user for interest
proof
  show "ensures {Aborted} (conn_inv interest) (default_user ev s)" if "conn_inv interest s" for s ev
    using that by (cases ev)
      (simp_all add: default_user_def DefaultConnectionCallBack_def DefaultMessageCallBack_def conn_inv_def)
qed

section \<open>Runs of a connection\<close>

text \<open>
  What can happen to a connection: its loop's thread dispatches an event of its channel, takes
  and runs the functors queued, any thread calls \<open>Send\<close> or \<open>ShutDown\<close>, and the last
  \<open>shared_ptr\<close> goes away.
\<close>

datatype conn_input =
    InEstablished
  | InRead io_read TimeStamp
  | InWritable io_write
  | InClose
  | InError
  | InSend nat io_write "byte list"
  | InShutDown nat
  | InTake
  | InRun io_write
  | InDone
  | InDestroy

fun conn_exec :: "'k epoll_ctl \<Rightarrow> 'k conn_user \<Rightarrow> conn_input \<Rightarrow> 'k conn \<Rightarrow> 'k conn res" where
  "conn_exec ctl user InEstablished s = Connection_ConnectedEstablished ctl user (s_ThreadId s) s"
| "conn_exec ctl user (InRead io t) s = Connection_handleRead ctl user (s_ThreadId s) io t s"
| "conn_exec ctl user (InWritable w) s = Connection_handleWrite ctl (s_ThreadId s) w s"
| "conn_exec ctl user InClose s = Connection_handleClose ctl user (s_ThreadId s) s"
| "conn_exec ctl user InError s = Connection_handleError s"
| "conn_exec ctl user (InSend tid w d) s = Connection_Send ctl tid w d s"
| "conn_exec ctl user (InShutDown tid) s = Connection_ShutDown tid s"
| "conn_exec ctl user InTake s = (let (fs, s1) = take_functors s in Inr (s1\<lparr>c_vBatch := fs\<rparr>))"
| "conn_exec ctl user (InRun w) s =
     (case c_vBatch s of
        [] \<Rightarrow> Inr s
      | f # fs \<Rightarrow> Connection_runFunctor ctl user (s_ThreadId s) w f (s\<lparr>c_vBatch := fs\<rparr>))"
| "conn_exec ctl user InDone s = Inr (s\<lparr>l_bCallingFunctors := False\<rparr>)"
| "conn_exec ctl user InDestroy s = Connection_destroy s"

text \<open>A write takes at most what it is given, and there is memory for what must be stored.\<close>

definition send_fits :: "io_write \<Rightarrow> byte list \<Rightarrow> 'k conn \<Rightarrow> bool" where
  "send_fits w d s \<longleftrightarrow>
     Buffer_room (length d) (c_OutputBuffer s) \<and> length d < 2 ^ 64 \<and>
     (case w of Wrote n \<Rightarrow> n \<le> length d | WriteFails \<Rightarrow> True)"

definition is_open :: "'k conn \<Rightarrow> bool" where
  "is_open s \<longleftrightarrow> c_eConnectState s \<in> {eTCS_Connected, eTCS_Disconnecting}"

text \<open>
  When each can happen. The channel's events come while the connection is open. The object goes
  away when it is disconnected and no functor that holds a \<open>shared_ptr\<close> is left; the functors of
  a batch are kept until the batch is done.
\<close>

fun conn_allowed :: "conn_input \<Rightarrow> 'k conn \<Rightarrow> bool" where
  "conn_allowed InEstablished s = (c_bAlive s \<and> c_eConnectState s = eTCS_Connecting)"
| "conn_allowed (InRead io t) s =
     (c_bAlive s \<and> is_open s \<and> c_CloseCallBack s \<and> Buffer_room (io_length io) (c_InputBuffer s))"
| "conn_allowed (InWritable w) s =
     (c_bAlive s \<and> is_open s \<and>
      (case w of Wrote n \<Rightarrow> n \<le> length (Buffer_contents (c_OutputBuffer s)) | WriteFails \<Rightarrow> True))"
| "conn_allowed InClose s = (c_bAlive s \<and> is_open s \<and> c_CloseCallBack s)"
| "conn_allowed InError s = (c_bAlive s \<and> is_open s)"
| "conn_allowed (InSend tid w d) s = (c_bAlive s \<and> send_fits w d s)"
| "conn_allowed (InShutDown tid) s = c_bAlive s"
| "conn_allowed InTake s = (\<not> l_bCallingFunctors s)"
| "conn_allowed (InRun w) s =
     (case c_vBatch s of
        [] \<Rightarrow> False
      | f # fs \<Rightarrow>
          (case f of SendInLoop d \<Rightarrow> send_fits w d s | ConnectedDestroyed \<Rightarrow> is_open s | _ \<Rightarrow> True))"
| "conn_allowed InDone s = (l_bCallingFunctors s \<and> c_vBatch s = [])"
| "conn_allowed InDestroy s =
     (c_bAlive s \<and> c_eConnectState s = eTCS_Disconnected \<and> \<not> l_bCallingFunctors s \<and>
      ConnectedDestroyed \<notin> set (l_vPendingFunctors s) \<and> WriteComplete \<notin> set (l_vPendingFunctors s))"

inductive conn_move :: "'k epoll_ctl \<Rightarrow> 'k conn_user \<Rightarrow> 'k conn \<Rightarrow> 'k conn \<Rightarrow> bool" for ctl user where
  conn_input: "conn_allowed ev s \<Longrightarrow> conn_exec ctl user ev s = Inr s' \<Longrightarrow> conn_move ctl user s s'"

inductive_cases conn_moveE: "conn_move ctl user s s'"

text \<open>A new connection, its channel not yet with the poller.\<close>

definition conn_start :: "('k \<Rightarrow> int \<Rightarrow> (events \<times> nat) option) \<Rightarrow> 'k conn \<Rightarrow> bool" where
  "conn_start interest s \<longleftrightarrow>
     chan_ok interest s \<and> \<not> writing s \<and> c_eConnectState s = eTCS_Connecting \<and> c_bAlive s \<and>
     c_InputBuffer s = Buffer_init \<and> c_OutputBuffer s = Buffer_init \<and> w_Wire s = [] \<and>
     w_ShutDown s = None \<and> g_Accepted s = [] \<and> \<not> g_bClosed s \<and> c_vBatch s = []"

lemma conn_start_inv: "conn_start interest s \<Longrightarrow> conn_inv interest s"
  by (simp add: conn_start_def conn_inv_def)

lemma conn_inv_loop_fields [simp]:
  "conn_inv interest (s\<lparr>l_bCallingFunctors := b\<rparr>) = conn_inv interest s"
  "conn_inv interest (s\<lparr>l_vPendingFunctors := fs\<rparr>) = conn_inv interest s"
  "conn_inv interest (s\<lparr>c_vBatch := fs\<rparr>) = conn_inv interest s"
  by (simp_all add: conn_inv_def)

lemma take_functors_inv:
  "take_functors s = (fs, s1) \<Longrightarrow> conn_inv interest s1 = conn_inv interest s \<and> c_bAlive s1 = c_bAlive s"
  by (auto simp: take_functors_def conn_inv_def)

context connection_user
begin

lemma runFunctor_ok:
  assumes inv: "conn_inv interest s" and ctl: "epoll_ok ctl interest"
    and f: "case f of SendInLoop d \<Rightarrow> send_fits w d s | ConnectedDestroyed \<Rightarrow> is_open s | _ \<Rightarrow> True"
  shows "ensures {Aborted} (conn_inv interest) (Connection_runFunctor ctl user (s_ThreadId s) w f s)"
proof -
  have alive: "c_bAlive s" using inv by (simp add: conn_inv_def)
  show ?thesis
  proof (cases f)
    case (SendInLoop d)
    with f alive sendInLoop_ok [OF inv ctl, of d w] show ?thesis
      by (simp add: Connection_runFunctor_def send_fits_def split: io_write.splits)
  next
    case ShutDownInLoop
    with alive shutDownInLoop_ok [OF inv] show ?thesis by (auto simp: Connection_runFunctor_def)
  next
    case WriteComplete
    with alive user_keeps [OF inv] show ?thesis by (simp add: Connection_runFunctor_def)
  next
    case ConnectedDestroyed
    with f have "c_eConnectState s \<in> {eTCS_Connected, eTCS_Disconnecting}" by (simp add: is_open_def)
    from ConnectedDestroyed_ok [OF inv ctl this] ConnectedDestroyed alive show ?thesis
      by (auto simp: Connection_runFunctor_def elim: ensures_mono)
  qed
qed

lemma conn_exec_ok:
  assumes inv: "conn_inv interest s" and ctl: "epoll_ok ctl interest" and a: "conn_allowed ev s"
    and nd: "ev \<noteq> InDestroy"
  shows "ensures {Aborted} (conn_inv interest) (conn_exec ctl user ev s)"
proof (cases ev)
  case InEstablished
  with a ConnectedEstablished_ok [OF inv ctl] show ?thesis by simp
next
  case (InRead io t)
  with a handleRead_ok [OF inv ctl, of io t] show ?thesis by (simp add: is_open_def)
next
  case (InWritable w)
  with a handleWrite_ok [OF inv ctl, of w] show ?thesis by (auto split: io_write.splits)
next
  case InClose
  with a handleClose_ok [OF inv ctl] show ?thesis by (simp add: is_open_def)
next
  case InError
  with inv show ?thesis by (simp add: Connection_handleError_def)
next
  case (InSend tid w d)
  with a Send_ok [OF inv ctl, of d w tid] show ?thesis by (auto simp: send_fits_def split: io_write.splits)
next
  case (InShutDown tid)
  with ShutDown_ok [OF inv, of tid] show ?thesis by auto
next
  case InTake
  with inv show ?thesis by (simp add: take_functors_def)
next
  case (InRun w)
  then obtain f fs where b: "c_vBatch s = f # fs" using a by (cases "c_vBatch s") auto
  have "conn_inv interest (s\<lparr>c_vBatch := fs\<rparr>)" using inv by simp
  from runFunctor_ok [where f = f and w = w, OF this ctl] InRun a b show ?thesis
    by (simp add: send_fits_def is_open_def cong: conn_functor.case_cong)
next
  case InDone
  with inv show ?thesis by simp
next
  case InDestroy
  with nd show ?thesis by simp
qed

end

lemma conn_move_keeps:
  assumes u: "connection_user interest user" and ctl: "epoll_ok ctl interest"
    and m: "conn_move ctl user s s'" and k: "c_bAlive s \<longrightarrow> conn_inv interest s"
  shows "c_bAlive s' \<longrightarrow> conn_inv interest s'"
proof -
  from m obtain ev where ev: "conn_allowed ev s" "conn_exec ctl user ev s = Inr s'" by (rule conn_moveE)
  show ?thesis
  proof (cases "c_bAlive s")
    case True
    with k have inv: "conn_inv interest s" by simp
    show ?thesis
    proof (cases "ev = InDestroy")
      case True
      with ev show ?thesis by (auto simp: Connection_destroy_def rbind_Inr)
    next
      case False
      from connection_user.conn_exec_ok [OF u inv ctl ev(1) False] ev(2) show ?thesis by simp
    qed
  next
    case False
    with ev have "\<not> c_bAlive s'"
      by (cases ev) (auto simp: take_functors_def Connection_runFunctor_def split: list.splits)
    then show ?thesis by simp
  qed
qed

interpretation connection: invariant_system "conn_start interest" "conn_move ctl user"
    "\<lambda>s. connection_user interest user \<longrightarrow> epoll_ok ctl interest \<longrightarrow> c_bAlive s \<longrightarrow> conn_inv interest s"
  for interest ctl user
  by unfold_locales (blast intro: conn_start_inv, blast dest: conn_move_keeps)

lemma conn_reach_inv:
  "reach (conn_start interest) (conn_move ctl user) s \<Longrightarrow> connection_user interest user \<Longrightarrow>
   epoll_ok ctl interest \<Longrightarrow> c_bAlive s \<Longrightarrow> conn_inv interest s"
  using connection.reach_keeps by blast

section \<open>A connection over the demonstration kernel\<close>

definition demo_conn :: "(int \<Rightarrow> (events \<times> nat) option) conn" where
  "demo_conn = \<lparr>s_Channels = [3 \<mapsto> Connection_channel 0 5], s_Self = 0, s_ThreadId = 1,
     s_mpChannel = (\<lambda>_. None), s_vEvents = 16, s_Kernel = (\<lambda>_. None), l_bLooping = True,
     l_bQuit = False, l_PollReturnTime = TimeStamp_Invalid, l_bCallingFunctors = False,
     l_nWakeUp = 0, l_ActiveChannels = [], l_vPendingFunctors = [],
     c_eConnectState = eTCS_Connecting, c_pChannel = 3, c_InputBuffer = Buffer_init,
     c_OutputBuffer = Buffer_init, c_ConnCallBack = True, c_MsgCallBack = True,
     c_WriteCompleteCallBack = False, c_CloseCallBack = True, c_bAlive = True, w_Wire = [],
     w_ShutDown = None, g_Accepted = [], g_bClosed = False, c_vBatch = []\<rparr>"

lemma Connection_channel_fields [simp]:
  "ch_Fd (Connection_channel l fd) = fd" "ch_nIndex (Connection_channel l fd) = NEW"
  "ch_nEvents (Connection_channel l fd) = 0" "ch_pEventLoop (Connection_channel l fd) = l"
  "ch_bEventHandling (Connection_channel l fd) = False"
  by (simp_all add: Connection_channel_def Channel_SetErrorCallBack_def Channel_SetCloseCallBack_def
      Channel_SetWriteCallBack_def Channel_SetReadCallBack_def Channel_new_def NEW_def)

lemma demo_conn_start: "conn_start demo_interest demo_conn"
  by (auto simp: conn_start_def demo_conn_def chan_ok_def ep_inv_def ep_map_def ep_index_def
      ep_watch_def wanted_def own_fd_def fd_of_def writing_def Channel_IsWriting_def demo_interest_def)

text \<open>The state after \<open>ConnectedEstablished\<close>.\<close>

definition demo_up :: "(int \<Rightarrow> (events \<times> nat) option) conn" where
  "demo_up = demo_conn\<lparr>s_Channels := [3 \<mapsto> (Connection_channel 0 5)\<lparr>ch_nEvents := 3, ch_nIndex := 1\<rparr>],
     s_mpChannel := [5 \<mapsto> 3], s_Kernel := [5 \<mapsto> (3, 3)], c_eConnectState := eTCS_Connected\<rparr>"

lemmas conn_eval = Channel_update_def EventLoop_UpdateChannel_def EPoller_UpdateChannel_def
  EPoller_update_def Channel_change_defs put_chan_def Channel_SetIndex_def enable_reading_def
  enable_writing_def disable_writing_def disable_all_def Channel_IsNoneEvent_def index_defs
  event_defs EventLoop_AssertInLoopThread_def EventLoop_IsInLoopThread_def
  Connection_setConnectedState_def Let_def

lemma demo_up_step: "conn_exec demo_ctl default_user InEstablished demo_conn = Inr demo_up"
  by (simp add: Connection_ConnectedEstablished_def conn_eval demo_conn_def demo_up_def
      default_user_def DefaultConnectionCallBack_def)

lemma demo_up_reach: "reach (conn_start demo_interest) (conn_move demo_ctl default_user) demo_up"
proof -
  have "reach (conn_start demo_interest) (conn_move demo_ctl default_user) demo_conn"
    by (rule reach_init) (rule demo_conn_start)
  moreover have "conn_move demo_ctl default_user demo_conn demo_up"
    by (rule conn_input [OF _ demo_up_step]) (simp add: demo_conn_def)
  ultimately show ?thesis by (rule reach_step)
qed

lemma shutDownInLoop_idle:
  assumes "chan_ok interest s" and "\<not> writing s" and "tid = s_ThreadId s"
  shows "Connection_shutDownInLoop tid s = Inr (Socket_ShutDownWrite s)"
proof -
  from assms(1) obtain ch where "s_Channels s (c_pChannel s) = Some ch" using chan_ok_live by blast
  with assms(2,3) show ?thesis by (simp add: Connection_shutDownInLoop_def writing_def)
qed

text \<open>After a send of four bytes of which the socket took two.\<close>

lemma demo_sent:
  obtains s where "conn_exec demo_ctl default_user (InSend 1 (Wrote 2) [1, 2, 3, 4]) demo_up = Inr s"
    and "reach (conn_start demo_interest) (conn_move demo_ctl default_user) s"
    and "c_bAlive s" and "c_eConnectState s = eTCS_Connected" and "\<not> g_bClosed s"
    and "Buffer_contents (c_OutputBuffer s) = [3, 4]" and "g_Accepted s = [1, 2, 3, 4]"
    and "w_ShutDown s = None" and "s_ThreadId s = 1"
proof -
  let ?b = "Buffer_init"
  have "Buffer_room (length [3, 4 :: byte]) ?b"
    by (simp add: Buffer_room_def Buffer_init_def CHEAP_PREPEND_def vector_max_def)
  from Append_after [OF buffer_inv_init this] obtain b where
    b: "Buffer_Append [3, 4] ?b = Inr b" "Buffer_contents b = [3, 4]" by (auto simp: buffer_after_def)
  let ?s = "demo_up\<lparr>s_Channels := [3 \<mapsto> (Connection_channel 0 5)\<lparr>ch_nIndex := 1, ch_nEvents := 7\<rparr>],
     s_Kernel := [5 \<mapsto> (7, 3)], c_OutputBuffer := b, w_Wire := [1, 2], g_Accepted := [1, 2, 3, 4]\<rparr>"
  have r: "Buffer_ReadableBytes ?b = 0" using buffer_inv_init by (simp add: Buffer_init_def)
  have send: "conn_exec demo_ctl default_user (InSend 1 (Wrote 2) [1, 2, 3, 4]) demo_up = Inr ?s"
    using b(1) r by (simp add: Connection_Send_def Connection_sendInLoop_def send_rest_def conn_eval
        demo_up_def demo_conn_def Connection_IsConnected_def Channel_IsWriting_def
        queue_write_complete_def)
  have a: "conn_allowed (InSend 1 (Wrote 2) [1, 2, 3, 4]) demo_up"
    by (simp add: demo_up_def demo_conn_def send_fits_def Buffer_room_def Buffer_init_def
        CHEAP_PREPEND_def vector_max_def)
  have "reach (conn_start demo_interest) (conn_move demo_ctl default_user) ?s"
    by (rule reach_step [OF demo_up_reach]) (rule conn_input [OF a send])
  with send b(2) show thesis by (intro that [of ?s]) (simp_all add: demo_up_def demo_conn_def)
qed

section \<open>Properties\<close>

text \<open>
  C2: At every moment of a connection's life, under any interleaving of sends from any thread,
  reads, partial writes, errors and shutdowns, the bytes written to the socket followed by the
  output buffer are exactly the bytes accepted for sending, in order. While the connection is
  open the channel waits for writing exactly when the output buffer is not empty, and the write
  side is never shut down before everything accepted by then has been written.
\<close>

theorem connection_stream:
  assumes "reach (conn_start interest) (conn_move ctl user) s" and "connection_user interest user"
    and "epoll_ok ctl interest" and "c_bAlive s"
  shows "w_Wire s @ Buffer_contents (c_OutputBuffer s) = g_Accepted s \<and>
    (is_open s \<and> \<not> g_bClosed s \<longrightarrow>
       writing s = (Buffer_contents (c_OutputBuffer s) \<noteq> []) \<and>
       (\<forall>a. w_ShutDown s = Some a \<longrightarrow> (\<exists>more. w_Wire s = a @ more)))"
  using conn_reach_inv [OF assms] by (auto simp: conn_inv_def is_open_def)

theorem connection_stream_witness:
  "w_Wire demo_up @ Buffer_contents (c_OutputBuffer demo_up) = g_Accepted demo_up \<and> \<not> writing demo_up"
proof -
  have "c_bAlive demo_up" "is_open demo_up" "\<not> g_bClosed demo_up" "c_OutputBuffer demo_up = Buffer_init"
    by (simp_all add: demo_up_def demo_conn_def is_open_def)
  with connection_stream [OF demo_up_reach default_callbacks.connection_user_axioms demo_epoll_ok]
  show ?thesis by simp
qed



text \<open>
  A write that fails while output is pending, for whatever reason, aborts the process:
  \<open>handleWrite\<close> logs it at level \<open>FATAL\<close>. A peer that resets a connection with output pending
  takes the whole server down.
\<close>

theorem write_failure_aborts:
  assumes "reach (conn_start interest) (conn_move ctl user) s" and "connection_user interest user"
    and "epoll_ok ctl interest" and "c_bAlive s" and "is_open s" and "\<not> g_bClosed s"
    and "Buffer_contents (c_OutputBuffer s) \<noteq> []"
  shows "conn_exec ctl user (InWritable WriteFails) s = Inl Aborted"
proof -
  have "writing s" using conn_reach_inv [OF assms(1-4)] assms(5-7) by (auto simp: conn_inv_def is_open_def)
  then obtain ch where "s_Channels s (c_pChannel s) = Some ch" "Channel_IsWriting ch"
    by (auto simp: writing_def)
  then show ?thesis by (simp add: Connection_handleWrite_def)
qed

theorem write_failure_aborts_witness:
  "\<exists>s. conn_exec demo_ctl default_user (InSend 1 (Wrote 2) [1, 2, 3, 4]) demo_up = Inr s \<and>
     conn_exec demo_ctl default_user (InWritable WriteFails) s = Inl Aborted"
proof -
  obtain s where s: "conn_exec demo_ctl default_user (InSend 1 (Wrote 2) [1, 2, 3, 4]) demo_up = Inr s"
    and r: "reach (conn_start demo_interest) (conn_move demo_ctl default_user) s"
    and f: "c_bAlive s" "c_eConnectState s = eTCS_Connected" "\<not> g_bClosed s"
      "Buffer_contents (c_OutputBuffer s) = [3, 4]" "g_Accepted s = [1, 2, 3, 4]" "w_ShutDown s = None"
      "s_ThreadId s = 1"
    by (rule demo_sent)
  have "is_open s" "Buffer_contents (c_OutputBuffer s) \<noteq> []" using f by (simp_all add: is_open_def)
  from write_failure_aborts [OF r default_callbacks.connection_user_axioms demo_epoll_ok f(1) this(1) f(3) this(2)] s
  show ?thesis by blast
qed

text \<open>The write of the last pending byte of a connection that is to be shut down.\<close>

lemma last_write_shuts_down:
  assumes inv: "conn_inv interest s" and ctl: "epoll_ok ctl interest"
    and st: "c_eConnectState s = eTCS_Disconnecting" and "\<not> g_bClosed s"
    and ne: "Buffer_contents (c_OutputBuffer s) \<noteq> []"
  shows "ensures {Aborted} (\<lambda>s2. w_ShutDown s2 = Some (g_Accepted s) \<and> w_Wire s2 = g_Accepted s)
    (Connection_handleWrite ctl (s_ThreadId s) (Wrote (length (Buffer_contents (c_OutputBuffer s)))) s)"
proof -
  let ?o = "c_OutputBuffer s"
  have c: "chan_ok interest s" and b: "buffer_inv ?o" and wr: "writing s"
    and wire: "w_Wire s @ Buffer_contents ?o = g_Accepted s"
    using assms by (auto simp: conn_inv_def)
  then obtain ch where ch: "s_Channels s (c_pChannel s) = Some ch" "Channel_IsWriting ch"
    by (auto simp: writing_def)
  obtain n where n: "length (Buffer_contents ?o) = Suc n" using ne by (cases "Buffer_contents ?o") auto
  then have le: "Suc n \<le> length (Buffer_contents ?o)" by simp
  note rd = conn_read_prefix [OF b le]
  from Retrieve_ok [OF b le] obtain b' where b': "Buffer_Retrieve (Suc n) ?o = Inr b'" "buffer_inv b'"
    "Buffer_contents b' = []" using n by auto
  have e: "Buffer_ReadableBytes b' = 0"
    using b'(2,3) by (simp add: Buffer_ReadableBytes_contents del: buffer_sizes)
  let ?s2 = "s\<lparr>c_OutputBuffer := b', w_Wire := w_Wire s @ Buffer_contents ?o\<rparr>"
  let ?done = "\<lambda>s2. let s3 = queue_write_complete (s_ThreadId s) s2 in
    if c_eConnectState s3 = eTCS_Disconnecting then Connection_shutDownInLoop (s_ThreadId s) s3 else Inr s3"
  have tk: "take (Suc n) (Buffer_contents ?o) = Buffer_contents ?o" using n by simp
  have "Connection_handleWrite ctl (s_ThreadId s) (Wrote (length (Buffer_contents ?o))) s =
      rbind (Channel_DisableWriting ctl (s_ThreadId ?s2) (c_pChannel ?s2) ?s2) ?done"
    unfolding n using ch rd tk b' e
    by (simp add: Connection_handleWrite_def Let_def EventLoop_AssertInLoopThread_def EventLoop_IsInLoopThread_def)
  moreover have "chan_ok interest ?s2" using c by simp
  moreover have "ensures {Aborted} (\<lambda>s2. w_ShutDown s2 = Some (g_Accepted s) \<and> w_Wire s2 = g_Accepted s) (?done s2)"
    if s2: "after_change interest ?s2 False s2" for s2
  proof -
    from after_change_keeps [OF s2] have k: "keeps_rest ?s2 s2" "chan_ok interest s2" "\<not> writing s2"
      by auto
    let ?q = "queue_write_complete (s_ThreadId s) s2"
    have "chan_ok interest ?q" "\<not> writing ?q" "s_ThreadId s = s_ThreadId ?q"
      using k by (simp_all add: keeps_rest_def)
    from shutDownInLoop_idle [OF this] k(1) wire st show ?thesis
      by (simp add: keeps_rest_def Socket_ShutDownWrite_def Let_def)
  qed
  ultimately show ?thesis by (simp only:) (rule ensures_rbind [OF DisableWriting_conn [OF _ ctl]])
qed

text \<open>
  C8: \<open>ShutDown\<close> called in the loop's thread while output is pending leaves the socket open for
  writing; when \<open>handleWrite\<close> then gets rid of the last pending byte it shuts the write side
  down, at which point all that was accepted has been written.
\<close>

theorem ShutDown_waits_for_output:
  assumes "reach (conn_start interest) (conn_move ctl user) s" and "connection_user interest user"
    and "epoll_ok ctl interest" and "c_bAlive s" and "c_eConnectState s = eTCS_Connected"
    and "\<not> g_bClosed s" and "Buffer_contents (c_OutputBuffer s) \<noteq> []"
  shows "\<exists>s1. Connection_ShutDown (s_ThreadId s) s = Inr s1 \<and> w_ShutDown s1 = w_ShutDown s \<and>
    c_eConnectState s1 = eTCS_Disconnecting \<and>
    ensures {Aborted} (\<lambda>s2. w_ShutDown s2 = Some (g_Accepted s) \<and> w_Wire s2 = g_Accepted s)
      (Connection_handleWrite ctl (s_ThreadId s) (Wrote (length (Buffer_contents (c_OutputBuffer s)))) s1)"
proof -
  let ?s1 = "s\<lparr>c_eConnectState := eTCS_Disconnecting\<rparr>"
  have inv: "conn_inv interest s" using conn_reach_inv [OF assms(1-4)] .
  then have "writing s" using assms(5-7) by (auto simp: conn_inv_def)
  then have "Connection_ShutDown (s_ThreadId s) s = Inr ?s1"
    using assms(5) by (auto simp: writing_def Connection_ShutDown_def Connection_IsConnected_def Let_def
        Connection_setConnectedState_def EventLoop_IsInLoopThread_def Connection_shutDownInLoop_def
        EventLoop_AssertInLoopThread_def)
  moreover have "conn_inv interest ?s1" using inv assms(5) by (intro conn_inv_state) simp_all
  ultimately show ?thesis using last_write_shuts_down [of interest ?s1 ctl] assms(3,6,7) by simp
qed

theorem ShutDown_waits_for_output_witness:
  "\<exists>s s1. conn_exec demo_ctl default_user (InSend 1 (Wrote 2) [1, 2, 3, 4]) demo_up = Inr s \<and>
     Connection_ShutDown 1 s = Inr s1 \<and> w_ShutDown s1 = None \<and>
     ensures {Aborted} (\<lambda>s2. w_Wire s2 = [1, 2, 3, 4]) (Connection_handleWrite demo_ctl 1 (Wrote 2) s1)"
proof -
  obtain s where s: "conn_exec demo_ctl default_user (InSend 1 (Wrote 2) [1, 2, 3, 4]) demo_up = Inr s"
    and r: "reach (conn_start demo_interest) (conn_move demo_ctl default_user) s"
    and f: "c_bAlive s" "c_eConnectState s = eTCS_Connected" "\<not> g_bClosed s"
      "Buffer_contents (c_OutputBuffer s) = [3, 4]" "g_Accepted s = [1, 2, 3, 4]" "w_ShutDown s = None"
      "s_ThreadId s = 1"
    by (rule demo_sent)
  have "Buffer_contents (c_OutputBuffer s) \<noteq> []" using f by simp
  from ShutDown_waits_for_output [OF r default_callbacks.connection_user_axioms demo_epoll_ok f(1-3) this]
  show ?thesis using s f(4-7) by (auto elim!: ensures_mono simp: numeral_2_eq_2)
qed

text \<open>
  The run behind the next property: the peer has closed, the loop has taken \<open>ConnectedDestroyed\<close>
  into its batch, and a \<open>Send\<close> from another thread has queued its functor behind.
\<close>

definition late_send :: "(int \<Rightarrow> (events \<times> nat) option) conn" where
  "late_send = demo_up\<lparr>s_Channels := [3 \<mapsto> (Connection_channel 0 5)\<lparr>ch_nEvents := 0, ch_nIndex := 2\<rparr>],
     s_Kernel := (\<lambda>_. None), g_bClosed := True, l_bCallingFunctors := True, c_vBatch := [ConnectedDestroyed],
     l_nWakeUp := 1, l_vPendingFunctors := [SendInLoop [7]]\<rparr>"

abbreviation demo_reach :: "(int \<Rightarrow> (events \<times> nat) option) conn \<Rightarrow> bool" where
  "demo_reach \<equiv> reach (conn_start demo_interest) (conn_move demo_ctl default_user)"

lemma demo_step:
  "demo_reach s \<Longrightarrow> conn_exec demo_ctl default_user ev s = Inr t \<Longrightarrow> conn_allowed ev s \<Longrightarrow> demo_reach t"
  by (blast intro: reach_step conn_input)

lemma late_send_reach: "demo_reach late_send"
proof -
  let ?s1 = "demo_up\<lparr>s_Channels := [3 \<mapsto> (Connection_channel 0 5)\<lparr>ch_nEvents := 0, ch_nIndex := 2\<rparr>],
    s_Kernel := (\<lambda>_. None), l_vPendingFunctors := [ConnectedDestroyed], g_bClosed := True\<rparr>"
  let ?s2 = "?s1\<lparr>l_bCallingFunctors := True, l_vPendingFunctors := [], c_vBatch := [ConnectedDestroyed]\<rparr>"
  have "demo_reach ?s1"
  proof (rule demo_step [OF demo_up_reach])
    show "conn_exec demo_ctl default_user InClose demo_up = Inr ?s1"
      by (simp add: Connection_handleClose_def conn_eval demo_up_def demo_conn_def default_user_def
          EventLoop_QueueInLoop_def queue_wake_def queue_push_def fun_eq_iff)
  qed (simp add: demo_up_def demo_conn_def is_open_def)
  then have "demo_reach ?s2"
  proof (rule demo_step)
    show "conn_exec demo_ctl default_user InTake ?s1 = Inr ?s2"
      by (simp add: take_functors_def demo_up_def demo_conn_def)
  qed (simp add: demo_up_def demo_conn_def)
  then show ?thesis
  proof (rule demo_step)
    show "conn_exec demo_ctl default_user (InSend 2 WriteFails [7]) ?s2 = Inr late_send"
      by (simp add: Connection_Send_def Connection_IsConnected_def EventLoop_IsInLoopThread_def late_send_def
          EventLoop_QueueInLoop_def queue_wake_def queue_push_def EventLoop_WakeUp_def demo_up_def demo_conn_def)
  qed (simp add: demo_up_def demo_conn_def send_fits_def Buffer_room_def Buffer_init_def
      CHEAP_PREPEND_def vector_max_def)
qed

text \<open>
  A \<open>Send\<close> from another thread can outlive the connection, because the functor it queues is
  bound to the raw \<open>this\<close>: when the peer has closed and the loop is about to run
  \<open>ConnectedDestroyed\<close>, a \<open>Send\<close> still sees the state connected and queues its functor behind;
  the object goes away after the batch, and the loop then runs the functor on freed memory.
\<close>

theorem queued_send_outlives_connection:
  "\<exists>s. reach (conn_start demo_interest) (conn_move demo_ctl default_user) s \<and> \<not> c_bAlive s \<and>
     c_vBatch s = [SendInLoop [7]] \<and>
     conn_exec demo_ctl default_user (InRun w) s = Inl BadPointer"
proof -
  let ?s4 = "late_send\<lparr>s_Channels := [3 \<mapsto> (Connection_channel 0 5)\<lparr>ch_nEvents := 0, ch_nIndex := - 1\<rparr>],
    s_mpChannel := (\<lambda>_. None), c_eConnectState := eTCS_Disconnected, c_vBatch := []\<rparr>"
  let ?s5 = "?s4\<lparr>l_bCallingFunctors := False\<rparr>"
  let ?s6 = "?s5\<lparr>s_Channels := (\<lambda>_. None), c_bAlive := False\<rparr>"
  let ?s7 = "?s6\<lparr>l_bCallingFunctors := True, l_vPendingFunctors := [], c_vBatch := [SendInLoop [7]]\<rparr>"
  note demo = late_send_def demo_up_def demo_conn_def
  have "demo_reach ?s4"
  proof (rule demo_step [OF late_send_reach])
    show "conn_exec demo_ctl default_user (InRun WriteFails) late_send = Inr ?s4"
      by (simp add: Connection_runFunctor_def Connection_ConnectedDestroyed_def conn_eval demo
          EventLoop_RemoveChannel_def EPoller_RemoveChannel_def fun_eq_iff)
  qed (simp add: demo is_open_def)
  then have "demo_reach ?s5" by (rule demo_step [where ev = InDone]) (simp_all add: demo)
  then have "demo_reach ?s6"
  proof (rule demo_step)
    show "conn_exec demo_ctl default_user InDestroy ?s5 = Inr ?s6"
      by (simp add: Connection_destroy_def Channel_delete_def with_chan_def demo fun_eq_iff)
  qed (simp add: demo)
  then have "demo_reach ?s7" by (rule demo_step [where ev = InTake]) (simp_all add: take_functors_def demo)
  moreover have "conn_exec demo_ctl default_user (InRun w) ?s7 = Inl BadPointer"
    by (simp add: Connection_runFunctor_def)
  ultimately show ?thesis by (intro exI [of _ ?s7]) simp
qed

end
