(* ===== verification/Threads.thy ===== *)
theory Threads
  imports CFormat
begin

text \<open>
  The rest of \<open>thread/\<close>: \<open>Atomic.h\<close>, \<open>Thread.h\<close> and \<open>Thread.cpp\<close>, \<open>Singleton.h\<close>,
  \<open>ThreadLocal.h\<close>, \<open>ThreadLocalSingleton.h\<close>, \<open>Exception.h\<close> and \<open>Exception.cpp\<close>. The kernel's
  and \<open>pthread\<close>'s answers (a new thread's id, whether it could be created, the symbols of a
  stack trace) are arguments.
\<close>

section \<open>Atomic integers\<close>

text \<open>
  \<open>AtomicIntegerT\<close> of a \<open>w\<close>-bit integer; each built-in is one indivisible step that returns the
  old value. Arithmetic wraps around as the built-ins document.
\<close>

definition sync_val_compare_and_swap :: "'a::len word \<Rightarrow> 'a word \<Rightarrow> 'a word \<Rightarrow> 'a word \<times> 'a word" where
  "sync_val_compare_and_swap old new v = (v, if v = old then new else v)"

definition Atomic_Get :: "'a::len word \<Rightarrow> 'a word" where
  "Atomic_Get v = fst (sync_val_compare_and_swap 0 0 v)"

definition Atomic_GetAndAdd :: "'a::len word \<Rightarrow> 'a word \<Rightarrow> 'a word \<times> 'a word" where
  "Atomic_GetAndAdd x v = (v, v + x)"

definition Atomic_AddAndGet :: "'a::len word \<Rightarrow> 'a word \<Rightarrow> 'a word \<times> 'a word" where
  "Atomic_AddAndGet x v = (let (old, v') = Atomic_GetAndAdd x v in (old + x, v'))"

definition Atomic_IncrementAndGet :: "'a::len word \<Rightarrow> 'a word \<times> 'a word" where
  "Atomic_IncrementAndGet v = Atomic_AddAndGet 1 v"

definition Atomic_Add :: "'a::len word \<Rightarrow> 'a word \<Rightarrow> 'a word" where
  "Atomic_Add x v = snd (Atomic_GetAndAdd x v)"

definition Atomic_Increment :: "'a::len word \<Rightarrow> 'a word" where
  "Atomic_Increment v = snd (Atomic_IncrementAndGet v)"

definition Atomic_Decrement :: "'a::len word \<Rightarrow> 'a word" where
  "Atomic_Decrement v = snd (Atomic_GetAndAdd (- 1) v)"

definition Atomic_GetAndSet :: "'a::len word \<Rightarrow> 'a word \<Rightarrow> 'a word \<times> 'a word" where
  "Atomic_GetAndSet newValue v = (v, newValue)"

definition Atomic_assign :: "'a::len word \<Rightarrow> 'a word \<Rightarrow> 'a word" where
  "Atomic_assign that v = snd (Atomic_GetAndSet (Atomic_Get that) v)"

lemma Atomic_Get_reads [simp]: "Atomic_Get v = v" "snd (sync_val_compare_and_swap 0 0 v) = v"
  by (simp_all add: Atomic_Get_def sync_val_compare_and_swap_def)

lemma Atomic_AddAndGet_new [simp]: "Atomic_AddAndGet x v = (v + x, v + x)"
  by (simp add: Atomic_AddAndGet_def Atomic_GetAndAdd_def)

lemma Atomic_Decrement_Increment [simp]: "Atomic_Decrement (Atomic_Increment v) = v"
  by (simp add: Atomic_Decrement_def Atomic_Increment_def Atomic_IncrementAndGet_def
        Atomic_GetAndAdd_def)

text \<open>Any interleaving of additions has the same total, modulo the width.\<close>

lemma Atomic_Adds_total: "fold Atomic_Add xs v = v + sum_list xs"
  by (induction xs arbitrary: v) (simp_all add: Atomic_Add_def Atomic_GetAndAdd_def)

section \<open>Threads\<close>

text \<open>
  A thread object and the data its thread was started with. \<open>m_tIdPtr\<close> is a shared pointer that
  the new thread holds weakly: it stores its id only while the object is alive.
\<close>

record thread_data =
  d_func :: nat
  d_name :: string

record thread_obj =
  m_bStarted :: bool
  m_bJoined :: bool
  m_threadId :: nat
  m_tIdPtr :: nat
  m_ThreadFunc :: nat
  m_strName :: string

record thread_world =
  w_NumCreated :: "32 word"
  w_Running :: "(nat \<times> thread_data) list"
  w_Detached :: "nat set"

definition Thread_new :: "nat \<Rightarrow> string \<Rightarrow> thread_world \<Rightarrow> thread_obj \<times> thread_world" where
  "Thread_new func name w =
     (\<lparr>m_bStarted = False, m_bJoined = False, m_threadId = 0, m_tIdPtr = 0, m_ThreadFunc = func,
       m_strName = name\<rparr>,
      w\<lparr>w_NumCreated := Atomic_Increment (w_NumCreated w)\<rparr>)"

definition Thread_delete :: "thread_obj \<Rightarrow> thread_world \<Rightarrow> thread_world" where
  "Thread_delete t w =
     (if m_bStarted t \<and> \<not> m_bJoined t then w\<lparr>w_Detached := insert (m_threadId t) (w_Detached w)\<rparr>
      else w)"

text \<open>\<open>pthread_create\<close> answers with the new thread's handle, or fails.\<close>

definition Thread_Start ::
    "nat option \<Rightarrow> thread_obj \<Rightarrow> thread_world \<Rightarrow> (thread_obj \<times> thread_world) res" where
  "Thread_Start created t w =
     check (\<not> m_bStarted t)
       (let t1 = t\<lparr>m_bStarted := True\<rparr>;
            pData = \<lparr>d_func = m_ThreadFunc t1, d_name = m_strName t1\<rparr>
        in case created of
             Some h \<Rightarrow> Inr (t1\<lparr>m_threadId := h\<rparr>, w\<lparr>w_Running := w_Running w @ [(h, pData)]\<rparr>)
           | None \<Rightarrow> Inl Aborted)"

text \<open>\<open>Join\<close> returns once the thread has ended; nothing while it blocks.\<close>

definition Thread_Join :: "(nat \<Rightarrow> bool) \<Rightarrow> thread_obj \<Rightarrow> thread_obj option res" where
  "Thread_Join ended t =
     check (m_bStarted t) (check (\<not> m_bJoined t)
       (Inr (if ended (m_threadId t) then Some (t\<lparr>m_bJoined := True\<rparr>) else None)))"

definition Thread_Started :: "thread_obj \<Rightarrow> bool" where
  "Thread_Started t \<longleftrightarrow> m_bStarted t"

definition Thread_GetTid :: "thread_obj \<Rightarrow> nat" where
  "Thread_GetTid t = m_tIdPtr t"

definition Thread_Name :: "thread_obj \<Rightarrow> string" where
  "Thread_Name t = m_strName t"

definition Thread_GetNumCreated :: "thread_world \<Rightarrow> 32 word" where
  "Thread_GetNumCreated w = Atomic_Get (w_NumCreated w)"

section \<open>The current thread\<close>

record thread_local =
  t_cachedTid :: nat
  t_threadName :: string

definition thread_local_new :: thread_local where
  "thread_local_new = \<lparr>t_cachedTid = 0, t_threadName = ''unknown''\<rparr>"

definition CurrentThread_GetTid :: "nat \<Rightarrow> thread_local \<Rightarrow> nat \<times> thread_local" where
  "CurrentThread_GetTid gettid l =
     (let l1 = (if 0 = t_cachedTid l then l\<lparr>t_cachedTid := gettid\<rparr> else l) in (t_cachedTid l1, l1))"

definition CurrentThread_Name :: "thread_local \<Rightarrow> string" where
  "CurrentThread_Name l = t_threadName l"

definition CurrentThread_IsMainThread :: "nat \<Rightarrow> nat \<Rightarrow> thread_local \<Rightarrow> bool" where
  "CurrentThread_IsMainThread gettid getpid l \<longleftrightarrow> fst (CurrentThread_GetTid gettid l) = getpid"

definition afterFork :: "nat \<Rightarrow> thread_local \<Rightarrow> thread_local" where
  "afterFork gettid l = \<lparr>t_cachedTid = gettid, t_threadName = ''main''\<rparr>"

text \<open>
  What the new thread does: it publishes its id when the object is still there, runs the
  function under its name and is called \<open>finished\<close> afterwards.
\<close>

definition ThreadData_RunInThread ::
    "(nat \<Rightarrow> string \<Rightarrow> 'w \<Rightarrow> 'w) \<Rightarrow> nat \<Rightarrow> thread_data \<Rightarrow> thread_obj option \<Rightarrow> thread_local \<Rightarrow> 'w \<Rightarrow>
     thread_obj option \<times> thread_local \<times> 'w" where
  "ThreadData_RunInThread run gettid d obj l w =
     (let (tid, l1) = CurrentThread_GetTid gettid l;
          obj1 = map_option (m_tIdPtr_update (\<lambda>_. tid)) obj;
          l2 = l1\<lparr>t_threadName := d_name d\<rparr>;
          w1 = run (d_func d) (t_threadName l2) w
      in (obj1, l2\<lparr>t_threadName := ''finished''\<rparr>, w1))"

lemma RunInThread_publishes_tid:
  "ThreadData_RunInThread run gettid d (Some t) thread_local_new w =
     (Some (t\<lparr>m_tIdPtr := gettid\<rparr>),
      \<lparr>t_cachedTid = gettid, t_threadName = ''finished''\<rparr>, run (d_func d) (d_name d) w)"
  by (simp add: ThreadData_RunInThread_def CurrentThread_GetTid_def thread_local_new_def Let_def)

lemma GetTid_stable:
  "gettid \<noteq> 0 \<Longrightarrow> CurrentThread_GetTid gettid l = (tid, l1) \<Longrightarrow> CurrentThread_GetTid other l1 = (tid, l1)"
  by (auto simp: CurrentThread_GetTid_def Let_def split: if_splits)

text \<open>A second \<open>Start\<close>, a \<open>Join\<close> before \<open>Start\<close> and a second \<open>Join\<close> are assertion failures.\<close>

lemma Thread_protocol:
  "Thread_Start (Some h) t w = Inr (t', w') \<Longrightarrow> Thread_Start c t' w' = Inl AssertFailed"
  "Thread_Join ended (fst (Thread_new f n w)) = Inl AssertFailed"
  "Thread_Join ended t = Inr (Some t') \<Longrightarrow> Thread_Join ended t' = Inl AssertFailed"
  by (auto simp: Thread_Start_def Thread_Join_def Thread_new_def check_def Let_def split: if_splits)

section \<open>Singletons and thread-local values\<close>

text \<open>
  \<open>pthread_once\<close> runs \<open>init\<close> for the first caller only. \<open>made\<close> counts the objects constructed.
\<close>

record 'v singleton =
  m_POnce :: bool
  m_pValue :: "'v option"
  g_Made :: nat
  g_AtExit :: nat

definition singleton_new :: "'v singleton" where
  "singleton_new = \<lparr>m_POnce = False, m_pValue = None, g_Made = 0, g_AtExit = 0\<rparr>"

definition Singleton_init :: "'v \<Rightarrow> 'v singleton \<Rightarrow> 'v singleton" where
  "Singleton_init fresh s =
     s\<lparr>m_pValue := Some fresh, g_Made := Suc (g_Made s), g_AtExit := Suc (g_AtExit s)\<rparr>"

definition Singleton_Instance :: "'v \<Rightarrow> 'v singleton \<Rightarrow> ('v \<times> 'v singleton) res" where
  "Singleton_Instance fresh s =
     (let s1 = (if m_POnce s then s else Singleton_init fresh (s\<lparr>m_POnce := True\<rparr>))
      in case m_pValue s1 of None \<Rightarrow> Inl BadPointer | Some v \<Rightarrow> Inr (v, s1))"

definition Singleton_destroy :: "'v singleton \<Rightarrow> 'v singleton" where
  "Singleton_destroy s = s\<lparr>m_pValue := None\<rparr>"

lemma Singleton_same_instance:
  assumes "Singleton_Instance a s = Inr (v, s1)"
  shows "Singleton_Instance b s1 = Inr (v, s1)" and "g_Made s1 \<le> Suc (g_Made s)"
  using assms
  by (auto simp: Singleton_Instance_def Singleton_init_def Let_def split: if_splits option.splits)

text \<open>
  \<open>Instance\<close> after \<open>destroy\<close> (from a later \<open>atexit\<close> handler) dereferences a null pointer:
  \<open>pthread_once\<close> does not run \<open>init\<close> again.
\<close>

lemma Singleton_after_destroy:
  "Singleton_Instance a s = Inr (v, s1) \<Longrightarrow> Singleton_Instance b (Singleton_destroy s1) = Inl BadPointer"
  by (auto simp: Singleton_Instance_def Singleton_init_def Singleton_destroy_def Let_def
        split: if_splits option.splits)

text \<open>A key of thread-specific data maps threads to their values; both templates create on demand.\<close>

definition ThreadLocal_Value ::
    "'v \<Rightarrow> nat \<Rightarrow> (nat \<rightharpoonup> 'v) \<Rightarrow> 'v \<times> (nat \<rightharpoonup> 'v)" where
  "ThreadLocal_Value fresh tid m =
     (case m tid of None \<Rightarrow> (fresh, m(tid \<mapsto> fresh)) | Some v \<Rightarrow> (v, m))"

definition ThreadLocal_destructor :: "nat \<Rightarrow> (nat \<rightharpoonup> 'v) \<Rightarrow> (nat \<rightharpoonup> 'v)" where
  "ThreadLocal_destructor tid m = m(tid := None)"

definition ThreadLocalSingleton_Instance ::
    "'v \<Rightarrow> nat \<Rightarrow> (nat \<rightharpoonup> 'v) \<Rightarrow> 'v \<times> (nat \<rightharpoonup> 'v)" where
  "ThreadLocalSingleton_Instance fresh tid m =
     (let m1 = (if m tid = None then m(tid \<mapsto> fresh) else m) in (the (m1 tid), m1))"

definition ThreadLocalSingleton_Destroy :: "nat \<Rightarrow> (nat \<rightharpoonup> 'v) \<Rightarrow> (nat \<rightharpoonup> 'v)" where
  "ThreadLocalSingleton_Destroy tid m = (if m tid \<noteq> None then m(tid := None) else m)"

lemma ThreadLocal_agree: "ThreadLocalSingleton_Instance = ThreadLocal_Value"
  by (auto simp: fun_eq_iff ThreadLocalSingleton_Instance_def ThreadLocal_Value_def Let_def
        split: option.split)

lemma ThreadLocal_own_value:
  assumes "ThreadLocal_Value fresh tid m = (v, m1)"
  shows "ThreadLocal_Value other tid m1 = (v, m1)" and "t \<noteq> tid \<Longrightarrow> m1 t = m t"
  using assms by (auto simp: ThreadLocal_Value_def split: option.splits)

section \<open>Exceptions\<close>

record exn =
  m_StrMsg :: string
  m_StrStack :: string

definition eBackTraceMaxLength :: nat where
  "eBackTraceMaxLength = 100"

text \<open>
  The constructor records the stack: \<open>frames\<close> is what \<open>backtrace\<close> sees, at most the first
  \<open>eBackTraceMaxLength\<close>; \<open>symbols\<close> is \<open>backtrace_symbols\<close>, or nothing when it has no memory.
\<close>

definition Exception_new :: "('f list \<Rightarrow> string list option) \<Rightarrow> 'f list \<Rightarrow> string \<Rightarrow> exn" where
  "Exception_new symbols frames pStrWhat =
     \<lparr>m_StrMsg = pStrWhat,
      m_StrStack =
        (case symbols (take eBackTraceMaxLength frames) of
           None \<Rightarrow> ''''
         | Some ls \<Rightarrow> concat (map (\<lambda>l. l @ [CHR 0x0A]) ls))\<rparr>"

definition Exception_what :: "exn \<Rightarrow> string" where
  "Exception_what e = m_StrMsg e"

definition Exception_StackTrace :: "exn \<Rightarrow> string" where
  "Exception_StackTrace e = m_StrStack e"

lemma Exception_what_new [simp]: "Exception_what (Exception_new symbols frames what) = what"
  by (simp add: Exception_what_def Exception_new_def)

end
