(* ===== verification/Monitors.thy ===== *)
theory Monitors
  imports Prelude
begin

text \<open>
  \<open>thread/Mutex.h\<close> and \<open>thread/Condition.h\<close>. A \<open>pthread\<close> mutex is its owner, beside the
  code's own \<open>m_Holder\<close>; a condition variable is the threads blocked on it and those a
  signal, a timeout or a spurious wake-up has unblocked and that have to lock the mutex again
  before \<open>Wait\<close> returns. Which blocked thread a signal picks is an argument.
\<close>

section \<open>The mutex\<close>

record mutex =
  m_Mutex :: "nat option"
  m_Holder :: nat

definition MutexLock_new :: mutex where
  "MutexLock_new = \<lparr>m_Mutex = None, m_Holder = 0\<rparr>"

definition MutexLock_delete :: "mutex \<Rightarrow> unit res" where
  "MutexLock_delete m = check (0 = m_Holder m) (Inr ())"

definition MutexLock_IsLockedByThisThread :: "nat \<Rightarrow> mutex \<Rightarrow> bool" where
  "MutexLock_IsLockedByThisThread tid m \<longleftrightarrow> m_Holder m = tid"

definition MutexLock_AssertLocked :: "nat \<Rightarrow> mutex \<Rightarrow> unit res" where
  "MutexLock_AssertLocked tid m = check (MutexLock_IsLockedByThisThread tid m) (Inr ())"

text \<open>\<open>Lock\<close> has no result while another thread (or the caller itself) owns the mutex: it blocks.\<close>

definition pthread_mutex_lock :: "nat \<Rightarrow> mutex \<Rightarrow> mutex option" where
  "pthread_mutex_lock tid m = (if m_Mutex m = None then Some (m\<lparr>m_Mutex := Some tid\<rparr>) else None)"

definition MutexLock_Lock :: "nat \<Rightarrow> mutex \<Rightarrow> mutex option" where
  "MutexLock_Lock tid m = map_option (m_Holder_update (\<lambda>_. tid)) (pthread_mutex_lock tid m)"

definition MutexLock_Unlock :: "mutex \<Rightarrow> mutex" where
  "MutexLock_Unlock m = m\<lparr>m_Mutex := None, m_Holder := 0\<rparr>"

text \<open>A guard locks in its constructor and unlocks in its destructor, around the block it is in.\<close>

definition MutexLockGuard :: "nat \<Rightarrow> (mutex \<Rightarrow> mutex) \<Rightarrow> mutex \<Rightarrow> mutex option" where
  "MutexLockGuard tid body m = map_option (\<lambda>m1. MutexLock_Unlock (body m1)) (MutexLock_Lock tid m)"

section \<open>The condition variable\<close>

record condition =
  cv_Waiting :: "nat list"
  cv_Ready :: "nat list"

definition Condition_new :: condition where
  "Condition_new = \<lparr>cv_Waiting = [], cv_Ready = []\<rparr>"

text \<open>
  \<open>Wait\<close> gives the mutex up through \<open>pthread\<close>, not through \<open>Unlock\<close>, and \<open>pthread_cond_wait\<close>
  takes it again, not through \<open>Lock\<close>: \<open>m_Holder\<close> is not updated by either.
\<close>

definition Condition_Wait :: "nat \<Rightarrow> mutex \<times> condition \<Rightarrow> mutex \<times> condition" where
  "Condition_Wait tid s =
     (case s of (m, c) \<Rightarrow> (m\<lparr>m_Mutex := None\<rparr>, c\<lparr>cv_Waiting := cv_Waiting c @ [tid]\<rparr>))"

definition Condition_Wait_returns :: "nat \<Rightarrow> mutex \<times> condition \<Rightarrow> (mutex \<times> condition) option" where
  "Condition_Wait_returns tid s =
     (case s of (m, c) \<Rightarrow>
        if tid \<in> set (cv_Ready c)
        then map_option (\<lambda>m1. (m1, c\<lparr>cv_Ready := remove1 tid (cv_Ready c)\<rparr>)) (pthread_mutex_lock tid m)
        else None)"

definition cv_sleep :: "nat \<Rightarrow> condition \<Rightarrow> condition" where
  "cv_sleep tid c = c\<lparr>cv_Waiting := cv_Waiting c @ [tid]\<rparr>"

definition cv_resume :: "nat \<Rightarrow> condition \<Rightarrow> condition" where
  "cv_resume tid c = c\<lparr>cv_Ready := remove1 tid (cv_Ready c)\<rparr>"

definition cv_unblock :: "nat \<Rightarrow> condition \<Rightarrow> condition" where
  "cv_unblock tid c =
     (if tid \<in> set (cv_Waiting c)
      then c\<lparr>cv_Waiting := remove1 tid (cv_Waiting c), cv_Ready := cv_Ready c @ [tid]\<rparr>
      else c)"

definition Condition_Notify :: "nat \<Rightarrow> condition \<Rightarrow> condition" where
  "Condition_Notify k c =
     (if cv_Waiting c = [] then c
      else cv_unblock (cv_Waiting c ! (k mod length (cv_Waiting c))) c)"

definition Condition_NotifyAll :: "condition \<Rightarrow> condition" where
  "Condition_NotifyAll c = c\<lparr>cv_Waiting := [], cv_Ready := cv_Ready c @ cv_Waiting c\<rparr>"

text \<open>
  \<open>WaitForSeconds\<close>: the deadline given to \<open>pthread_cond_timedwait\<close>, whose times are
  (seconds, nanoseconds) of \<open>CLOCK_REALTIME\<close> and which returns \<open>ETIMEDOUT\<close> without blocking
  when the deadline is not after the present time. The result is \<open>Some True\<close> when it returns
  so, and nothing when it blocks until a signal or the deadline.
\<close>

type_synonym timespec = "int \<times> int"

definition not_after :: "timespec \<Rightarrow> timespec \<Rightarrow> bool" where
  "not_after a b \<longleftrightarrow> fst a < fst b \<or> fst a = fst b \<and> snd a \<le> snd b"

definition WaitForSeconds_deadline :: "int \<Rightarrow> timespec \<Rightarrow> timespec" where
  "WaitForSeconds_deadline nSeconds now = (nSeconds, snd now)"

definition Condition_WaitForSeconds :: "int \<Rightarrow> timespec \<Rightarrow> bool option" where
  "Condition_WaitForSeconds nSeconds now =
     (if not_after (WaitForSeconds_deadline nSeconds now) now then Some True else None)"

section \<open>Lemmas\<close>

named_theorems monitor_simps \<open>the fields of a condition variable after each operation\<close>

lemma length_Notify [monitor_simps]:
  "length (cv_Ready (Condition_Notify k c)) =
     length (cv_Ready c) + (if cv_Waiting c = [] then 0 else 1)"
  by (auto simp: Condition_Notify_def cv_unblock_def)

lemma Notify_threads:
  "set (cv_Waiting (Condition_Notify k c)) \<union> set (cv_Ready (Condition_Notify k c)) =
     set (cv_Waiting c) \<union> set (cv_Ready c)"
proof (cases "cv_Waiting c = []")
  case False
  then have "cv_Waiting c ! (k mod length (cv_Waiting c)) \<in> set (cv_Waiting c)" by simp
  then show ?thesis
    by (auto simp: Condition_Notify_def cv_unblock_def in_set_remove1 dest: subsetD [OF set_remove1_subset])
qed (simp add: Condition_Notify_def)

lemma Notify_idle [monitor_simps]: "cv_Waiting c = [] \<Longrightarrow> Condition_Notify k c = c"
  by (simp add: Condition_Notify_def)

lemma resume_fields [monitor_simps]:
  "cv_Waiting (cv_resume tid c) = cv_Waiting c"
  "cv_Ready (cv_resume tid c) = remove1 tid (cv_Ready c)"
  by (simp_all add: cv_resume_def)

lemma sleep_fields [monitor_simps]:
  "cv_Waiting (cv_sleep tid c) = cv_Waiting c @ [tid]" "cv_Ready (cv_sleep tid c) = cv_Ready c"
  by (simp_all add: cv_sleep_def)

lemma unblock_ready [monitor_simps]:
  "length (cv_Ready (cv_unblock tid c)) =
     length (cv_Ready c) + (if tid \<in> set (cv_Waiting c) then 1 else 0)"
  by (simp add: cv_unblock_def)

section \<open>The holder\<close>

text \<open>Steps of threads that lock and unlock, each unlocking only what it locked.\<close>

inductive mutex_move :: "mutex \<Rightarrow> mutex \<Rightarrow> bool" where
  mutex_lock: "0 < tid \<Longrightarrow> MutexLock_Lock tid m = Some m' \<Longrightarrow> mutex_move m m'"
| mutex_unlock: "m_Mutex m = Some tid \<Longrightarrow> mutex_move m (MutexLock_Unlock m)"

definition holder_inv :: "mutex \<Rightarrow> bool" where
  "holder_inv m \<longleftrightarrow> m_Holder m = (case m_Mutex m of None \<Rightarrow> 0 | Some t \<Rightarrow> t) \<and> m_Mutex m \<noteq> Some 0"

interpretation guarded_mutex: invariant_system "\<lambda>m. m = MutexLock_new" mutex_move holder_inv
proof unfold_locales
  show "holder_inv m" if "m = MutexLock_new" for m
    using that by (simp add: holder_inv_def MutexLock_new_def)
  show "holder_inv m'" if "mutex_move m m'" "holder_inv m" for m m'
    using that
    by (cases rule: mutex_move.cases)
       (auto simp: holder_inv_def MutexLock_Lock_def MutexLock_Unlock_def pthread_mutex_lock_def
             split: if_splits)
qed

text \<open>With \<open>Lock\<close> and \<open>Unlock\<close> alone, \<open>IsLockedByThisThread\<close> tells who owns the mutex.\<close>

lemma holder_is_owner:
  assumes "reach (\<lambda>m. m = MutexLock_new) mutex_move m" and "0 < tid"
  shows "MutexLock_IsLockedByThisThread tid m \<longleftrightarrow> m_Mutex m = Some tid"
  using guarded_mutex.reach_keeps [OF assms(1)] assms(2)
  by (auto simp: holder_inv_def MutexLock_IsLockedByThisThread_def split: option.splits)

text \<open>
  A thread that waits on a condition and gets the mutex back while another thread has locked
  and unlocked it in between owns the mutex, but \<open>IsLockedByThisThread\<close> denies it and
  \<open>AssertLocked\<close> aborts: \<open>Wait\<close> hands the mutex over behind \<open>m_Holder\<close>'s back.
\<close>

theorem Wait_forgets_holder:
  assumes "m_Mutex m = Some t" and "0 < t" and "c = Condition_new"
    and "Condition_Wait t (m, c) = (m1, c1)"
    and "MutexLockGuard u (\<lambda>x. x) m1 = Some m2"
    and "Condition_Wait_returns t (m2, Condition_Notify k c1) = Some (m3, c3)"
  shows "m_Mutex m3 = Some t \<and> MutexLock_AssertLocked t m3 = Inl AssertFailed"
  using assms
  by (cases m; cases m3) (auto simp: Condition_Wait_def MutexLockGuard_def MutexLock_Lock_def MutexLock_Unlock_def
        pthread_mutex_lock_def Condition_Wait_returns_def Condition_new_def Condition_Notify_def
        cv_unblock_def MutexLock_AssertLocked_def MutexLock_IsLockedByThisThread_def check_def)

theorem Wait_forgets_holder_witness:
  "\<exists>m3 c3. Condition_Wait_returns 7
      (\<lparr>m_Mutex = None, m_Holder = 0\<rparr>, \<lparr>cv_Waiting = [], cv_Ready = [7]\<rparr>) = Some (m3, c3) \<and>
     m_Mutex m3 = Some 7 \<and> MutexLock_AssertLocked 7 m3 = Inl AssertFailed"
proof -
  have ret: "Condition_Wait_returns 7
      (\<lparr>m_Mutex = None, m_Holder = 0\<rparr>, \<lparr>cv_Waiting = [], cv_Ready = [7]\<rparr>) =
    Some (\<lparr>m_Mutex = Some 7, m_Holder = 0\<rparr>, \<lparr>cv_Waiting = [], cv_Ready = []\<rparr>)"
    by (simp add: Condition_Wait_returns_def pthread_mutex_lock_def)
  have "m_Mutex \<lparr>m_Mutex = Some 7, m_Holder = 0\<rparr> = Some 7 \<and>
      MutexLock_AssertLocked 7 \<lparr>m_Mutex = Some 7, m_Holder = 0\<rparr> = Inl AssertFailed"
    by (rule Wait_forgets_holder
          [where m = "\<lparr>m_Mutex = Some 7, m_Holder = 7\<rparr>" and c = Condition_new and u = 9 and k = 0
             and ?m1.0 = "\<lparr>m_Mutex = None, m_Holder = 7\<rparr>"
             and ?c1.0 = "\<lparr>cv_Waiting = [7], cv_Ready = []\<rparr>"
             and ?m2.0 = "\<lparr>m_Mutex = None, m_Holder = 0\<rparr>"
             and ?c3.0 = "\<lparr>cv_Waiting = [], cv_Ready = []\<rparr>"])
       (simp_all add: Condition_Wait_def Condition_new_def MutexLockGuard_def MutexLock_Lock_def
          MutexLock_Unlock_def pthread_mutex_lock_def Condition_Notify_def cv_unblock_def ret)
  with ret show ?thesis by blast
qed

text \<open>
  \<open>WaitForSeconds\<close> uses the number of seconds itself as the absolute deadline, so as long as
  the clock reads a time after 1970 by more than that number it reports a timeout at once
  instead of waiting.
\<close>

theorem WaitForSeconds_never_waits:
  assumes "nSeconds \<le> fst now"
  shows "Condition_WaitForSeconds nSeconds now = Some True"
  using assms
  by (cases now) (auto simp: Condition_WaitForSeconds_def WaitForSeconds_deadline_def not_after_def)

theorem WaitForSeconds_never_waits_witness:
  "Condition_WaitForSeconds 3 (1700000000, 5) = Some True"
  by (rule WaitForSeconds_never_waits) simp

end
