(* ===== verification/EventLoopThreads.thy ===== *)
theory EventLoopThreads
  imports EventLoops Threads Monitors
begin

text \<open>
  \<open>reactor/EventLoopThread\<close> and \<open>reactor/EventLoopThreadPool\<close>. The first gives a thread an event
  loop of its own: the owner's \<open>StartLoop\<close> and destructor run against the thread's \<open>threadFunc\<close>,
  one step at a time, and the loop object lives on the thread's stack. The second hands out the
  loops of its threads in turn.
\<close>

section \<open>One loop on its own thread\<close>

datatype thread_pc =
    NotRunning
  | Constructing   \<comment> \<open>at \<open>EventLoop eventLoop\<close>\<close>
  | Publishing     \<comment> \<open>at the block that sets \<open>m_pEventLoop\<close>\<close>
  | BeforeLoop     \<comment> \<open>about to call \<open>Loop\<close>\<close>
  | Looping        \<comment> \<open>at \<open>while (!m_bQuit)\<close>\<close>
  | Finished

datatype owner_pc =
    Free
  | AtTest         \<comment> \<open>at \<open>while (NULL == m_pEventLoop)\<close>\<close>
  | Asleep         \<comment> \<open>inside \<open>m_Cond.Wait()\<close>\<close>
  | HasLoop        \<comment> \<open>\<open>StartLoop\<close> has returned\<close>
  | JoinWait       \<comment> \<open>in the destructor's \<open>Join\<close>\<close>
  | Gone

text \<open>
  \<open>lt_Loop\<close> is the loop object while it exists, \<open>lt_pEventLoop\<close> whether the pointer is set.
  \<open>g_bEarly\<close> records that the destructor called \<open>Quit\<close> before the thread was in \<open>Loop\<close>.
\<close>

record ('cb, 'k, 'f) loop_thread =
  lt_pEventLoop :: bool
  lt_bExiting :: bool
  lt_Thread :: thread_obj
  lt_World :: thread_world
  lt_Cond :: condition
  lt_Loop :: "('cb, 'k, 'f) event_loop option"
  lt_pc :: thread_pc
  lt_owner :: owner_pc
  g_bEarly :: bool

definition EventLoopThread_new :: "nat \<Rightarrow> thread_world \<Rightarrow> ('cb, 'k, 'f) loop_thread" where
  "EventLoopThread_new func w =
     \<lparr>lt_pEventLoop = False, lt_bExiting = False, lt_Thread = fst (Thread_new func [] w),
      lt_World = snd (Thread_new func [] w), lt_Cond = Condition_new, lt_Loop = None, lt_pc = NotRunning, lt_owner = Free, g_bEarly = False\<rparr>"

text \<open>\<open>StartLoop\<close>: the thread is created, then the owner waits for the pointer.\<close>

definition StartLoop_start ::
    "nat option \<Rightarrow> ('cb, 'k, 'f) loop_thread \<Rightarrow> ('cb, 'k, 'f) loop_thread res" where
  "StartLoop_start created s =
     check (\<not> Thread_Started (lt_Thread s))
       (rbind (Thread_Start created (lt_Thread s) (lt_World s)) (\<lambda>(t, w).
          Inr (s\<lparr>lt_Thread := t, lt_World := w, lt_pc := Constructing, lt_owner := AtTest\<rparr>)))"

definition StartLoop_test :: "nat \<Rightarrow> ('cb, 'k, 'f) loop_thread \<Rightarrow> ('cb, 'k, 'f) loop_thread" where
  "StartLoop_test tid s =
     (if \<not> lt_pEventLoop s then s\<lparr>lt_Cond := cv_sleep tid (lt_Cond s), lt_owner := Asleep\<rparr>
      else s\<lparr>lt_owner := HasLoop\<rparr>)"

definition StartLoop_wake :: "nat \<Rightarrow> ('cb, 'k, 'f) loop_thread \<Rightarrow> ('cb, 'k, 'f) loop_thread" where
  "StartLoop_wake tid s = s\<lparr>lt_Cond := cv_resume tid (lt_Cond s), lt_owner := AtTest\<rparr>"

text \<open>\<open>threadFunc\<close>; the first two statements of \<open>EventLoop::Loop\<close> clear \<open>m_bQuit\<close>.\<close>

definition threadFunc_construct ::
    "('cb, 'k, 'f) event_loop \<Rightarrow> ('cb, 'k, 'f) loop_thread \<Rightarrow> ('cb, 'k, 'f) loop_thread" where
  "threadFunc_construct l s = s\<lparr>lt_Loop := Some l, lt_pc := Publishing\<rparr>"

definition threadFunc_publish :: "nat \<Rightarrow> ('cb, 'k, 'f) loop_thread \<Rightarrow> ('cb, 'k, 'f) loop_thread" where
  "threadFunc_publish k s =
     s\<lparr>lt_pEventLoop := True, lt_Cond := Condition_Notify k (lt_Cond s), lt_pc := BeforeLoop\<rparr>"

definition Loop_enter ::
    "('cb, 'k, 'f, 'a) event_loop_scheme \<Rightarrow> ('cb, 'k, 'f, 'a) event_loop_scheme" where
  "Loop_enter l = l\<lparr>l_bLooping := True, l_bQuit := False\<rparr>"

definition threadFunc_enter :: "('cb, 'k, 'f) loop_thread \<Rightarrow> ('cb, 'k, 'f) loop_thread" where
  "threadFunc_enter s = s\<lparr>lt_Loop := map_option Loop_enter (lt_Loop s), lt_pc := Looping\<rparr>"

text \<open>
  The loop's test: it leaves when \<open>m_bQuit\<close> is set, and the object dies with the thread's stack;
  otherwise it polls, which resets the wake-up counter, and dispatches.
\<close>

definition threadFunc_test :: "('cb, 'k, 'f) loop_thread \<Rightarrow> ('cb, 'k, 'f) loop_thread" where
  "threadFunc_test s =
     (case lt_Loop s of
        Some l \<Rightarrow> (if l_bQuit l then s\<lparr>lt_Loop := None, lt_pc := Finished\<rparr>
                   else s\<lparr>lt_Loop := Some (EventLoop_handleRead l)\<rparr>)
      | None \<Rightarrow> s)"

text \<open>A callback of the loop may itself call \<open>Quit\<close>.\<close>

definition threadFunc_quit :: "('cb, 'k, 'f) loop_thread \<Rightarrow> ('cb, 'k, 'f) loop_thread" where
  "threadFunc_quit s = s\<lparr>lt_Loop := map_option (\<lambda>l. EventLoop_Quit (s_ThreadId l) l) (lt_Loop s)\<rparr>"

text \<open>The destructor: \<open>Quit\<close> through the pointer, whatever it points to, then \<open>Join\<close>.\<close>

definition EventLoopThread_delete ::
    "nat \<Rightarrow> ('cb, 'k, 'f) loop_thread \<Rightarrow> ('cb, 'k, 'f) loop_thread res" where
  "EventLoopThread_delete tid s =
     (if \<not> lt_pEventLoop s then Inl BadPointer
      else case lt_Loop s of
        None \<Rightarrow> Inl BadPointer
      | Some l \<Rightarrow>
          Inr (s\<lparr>lt_bExiting := True, lt_Loop := Some (EventLoop_Quit tid l), lt_owner := JoinWait,
                 g_bEarly := (lt_pc s = BeforeLoop)\<rparr>))"

definition EventLoopThread_join :: "('cb, 'k, 'f) loop_thread \<Rightarrow> ('cb, 'k, 'f) loop_thread option res" where
  "EventLoopThread_join s =
     rbind (Thread_Join (\<lambda>_. lt_pc s = Finished) (lt_Thread s)) (\<lambda>r.
       Inr (map_option (\<lambda>t. s\<lparr>lt_Thread := t, lt_World := Thread_delete t (lt_World s), lt_owner := Gone\<rparr>) r))"

text \<open>
  The steps of the owner (thread \<open>tid\<close>) and of the thread, whose loop is \<open>l\<close> when constructed.
  \<open>quits\<close> says whether callbacks of the loop may call \<open>Quit\<close>.
\<close>

inductive thread_move ::
    "bool \<Rightarrow> nat \<Rightarrow> ('cb, 'k, 'f) event_loop \<Rightarrow> ('cb, 'k, 'f) loop_thread \<Rightarrow> ('cb, 'k, 'f) loop_thread \<Rightarrow> bool"
  for quits :: bool and tid :: nat and l :: "('cb, 'k, 'f) event_loop" where
  o_start: "lt_owner s = Free \<Longrightarrow> StartLoop_start created s = Inr t \<Longrightarrow> thread_move quits tid l s t"
| o_test: "lt_owner s = AtTest \<Longrightarrow> thread_move quits tid l s (StartLoop_test tid s)"
| o_wake: "lt_owner s = Asleep \<Longrightarrow> tid \<in> set (cv_Ready (lt_Cond s)) \<Longrightarrow>
    thread_move quits tid l s (StartLoop_wake tid s)"
| o_delete: "lt_owner s = Free \<or> lt_owner s = HasLoop \<Longrightarrow> EventLoopThread_delete tid s = Inr t \<Longrightarrow>
    thread_move quits tid l s t"
| o_join: "lt_owner s = JoinWait \<Longrightarrow> EventLoopThread_join s = Inr (Some t) \<Longrightarrow>
    thread_move quits tid l s t"
| t_construct: "lt_pc s = Constructing \<Longrightarrow> thread_move quits tid l s (threadFunc_construct l s)"
| t_publish: "lt_pc s = Publishing \<Longrightarrow> thread_move quits tid l s (threadFunc_publish k s)"
| t_enter: "lt_pc s = BeforeLoop \<Longrightarrow> thread_move quits tid l s (threadFunc_enter s)"
| t_test: "lt_pc s = Looping \<Longrightarrow> thread_move quits tid l s (threadFunc_test s)"
| t_quit: "lt_pc s = Looping \<Longrightarrow> quits \<Longrightarrow> thread_move quits tid l s (threadFunc_quit s)"

definition thread_start :: "('cb, 'k, 'f) loop_thread \<Rightarrow> bool" where
  "thread_start s \<longleftrightarrow> (\<exists>func w. s = EventLoopThread_new func w)"

text \<open>\<open>Loop\<close> begins with \<open>Loop_enter\<close>.\<close>

lemma Loop_begins:
  "EventLoop_Loop run_cb run tid ps s =
     check (\<not> l_bLooping s) (EventLoop_AssertInLoopThread tid s (EventLoop_while run_cb run ps (Loop_enter s)))"
  by (simp add: EventLoop_Loop_def Loop_enter_def)

section \<open>Invariant\<close>

definition loop_alive :: "thread_pc \<Rightarrow> bool" where
  "loop_alive pc \<longleftrightarrow> pc = Publishing \<or> pc = BeforeLoop \<or> pc = Looping"

definition published :: "thread_pc \<Rightarrow> bool" where
  "published pc \<longleftrightarrow> pc = BeforeLoop \<or> pc = Looping \<or> pc = Finished"

definition waits_ok :: "nat \<Rightarrow> owner_pc \<Rightarrow> bool \<Rightarrow> condition \<Rightarrow> bool" where
  "waits_ok tid ow p c \<longleftrightarrow>
     set (cv_Waiting c) \<subseteq> {tid} \<and>
     (ow = Asleep \<longrightarrow> (if p then tid \<in> set (cv_Ready c) else tid \<in> set (cv_Waiting c @ cv_Ready c)))"

definition thread_inv :: "nat \<Rightarrow> ('cb, 'k, 'f) loop_thread \<Rightarrow> bool" where
  "thread_inv tid s \<longleftrightarrow>
     (lt_pEventLoop s \<longleftrightarrow> published (lt_pc s)) \<and>
     (lt_Loop s \<noteq> None \<longleftrightarrow> loop_alive (lt_pc s)) \<and>
     (lt_pc s = NotRunning \<longleftrightarrow> \<not> m_bStarted (lt_Thread s)) \<and>
     (lt_owner s = Free \<longleftrightarrow> \<not> m_bStarted (lt_Thread s)) \<and>
     (m_bJoined (lt_Thread s) \<longleftrightarrow> lt_owner s = Gone) \<and>
     (lt_owner s \<in> {HasLoop, JoinWait, Gone} \<longrightarrow> lt_pEventLoop s) \<and>
     waits_ok tid (lt_owner s) (lt_pEventLoop s) (lt_Cond s) \<and>
     (lt_owner s = JoinWait \<longrightarrow> \<not> g_bEarly s \<longrightarrow>
        lt_pc s = Finished \<or> lt_pc s = Looping \<and> (\<exists>l. lt_Loop s = Some l \<and> l_bQuit l)) \<and>
     (lt_owner s = Gone \<longrightarrow> lt_pc s = Finished)"

lemma Quit_sets [simp]: "l_bQuit (EventLoop_Quit tid l)"
  by (simp add: EventLoop_Quit_def EventLoop_WakeUp_def Let_def)

lemma handleRead_quit [simp]: "l_bQuit (EventLoop_handleRead l) = l_bQuit l"
  by (simp add: EventLoop_handleRead_def)

lemma notify_only:
  assumes "set (cv_Waiting c) \<subseteq> {tid}" and "tid \<in> set (cv_Waiting c @ cv_Ready c)"
  shows "tid \<in> set (cv_Ready (Condition_Notify k c))"
proof (cases "cv_Waiting c = []")
  case True
  with assms show ?thesis by (simp add: Condition_Notify_def)
next
  case False
  then have "cv_Waiting c ! (k mod length (cv_Waiting c)) \<in> set (cv_Waiting c)" by simp
  with assms(1) have "cv_Waiting c ! (k mod length (cv_Waiting c)) = tid" by blast
  moreover have "tid \<in> set (cv_Waiting c)" using False assms(1) by (cases "cv_Waiting c") auto
  ultimately show ?thesis using False by (simp add: Condition_Notify_def cv_unblock_def)
qed

lemma notify_waiting: "set (cv_Waiting (Condition_Notify k c)) \<subseteq> set (cv_Waiting c)"
  using set_remove1_subset [of _ "cv_Waiting c"] by (auto simp: Condition_Notify_def cv_unblock_def)

lemma waits_publish: "waits_ok tid ow False c \<Longrightarrow> waits_ok tid ow True (Condition_Notify k c)"
  using notify_only [of c tid k] notify_waiting [of k c] by (auto simp: waits_ok_def)

lemma waits_awake: "waits_ok tid ow p c \<Longrightarrow> ow' \<noteq> Asleep \<Longrightarrow> waits_ok tid ow' p c"
  by (auto simp: waits_ok_def)

lemma Thread_Start_started:
  "Thread_Start created t w = Inr (t', w') \<Longrightarrow> m_bStarted t' \<and> m_bJoined t' = m_bJoined t"
  by (auto simp: Thread_Start_def Let_def check_Inr split: option.splits)

lemma thread_move_keeps:
  assumes move: "thread_move quits tid l s t" and inv: "thread_inv tid s"
  shows "thread_inv tid t"
  using move
proof (cases rule: thread_move.cases)
  case (o_start created)
  then obtain th w where "Thread_Start created (lt_Thread s) (lt_World s) = Inr (th, w)"
    and t: "t = s\<lparr>lt_Thread := th, lt_World := w, lt_pc := Constructing, lt_owner := AtTest\<rparr>"
    by (auto simp: StartLoop_start_def check_Inr rbind_Inr)
  with Thread_Start_started have "m_bStarted th" "m_bJoined th = m_bJoined (lt_Thread s)" by blast+
  with inv o_start(1) show ?thesis
    by (auto simp: t thread_inv_def waits_ok_def published_def loop_alive_def)
next
  case o_test
  with inv show ?thesis
    by (auto simp: thread_inv_def StartLoop_test_def waits_ok_def cv_sleep_def)
next
  case o_wake
  with inv show ?thesis
    by (auto simp: thread_inv_def StartLoop_wake_def waits_ok_def cv_resume_def)
next
  case o_delete
  then obtain lp where p: "lt_pEventLoop s" and lp: "lt_Loop s = Some lp"
    and t: "t = s\<lparr>lt_bExiting := True, lt_Loop := Some (EventLoop_Quit tid lp), lt_owner := JoinWait,
      g_bEarly := (lt_pc s = BeforeLoop)\<rparr>"
    by (auto simp: EventLoopThread_delete_def split: if_splits option.splits)
  have "published (lt_pc s)" "loop_alive (lt_pc s)" using inv p lp by (simp_all add: thread_inv_def)
  then have pc: "lt_pc s = BeforeLoop \<or> lt_pc s = Looping"
    by (auto simp: published_def loop_alive_def)
  have "waits_ok tid JoinWait (lt_pEventLoop s) (lt_Cond s)"
    using inv by (auto simp: thread_inv_def intro: waits_awake)
  with inv pc p o_delete(1) show ?thesis
    by (simp add: t thread_inv_def published_def loop_alive_def) auto
next
  case o_join
  with inv show ?thesis
    by (auto simp: thread_inv_def EventLoopThread_join_def Thread_Join_def rbind_Inr check_Inr
        published_def loop_alive_def waits_ok_def split: if_splits)
next
  case t_construct
  with inv show ?thesis
    by (auto simp: thread_inv_def threadFunc_construct_def published_def loop_alive_def)
next
  case (t_publish k)
  with inv show ?thesis
    by (auto simp: thread_inv_def threadFunc_publish_def published_def loop_alive_def intro: waits_publish)
next
  case t_enter
  with inv show ?thesis
    by (auto simp: thread_inv_def threadFunc_enter_def published_def loop_alive_def)
next
  case t_test
  with inv show ?thesis
    by (auto simp: thread_inv_def threadFunc_test_def published_def loop_alive_def split: option.splits)
next
  case t_quit
  with inv show ?thesis
    by (auto simp: thread_inv_def threadFunc_quit_def published_def loop_alive_def)
qed

interpretation loop_thread_system: invariant_system thread_start "thread_move quits tid l" "thread_inv tid"
  for quits :: bool and tid :: nat and l :: "('cb, 'k, 'f) event_loop"
proof unfold_locales
  show "thread_inv tid s" if "thread_start s" for s
    using that
    by (auto simp: thread_start_def EventLoopThread_new_def thread_inv_def Thread_new_def
        Condition_new_def waits_ok_def published_def loop_alive_def)
  show "thread_inv tid t" if "thread_move quits tid l s t" "thread_inv tid s" for s t
    using that by (rule thread_move_keeps)
qed

text \<open>
  A run of \<open>StartLoop\<close> that returns when the thread has not yet reached \<open>Loop\<close>, and the owner
  destroying the object then.
\<close>

definition demo_thread_loop :: "(nat, unit, nat) event_loop" where
  "demo_thread_loop =
     epoll_store.extend (EPoller_init 7 2 () Map.empty)
       (event_loop.fields False False TimeStamp_Invalid False 0 [] [])"

definition started_run :: "(nat, unit, nat) loop_thread res" where
  "started_run =
     rbind (StartLoop_start (Some 9) (EventLoopThread_new 0 \<lparr>w_NumCreated = 0, w_Running = [], w_Detached = {}\<rparr>)) (\<lambda>s.
       Inr (StartLoop_test 1 (threadFunc_publish 0 (threadFunc_construct demo_thread_loop s))))"

definition early_run :: "(nat, unit, nat) loop_thread res" where
  "early_run = rbind started_run (EventLoopThread_delete 1)"

lemmas thread_ops =
  early_run_def started_run_def StartLoop_start_def Thread_Started_def Thread_Start_def
  EventLoopThread_new_def Thread_new_def threadFunc_publish_def threadFunc_construct_def
  StartLoop_test_def EventLoopThread_delete_def Condition_new_def Condition_Notify_def

lemma started_run_state: "\<exists>s. started_run = Inr s \<and> lt_owner s = HasLoop"
  by (simp add: thread_ops)

lemma early_run_state:
  "\<exists>s. early_run = Inr s \<and> lt_pc s = BeforeLoop \<and> lt_owner s = JoinWait \<and> g_bEarly s"
  by (simp add: thread_ops)

lemma started_run_reachable:
  assumes "started_run = Inr s"
  shows "reach thread_start (thread_move False 1 demo_thread_loop) s \<and> lt_owner s = HasLoop"
proof -
  let ?w = "\<lparr>w_NumCreated = 0, w_Running = [], w_Detached = {}\<rparr> :: thread_world"
  let ?s0 = "EventLoopThread_new 0 ?w :: (nat, unit, nat) loop_thread"
  from assms obtain s1 where s1: "StartLoop_start (Some 9) ?s0 = Inr s1"
    and s: "StartLoop_test 1 (threadFunc_publish 0 (threadFunc_construct demo_thread_loop s1)) = s"
    unfolding started_run_def rbind_Inr by blast
  have pc: "lt_pc s1 = Constructing" "lt_owner s1 = AtTest"
    using s1 by (auto simp: StartLoop_start_def check_Inr rbind_Inr)
  have "reach thread_start (thread_move False 1 demo_thread_loop) ?s0"
    by (rule reach_init) (auto simp: thread_start_def)
  then have "reach thread_start (thread_move False 1 demo_thread_loop) s1"
    by (rule reach_step) (rule o_start [OF _ s1], simp add: EventLoopThread_new_def)
  then have "reach thread_start (thread_move False 1 demo_thread_loop) (threadFunc_construct demo_thread_loop s1)"
    by (rule reach_step) (rule t_construct [OF pc(1)])
  then have "reach thread_start (thread_move False 1 demo_thread_loop)
      (threadFunc_publish 0 (threadFunc_construct demo_thread_loop s1))"
    by (rule reach_step) (rule t_publish, simp add: threadFunc_construct_def)
  then have "reach thread_start (thread_move False 1 demo_thread_loop) s"
    unfolding s [symmetric]
    by (rule reach_step) (rule o_test, simp add: threadFunc_construct_def threadFunc_publish_def pc)
  then show ?thesis by (simp add: s [symmetric] StartLoop_test_def threadFunc_publish_def)
qed

lemma early_run_reachable:
  assumes "early_run = Inr s"
  shows "reach thread_start (thread_move False 1 demo_thread_loop) s"
proof -
  from assms obtain s1 where s1: "started_run = Inr s1" and s: "EventLoopThread_delete 1 s1 = Inr s"
    unfolding early_run_def rbind_Inr by blast
  from started_run_reachable [OF s1]
  have r: "reach thread_start (thread_move False 1 demo_thread_loop) s1" and o: "lt_owner s1 = HasLoop"
    by simp_all
  from r show ?thesis by (rule reach_step) (rule o_delete [OF _ s], simp add: o)
qed

text \<open>
  C38: \<open>StartLoop\<close> and the destructor, over every interleaving with the thread: when \<open>StartLoop\<close> has
  returned the pointer is set; its wait misses no notification (an owner asleep once the pointer
  is set has been woken); and a destructor that called \<open>Quit\<close> when the thread was already in
  \<open>Loop\<close> joins a thread that has ended or that sees \<open>m_bQuit\<close> at its next test.
\<close>

theorem EventLoopThread_protocol:
  fixes s :: "('cb, 'k, 'f) loop_thread"
  assumes "reach thread_start (thread_move quits tid l) s"
  shows "(lt_owner s = HasLoop \<longrightarrow> lt_pEventLoop s) \<and>
    (lt_owner s = Asleep \<and> lt_pEventLoop s \<longrightarrow> tid \<in> set (cv_Ready (lt_Cond s))) \<and>
    (lt_owner s = JoinWait \<and> \<not> g_bEarly s \<longrightarrow>
       lt_pc s = Finished \<or> lt_pc (threadFunc_test s) = Finished)"
proof -
  have inv: "thread_inv tid s" by (rule loop_thread_system.reach_keeps [OF assms])
  have "lt_pc (threadFunc_test s) = Finished"
    if "lt_Loop s = Some lp" "l_bQuit lp" for lp
    using that by (simp add: threadFunc_test_def)
  with inv show ?thesis by (auto simp: thread_inv_def waits_ok_def)
qed

theorem EventLoopThread_protocol_witness:
  "\<exists>s. started_run = Inr s \<and> lt_owner s = HasLoop \<and> lt_pEventLoop s"
proof -
  from started_run_state obtain s where s: "started_run = Inr s" "lt_owner s = HasLoop" by blast
  with EventLoopThread_protocol [OF conjunct1 [OF started_run_reachable [OF s(1)]]] show ?thesis
    by blast
qed

text \<open>From there on nothing lets the owner return.\<close>

definition lost_quit :: "('cb, 'k, 'f) loop_thread \<Rightarrow> bool" where
  "lost_quit s \<longleftrightarrow> lt_owner s = JoinWait \<and>
     (lt_pc s = BeforeLoop \<or> lt_pc s = Looping \<and> (\<exists>lp. lt_Loop s = Some lp \<and> \<not> l_bQuit lp)) \<and>
     lt_Loop s \<noteq> None"

lemma join_blocks: "lt_pc s \<noteq> Finished \<Longrightarrow> EventLoopThread_join s \<noteq> Inr (Some t)"
  by (auto simp: EventLoopThread_join_def Thread_Join_def check_def)

lemma lost_quit_stays:
  assumes "thread_move False tid l s t" and q: "lost_quit s"
  shows "lost_quit t"
  using assms(1)
proof (cases rule: thread_move.cases)
  case o_join
  with q join_blocks [of s t] show ?thesis by (auto simp: lost_quit_def)
qed (use q in \<open>auto simp: lost_quit_def threadFunc_enter_def threadFunc_test_def Loop_enter_def\<close>)

text \<open>
  The destructor can hang. In the run of \<open>early_run\<close> the owner gets the loop's address and
  destroys the object while the thread has published the address but not yet entered \<open>Loop\<close>,
  whose first statements reset \<open>m_bQuit\<close>: the \<open>Quit\<close> is lost, and however the run goes on (with no
  callback quitting the loop) the owner stays in \<open>Join\<close>.
\<close>

theorem EventLoopThread_early_delete_hangs:
  "\<exists>s. early_run = Inr s \<and> reach thread_start (thread_move False 1 demo_thread_loop) s \<and>
     (\<forall>t. (thread_move False 1 demo_thread_loop)\<^sup>*\<^sup>* s t \<longrightarrow> lt_owner t = JoinWait)"
proof -
  from early_run_state obtain s where s: "early_run = Inr s" "lt_pc s = BeforeLoop" "lt_owner s = JoinWait"
    by blast
  have r: "reach thread_start (thread_move False 1 demo_thread_loop) s"
    by (rule early_run_reachable [OF s(1)])
  then have "thread_inv 1 s" by (rule loop_thread_system.reach_keeps)
  with s have q: "lost_quit s" by (auto simp: lost_quit_def thread_inv_def loop_alive_def)
  have "lost_quit t" if "(thread_move False 1 demo_thread_loop)\<^sup>*\<^sup>* s t" for t
    using that q by (induction rule: rtranclp_induct) (auto intro: lost_quit_stays)
  with s(1) r show ?thesis by (auto simp: lost_quit_def)
qed

theorem EventLoopThread_early_delete_hangs_witness:
  "\<exists>s. early_run = Inr s \<and> lt_owner (threadFunc_enter s) = JoinWait"
proof -
  from EventLoopThread_early_delete_hangs obtain s where s: "early_run = Inr s"
    and stuck: "\<forall>t. (thread_move False 1 demo_thread_loop)\<^sup>*\<^sup>* s t \<longrightarrow> lt_owner t = JoinWait"
    by blast
  from early_run_state obtain s1 where s1: "early_run = Inr s1" "lt_pc s1 = BeforeLoop" by blast
  have "Inr s1 = (Inr s :: (nat, unit, nat) loop_thread res)" by (rule trans [OF s1(1) [symmetric] s])
  with s1(2) have "lt_pc s = BeforeLoop" by simp
  then have "thread_move False 1 demo_thread_loop s (threadFunc_enter s)" by (rule t_enter)
  with s stuck show ?thesis by blast
qed

section \<open>The pool of loops\<close>

text \<open>
  A loop is its address. \<open>pl_vThreads\<close> is the number of threads made; \<open>start_loop n\<close> is what the
  \<open>n\<close>-th one's \<open>StartLoop\<close> returns.
\<close>

record loop_pool =
  pl_pBaseLoop :: nat
  pl_bStarted :: bool
  pl_nNumThreads :: int
  pl_nNext :: int
  pl_vThreads :: nat
  pl_vLoops :: "nat list"

definition EventLoopThreadPool_new :: "nat \<Rightarrow> loop_pool" where
  "EventLoopThreadPool_new pBaseLoop =
     \<lparr>pl_pBaseLoop = pBaseLoop, pl_bStarted = False, pl_nNumThreads = 0, pl_nNext = 0,
      pl_vThreads = 0, pl_vLoops = []\<rparr>"

definition EventLoopThreadPool_SetThreadNum :: "int \<Rightarrow> loop_pool \<Rightarrow> loop_pool" where
  "EventLoopThreadPool_SetThreadNum nNumThreads p = p\<lparr>pl_nNumThreads := nNumThreads\<rparr>"

definition add_loop :: "(nat \<Rightarrow> nat) \<Rightarrow> loop_pool \<Rightarrow> loop_pool" where
  "add_loop start_loop p =
     p\<lparr>pl_vThreads := Suc (pl_vThreads p), pl_vLoops := pl_vLoops p @ [start_loop (pl_vThreads p)]\<rparr>"

definition EventLoopThreadPool_Start :: "(nat \<Rightarrow> nat) \<Rightarrow> bool \<Rightarrow> loop_pool \<Rightarrow> loop_pool res" where
  "EventLoopThreadPool_Start start_loop inBaseLoop p =
     check (\<not> pl_bStarted p)
       (assert_in_loop inBaseLoop
         (Inr ((add_loop start_loop ^^ nat (pl_nNumThreads p)) (p\<lparr>pl_bStarted := True\<rparr>))))"

definition EventLoopThreadPool_GetNextLoop :: "bool \<Rightarrow> loop_pool \<Rightarrow> (nat \<times> loop_pool) res" where
  "EventLoopThreadPool_GetNextLoop inBaseLoop p =
     assert_in_loop inBaseLoop
       (if pl_vLoops p \<noteq> []
        then (if nat (pl_nNext p) < length (pl_vLoops p)
              then (let pLoop = pl_vLoops p ! nat (pl_nNext p);
                        nNext = pl_nNext p + 1
                    in Inr (pLoop, p\<lparr>pl_nNext := (if length (pl_vLoops p) \<le> nat nNext then 0 else nNext)\<rparr>))
              else Inl OutOfBounds)
        else Inr (pl_pBaseLoop p, p))"

text \<open>The loops of the next \<open>k\<close> calls.\<close>

fun next_loops :: "nat \<Rightarrow> loop_pool \<Rightarrow> (nat list \<times> loop_pool) res" where
  "next_loops 0 p = Inr ([], p)"
| "next_loops (Suc k) p =
     rbind (EventLoopThreadPool_GetNextLoop True p) (\<lambda>(l, p1).
       rbind (next_loops k p1) (\<lambda>(ls, p2). Inr (l # ls, p2)))"

lemma add_loops:
  "(add_loop f ^^ n) p =
     p\<lparr>pl_vThreads := pl_vThreads p + n, pl_vLoops := pl_vLoops p @ map f [pl_vThreads p..<pl_vThreads p + n]\<rparr>"
  by (induction n) (simp_all add: add_loop_def)

lemma GetNextLoop_next:
  assumes "pl_vLoops p \<noteq> []" and "pl_nNext p = int (j mod length (pl_vLoops p))"
  shows "EventLoopThreadPool_GetNextLoop True p =
    Inr (pl_vLoops p ! (j mod length (pl_vLoops p)),
      p\<lparr>pl_nNext := int (Suc j mod length (pl_vLoops p))\<rparr>)"
proof -
  let ?n = "length (pl_vLoops p)"
  have lt: "j mod ?n < ?n" using assms(1) by simp
  have "int (Suc j mod ?n) = (if ?n \<le> Suc (j mod ?n) then 0 else int (Suc (j mod ?n)))"
    using lt by (simp add: mod_Suc)
  with lt assms show ?thesis
    by (simp add: EventLoopThreadPool_GetNextLoop_def Let_def nat_add_distrib)
qed

lemma next_loops_from:
  assumes "pl_vLoops p \<noteq> []" and "pl_nNext p = int (j mod length (pl_vLoops p))"
  shows "next_loops k p =
    Inr (map (\<lambda>i. pl_vLoops p ! (i mod length (pl_vLoops p))) [j..<j + k],
      p\<lparr>pl_nNext := int ((j + k) mod length (pl_vLoops p))\<rparr>)"
  using assms
proof (induction k arbitrary: j p)
  case (Suc k)
  let ?n = "length (pl_vLoops p)"
  have "next_loops k (p\<lparr>pl_nNext := int (Suc j mod ?n)\<rparr>) =
      Inr (map (\<lambda>i. pl_vLoops p ! (i mod ?n)) [Suc j..<Suc j + k],
        p\<lparr>pl_nNext := int ((Suc j + k) mod ?n)\<rparr>)"
    using Suc.IH [of "p\<lparr>pl_nNext := int (Suc j mod ?n)\<rparr>" "Suc j"] Suc.prems(1) by simp
  moreover have "[j..<j + Suc k] = j # [Suc j..<Suc j + k]" by (simp add: upt_rec)
  ultimately show ?case using GetNextLoop_next [OF Suc.prems] by simp
qed simp

text \<open>
  The pool hands its loops out in turn: after \<open>Start\<close> with \<open>n\<close> threads the \<open>i\<close>-th call of
  \<open>GetNextLoop\<close> returns the loop of thread \<open>i mod n\<close>, with the index always in range; with no
  thread every call returns the base loop.
\<close>

theorem GetNextLoop_round_robin:
  assumes "EventLoopThreadPool_Start start_loop True
    (EventLoopThreadPool_SetThreadNum n (EventLoopThreadPool_new base)) = Inr p"
  shows "\<exists>p1. next_loops k p =
    Inr (map (\<lambda>i. if 0 < n then start_loop (i mod nat n) else base) [0..<k], p1)"
proof -
  have p: "p = \<lparr>pl_pBaseLoop = base, pl_bStarted = True, pl_nNumThreads = n, pl_nNext = 0,
      pl_vThreads = nat n, pl_vLoops = map start_loop [0..<nat n]\<rparr>"
    using assms
    by (simp add: EventLoopThreadPool_Start_def EventLoopThreadPool_SetThreadNum_def
        EventLoopThreadPool_new_def add_loops check_Inr)
  show ?thesis
  proof (cases "0 < n")
    case True
    then show ?thesis using next_loops_from [of p 0 k] by (simp add: p)
  next
    case False
    have "next_loops k p = Inr (map (\<lambda>i. base) [0..<k], p)"
      using False
      by (induction k) (simp_all add: p EventLoopThreadPool_GetNextLoop_def map_replicate_const)
    with False show ?thesis by auto
  qed
qed

theorem GetNextLoop_round_robin_witness:
  "\<exists>p. EventLoopThreadPool_Start (\<lambda>i. 10 + i) True
      (EventLoopThreadPool_SetThreadNum 3 (EventLoopThreadPool_new 5)) = Inr p \<and>
     (\<exists>p1. next_loops 5 p = Inr ([10, 11, 12, 10, 11], p1))"
proof -
  have "\<exists>p. EventLoopThreadPool_Start (\<lambda>i. 10 + i) True
      (EventLoopThreadPool_SetThreadNum 3 (EventLoopThreadPool_new 5)) = Inr p"
    by (simp add: EventLoopThreadPool_Start_def EventLoopThreadPool_SetThreadNum_def
        EventLoopThreadPool_new_def)
  then obtain p where p: "EventLoopThreadPool_Start (\<lambda>i. 10 + i) True
      (EventLoopThreadPool_SetThreadNum 3 (EventLoopThreadPool_new 5)) = Inr p" by blast
  show ?thesis
    using p GetNextLoop_round_robin [OF p, of 5] by (simp add: upt_rec)
qed

end
