(* ===== verification/SocketAddrs.thy ===== *)
theory SocketAddrs
  imports CFormat SockByteOrder
begin

text \<open>
  \<open>reactor/SocketOps.cpp\<close>, \<open>reactor/Socket\<close> and \<open>reactor/InetAddress\<close>: the wrappers of the
  socket calls, and an IPv4 address as text and from a host name. The outcome of a system call
  (the value returned and \<open>errno\<close> after it) is an argument; what a wrapper logs is part of its
  result. \<open>inet_ntop\<close>, \<open>inet_pton\<close> and \<open>snprintf\<close> are the C library's; \<open>gethostbyname_r\<close> is an
  argument.
\<close>

section \<open>System calls\<close>

datatype errno =
    EAGAIN | ECONNABORTED | EINTR | EPROTO | EPERM | EMFILE
  | EBADF | EFAULT | EINVAL | ENFILE | ENOBUFS | ENOMEM | ENOTSOCK | EOPNOTSUPP
  | EINPROGRESS | EISCONN | EADDRINUSE | EADDRNOTAVAIL | ECONNREFUSED | ENETUNREACH
  | EACCES | EAFNOSUPPORT | EALREADY | ERANGE | ENOERROR | EOTHER int

text \<open>What a call returned and the value of \<open>errno\<close> it left.\<close>

type_synonym sys = "int \<times> errno"

text \<open>What \<open>LOG_SYSERR\<close> wrote.\<close>

type_synonym logs = "string list"

text \<open>\<open>LOG_SYSERR << msg\<close> when the call failed.\<close>

definition log_failed :: "int \<Rightarrow> string \<Rightarrow> logs" where
  "log_failed nRet msg = (if nRet < 0 then [msg] else [])"

datatype fcntl_cmd = F_GETFL | F_SETFL "32 word" | F_GETFD | F_SETFD "32 word"

definition O_NONBLOCK :: "32 word" where
  "O_NONBLOCK = 0x800"

definition FD_CLOEXEC :: "32 word" where
  "FD_CLOEXEC = 1"

definition setNonBlockingAndCloseOnExec ::
    "('s \<Rightarrow> int \<Rightarrow> fcntl_cmd \<Rightarrow> 32 word \<times> 's) \<Rightarrow> int \<Rightarrow> 's \<Rightarrow> 's res" where
  "setNonBlockingAndCloseOnExec fcntl nSockFd s =
     (let (nFlags, s) = fcntl s nSockFd F_GETFL;
          nFlags = nFlags OR O_NONBLOCK;
          (nRet, s) = fcntl s nSockFd (F_SETFL nFlags)
      in check (- 1 \<noteq> nRet)
           (let (nFlags, s) = fcntl s nSockFd F_GETFD;
                nFlags = nFlags OR FD_CLOEXEC;
                (nRet, s) = fcntl s nSockFd (F_SETFD nFlags)
            in check (- 1 \<noteq> nRet) (Inr s)))"

definition CreateNonBlockingOrDie :: "sys \<Rightarrow> int \<times> logs" where
  "CreateNonBlockingOrDie socket =
     (let nSockFd = fst socket in (nSockFd, log_failed nSockFd ''Sockets::CreateNonBlockingOrDie''))"

definition BindOrDie :: "sys \<Rightarrow> logs" where
  "BindOrDie bind = log_failed (fst bind) ''Sockets::BindOrDie''"

definition ListenOrDie :: "sys \<Rightarrow> logs" where
  "ListenOrDie listen = log_failed (fst listen) ''Sockets::ListenOrDie''"

definition expected_accept_error :: "errno \<Rightarrow> bool" where
  "expected_accept_error e \<longleftrightarrow>
     e \<in> {EAGAIN, ECONNABORTED, EINTR, EPROTO, EPERM, EMFILE}"

text \<open>Any other error logs at level \<open>FATAL\<close>, which aborts.\<close>

definition Sockets_Accept :: "sys \<Rightarrow> (int \<times> errno \<times> logs) res" where
  "Sockets_Accept accept4 =
     (let (nConnFd, nErrno) = accept4 in
      if nConnFd < 0
      then if expected_accept_error nErrno then Inr (nConnFd, nErrno, [''Socket::accept''])
           else Inl Aborted
      else Inr (nConnFd, nErrno, []))"

definition Sockets_Close :: "sys \<Rightarrow> logs" where
  "Sockets_Close close = log_failed (fst close) ''Sockets::Close''"

text \<open>\<open>nRet\<close> is the comparison's value, zero or one.\<close>

definition Sockets_ShutDownWrite :: "sys \<Rightarrow> logs" where
  "Sockets_ShutDownWrite shutdown =
     (let nRet = (if fst shutdown < 0 then 1 else 0) in log_failed nRet ''Sockets::ShutDownWrite'')"

definition GetSocketError :: "sys \<Rightarrow> errno \<Rightarrow> errno" where
  "GetSocketError getsockopt nOptVal = (if fst getsockopt < 0 then snd getsockopt else nOptVal)"

section \<open>Socket addresses\<close>

record sockaddr_in =
  sin_family :: "16 word"
  sin_port :: "16 word"
  sin_addr :: "32 word"

definition AF_INET :: "16 word" where
  "AF_INET = 2"

definition INADDR_ANY :: "32 word" where
  "INADDR_ANY = 0"

definition INADDR_LOOPBACK :: "32 word" where
  "INADDR_LOOPBACK = 0x7F000001"

definition INET_ADDRSTRLEN :: nat where
  "INET_ADDRSTRLEN = 16"

definition zero_addr :: sockaddr_in where
  "zero_addr = \<lparr>sin_family = 0, sin_port = 0, sin_addr = 0\<rparr>"

text \<open>
  \<open>inet_ntop\<close> writes the four bytes of the address, in their order in memory, in decimal; it
  fails when the text and its terminator do not fit. \<open>inet_pton\<close> reads four decimal numbers up to
  255, without leading zeros.
\<close>

definition dotted :: "byte list \<Rightarrow> string" where
  "dotted bs = concat (map (\<lambda>b. dec_nat (unat b) @ ''.'') (butlast bs)) @ dec_nat (unat (last bs))"

definition inet_ntop :: "endian \<Rightarrow> 32 word \<Rightarrow> nat \<Rightarrow> string option" where
  "inet_ntop e a cap =
     (let s = dotted (host_bytes32 e a) in if length s < cap then Some s else None)"

definition is_digit :: "char \<Rightarrow> bool" where
  "is_digit c \<longleftrightarrow> 48 \<le> (of_char c :: nat) \<and> (of_char c :: nat) \<le> 57"

fun split_dots :: "string \<Rightarrow> string list" where
  "split_dots [] = [[]]"
| "split_dots (c # s) =
     (if c = CHR ''.'' then [] # split_dots s
      else case split_dots s of [] \<Rightarrow> [[c]] | p # ps \<Rightarrow> (c # p) # ps)"

definition octet_ok :: "string \<Rightarrow> bool" where
  "octet_ok p \<longleftrightarrow>
     p \<noteq> [] \<and> length p \<le> 3 \<and> list_all is_digit p \<and> (hd p = CHR ''0'' \<longrightarrow> length p = 1) \<and>
     undec_nat p \<le> 255"

definition inet_pton :: "endian \<Rightarrow> string \<Rightarrow> 32 word option" where
  "inet_pton e s =
     (let ps = split_dots s in
      if length ps = 4 \<and> list_all octet_ok ps
      then Some (host_word32 e (map (\<lambda>p. word_of_nat (undec_nat p)) ps)) else None)"

text \<open>\<open>host\<close> keeps its first text when \<open>inet_ntop\<close> fails.\<close>

definition Sockets_ToHostPort :: "endian \<Rightarrow> nat \<Rightarrow> sockaddr_in \<Rightarrow> string" where
  "Sockets_ToHostPort e unSize rAddr =
     (let host = (case inet_ntop e (sin_addr rAddr) INET_ADDRSTRLEN of None \<Rightarrow> ''INVALID'' | Some h \<Rightarrow> h);
          usPort = NetworkToHost16 e (sin_port rAddr)
      in fst (snprintf unSize (host @ '':'' @ dec_nat (unat usPort))))"

definition Sockets_FromHostPort :: "endian \<Rightarrow> string \<Rightarrow> 16 word \<Rightarrow> sockaddr_in \<Rightarrow> sockaddr_in \<times> logs" where
  "Sockets_FromHostPort e pStrIp usPort rAddr =
     (let a = rAddr\<lparr>sin_family := AF_INET, sin_port := HostToNetwork16 e usPort\<rparr> in
      case inet_pton e pStrIp of
        Some ip \<Rightarrow> (a\<lparr>sin_addr := ip\<rparr>, [])
      | None \<Rightarrow> (a, [''Sockets::FromHostPort'']))"

text \<open>
  \<open>getsockname\<close> and \<open>getpeername\<close> fill the cleared address when they succeed.
\<close>

definition GetLocalAddr :: "sockaddr_in option \<Rightarrow> sockaddr_in \<times> logs" where
  "GetLocalAddr getsockname =
     (case getsockname of Some a \<Rightarrow> (a, []) | None \<Rightarrow> (zero_addr, [''Sockets::GetLocalAddr'']))"

definition GetPeerAddr :: "sockaddr_in option \<Rightarrow> sockaddr_in \<times> logs" where
  "GetPeerAddr getpeername =
     (case getpeername of Some a \<Rightarrow> (a, []) | None \<Rightarrow> (zero_addr, [''Sockets::GetPeerAddr'']))"

definition IsSelfConnect :: "sockaddr_in option \<Rightarrow> sockaddr_in option \<Rightarrow> bool" where
  "IsSelfConnect getsockname getpeername =
     (let localAddr = fst (GetLocalAddr getsockname); peerAddr = fst (GetPeerAddr getpeername)
      in sin_port localAddr = sin_port peerAddr \<and> sin_addr localAddr = sin_addr peerAddr)"

section \<open>InetAddress\<close>

type_synonym InetAddress = sockaddr_in

definition InetAddress_of_port :: "endian \<Rightarrow> 16 word \<Rightarrow> bool \<Rightarrow> InetAddress" where
  "InetAddress_of_port e usPort bLoopBackOnly =
     zero_addr\<lparr>sin_family := AF_INET,
       sin_port := HostToNetwork16 e usPort,
       sin_addr := HostToNetwork32 e (if bLoopBackOnly then INADDR_LOOPBACK else INADDR_ANY)\<rparr>"

definition InetAddress_of_ip :: "endian \<Rightarrow> string \<Rightarrow> 16 word \<Rightarrow> InetAddress \<times> logs" where
  "InetAddress_of_ip e rStrIp usPort = Sockets_FromHostPort e rStrIp usPort zero_addr"

definition InetAddress_ToHostPort :: "endian \<Rightarrow> InetAddress \<Rightarrow> string" where
  "InetAddress_ToHostPort e a = Sockets_ToHostPort e INET_ADDRSTRLEN a"

definition InetAddress_ToIp :: "endian \<Rightarrow> InetAddress \<Rightarrow> string" where
  "InetAddress_ToIp e a = (case inet_ntop e (sin_addr a) 32 of None \<Rightarrow> [] | Some s \<Rightarrow> s)"

definition InetAddress_GetPortHostEndian :: "endian \<Rightarrow> InetAddress \<Rightarrow> 16 word" where
  "InetAddress_GetPortHostEndian e a = NetworkToHost16 e (sin_port a)"

definition InetAddress_GetIpHostEndian :: "endian \<Rightarrow> InetAddress \<Rightarrow> 32 word" where
  "InetAddress_GetIpHostEndian e a = NetworkToHost32 e (sin_addr a)"

definition InetAddress_GetIpNetEndian :: "InetAddress \<Rightarrow> 32 word" where
  "InetAddress_GetIpNetEndian a = sin_addr a"

definition InetAddress_GetPortNetEndian :: "InetAddress \<Rightarrow> 16 word" where
  "InetAddress_GetPortNetEndian a = sin_port a"

definition InetAddress_SetPort :: "endian \<Rightarrow> 16 word \<Rightarrow> InetAddress \<Rightarrow> InetAddress" where
  "InetAddress_SetPort e usPort a = a\<lparr>sin_port := HostToNetwork16 e usPort\<rparr>"

definition InetAddress_SetSockAddrInet :: "sockaddr_in \<Rightarrow> InetAddress \<Rightarrow> InetAddress" where
  "InetAddress_SetSockAddrInet rSockAddr a = rSockAddr"

definition InetAddress_ToIpPort :: "endian \<Rightarrow> InetAddress \<Rightarrow> string" where
  "InetAddress_ToIpPort e a =
     (let buf = (case inet_ntop e (sin_addr a) 32 of None \<Rightarrow> [] | Some s \<Rightarrow> s);
          nEnd = length buf;
          usPort = InetAddress_GetPortHostEndian e a
      in buf @ fst (snprintf (32 - nEnd) ('':'' @ dec_nat (unat usPort))))"

subsection \<open>Host names\<close>

text \<open>
  \<open>gethostbyname_r\<close> maps a name and the size of the work buffer to the error it returns (zero
  is none) and the entry it found.
\<close>

record hostent =
  h_addrtype :: nat
  h_length :: nat
  h_addr :: "32 word"

type_synonym lookup = "string \<Rightarrow> nat \<Rightarrow> errno option \<times> hostent option"

definition RESOLVE_BUF_SIZE :: nat where
  "RESOLVE_BUF_SIZE = 4096"

definition host_entry :: "hostent \<Rightarrow> InetAddress \<Rightarrow> (bool \<times> InetAddress) res" where
  "host_entry ent a =
     check (h_addrtype ent = unat AF_INET \<and> h_length ent = 4) (Inr (True, a\<lparr>sin_addr := h_addr ent\<rparr>))"

text \<open>
  The loop of \<open>ResolveSlow\<close>, which also gives the buffer sizes it tried. Nothing but the growing
  size ends it, so it is a partial function here and its termination a theorem.
\<close>

partial_function (option) ResolveSlow_loop ::
    "lookup \<Rightarrow> string \<Rightarrow> nat \<Rightarrow> nat list \<Rightarrow> InetAddress \<Rightarrow> ((bool \<times> InetAddress) res \<times> nat list) option" where
  "ResolveSlow_loop gethostbyname_r name unSize tried a =
     (if unSize \<le> 16 * RESOLVE_BUF_SIZE
      then (case gethostbyname_r name unSize of
              (None, Some ent) \<Rightarrow> Some (host_entry ent a, tried @ [unSize])
            | (Some ERANGE, _) \<Rightarrow>
                ResolveSlow_loop gethostbyname_r name (2 * unSize) (tried @ [unSize]) a
            | _ \<Rightarrow> Some (Inr (False, a), tried @ [unSize]))
      else Some (Inr (True, a), tried))"

definition InetAddress_ResolveSlow ::
    "lookup \<Rightarrow> string option \<Rightarrow> nat list \<Rightarrow> InetAddress option \<Rightarrow>
      ((bool \<times> InetAddress) res \<times> nat list) option" where
  "InetAddress_ResolveSlow gethostbyname_r pStrHostName tried pOutAddr =
     (case (pStrHostName, pOutAddr) of
        (Some name, Some a) \<Rightarrow>
          ResolveSlow_loop gethostbyname_r name (2 * RESOLVE_BUF_SIZE) tried a
      | _ \<Rightarrow> Some (Inl AssertFailed, tried))"

definition InetAddress_Resolve ::
    "lookup \<Rightarrow> string option \<Rightarrow> InetAddress option \<Rightarrow>
      ((bool \<times> InetAddress) res \<times> nat list) option" where
  "InetAddress_Resolve gethostbyname_r pStrHostName pOutAddr =
     (case (pStrHostName, pOutAddr) of
        (Some name, Some a) \<Rightarrow>
          (case gethostbyname_r name RESOLVE_BUF_SIZE of
             (None, Some ent) \<Rightarrow> Some (host_entry ent a, [RESOLVE_BUF_SIZE])
           | (Some ERANGE, _) \<Rightarrow>
               InetAddress_ResolveSlow gethostbyname_r pStrHostName [RESOLVE_BUF_SIZE] pOutAddr
           | _ \<Rightarrow> Some (Inr (False, a), [RESOLVE_BUF_SIZE]))
      | _ \<Rightarrow> Some (Inl AssertFailed, []))"

section \<open>Socket\<close>

record Socket =
  sk_nSockFd :: int

definition Socket_new :: "int \<Rightarrow> Socket res" where
  "Socket_new nSockFd = check (0 \<le> nSockFd) (Inr \<lparr>sk_nSockFd = nSockFd\<rparr>)"

definition Socket_delete :: "sys \<Rightarrow> Socket \<Rightarrow> logs" where
  "Socket_delete close sk = Sockets_Close close"

definition Socket_GetFd :: "Socket \<Rightarrow> int" where
  "Socket_GetFd sk = sk_nSockFd sk"

definition Socket_Bind :: "(int \<Rightarrow> sockaddr_in \<Rightarrow> sys) \<Rightarrow> InetAddress \<Rightarrow> Socket \<Rightarrow> logs" where
  "Socket_Bind bind rAddr sk = BindOrDie (bind (sk_nSockFd sk) rAddr)"

definition Socket_Listen :: "(int \<Rightarrow> sys) \<Rightarrow> Socket \<Rightarrow> logs" where
  "Socket_Listen listen sk = ListenOrDie (listen (sk_nSockFd sk))"

text \<open>The peer's address is stored only for a connection that was accepted.\<close>

definition Socket_Accpet ::
    "(int \<Rightarrow> sys \<times> sockaddr_in) \<Rightarrow> InetAddress \<Rightarrow> Socket \<Rightarrow> (int \<times> InetAddress \<times> logs) res" where
  "Socket_Accpet accept4 peerAddr sk =
     (let (r, addr) = accept4 (sk_nSockFd sk) in
      rbind (Sockets_Accept r) (\<lambda>(nConnFd, _, log).
        Inr (nConnFd, if 0 \<le> nConnFd then addr else peerAddr, log)))"

datatype sock_option = SO_REUSEADDR | TCP_NODELAY

definition Socket_SetReuseAddr :: "(int \<Rightarrow> sock_option \<Rightarrow> int \<Rightarrow> sys) \<Rightarrow> bool \<Rightarrow> Socket \<Rightarrow> logs" where
  "Socket_SetReuseAddr setsockopt bOn sk =
     (let nOptVal = (if bOn then 1 else 0)
      in log_failed (fst (setsockopt (sk_nSockFd sk) SO_REUSEADDR nOptVal)) ''Socket::SetReuseAddr()'')"

definition Socket_SetTcpNoDelay :: "(int \<Rightarrow> sock_option \<Rightarrow> int \<Rightarrow> sys) \<Rightarrow> bool \<Rightarrow> Socket \<Rightarrow> logs" where
  "Socket_SetTcpNoDelay setsockopt bOn sk =
     (let nOptVal = (if bOn then 1 else 0)
      in log_failed (fst (setsockopt (sk_nSockFd sk) TCP_NODELAY nOptVal)) ''Socket::SetTcpNoDelay()'')"

section \<open>Text of an address\<close>

lemma is_digit_digit [simp]: "k < 10 \<Longrightarrow> is_digit (digit k)"
  by (simp add: is_digit_def digit_def)

lemma digit_not_dot: "k < 10 \<Longrightarrow> digit k \<noteq> CHR ''.''"
proof
  assume "k < 10" and "digit k = CHR ''.''"
  then have "of_char (digit k) = (of_char CHR ''.'' :: nat)" by simp
  with \<open>k < 10\<close> show False by (simp add: digit_def)
qed

lemma digit_inject_zero: "0 < k \<Longrightarrow> k < 10 \<Longrightarrow> digit k \<noteq> CHR ''0''"
proof
  assume "0 < k" "k < 10" and "digit k = CHR ''0''"
  then have "of_char (digit k) = (of_char CHR ''0'' :: nat)" by simp
  with \<open>0 < k\<close> \<open>k < 10\<close> show False by (simp add: digit_def)
qed

lemma dec_nat_digits: "list_all is_digit (dec_nat n)"
  using digits_dec_nat [of n] by (force simp: list_all_iff)

lemma dec_nat_no_dot: "CHR ''.'' \<notin> set (dec_nat n)"
  using digits_dec_nat [of n] digit_not_dot by fastforce

lemma hd_dec_nat_zero: "hd (dec_nat n) = CHR ''0'' \<Longrightarrow> length (dec_nat n) = 1"
proof (induction n rule: dec_nat.induct)
  case (1 n)
  show ?case
  proof (cases "n < 10")
    case False
    with 1 have "length (dec_nat (n div 10)) = 1" "hd (dec_nat (n div 10)) = CHR ''0''"
      by (auto simp: dec_nat_step)
    then obtain c where c: "dec_nat (n div 10) = [CHR ''0'']"
      by (cases "dec_nat (n div 10)") auto
    moreover have "n div 10 < 10"
    proof (rule ccontr)
      assume "\<not> n div 10 < 10"
      then show False using c dec_nat_step [of "n div 10"] by (auto simp: append_eq_Cons_conv)
    qed
    ultimately have "digit (n div 10) = CHR ''0''" by (simp add: dec_nat_single)
    then have "\<not> 0 < n div 10" using digit_inject_zero [of "n div 10"] \<open>n div 10 < 10\<close> by blast
    with False show ?thesis by simp
  qed (simp add: dec_nat_single)
qed

lemma octet_ok_dec: "n \<le> 255 \<Longrightarrow> octet_ok (dec_nat n)"
  using length_dec_nat [of 3 n] hd_dec_nat_zero [of n]
  by (auto simp: octet_ok_def dec_nat_digits)

lemma split_dots_no_dot: "CHR ''.'' \<notin> set p \<Longrightarrow> split_dots p = [p]"
  by (induction p) auto

lemma split_dots_append:
  "CHR ''.'' \<notin> set p \<Longrightarrow> split_dots (p @ CHR ''.'' # s) = p # split_dots s"
  by (induction p) auto

lemma dotted_four:
  "dotted [a, b, c, d] =
     dec_nat (unat a) @ CHR ''.'' # dec_nat (unat b) @ CHR ''.'' # dec_nat (unat c) @ CHR ''.'' # dec_nat (unat d)"
  by (simp add: dotted_def)

lemma split_dots_dotted:
  "split_dots (dotted [a, b, c, d]) = map (\<lambda>x. dec_nat (unat x)) [a, b, c, d]"
  by (simp add: dotted_four split_dots_append split_dots_no_dot dec_nat_no_dot)

lemma byte_le_255: "unat (b :: byte) \<le> 255"
  using unsigned_less [of b, where ?'a = nat] by simp

lemma length_dec_byte: "length (dec_nat (unat (b :: byte))) \<le> 3"
  using byte_le_255 [of b] by (intro length_dec_nat) simp_all

lemma length_dotted: "length (dotted [a, b, c, d]) \<le> 15"
  using length_dec_byte [of a] length_dec_byte [of b] length_dec_byte [of c] length_dec_byte [of d]
  by (simp add: dotted_four)

lemma four_bytes: obtains a b c d where "host_bytes32 e w = [a, b, c, d]"
proof -
  have "length (host_bytes32 e w) = 4" by simp
  then obtain a b c d where "host_bytes32 e w = [a, b, c, d]"
    by (auto simp: numeral_eq_Suc length_Suc_conv simp del: length_host_bytes)
  with that show ?thesis .
qed

lemma inet_ntop_some:
  assumes "16 \<le> cap"
  shows "inet_ntop e w cap = Some (dotted (host_bytes32 e w))"
proof (rule four_bytes [of e w])
  fix a b c d
  assume "host_bytes32 e w = [a, b, c, d]"
  with length_dotted [of a b c d] assms show ?thesis by (simp add: inet_ntop_def)
qed

lemma inet_pton_dotted: "inet_pton e (dotted (host_bytes32 e w)) = Some w"
proof (rule four_bytes [of e w])
  fix a b c d
  assume b: "host_bytes32 e w = [a, b, c, d]"
  have "octet_ok (dec_nat (unat x))" for x :: byte by (rule octet_ok_dec [OF byte_le_255])
  then show ?thesis
    using host_word_host_bytes(2) [of e w] by (simp add: inet_pton_def b split_dots_dotted Let_def)
qed

lemma ToIp_dotted: "InetAddress_ToIp e a = dotted (host_bytes32 e (sin_addr a))"
  by (simp add: InetAddress_ToIp_def inet_ntop_some)

lemma length_ToIp: "length (InetAddress_ToIp e a) \<le> 15"
  by (rule four_bytes [of e "sin_addr a"]) (simp add: ToIp_dotted length_dotted)

lemma length_dec_port: "length (dec_nat (unat (p :: 16 word))) \<le> 5"
  using unsigned_less [of p, where ?'a = nat] by (intro length_dec_nat) simp_all

lemma ToIpPort_text:
  "InetAddress_ToIpPort e a =
     InetAddress_ToIp e a @ '':'' @ dec_nat (unat (InetAddress_GetPortHostEndian e a))"
proof -
  have ip: "inet_ntop e (sin_addr a) 32 = Some (InetAddress_ToIp e a)"
    by (simp add: inet_ntop_some ToIp_dotted)
  have "length ('':'' @ dec_nat (unat (InetAddress_GetPortHostEndian e a))) < 32 - length (InetAddress_ToIp e a)"
    using length_ToIp [of e a] length_dec_port [of "InetAddress_GetPortHostEndian e a"] by simp
  from snprintf_fits [OF this] show ?thesis
    by (simp add: InetAddress_ToIpPort_def ip Let_def)
qed

text \<open>
  C39: An IPv4 address survives its text. \<open>ToIp\<close> never fails or cuts the dotted quad, and
  constructing an \<open>InetAddress\<close> from that text and the port in host order gives the address back
  without an error, on either byte order; \<open>ToIpPort\<close> is the whole text \<open>ip:port\<close>, so its 32-byte
  buffer is large enough.
\<close>

theorem address_roundtrip:
  assumes "sin_family a = AF_INET"
  shows "InetAddress_of_ip e (InetAddress_ToIp e a) (InetAddress_GetPortHostEndian e a) = (a, []) \<and>
    InetAddress_ToIpPort e a =
      InetAddress_ToIp e a @ '':'' @ dec_nat (unat (InetAddress_GetPortHostEndian e a))"
proof -
  have "HostToNetwork16 e (NetworkToHost16 e w) = w" for w
    by (simp add: HostToNetwork16_def NetworkToHost16_def split: endian.splits)
  with assms show ?thesis
    by (simp add: ToIpPort_text InetAddress_of_ip_def Sockets_FromHostPort_def ToIp_dotted
        inet_pton_dotted InetAddress_GetPortHostEndian_def zero_addr_def Let_def)
qed

theorem address_roundtrip_witness:
  "InetAddress_of_ip LittleEndian (InetAddress_ToIp LittleEndian (InetAddress_of_port LittleEndian 8080 True))
     (InetAddress_GetPortHostEndian LittleEndian (InetAddress_of_port LittleEndian 8080 True)) =
   (InetAddress_of_port LittleEndian 8080 True, [])"
  using address_roundtrip [of "InetAddress_of_port LittleEndian 8080 True" LittleEndian]
  by (simp add: InetAddress_of_port_def)

text \<open>
  \<open>ToHostPort\<close> prints the same text into a buffer of \<open>INET_ADDRSTRLEN\<close> bytes, which has room for
  the address alone: the text is cut to fifteen characters.
\<close>

theorem ToHostPort_truncated:
  "InetAddress_ToHostPort e a = take 15 (InetAddress_ToIpPort e a)"
  by (simp add: InetAddress_ToHostPort_def Sockets_ToHostPort_def ToIpPort_text INET_ADDRSTRLEN_def
      inet_ntop_some ToIp_dotted snprintf_def InetAddress_GetPortHostEndian_def Let_def)

text \<open>Two listening addresses that differ only in their ports can have one name.\<close>

lemma ToHostPort_ambiguous:
  assumes "length (InetAddress_ToIp e a) = 15" and "sin_addr a = sin_addr b"
  shows "InetAddress_ToHostPort e a = InetAddress_ToHostPort e b"
proof -
  have "InetAddress_ToIp e b = InetAddress_ToIp e a" using assms by (simp add: ToIp_dotted)
  with assms(1) show ?thesis by (simp add: ToHostPort_truncated ToIpPort_text)
qed

section \<open>Resolving a name\<close>

definition too_small :: "errno option \<times> hostent option \<Rightarrow> bool" where
  "too_small r \<longleftrightarrow> fst r = Some ERANGE"

definition resolve_reply :: "errno option \<times> hostent option \<Rightarrow> InetAddress \<Rightarrow> (bool \<times> InetAddress) res" where
  "resolve_reply r a =
     (case r of (None, Some ent) \<Rightarrow> host_entry ent a | _ \<Rightarrow> Inr (False, a))"

definition resolve_sizes :: "nat list" where
  "resolve_sizes = [4096, 8192, 16384, 32768, 65536]"

lemma ResolveSlow_loop_step:
  assumes "n \<le> 65536"
  shows "ResolveSlow_loop gh name n tried a =
    (if too_small (gh name n) then ResolveSlow_loop gh name (2 * n) (tried @ [n]) a
     else Some (resolve_reply (gh name n) a, tried @ [n]))"
  using assms
  by (subst ResolveSlow_loop.simps, cases "gh name n")
     (auto simp: RESOLVE_BUF_SIZE_def too_small_def resolve_reply_def split: option.splits errno.splits)

lemma ResolveSlow_loop_stop:
  "65536 < n \<Longrightarrow> ResolveSlow_loop gh name n tried a = Some (Inr (True, a), tried)"
  by (subst ResolveSlow_loop.simps) (simp add: RESOLVE_BUF_SIZE_def)

lemma Resolve_first:
  "InetAddress_Resolve gh (Some name) (Some a) =
    (if too_small (gh name 4096) then ResolveSlow_loop gh name 8192 [4096] a
     else Some (resolve_reply (gh name 4096) a, [4096]))"
  by (cases "gh name 4096")
     (auto simp: InetAddress_Resolve_def InetAddress_ResolveSlow_def RESOLVE_BUF_SIZE_def
        too_small_def resolve_reply_def split: option.splits errno.splits)

text \<open>
  \<open>InetAddress::Resolve\<close> terminates for every resolver: it asks with the buffer sizes 4096,
  8192, ..., 65536 in turn, at most five times, stops at the first answer that is not
  \<open>ERANGE\<close> and returns what this answer says. When every size was too small it returns true
  although no address was stored.
\<close>

theorem Resolve_terminates:
  "InetAddress_Resolve gethostbyname_r (Some name) (Some a) =
     Some (case dropWhile (\<lambda>n. too_small (gethostbyname_r name n)) resolve_sizes of
             [] \<Rightarrow> (Inr (True, a), resolve_sizes)
           | n # _ \<Rightarrow> (resolve_reply (gethostbyname_r name n) a,
                takeWhile (\<lambda>n. too_small (gethostbyname_r name n)) resolve_sizes @ [n]))"
  by (simp add: Resolve_first resolve_sizes_def ResolveSlow_loop_step ResolveSlow_loop_stop)

text \<open>\<open>Accept\<close> returns exactly for a descriptor or an expected error.\<close>

lemma Accept_returns:
  "returns (Sockets_Accept (nConnFd, e)) \<longleftrightarrow> 0 \<le> nConnFd \<or> expected_accept_error e"
  by (simp add: Sockets_Accept_def)

text \<open>The failure of \<open>shutdown\<close> is never logged.\<close>

lemma ShutDownWrite_never_logs: "Sockets_ShutDownWrite shutdown = []"
  by (simp add: Sockets_ShutDownWrite_def log_failed_def)

end
