(* ===== verification/TcpServers.thy ===== *)
theory TcpServers
  imports TcpConnections EventLoopThreads SocketAddrs "HOL-Library.Multiset"
begin

text \<open>
  \<open>reactor/Acceptor\<close> and \<open>reactor/TcpServer\<close>: a listening socket on the base loop, and the server
  that makes a connection for every descriptor it accepts, gives it to one of the loops of its
  pool and forgets it when it closes. A loop is its address, which also names its thread; the
  functors queued in it wait in \<open>sv_Queue\<close> and are run in order, which \<open>EventLoops\<close> proves of the
  loop itself. Of a connection the server's model keeps its loop, its state and whether its
  channel waits for data; \<open>server_conn_guards\<close> ties these to \<open>TcpConnections\<close>, and
  \<open>ServerConnections\<close> proves them a view of the connection that every operation respects.
\<close>

section \<open>Acceptor\<close>

record acceptor =
  ac_pEventLoop :: nat
  ac_AccpetSocket :: Socket
  ac_bReading :: bool
  ac_NewConCallBack :: bool
  ac_bListenning :: bool

text \<open>The constructor leaves \<open>m_bListenning\<close> as it finds it: \<open>memory\<close> is what was there.\<close>

definition Acceptor_new ::
    "bool \<Rightarrow> sys \<Rightarrow> (int \<Rightarrow> sock_option \<Rightarrow> int \<Rightarrow> sys) \<Rightarrow> (int \<Rightarrow> sockaddr_in \<Rightarrow> sys) \<Rightarrow> nat \<Rightarrow> InetAddress \<Rightarrow>
     (acceptor \<times> logs) res" where
  "Acceptor_new memory socket setsockopt bind pEventLoop rListenAddr =
     (let (nSockFd, log1) = CreateNonBlockingOrDie socket in
      rbind (Socket_new nSockFd) (\<lambda>sk.
        Inr (\<lparr>ac_pEventLoop = pEventLoop, ac_AccpetSocket = sk, ac_bReading = False,
              ac_NewConCallBack = False, ac_bListenning = memory\<rparr>,
             log1 @ Socket_SetReuseAddr setsockopt True sk @ Socket_Bind bind rListenAddr sk)))"

definition Acceptor_SetNewConnectionCallback :: "acceptor \<Rightarrow> acceptor" where
  "Acceptor_SetNewConnectionCallback a = a\<lparr>ac_NewConCallBack := True\<rparr>"

definition Acceptor_IsListenning :: "acceptor \<Rightarrow> bool" where
  "Acceptor_IsListenning a \<longleftrightarrow> ac_bListenning a"

text \<open>\<open>Listen\<close> makes the socket listen and enables the channel.\<close>

definition Acceptor_Listen :: "nat \<Rightarrow> acceptor \<Rightarrow> acceptor res" where
  "Acceptor_Listen tid a =
     assert_in_loop (tid = ac_pEventLoop a) (Inr (a\<lparr>ac_bListenning := True, ac_bReading := True\<rparr>))"

definition Acceptor_handleRead ::
    "endian \<Rightarrow> nat \<Rightarrow> (int \<Rightarrow> sys \<times> sockaddr_in) \<Rightarrow> (int \<Rightarrow> InetAddress \<Rightarrow> 's \<Rightarrow> 's res) \<Rightarrow> acceptor \<Rightarrow> 's \<Rightarrow> 's res" where
  "Acceptor_handleRead e tid accept4 newConCallBack a s =
     assert_in_loop (tid = ac_pEventLoop a)
       (rbind (Socket_Accpet accept4 (InetAddress_of_port e 0 False) (ac_AccpetSocket a))
         (\<lambda>(nConnFd, peerAddr, _).
           if 0 \<le> nConnFd \<and> ac_NewConCallBack a then newConCallBack nConnFd peerAddr s else Inr s))"

section \<open>The server's connections\<close>

record server_conn =
  sc_pEventLoop :: nat
  sc_strName :: string
  sc_eConnectState :: conn_state
  sc_nSockFd :: int
  sc_LocalAddr :: InetAddress
  sc_PeerAddr :: InetAddress
  sc_bEnabled :: bool

definition server_conn_new :: "nat \<Rightarrow> string \<Rightarrow> int \<Rightarrow> InetAddress \<Rightarrow> InetAddress \<Rightarrow> server_conn res" where
  "server_conn_new pEventLoop strName nSockFd localAddr peerAddr =
     rbind (Socket_new nSockFd) (\<lambda>sk.
       Inr \<lparr>sc_pEventLoop = pEventLoop, sc_strName = strName, sc_eConnectState = eTCS_Connecting,
            sc_nSockFd = Socket_GetFd sk, sc_LocalAddr = localAddr, sc_PeerAddr = peerAddr,
            sc_bEnabled = False\<rparr>)"

definition server_conn_established :: "nat \<Rightarrow> server_conn \<Rightarrow> server_conn res" where
  "server_conn_established tid c =
     assert_in_loop (tid = sc_pEventLoop c)
       (check (sc_eConnectState c = eTCS_Connecting)
         (Inr (c\<lparr>sc_eConnectState := eTCS_Connected, sc_bEnabled := True\<rparr>)))"

definition server_conn_destroyed :: "nat \<Rightarrow> server_conn \<Rightarrow> server_conn res" where
  "server_conn_destroyed tid c =
     assert_in_loop (tid = sc_pEventLoop c)
       (check (sc_eConnectState c = eTCS_Connected \<or> sc_eConnectState c = eTCS_Disconnecting)
         (Inr (c\<lparr>sc_eConnectState := eTCS_Disconnected, sc_bEnabled := False\<rparr>)))"

definition server_conn_close :: "nat \<Rightarrow> server_conn \<Rightarrow> server_conn res" where
  "server_conn_close tid c =
     assert_in_loop (tid = sc_pEventLoop c)
       (check (sc_eConnectState c = eTCS_Connected \<or> sc_eConnectState c = eTCS_Disconnecting)
         (Inr (c\<lparr>sc_bEnabled := False\<rparr>)))"

definition server_conn_shutdown :: "server_conn \<Rightarrow> server_conn" where
  "server_conn_shutdown c =
     (if sc_eConnectState c = eTCS_Connected then c\<lparr>sc_eConnectState := eTCS_Disconnecting\<rparr> else c)"

text \<open>These operations fail exactly where the connection's own do.\<close>

lemma server_conn_guards:
  assumes "sc_pEventLoop r = s_ThreadId s" and "sc_eConnectState r = c_eConnectState s"
  shows "server_conn_established tid r = Inl f \<Longrightarrow> Connection_ConnectedEstablished ctl user tid s = Inl f"
    and "server_conn_destroyed tid r = Inl f \<Longrightarrow> Connection_ConnectedDestroyed ctl tid s = Inl f"
    and "server_conn_close tid r = Inl f \<Longrightarrow> Connection_handleClose ctl user tid s = Inl f"
  using assms
  by (auto simp: server_conn_established_def Connection_ConnectedEstablished_def
      server_conn_destroyed_def Connection_ConnectedDestroyed_def server_conn_close_def
      Connection_handleClose_def EventLoop_AssertInLoopThread_def EventLoop_IsInLoopThread_def
      assert_in_loop_def check_def split: if_splits)

section \<open>Server\<close>

datatype server_functor =
  ListenFn | EstablishedFn nat | RemoveFn nat | DestroyedFn nat

text \<open>A connection object is its index in \<open>sv_Conns\<close>.\<close>

record server =
  sv_pEventLoop :: nat
  sv_strName :: string
  sv_pAcceptor :: acceptor
  sv_pThreadPool :: loop_pool
  sv_ConnCallBack :: bool
  sv_MsgCallBack :: bool
  sv_WriteCompleteCallBack :: bool
  sv_bStared :: bool
  sv_nNextConnId :: int
  sv_mpConnection :: "string \<rightharpoonup> nat"
  sv_Conns :: "server_conn list"
  sv_Queue :: "nat \<Rightarrow> server_functor list"

definition TcpServer_new :: "endian \<Rightarrow> acceptor \<Rightarrow> nat \<Rightarrow> InetAddress \<Rightarrow> server" where
  "TcpServer_new e a pEventLoop rListenAddr =
     \<lparr>sv_pEventLoop = pEventLoop, sv_strName = InetAddress_ToHostPort e rListenAddr,
      sv_pAcceptor = Acceptor_SetNewConnectionCallback a,
      sv_pThreadPool = EventLoopThreadPool_new pEventLoop,
      sv_ConnCallBack = True, sv_MsgCallBack = True, sv_WriteCompleteCallBack = False,
      sv_bStared = False, sv_nNextConnId = 1, sv_mpConnection = Map.empty, sv_Conns = [],
      sv_Queue = (\<lambda>_. [])\<rparr>"

definition TcpServer_SetThreadNum :: "int \<Rightarrow> server \<Rightarrow> server res" where
  "TcpServer_SetThreadNum nNumThread s =
     check (0 \<le> nNumThread)
       (Inr (s\<lparr>sv_pThreadPool := EventLoopThreadPool_SetThreadNum nNumThread (sv_pThreadPool s)\<rparr>))"

definition TcpServer_SetConnectionCallBack :: "bool \<Rightarrow> server \<Rightarrow> server" where
  "TcpServer_SetConnectionCallBack cb s = s\<lparr>sv_ConnCallBack := cb\<rparr>"

definition TcpServer_SetMessageCallBack :: "bool \<Rightarrow> server \<Rightarrow> server" where
  "TcpServer_SetMessageCallBack cb s = s\<lparr>sv_MsgCallBack := cb\<rparr>"

definition TcpServer_SetWriteCompleteCallBack :: "bool \<Rightarrow> server \<Rightarrow> server" where
  "TcpServer_SetWriteCompleteCallBack cb s = s\<lparr>sv_WriteCompleteCallBack := cb\<rparr>"

definition queue_functor :: "nat \<Rightarrow> server_functor \<Rightarrow> server \<Rightarrow> server" where
  "queue_functor l f s = s\<lparr>sv_Queue := (sv_Queue s)(l := sv_Queue s l @ [f])\<rparr>"

text \<open>\<open>removeConnectionInLoop\<close>: one entry of the map must go, and the connection's end is queued.\<close>

definition TcpServer_removeConnectionInLoop :: "nat \<Rightarrow> nat \<Rightarrow> server \<Rightarrow> server res" where
  "TcpServer_removeConnectionInLoop tid c s =
     assert_in_loop (tid = sv_pEventLoop s)
       (let name = sc_strName (sv_Conns s ! c);
            n = (if sv_mpConnection s name = None then 0 else 1 :: nat);
            s1 = s\<lparr>sv_mpConnection := (sv_mpConnection s)(name := None)\<rparr>
        in check (1 = n)
          (rbind (EventLoopThreadPool_GetNextLoop (tid = pl_pBaseLoop (sv_pThreadPool s1)) (sv_pThreadPool s1))
            (\<lambda>(pIoEventLoop, p). Inr (queue_functor pIoEventLoop (DestroyedFn c) (s1\<lparr>sv_pThreadPool := p\<rparr>)))))"

definition on_conn :: "(server_conn \<Rightarrow> server_conn res) \<Rightarrow> nat \<Rightarrow> server \<Rightarrow> server res" where
  "on_conn f c s =
     (if c < length (sv_Conns s)
      then rbind (f (sv_Conns s ! c)) (\<lambda>r. Inr (s\<lparr>sv_Conns := (sv_Conns s)[c := r]\<rparr>))
      else Inl BadPointer)"

definition run_functor :: "nat \<Rightarrow> server_functor \<Rightarrow> server \<Rightarrow> server res" where
  "run_functor tid f s =
     (case f of
        ListenFn \<Rightarrow> rbind (Acceptor_Listen tid (sv_pAcceptor s)) (\<lambda>a. Inr (s\<lparr>sv_pAcceptor := a\<rparr>))
      | EstablishedFn c \<Rightarrow> on_conn (server_conn_established tid) c s
      | RemoveFn c \<Rightarrow> TcpServer_removeConnectionInLoop tid c s
      | DestroyedFn c \<Rightarrow> on_conn (server_conn_destroyed tid) c s)"

definition run_in_loop :: "nat \<Rightarrow> nat \<Rightarrow> server_functor \<Rightarrow> server \<Rightarrow> server res" where
  "run_in_loop tid l f s = (if tid = l then run_functor tid f s else Inr (queue_functor l f s))"

definition TcpServer_Start :: "(nat \<Rightarrow> nat) \<Rightarrow> nat \<Rightarrow> server \<Rightarrow> server res" where
  "TcpServer_Start start_loop tid s =
     rbind (if \<not> sv_bStared s
            then rbind (EventLoopThreadPool_Start start_loop (tid = pl_pBaseLoop (sv_pThreadPool s)) (sv_pThreadPool s))
                   (\<lambda>p. Inr (s\<lparr>sv_bStared := True, sv_pThreadPool := p\<rparr>))
            else Inr s) (\<lambda>s1.
       if \<not> Acceptor_IsListenning (sv_pAcceptor s1) then run_in_loop tid (sv_pEventLoop s1) ListenFn s1
       else Inr s1)"

text \<open>The name's number goes through a buffer of 32 bytes.\<close>

definition conn_name :: "string \<Rightarrow> int \<Rightarrow> string" where
  "conn_name strName nConnId = strName @ fst (snprintf 32 (''#'' @ dec nConnId))"

definition TcpServer_newConnection ::
    "nat \<Rightarrow> sockaddr_in option \<Rightarrow> int \<Rightarrow> InetAddress \<Rightarrow> server \<Rightarrow> server res" where
  "TcpServer_newConnection tid getsockname nSockFd rPeerAddr s =
     assert_in_loop (tid = sv_pEventLoop s)
       (let strConnName = conn_name (sv_strName s) (sv_nNextConnId s);
            s1 = s\<lparr>sv_nNextConnId := sv_nNextConnId s + 1\<rparr>;
            localAddr = fst (GetLocalAddr getsockname)
        in rbind (EventLoopThreadPool_GetNextLoop (tid = pl_pBaseLoop (sv_pThreadPool s1)) (sv_pThreadPool s1))
             (\<lambda>(pIoEventLoop, p).
           rbind (server_conn_new pIoEventLoop strConnName nSockFd localAddr rPeerAddr) (\<lambda>r.
             let c = length (sv_Conns s1);
                 s2 = s1\<lparr>sv_pThreadPool := p, sv_Conns := sv_Conns s1 @ [r],
                         sv_mpConnection := (sv_mpConnection s1)(strConnName := Some c)\<rparr>
             in run_in_loop tid pIoEventLoop (EstablishedFn c) s2)))"

definition TcpServer_removeConnection :: "nat \<Rightarrow> nat \<Rightarrow> server \<Rightarrow> server res" where
  "TcpServer_removeConnection tid c s = run_in_loop tid (sv_pEventLoop s) (RemoveFn c) s"

section \<open>The server's life\<close>

text \<open>
  What can happen once the server runs: the acceptor's channel is readable, a connection's
  channel reports its end, the user shuts a connection down from any thread, a loop runs its
  next functor. An event that cannot occur in a state leaves the state as it is: a disabled
  channel reports nothing. A \<open>Send\<close> is no event here, as it changes nothing of this state; one that
  enables the channel of a closed connection again is the subject of \<open>ServerConnections\<close>.
\<close>

datatype server_event =
    Readable "sys \<times> sockaddr_in" "sockaddr_in option"
  | Closes nat
  | UserShutDown nat
  | Runs nat

definition handle_close :: "nat \<Rightarrow> server \<Rightarrow> server res" where
  "handle_close c s =
     (let tid = sc_pEventLoop (sv_Conns s ! c) in
      rbind (on_conn (server_conn_close tid) c s) (TcpServer_removeConnection tid c))"

fun server_step :: "endian \<Rightarrow> server_event \<Rightarrow> server \<Rightarrow> server res" where
  "server_step e (Readable acc local) s =
     (if ac_bReading (sv_pAcceptor s)
      then Acceptor_handleRead e (sv_pEventLoop s) (\<lambda>_. acc)
             (\<lambda>fd peer. TcpServer_newConnection (sv_pEventLoop s) local fd peer) (sv_pAcceptor s) s
      else Inr s)"
| "server_step e (Closes c) s =
     (if c < length (sv_Conns s) \<and> sc_bEnabled (sv_Conns s ! c) then handle_close c s else Inr s)"
| "server_step e (UserShutDown c) s =
     (if c < length (sv_Conns s) then on_conn (\<lambda>r. Inr (server_conn_shutdown r)) c s else Inr s)"
| "server_step e (Runs l) s =
     (case sv_Queue s l of
        [] \<Rightarrow> Inr s
      | f # fs \<Rightarrow> run_functor l f (s\<lparr>sv_Queue := (sv_Queue s)(l := fs)\<rparr>))"

section \<open>With at most one I/O thread\<close>

text \<open>
  \<open>M\<close> gives the functors still to run in each loop, the one being run included. Every connection
  is in one stage of its life: waiting to be established, open, closed and waiting to be
  removed, removed and waiting to be destroyed, destroyed.
\<close>

definition io_loop :: "server \<Rightarrow> nat" where
  "io_loop s =
     (if pl_vLoops (sv_pThreadPool s) = [] then sv_pEventLoop s else hd (pl_vLoops (sv_pThreadPool s)))"

definition one_io_loop :: "server \<Rightarrow> bool" where
  "one_io_loop s \<longleftrightarrow>
     pl_pBaseLoop (sv_pThreadPool s) = sv_pEventLoop s \<and> ac_pEventLoop (sv_pAcceptor s) = sv_pEventLoop s \<and>
     length (pl_vLoops (sv_pThreadPool s)) \<le> 1 \<and> pl_nNext (sv_pThreadPool s) = 0"

definition well_placed :: "server \<Rightarrow> nat \<Rightarrow> server_functor \<Rightarrow> bool" where
  "well_placed s l f \<longleftrightarrow>
     (case f of
        ListenFn \<Rightarrow> l = sv_pEventLoop s
      | EstablishedFn c \<Rightarrow> l = io_loop s \<and> c < length (sv_Conns s)
      | RemoveFn c \<Rightarrow> l = sv_pEventLoop s \<and> c < length (sv_Conns s)
      | DestroyedFn c \<Rightarrow> l = io_loop s \<and> c < length (sv_Conns s))"

definition life :: "conn_state \<Rightarrow> bool \<Rightarrow> nat \<Rightarrow> nat \<Rightarrow> nat \<Rightarrow> nat option \<Rightarrow> nat \<Rightarrow> bool" where
  "life st en e m d mp c \<longleftrightarrow>
     (case st of
        eTCS_Connecting \<Rightarrow> \<not> en \<and> e = 1 \<and> m = 0 \<and> d = 0 \<and> mp = Some c
      | eTCS_Disconnected \<Rightarrow> \<not> en \<and> e = 0 \<and> m = 0 \<and> d = 0 \<and> mp = None
      | _ \<Rightarrow> e = 0 \<and> (en \<and> m = 0 \<and> d = 0 \<and> mp = Some c \<or>
             \<not> en \<and> m = 1 \<and> d = 0 \<and> mp = Some c \<or> \<not> en \<and> m = 0 \<and> d = 1 \<and> mp = None))"

definition conn_life :: "(nat \<Rightarrow> server_functor multiset) \<Rightarrow> server \<Rightarrow> nat \<Rightarrow> bool" where
  "conn_life M s c \<longleftrightarrow>
     life (sc_eConnectState (sv_Conns s ! c)) (sc_bEnabled (sv_Conns s ! c))
       (count (M (io_loop s)) (EstablishedFn c)) (count (M (sv_pEventLoop s)) (RemoveFn c))
       (count (M (io_loop s)) (DestroyedFn c)) (sv_mpConnection s (sc_strName (sv_Conns s ! c))) c"

definition server_inv :: "(nat \<Rightarrow> server_functor multiset) \<Rightarrow> server \<Rightarrow> bool" where
  "server_inv M s \<longleftrightarrow>
     one_io_loop s \<and> sv_nNextConnId s = int (length (sv_Conns s)) + 1 \<and>
     0 \<le> sk_nSockFd (ac_AccpetSocket (sv_pAcceptor s)) \<and>
     (\<forall>c < length (sv_Conns s).
        sc_strName (sv_Conns s ! c) = conn_name (sv_strName s) (int c + 1) \<and>
        sc_pEventLoop (sv_Conns s ! c) = io_loop s \<and> conn_life M s c) \<and>
     (\<forall>l. \<forall>f \<in># M l. well_placed s l f)"

definition pending :: "server \<Rightarrow> nat \<Rightarrow> server_functor multiset" where
  "pending s l = mset (sv_Queue s l)"

definition adding :: "nat \<Rightarrow> server_functor \<Rightarrow> (nat \<Rightarrow> server_functor multiset) \<Rightarrow> nat \<Rightarrow> server_functor multiset" where
  "adding l f M = M(l := add_mset f (M l))"

lemma count_adding [simp]:
  "count (adding l f M l') g = count (M l') g + (if l' = l \<and> g = f then 1 else 0)"
  by (simp add: adding_def)

lemma in_adding [simp]: "g \<in># adding l f M l' \<longleftrightarrow> g \<in># M l' \<or> l' = l \<and> g = f"
  by (auto simp: adding_def)

lemma pending_queue [simp]: "pending (queue_functor l f s) = adding l f (pending s)"
  by (simp add: fun_eq_iff pending_def queue_functor_def adding_def)

lemma queue_functor_fields [simp]:
  "sv_pEventLoop (queue_functor l f s) = sv_pEventLoop s"
  "sv_strName (queue_functor l f s) = sv_strName s"
  "sv_pAcceptor (queue_functor l f s) = sv_pAcceptor s"
  "sv_pThreadPool (queue_functor l f s) = sv_pThreadPool s"
  "sv_nNextConnId (queue_functor l f s) = sv_nNextConnId s"
  "sv_mpConnection (queue_functor l f s) = sv_mpConnection s"
  "sv_Conns (queue_functor l f s) = sv_Conns s"
  by (simp_all add: queue_functor_def)

text \<open>The invariant does not look at the queues themselves.\<close>

lemma server_inv_frame:
  assumes "sv_pEventLoop t = sv_pEventLoop s" "sv_strName t = sv_strName s"
    "sv_pAcceptor t = sv_pAcceptor s" "sv_pThreadPool t = sv_pThreadPool s"
    "sv_nNextConnId t = sv_nNextConnId s" "sv_mpConnection t = sv_mpConnection s"
    "sv_Conns t = sv_Conns s"
  shows "server_inv M t = server_inv M s"
proof -
  have io: "io_loop t = io_loop s" using assms by (simp add: io_loop_def)
  have wp: "well_placed t l f = well_placed s l f" for l f
    using assms io by (simp add: well_placed_def split: server_functor.splits)
  show ?thesis using assms by (simp add: server_inv_def one_io_loop_def conn_life_def io wp)
qed

lemma dec_inj: "dec i = dec j \<Longrightarrow> i = j"
  by (metis undec_dec)

lemma length_dec_id: "0 \<le> i \<Longrightarrow> i < 2 ^ 31 \<Longrightarrow> length (dec i) \<le> 10"
  by (simp add: dec_def, rule length_dec_nat) (simp_all add: nat_less_iff)

lemma conn_name_text: "0 \<le> i \<Longrightarrow> i < 2 ^ 31 \<Longrightarrow> conn_name n i = n @ ''#'' @ dec i"
  using length_dec_id [of i] by (simp add: conn_name_def snprintf_def)

lemma conn_name_inj:
  "0 \<le> i \<Longrightarrow> i < 2 ^ 31 \<Longrightarrow> 0 \<le> j \<Longrightarrow> j < 2 ^ 31 \<Longrightarrow> conn_name n i = conn_name n j \<longleftrightarrow> i = j"
  by (auto simp: conn_name_text dest: dec_inj)

lemma one_io_GetNextLoop:
  assumes "one_io_loop s"
  shows "EventLoopThreadPool_GetNextLoop True (sv_pThreadPool s) = Inr (io_loop s, sv_pThreadPool s)"
proof (cases "pl_vLoops (sv_pThreadPool s)")
  case Nil
  with assms show ?thesis
    by (simp add: EventLoopThreadPool_GetNextLoop_def io_loop_def one_io_loop_def)
next
  case (Cons l ls)
  with assms show ?thesis
    by (cases "sv_pThreadPool s")
       (simp add: EventLoopThreadPool_GetNextLoop_def io_loop_def one_io_loop_def Let_def)
qed

text \<open>Changing one connection and forgetting one functor.\<close>

lemma server_inv_step:
  assumes inv: "server_inv M s" and c: "c < length (sv_Conns s)"
    and same: "sv_pEventLoop t = sv_pEventLoop s" "sv_strName t = sv_strName s"
      "sv_pAcceptor t = sv_pAcceptor s" "sv_pThreadPool t = sv_pThreadPool s"
      "sv_nNextConnId t = sv_nNextConnId s" "sv_Conns t = (sv_Conns s)[c := r]"
    and r: "sc_strName r = sc_strName (sv_Conns s ! c)" "sc_pEventLoop r = sc_pEventLoop (sv_Conns s ! c)"
    and own: "conn_life N t c"
    and others: "\<And>c'. c' < length (sv_Conns s) \<Longrightarrow> c' \<noteq> c \<Longrightarrow> conn_life M s c' \<Longrightarrow> conn_life N t c'"
    and placed: "\<And>l f. f \<in># N l \<Longrightarrow> f \<in># M l \<or> well_placed s l f"
  shows "server_inv N t"
proof -
  have io: "io_loop t = io_loop s" using same by (simp add: io_loop_def)
  have wp: "well_placed t l f = well_placed s l f" for l f
    using same io by (simp add: well_placed_def split: server_functor.splits)
  have "sc_strName (sv_Conns t ! c') = conn_name (sv_strName t) (int c' + 1) \<and>
      sc_pEventLoop (sv_Conns t ! c') = io_loop t \<and> conn_life N t c'"
    if "c' < length (sv_Conns s)" for c'
    using inv that r own others [of c'] same io c
    by (cases "c' = c") (simp_all add: server_inv_def)
  moreover have "well_placed t l f" if "f \<in># N l" for l f
    using placed [OF that] inv by (auto simp: wp server_inv_def)
  ultimately show ?thesis
    using inv same by (simp add: server_inv_def one_io_loop_def)
qed

lemma placed_member: "server_inv M s \<Longrightarrow> f \<in># M l \<Longrightarrow> well_placed s l f"
  by (simp add: server_inv_def)

lemma conn_fields:
  assumes "server_inv M s" and "c < length (sv_Conns s)"
  shows "sc_strName (sv_Conns s ! c) = conn_name (sv_strName s) (int c + 1)"
    and "sc_pEventLoop (sv_Conns s ! c) = io_loop s" and "conn_life M s c"
  using assms by (simp_all add: server_inv_def)

lemma name_eq_iff:
  assumes "server_inv M s" and "c < length (sv_Conns s)" and "c' < length (sv_Conns s)"
    and "length (sv_Conns s) < 2 ^ 31"
  shows "sc_strName (sv_Conns s ! c) = sc_strName (sv_Conns s ! c') \<longleftrightarrow> c = c'"
  using assms conn_name_inj [of "int c + 1" "int c' + 1"] by (simp add: conn_fields)

lemma life_est:
  "life st en (Suc e) m d mp c \<Longrightarrow>
     st = eTCS_Connecting \<and> \<not> en \<and> e = 0 \<and> m = 0 \<and> d = 0 \<and> mp = Some c"
  by (cases st) (auto simp: life_def)

lemma life_rem:
  "life st en e (Suc m) d mp c \<Longrightarrow>
     (st = eTCS_Connected \<or> st = eTCS_Disconnecting) \<and> \<not> en \<and> e = 0 \<and> m = 0 \<and> d = 0 \<and> mp = Some c"
  by (cases st) (auto simp: life_def)

lemma life_dest:
  "life st en e m (Suc d) mp c \<Longrightarrow>
     (st = eTCS_Connected \<or> st = eTCS_Disconnecting) \<and> \<not> en \<and> e = 0 \<and> m = 0 \<and> d = 0 \<and> mp = None"
  by (cases st) (auto simp: life_def)

lemma run_listen:
  assumes inv: "server_inv (adding l ListenFn M) s"
  shows "\<exists>t. run_functor l ListenFn s = Inr t \<and> server_inv M t \<and> sv_Queue t = sv_Queue s \<and>
    length (sv_Conns t) = length (sv_Conns s)"
proof -
  have l: "l = sv_pEventLoop s" "ac_pEventLoop (sv_pAcceptor s) = sv_pEventLoop s"
    using placed_member [OF inv, of ListenFn l] inv by (simp_all add: well_placed_def server_inv_def one_io_loop_def)
  let ?t = "s\<lparr>sv_pAcceptor := (sv_pAcceptor s)\<lparr>ac_bListenning := True, ac_bReading := True\<rparr>\<rparr>"
  have io: "io_loop ?t = io_loop s" by (simp add: io_loop_def)
  have wp: "well_placed ?t l f = well_placed s l f" for l f
    by (simp add: well_placed_def io split: server_functor.splits)
  have "server_inv M ?t"
    using inv by (auto simp: server_inv_def one_io_loop_def conn_life_def io wp)
  with l show ?thesis by (simp add: run_functor_def Acceptor_Listen_def)
qed

lemma run_established:
  assumes inv: "server_inv (adding l (EstablishedFn c) M) s"
  shows "\<exists>t. run_functor l (EstablishedFn c) s = Inr t \<and> server_inv M t \<and> sv_Queue t = sv_Queue s \<and>
    length (sv_Conns t) = length (sv_Conns s)"
proof -
  let ?r = "(sv_Conns s ! c)\<lparr>sc_eConnectState := eTCS_Connected, sc_bEnabled := True\<rparr>"
  let ?t = "s\<lparr>sv_Conns := (sv_Conns s)[c := ?r]\<rparr>"
  have p: "l = io_loop s" "c < length (sv_Conns s)"
    using placed_member [OF inv, of "EstablishedFn c" l] by (simp_all add: well_placed_def)
  have cl: "conn_life (adding l (EstablishedFn c) M) s c" by (rule conn_fields [OF inv p(2)])
  then have lf: "sc_eConnectState (sv_Conns s ! c) = eTCS_Connecting \<and>
      count (M l) (EstablishedFn c) = 0 \<and> count (M (sv_pEventLoop s)) (RemoveFn c) = 0 \<and>
      count (M (io_loop s)) (DestroyedFn c) = 0 \<and>
      sv_mpConnection s (sc_strName (sv_Conns s ! c)) = Some c"
    using p life_est by (fastforce simp: conn_life_def)
  have io: "io_loop ?t = io_loop s" by (simp add: io_loop_def)
  have "server_inv M ?t"
  proof (rule server_inv_step [OF inv p(2), where r = ?r])
    show "conn_life M ?t c" using lf p by (simp add: conn_life_def life_def io)
    show "conn_life M ?t c'" if "c' \<noteq> c" "conn_life (adding l (EstablishedFn c) M) s c'" for c'
      using that p by (simp add: conn_life_def io)
  qed (auto)
  with p lf conn_fields(2) [OF inv p(2)] show ?thesis
    by (simp add: run_functor_def on_conn_def server_conn_established_def)
qed

lemma run_destroyed:
  assumes inv: "server_inv (adding l (DestroyedFn c) M) s"
  shows "\<exists>t. run_functor l (DestroyedFn c) s = Inr t \<and> server_inv M t \<and> sv_Queue t = sv_Queue s \<and>
    length (sv_Conns t) = length (sv_Conns s)"
proof -
  let ?r = "(sv_Conns s ! c)\<lparr>sc_eConnectState := eTCS_Disconnected, sc_bEnabled := False\<rparr>"
  let ?t = "s\<lparr>sv_Conns := (sv_Conns s)[c := ?r]\<rparr>"
  have p: "l = io_loop s" "c < length (sv_Conns s)"
    using placed_member [OF inv, of "DestroyedFn c" l] by (simp_all add: well_placed_def)
  have cl: "conn_life (adding l (DestroyedFn c) M) s c" by (rule conn_fields [OF inv p(2)])
  then have lf: "(sc_eConnectState (sv_Conns s ! c) = eTCS_Connected \<or>
        sc_eConnectState (sv_Conns s ! c) = eTCS_Disconnecting) \<and>
      count (M l) (EstablishedFn c) = 0 \<and> count (M (sv_pEventLoop s)) (RemoveFn c) = 0 \<and>
      count (M l) (DestroyedFn c) = 0 \<and> sv_mpConnection s (sc_strName (sv_Conns s ! c)) = None"
    using p life_dest by (fastforce simp: conn_life_def)
  have io: "io_loop ?t = io_loop s" by (simp add: io_loop_def)
  have "server_inv M ?t"
  proof (rule server_inv_step [OF inv p(2), where r = ?r])
    show "conn_life M ?t c" using lf p by (simp add: conn_life_def life_def io)
    show "conn_life M ?t c'" if "c' \<noteq> c" "conn_life (adding l (DestroyedFn c) M) s c'" for c'
      using that p by (simp add: conn_life_def io)
  qed (auto)
  with p lf conn_fields(2) [OF inv p(2)] show ?thesis
    by (auto simp: run_functor_def on_conn_def server_conn_destroyed_def)
qed

lemma run_remove:
  assumes inv: "server_inv (adding l (RemoveFn c) (pending s)) s" and small: "length (sv_Conns s) < 2 ^ 31"
  shows "\<exists>t. run_functor l (RemoveFn c) s = Inr t \<and> server_inv (pending t) t \<and>
    length (sv_Conns t) = length (sv_Conns s)"
proof -
  let ?M = "adding l (RemoveFn c) (pending s)" and ?name = "sc_strName (sv_Conns s ! c)"
  let ?s1 = "s\<lparr>sv_mpConnection := (sv_mpConnection s)(?name := None)\<rparr>"
  let ?t = "queue_functor (io_loop s) (DestroyedFn c) ?s1"
  have p: "l = sv_pEventLoop s" "c < length (sv_Conns s)"
    using placed_member [OF inv, of "RemoveFn c" l] by (simp_all add: well_placed_def)
  have one: "one_io_loop s" using inv by (simp add: server_inv_def)
  have cl: "conn_life ?M s c" by (rule conn_fields [OF inv p(2)])
  then have lf: "(sc_eConnectState (sv_Conns s ! c) = eTCS_Connected \<or>
        sc_eConnectState (sv_Conns s ! c) = eTCS_Disconnecting) \<and> \<not> sc_bEnabled (sv_Conns s ! c) \<and>
      count (pending s (io_loop s)) (EstablishedFn c) = 0 \<and> count (pending s l) (RemoveFn c) = 0 \<and>
      count (pending s (io_loop s)) (DestroyedFn c) = 0 \<and> sv_mpConnection s ?name = Some c"
    using p life_rem by (fastforce simp: conn_life_def)
  have io: "io_loop ?t = io_loop s" by (simp add: io_loop_def)
  have pend: "pending ?t = adding (io_loop s) (DestroyedFn c) (pending s)"
    by (simp add: fun_eq_iff pending_def queue_functor_def adding_def)
  have "server_inv (pending ?t) ?t"
  proof (rule server_inv_step [OF inv p(2), where r = "sv_Conns s ! c"])
    show "conn_life (pending ?t) ?t c"
      using lf p unfolding pend by (elim conjE disjE) (simp_all add: conn_life_def life_def io)
    show "conn_life (pending ?t) ?t c'"
      if "c' < length (sv_Conns s)" "c' \<noteq> c" "conn_life ?M s c'" for c'
      using that p name_eq_iff [OF inv that(1) p(2) small] unfolding pend by (simp add: conn_life_def io)
    show "f \<in># ?M l' \<or> well_placed s l' f" if "f \<in># pending ?t l'" for l' f
      using that p unfolding pend by (auto simp: well_placed_def)
  qed simp_all
  moreover have "run_functor l (RemoveFn c) s = Inr ?t"
    using p lf one_io_GetNextLoop [OF one] one
    by (simp add: run_functor_def TcpServer_removeConnectionInLoop_def Let_def one_io_loop_def queue_functor_def)
  ultimately show ?thesis by simp
qed

text \<open>Whatever functor is due in a loop can be run there.\<close>

lemma same_queue:
  assumes "\<exists>t. r = Inr t \<and> server_inv (pending s) t \<and> sv_Queue t = sv_Queue s \<and> P t"
  shows "\<exists>t. r = Inr t \<and> server_inv (pending t) t \<and> P t"
proof -
  from assms obtain t where t: "r = Inr t" "server_inv (pending s) t" "sv_Queue t = sv_Queue s" "P t"
    by blast
  then have "pending t = pending s" by (simp add: fun_eq_iff pending_def)
  with t show ?thesis by simp
qed

lemma run_functor_safe:
  assumes inv: "server_inv (adding l f (pending s)) s" and small: "length (sv_Conns s) < 2 ^ 31"
  shows "\<exists>t. run_functor l f s = Inr t \<and> server_inv (pending t) t \<and>
    length (sv_Conns t) = length (sv_Conns s)"
proof (cases f)
  case ListenFn
  show ?thesis unfolding ListenFn
    by (rule same_queue [OF run_listen]) (use inv ListenFn in simp)
next
  case (EstablishedFn c)
  show ?thesis unfolding EstablishedFn
    by (rule same_queue [OF run_established]) (use inv EstablishedFn in simp)
next
  case (DestroyedFn c)
  show ?thesis unfolding DestroyedFn
    by (rule same_queue [OF run_destroyed]) (use inv DestroyedFn in simp)
next
  case (RemoveFn c)
  show ?thesis unfolding RemoveFn
    by (rule run_remove) (use inv small RemoveFn in simp_all)
qed

lemma run_in_loop_safe:
  assumes inv: "server_inv (adding l f (pending s)) s" and small: "length (sv_Conns s) < 2 ^ 31"
  shows "\<exists>t. run_in_loop tid l f s = Inr t \<and> server_inv (pending t) t \<and>
    length (sv_Conns t) = length (sv_Conns s)"
proof (cases "tid = l")
  case True
  with run_functor_safe [OF assms] show ?thesis by (simp add: run_in_loop_def)
next
  case False
  have "server_inv (pending (queue_functor l f s)) (queue_functor l f s)"
    using inv by (subst server_inv_frame [where s = s]) simp_all
  with False show ?thesis by (simp add: run_in_loop_def)
qed

lemma not_placed_count:
  assumes "server_inv M s" and "\<not> well_placed s l f"
  shows "count (M l) f = 0"
  using placed_member [OF assms(1)] assms(2) by (meson count_greater_zero_iff neq0_conv)

lemma newConnection_safe:
  assumes inv: "server_inv (pending s) s" and fd: "0 \<le> nSockFd" and small: "length (sv_Conns s) < 2 ^ 31 - 1"
  shows "\<exists>t. TcpServer_newConnection (sv_pEventLoop s) loc nSockFd peer s = Inr t \<and>
    server_inv (pending t) t \<and> length (sv_Conns t) = Suc (length (sv_Conns s))"
proof -
  let ?c = "length (sv_Conns s)" and ?name = "conn_name (sv_strName s) (sv_nNextConnId s)"
  define r where "r = \<lparr>sc_pEventLoop = io_loop s, sc_strName = ?name, sc_eConnectState = eTCS_Connecting,
    sc_nSockFd = nSockFd, sc_LocalAddr = fst (GetLocalAddr loc), sc_PeerAddr = peer, sc_bEnabled = False\<rparr>"
  define s2 where "s2 = s\<lparr>sv_nNextConnId := sv_nNextConnId s + 1, sv_Conns := sv_Conns s @ [r],
    sv_mpConnection := (sv_mpConnection s)(?name := Some ?c)\<rparr>"
  have one: "one_io_loop s" and nxt: "sv_nNextConnId s = int ?c + 1"
    using inv by (simp_all add: server_inv_def)
  have io: "io_loop s2 = io_loop s" by (simp add: io_loop_def s2_def)
  have pend: "pending s2 = pending s" by (simp add: fun_eq_iff pending_def s2_def)
  have fresh: "sc_strName (sv_Conns s ! c') \<noteq> ?name" if "c' < ?c" for c'
    using that small by (simp add: conn_fields [OF inv that] nxt conn_name_inj)
  have none: "count (pending s l) (EstablishedFn ?c) = 0" "count (pending s l) (RemoveFn ?c) = 0"
    "count (pending s l) (DestroyedFn ?c) = 0" for l
    by (rule not_placed_count [OF inv], simp add: well_placed_def)+
  have conn: "sc_strName (sv_Conns s2 ! c') = conn_name (sv_strName s2) (int c' + 1) \<and>
      sc_pEventLoop (sv_Conns s2 ! c') = io_loop s2 \<and>
      conn_life (adding (io_loop s) (EstablishedFn ?c) (pending s2)) s2 c'"
    if "c' < Suc ?c" for c'
  proof (cases "c' = ?c")
    case True
    then show ?thesis
      using none by (simp add: conn_life_def life_def io pend) (simp add: s2_def r_def nxt)
  next
    case False
    then have lt: "c' < ?c" using that by simp
    have same: "sv_Conns s2 ! c' = sv_Conns s ! c'" "sv_strName s2 = sv_strName s"
      "sv_pEventLoop s2 = sv_pEventLoop s" using lt by (simp_all add: s2_def nth_append)
    have mp: "sv_mpConnection s2 (sc_strName (sv_Conns s ! c')) = sv_mpConnection s (sc_strName (sv_Conns s ! c'))"
      using fresh [OF lt] by (simp add: s2_def)
    show ?thesis
      using conn_fields [OF inv lt] False
      by (simp add: conn_life_def io pend same mp [unfolded conn_fields(1) [OF inv lt]])
  qed
  have placed: "well_placed s2 l f" if "f \<in># adding (io_loop s) (EstablishedFn ?c) (pending s2) l" for l f
  proof -
    have "well_placed s l f \<or> l = io_loop s \<and> f = EstablishedFn ?c"
      using that placed_member [OF inv] by (auto simp: pend)
    moreover have "length (sv_Conns s2) = Suc ?c" "sv_pEventLoop s2 = sv_pEventLoop s"
      by (simp_all add: s2_def)
    ultimately show ?thesis by (auto simp: well_placed_def io split: server_functor.splits)
  qed
  have "server_inv (adding (io_loop s) (EstablishedFn ?c) (pending s2)) s2"
    unfolding server_inv_def
    using conn placed one inv nxt by (simp add: s2_def one_io_loop_def server_inv_def)
  moreover have "length (sv_Conns s2) < 2 ^ 31" using small by (simp add: s2_def)
  ultimately obtain t where t: "run_in_loop (sv_pEventLoop s) (io_loop s) (EstablishedFn ?c) s2 = Inr t"
    "server_inv (pending t) t" "length (sv_Conns t) = length (sv_Conns s2)"
    using run_in_loop_safe by blast
  have "TcpServer_newConnection (sv_pEventLoop s) loc nSockFd peer s =
      run_in_loop (sv_pEventLoop s) (io_loop s) (EstablishedFn ?c) s2"
    using one one_io_GetNextLoop [OF one] fd
    by (simp add: TcpServer_newConnection_def one_io_loop_def server_conn_new_def Socket_new_def
        Socket_GetFd_def Let_def s2_def r_def)
  with t show ?thesis by (simp add: s2_def)
qed

lemma handle_close_safe:
  assumes inv: "server_inv (pending s) s" and c: "c < length (sv_Conns s)" and en: "sc_bEnabled (sv_Conns s ! c)"
    and small: "length (sv_Conns s) < 2 ^ 31"
  shows "\<exists>t. handle_close c s = Inr t \<and> server_inv (pending t) t \<and> length (sv_Conns t) = length (sv_Conns s)"
proof -
  let ?r = "(sv_Conns s ! c)\<lparr>sc_bEnabled := False\<rparr>"
  let ?t = "s\<lparr>sv_Conns := (sv_Conns s)[c := ?r]\<rparr>"
  have cl: "conn_life (pending s) s c" by (rule conn_fields [OF inv c])
  then have st: "sc_eConnectState (sv_Conns s ! c) = eTCS_Connected \<or> sc_eConnectState (sv_Conns s ! c) = eTCS_Disconnecting"
    using en by (auto simp: conn_life_def life_def split: conn_state.splits)
  have io: "io_loop ?t = io_loop s" by (simp add: io_loop_def)
  have pend: "pending ?t = pending s" by (simp add: fun_eq_iff pending_def)
  have "server_inv (adding (sv_pEventLoop s) (RemoveFn c) (pending ?t)) ?t"
  proof (rule server_inv_step [OF inv c, where r = ?r])
    show "conn_life (adding (sv_pEventLoop s) (RemoveFn c) (pending ?t)) ?t c"
      using cl st en c unfolding pend by (elim disjE) (simp_all add: conn_life_def life_def io)
    show "conn_life (adding (sv_pEventLoop s) (RemoveFn c) (pending ?t)) ?t c'"
      if "c' \<noteq> c" "conn_life (pending s) s c'" for c'
      using that unfolding pend by (simp add: conn_life_def io)
    show "f \<in># pending s l \<or> well_placed s l f"
      if "f \<in># adding (sv_pEventLoop s) (RemoveFn c) (pending ?t) l" for l f
      using that c unfolding pend by (auto simp: well_placed_def)
  qed simp_all
  from run_in_loop_safe [OF this] small
  obtain t where "run_in_loop (io_loop s) (sv_pEventLoop s) (RemoveFn c) ?t = Inr t"
    "server_inv (pending t) t" "length (sv_Conns t) = length (sv_Conns s)"
    by auto
  with st c conn_fields(2) [OF inv c] show ?thesis
    by (auto simp: handle_close_def on_conn_def server_conn_close_def TcpServer_removeConnection_def Let_def)
qed

lemma life_shutdown:
  "life (sc_eConnectState r) (sc_bEnabled r) e m d mp c \<Longrightarrow>
     life (sc_eConnectState (server_conn_shutdown r)) (sc_bEnabled (server_conn_shutdown r)) e m d mp c"
  by (auto simp: life_def server_conn_shutdown_def)

lemma shutdown_safe:
  assumes inv: "server_inv (pending s) s" and c: "c < length (sv_Conns s)"
  shows "\<exists>t. on_conn (\<lambda>r. Inr (server_conn_shutdown r)) c s = Inr t \<and> server_inv (pending t) t \<and>
    length (sv_Conns t) = length (sv_Conns s)"
proof -
  let ?r = "server_conn_shutdown (sv_Conns s ! c)"
  let ?t = "s\<lparr>sv_Conns := (sv_Conns s)[c := ?r]\<rparr>"
  have io: "io_loop ?t = io_loop s" by (simp add: io_loop_def)
  have pend: "pending ?t = pending s" by (simp add: fun_eq_iff pending_def)
  have f: "sc_strName ?r = sc_strName (sv_Conns s ! c)" "sc_pEventLoop ?r = sc_pEventLoop (sv_Conns s ! c)"
    by (simp_all add: server_conn_shutdown_def)
  have "server_inv (pending ?t) ?t"
  proof (rule server_inv_step [OF inv c, where r = ?r])
    show "conn_life (pending ?t) ?t c"
      using conn_fields(3) [OF inv c] c unfolding pend
      by (simp add: conn_life_def io f life_shutdown)
    show "conn_life (pending ?t) ?t c'" if "c' \<noteq> c" "conn_life (pending s) s c'" for c'
      using that unfolding pend by (simp add: conn_life_def io)
  qed (simp_all add: f pend)
  with c show ?thesis by (simp add: on_conn_def)
qed

text \<open>The events of the theorem: \<open>accept\<close> gives a descriptor or one of the errors it expects.\<close>

fun accept_ok :: "server_event \<Rightarrow> bool" where
  "accept_ok (Readable acc loc) \<longleftrightarrow> 0 \<le> fst (fst acc) \<or> expected_accept_error (snd (fst acc))"
| "accept_ok _ \<longleftrightarrow> True"

lemma server_step_safe:
  assumes inv: "server_inv (pending s) s" and ok: "accept_ok ev"
    and small: "length (sv_Conns s) < 2 ^ 31 - 1"
  shows "\<exists>t. server_step e ev s = Inr t \<and> server_inv (pending t) t \<and>
    length (sv_Conns t) \<le> Suc (length (sv_Conns s))"
proof (cases ev)
  case (Readable acc loc)
  obtain fd er addr where acc: "acc = ((fd, er), addr)" by (metis prod.collapse)
  have one: "ac_pEventLoop (sv_pAcceptor s) = sv_pEventLoop s"
    using inv by (simp add: server_inv_def one_io_loop_def)
  show ?thesis
  proof (cases "0 \<le> fd \<and> ac_bReading (sv_pAcceptor s) \<and> ac_NewConCallBack (sv_pAcceptor s)")
    case True
    with newConnection_safe [OF inv _ small, of fd loc addr] show ?thesis
      by (auto simp: Readable acc Acceptor_handleRead_def one Socket_Accpet_def Sockets_Accept_def)
  next
    case False
    with ok inv show ?thesis
      by (auto simp: Readable acc Acceptor_handleRead_def one Socket_Accpet_def Sockets_Accept_def)
  qed
next
  case (Closes c)
  then show ?thesis
    using handle_close_safe [OF inv, of c] small inv by (auto intro: le_SucI)
next
  case (UserShutDown c)
  then show ?thesis
    using shutdown_safe [OF inv, of c] inv by (auto intro: le_SucI)
next
  case (Runs l)
  show ?thesis
  proof (cases "sv_Queue s l")
    case Nil
    with Runs inv show ?thesis by auto
  next
    case (Cons f fs)
    let ?s = "s\<lparr>sv_Queue := (sv_Queue s)(l := fs)\<rparr>"
    have "adding l f (pending ?s) = pending s"
      using Cons by (auto simp: fun_eq_iff pending_def adding_def)
    then have "server_inv (adding l f (pending ?s)) ?s"
      using inv by (subst server_inv_frame [where s = s]) simp_all
    from run_functor_safe [OF this] small Cons Runs show ?thesis by auto
  qed
qed

lemma server_run_safe:
  assumes "server_inv (pending s) s" and "\<forall>ev \<in> set evs. accept_ok ev"
    and "length (sv_Conns s) + length evs < 2 ^ 31"
  shows "\<exists>t. rfold (server_step e) evs s = Inr t \<and> server_inv (pending t) t \<and> length (sv_Conns t) < 2 ^ 31"
  using assms
proof (induction evs arbitrary: s)
  case (Cons ev evs)
  then obtain t where t: "server_step e ev s = Inr t" "server_inv (pending t) t"
    "length (sv_Conns t) \<le> Suc (length (sv_Conns s))"
    using server_step_safe [of s ev e] by auto
  with Cons.IH [of t] Cons.prems show ?case by auto
qed simp

text \<open>The server after its constructor, \<open>SetThreadNum\<close> and \<open>Start\<close>, all on the base loop.\<close>

definition server_started ::
    "endian \<Rightarrow> acceptor \<Rightarrow> nat \<Rightarrow> InetAddress \<Rightarrow> int \<Rightarrow> (nat \<Rightarrow> nat) \<Rightarrow> server res" where
  "server_started e a base rListenAddr n start_loop =
     rbind (TcpServer_SetThreadNum n (TcpServer_new e a base rListenAddr)) (TcpServer_Start start_loop base)"

lemma server_started_state:
  assumes "ac_pEventLoop a = base" and "0 \<le> n"
  shows "server_started e a base addr n start_loop =
    Inr ((TcpServer_new e a base addr)\<lparr>sv_bStared := True,
      sv_pAcceptor := (if ac_bListenning a then Acceptor_SetNewConnectionCallback a
        else (Acceptor_SetNewConnectionCallback a)\<lparr>ac_bListenning := True, ac_bReading := True\<rparr>),
      sv_pThreadPool := \<lparr>pl_pBaseLoop = base, pl_bStarted = True, pl_nNumThreads = n, pl_nNext = 0,
        pl_vThreads = nat n, pl_vLoops = map start_loop [0..<nat n]\<rparr>\<rparr>)"
  using assms
  by (simp add: server_started_def TcpServer_SetThreadNum_def TcpServer_new_def TcpServer_Start_def
      EventLoopThreadPool_Start_def EventLoopThreadPool_SetThreadNum_def EventLoopThreadPool_new_def
      add_loops Acceptor_IsListenning_def Acceptor_SetNewConnectionCallback_def run_in_loop_def
      run_functor_def Acceptor_Listen_def)

lemma server_inv_started:
  assumes "Acceptor_new memory socket setsockopt bind base addr = Inr (a, lg)"
    and "server_started e a base addr n start_loop = Inr s" and "n \<le> 1"
  shows "server_inv (pending s) s \<and> sv_Conns s = []"
proof -
  have a: "ac_pEventLoop a = base" "0 \<le> sk_nSockFd (ac_AccpetSocket a)"
    using assms(1)
    by (auto simp: Acceptor_new_def CreateNonBlockingOrDie_def Socket_new_def rbind_Inr check_Inr Let_def)
  have n: "0 \<le> n"
    using assms(2) by (auto simp: server_started_def TcpServer_SetThreadNum_def rbind_Inr check_Inr)
  show ?thesis
    using assms(2,3) a n
    by (auto simp: server_started_state server_inv_def one_io_loop_def pending_def TcpServer_new_def
        Acceptor_SetNewConnectionCallback_def)
qed

text \<open>An acceptor whose memory happened to say so is never made to listen.\<close>

theorem Start_skips_Listen:
  assumes "Acceptor_new True socket setsockopt bind base addr = Inr (a, lg)"
    and "server_started e a base addr n start_loop = Inr s"
  shows "\<not> ac_bReading (sv_pAcceptor s) \<and> server_step e (Readable acc loc) s = Inr s"
proof -
  have a: "ac_pEventLoop a = base" "ac_bListenning a" "\<not> ac_bReading a"
    using assms(1)
    by (auto simp: Acceptor_new_def CreateNonBlockingOrDie_def Socket_new_def rbind_Inr check_Inr Let_def)
  have n: "0 \<le> n"
    using assms(2) by (auto simp: server_started_def TcpServer_SetThreadNum_def rbind_Inr check_Inr)
  show ?thesis
    using assms(2) server_started_state [OF a(1) n, of e addr start_loop] a
    by (auto simp: Acceptor_SetNewConnectionCallback_def)
qed


text \<open>A server that accepts one connection, which is closed by its peer.\<close>

definition demo_listen :: InetAddress where
  "demo_listen = InetAddress_of_port LittleEndian 80 True"

definition demo_acceptor :: "(acceptor \<times> logs) res" where
  "demo_acceptor = Acceptor_new False (3, ENOERROR) (\<lambda>_ _ _. (0, ENOERROR)) (\<lambda>_ _. (0, ENOERROR)) 1 demo_listen"

definition demo_server :: "int \<Rightarrow> server res" where
  "demo_server n =
     rbind demo_acceptor (\<lambda>(a, _). server_started LittleEndian a 1 demo_listen n (\<lambda>i. 10 + i))"

definition one_connection :: "nat \<Rightarrow> nat \<Rightarrow> nat \<Rightarrow> server_event list" where
  "one_connection base own other =
     [Readable ((7, ENOERROR), zero_addr) None, Runs own, Closes 0, Runs base, Runs other]"

lemma demo_acceptor_ok:
  "\<exists>a. demo_acceptor = Inr (a, []) \<and> ac_pEventLoop a = 1 \<and> \<not> ac_bListenning a \<and>
     ac_AccpetSocket a = \<lparr>sk_nSockFd = 3\<rparr>"
  by (simp add: demo_acceptor_def Acceptor_new_def CreateNonBlockingOrDie_def Socket_new_def
      Socket_SetReuseAddr_def Socket_Bind_def BindOrDie_def log_failed_def)


text \<open>
  The server's states while its first connection, named \<open>name\<close>, comes and goes; the pool's index
  is \<open>k\<close>.
\<close>

definition first_pool :: "nat \<Rightarrow> int \<Rightarrow> (nat \<Rightarrow> nat) \<Rightarrow> int \<Rightarrow> loop_pool" where
  "first_pool base n start_loop k =
     \<lparr>pl_pBaseLoop = base, pl_bStarted = True, pl_nNumThreads = n, pl_nNext = k,
      pl_vThreads = nat n, pl_vLoops = map start_loop [0..<nat n]\<rparr>"

definition first_server ::
    "acceptor \<Rightarrow> nat \<Rightarrow> string \<Rightarrow> loop_pool \<Rightarrow> int \<Rightarrow> (string \<rightharpoonup> nat) \<Rightarrow> server_conn list \<Rightarrow>
     (nat \<Rightarrow> server_functor list) \<Rightarrow> server" where
  "first_server a base strName pool i m cs q =
     \<lparr>sv_pEventLoop = base, sv_strName = strName,
      sv_pAcceptor = (Acceptor_SetNewConnectionCallback a)\<lparr>ac_bListenning := True, ac_bReading := True\<rparr>,
      sv_pThreadPool = pool, sv_ConnCallBack = True, sv_MsgCallBack = True,
      sv_WriteCompleteCallBack = False, sv_bStared = True, sv_nNextConnId = i, sv_mpConnection = m,
      sv_Conns = cs, sv_Queue = q\<rparr>"

definition first_conn :: "nat \<Rightarrow> string \<Rightarrow> conn_state \<Rightarrow> bool \<Rightarrow> server_conn" where
  "first_conn l name st en =
     \<lparr>sc_pEventLoop = l, sc_strName = name, sc_eConnectState = st, sc_nSockFd = 7,
      sc_LocalAddr = zero_addr, sc_PeerAddr = zero_addr, sc_bEnabled = en\<rparr>"

lemma first_next:
  assumes "2 \<le> n"
  shows "EventLoopThreadPool_GetNextLoop True (first_pool base n start_loop 0) =
      Inr (start_loop 0, first_pool base n start_loop 1)"
    and "\<exists>k. EventLoopThreadPool_GetNextLoop True (first_pool base n start_loop 1) =
      Inr (start_loop 1, first_pool base n start_loop k)"
  using assms by (simp_all add: EventLoopThreadPool_GetNextLoop_def first_pool_def Let_def)

lemma first_opens:
  assumes "ac_pEventLoop a = base" and "2 \<le> n" and "start_loop 0 \<noteq> base"
  shows "rfold (server_step e) [Readable ((7, ENOERROR), zero_addr) None, Runs (start_loop 0)]
      (first_server a base strName (first_pool base n start_loop 0) 1 Map.empty [] (\<lambda>_. [])) =
    Inr (first_server a base strName (first_pool base n start_loop 1) 2 [conn_name strName 1 \<mapsto> 0]
      [first_conn (start_loop 0) (conn_name strName 1) eTCS_Connected True] (\<lambda>_. []))"
  using assms first_next(1) [of n base start_loop]
  by (simp add: first_server_def first_conn_def Acceptor_handleRead_def Socket_Accpet_def Sockets_Accept_def
      TcpServer_newConnection_def server_conn_new_def Socket_new_def Socket_GetFd_def GetLocalAddr_def
      Acceptor_SetNewConnectionCallback_def run_in_loop_def queue_functor_def run_functor_def on_conn_def
      server_conn_established_def first_pool_def Let_def fun_upd_idem_iff)

lemma first_closes:
  assumes "EventLoopThreadPool_GetNextLoop True p = Inr (l', p')" and "pl_pBaseLoop p = base" and "l \<noteq> base"
  shows "rfold (server_step e) [Closes 0, Runs base]
      (first_server a base strName p 2 [name \<mapsto> 0] [first_conn l name eTCS_Connected True] (\<lambda>_. [])) =
    Inr (first_server a base strName p' 2 Map.empty [first_conn l name eTCS_Connected False]
      ((\<lambda>_. [])(l' := [DestroyedFn 0])))"
  using assms
  by (simp add: first_server_def first_conn_def handle_close_def on_conn_def server_conn_close_def
      TcpServer_removeConnection_def run_in_loop_def queue_functor_def run_functor_def
      TcpServer_removeConnectionInLoop_def Let_def fun_eq_iff)

lemma first_destroyed:
  assumes "l \<noteq> l'"
  shows "server_step e (Runs l') (first_server a base strName p 2 Map.empty
      [first_conn l name eTCS_Connected False] ((\<lambda>_. [])(l' := [DestroyedFn 0]))) = Inl Aborted"
  using assms by (simp add: first_server_def first_conn_def run_functor_def on_conn_def server_conn_destroyed_def)



end
