(* ===== verification/ServerConnections.thy ===== *)
theory ServerConnections
  imports TcpServers
begin

text \<open>
  The connection inside the server. \<open>TcpServers\<close> keeps of every connection only its loop, its
  state and whether its channel waits for data; \<open>TcpConnections\<close> has the connection itself.
  \<open>server_view\<close> maps the one to the other, and what happens to a connection maps to what the
  server's model lets happen: a functional refinement, input by input and then run by run. The
  last section shows what the server's events leave out, a \<open>Send\<close> after the connection's end,
  and where it leads.
\<close>

section \<open>The server's view of a connection\<close>

definition reads :: "'cb channel \<Rightarrow> bool" where
  "reads ch \<longleftrightarrow> ch_nEvents ch AND READ_EVENT \<noteq> 0"

definition reading :: "'k conn \<Rightarrow> bool" where
  "reading s \<longleftrightarrow> (\<exists>ch. s_Channels s (c_pChannel s) = Some ch \<and> reads ch)"

text \<open>\<open>r\<close> supplies what never changes: the name, the descriptor and the two addresses.\<close>

definition server_view :: "server_conn \<Rightarrow> 'k conn \<Rightarrow> server_conn" where
  "server_view r s =
     r\<lparr>sc_pEventLoop := s_ThreadId s, sc_eConnectState := c_eConnectState s, sc_bEnabled := reading s\<rparr>"

lemma server_view_fields [simp]:
  "sc_pEventLoop (server_view r s) = s_ThreadId s"
  "sc_eConnectState (server_view r s) = c_eConnectState s"
  "sc_bEnabled (server_view r s) = reading s"
  by (simp_all add: server_view_def)

lemma server_view_cong:
  "s_ThreadId s' = s_ThreadId s \<Longrightarrow> c_eConnectState s' = c_eConnectState s \<Longrightarrow>
   s_Channels s' = s_Channels s \<Longrightarrow> c_pChannel s' = c_pChannel s \<Longrightarrow> server_view r s' = server_view r s"
  by (simp add: server_view_def reading_def)

lemma server_view_updates [simp]:
  "server_view r (s\<lparr>c_InputBuffer := b\<rparr>) = server_view r s"
  "server_view r (s\<lparr>c_OutputBuffer := b\<rparr>) = server_view r s"
  "server_view r (s\<lparr>w_Wire := d\<rparr>) = server_view r s"
  "server_view r (s\<lparr>w_ShutDown := sd\<rparr>) = server_view r s"
  "server_view r (s\<lparr>g_Accepted := d\<rparr>) = server_view r s"
  "server_view r (s\<lparr>g_bClosed := cl\<rparr>) = server_view r s"
  "server_view r (s\<lparr>l_bCallingFunctors := cl\<rparr>) = server_view r s"
  "server_view r (s\<lparr>l_vPendingFunctors := fs\<rparr>) = server_view r s"
  "server_view r (s\<lparr>c_vBatch := fs\<rparr>) = server_view r s"
  "server_view r (EventLoop_QueueInLoop tid f s) = server_view r s"
  "server_view r (queue_write_complete tid s) = server_view r s"
  "server_view r (Socket_ShutDownWrite s) = server_view r s"
  by (rule server_view_cong; simp add: queue_write_complete_def Socket_ShutDownWrite_def)+

lemma server_view_state:
  "server_view r (s\<lparr>c_eConnectState := st\<rparr>) = (server_view r s)\<lparr>sc_eConnectState := st\<rparr>"
  by (simp add: server_view_def reading_def)

text \<open>Waiting for data, through the four changes of the events wanted.\<close>

lemma reads_changes [simp]:
  "reads (enable_reading ch)" "reads (enable_writing ch) = reads ch"
  "reads (disable_writing ch) = reads ch" "\<not> reads (disable_all ch)"
  "reads (Channel_SetIndex i ch) = reads ch"
proof -
  have "(e OR READ_EVENT) AND READ_EVENT = READ_EVENT" for e
    by (simp add: bit.conj_disj_distrib2 and.assoc)
  then show "reads (enable_reading ch)" by (simp add: reads_def event_defs)
  have "(e OR WRITE_EVENT) AND READ_EVENT = e AND READ_EVENT" for e
    by (simp add: bit.conj_disj_distrib2 event_defs)
  then show "reads (enable_writing ch) = reads ch" by (simp add: reads_def)
  have "(NOT WRITE_EVENT) AND READ_EVENT = READ_EVENT" by (simp add: event_defs)
  then show "reads (disable_writing ch) = reads ch" by (simp add: reads_def and.assoc)
qed (simp_all add: reads_def NONE_EVENT_def)

section \<open>What the channel's operations do to it\<close>

text \<open>Telling the poller changes the channel's index only, whatever \<open>epoll_ctl\<close> does.\<close>

lemma EPoller_update_told:
  assumes "EPoller_update ctl op c s = Inr s'" and "s_Channels s c = Some ch"
  shows "\<exists>k. s' = told c ch k (s_mpChannel s) s"
  using assms told_same [OF assms(2)]
  by (auto simp: EPoller_update_def Let_def split: prod.splits if_splits)

lemma told_told [simp]: "told c ch k mp (told c ch' k' mp' s) = told c ch k mp s"
  by (simp add: told_def)

lemma told_put_chan [simp]: "told c ch k mp (put_chan c ch' s) = told c ch k mp s"
  by (simp add: told_def put_chan_def)

lemma put_chan_told [simp]: "put_chan c ch' (told c ch k mp s) = told c ch' k mp s"
  by (simp add: told_def put_chan_def)

lemma EPoller_UpdateChannel_told:
  assumes "EPoller_UpdateChannel ctl tid c s = Inr s'" and s: "s_Channels s c = Some ch"
  shows "\<exists>i k mp. s' = told c (Channel_SetIndex i ch) k mp s"
proof (cases "ch_nIndex ch = NEW \<or> ch_nIndex ch = DELETED")
  case True
  with assms obtain mp where
    u: "EPoller_update ctl EPOLL_CTL_ADD c (put_chan c (Channel_SetIndex ADDED ch) (s\<lparr>s_mpChannel := mp\<rparr>)) = Inr s'"
      (is "EPoller_update _ _ _ ?s = _")
    by (cases "ch_nIndex ch = NEW") (auto simp: EPoller_UpdateChannel_def Let_def rbind_Inr check_Inr
        assert_in_loop_Inr dest: meta_spec [of _ "s_mpChannel s"])
  from EPoller_update_told [OF u] show ?thesis by (auto simp: told_eqs)
next
  case False
  show ?thesis
  proof (cases "Channel_IsNoneEvent ch")
    case True
    with False assms obtain s1 where s1: "EPoller_update ctl EPOLL_CTL_DEL c s = Inr s1"
      "s' = put_chan c (Channel_SetIndex DELETED ch) s1"
      by (auto simp: EPoller_UpdateChannel_def Let_def rbind_Inr check_Inr assert_in_loop_Inr)
    from EPoller_update_told [OF s1(1) s] s1(2) have "\<exists>k. s' = told c (Channel_SetIndex DELETED ch) k (s_mpChannel s) s"
      by auto
    then show ?thesis by blast
  next
    case not: False
    with False assms have "EPoller_update ctl EPOLL_CTL_MOD c s = Inr s'"
      by (auto simp: EPoller_UpdateChannel_def Let_def check_Inr assert_in_loop_Inr)
    from EPoller_update_told [OF this s] SetIndex_same [of ch "ch_nIndex ch"] show ?thesis by metis
  qed
qed

lemma Channel_update_told:
  assumes "Channel_update ctl tid c (put_chan c ch s) = Inr s'"
  shows "\<exists>i k mp. s' = told c (Channel_SetIndex i ch) k mp s"
proof -
  from assms have "EPoller_UpdateChannel ctl tid c (put_chan c ch s) = Inr s'"
    by (auto simp: Channel_update_def EventLoop_UpdateChannel_def EventLoop_AssertInLoopThread_def
        check_Inr assert_in_loop_Inr)
  from EPoller_UpdateChannel_told [OF this] show ?thesis by auto
qed

lemma EPoller_RemoveChannel_told:
  assumes "EPoller_RemoveChannel ctl tid c s = Inr s'"
  shows "\<exists>ch i k mp. s_Channels s c = Some ch \<and> s' = told c (Channel_SetIndex i ch) k mp s"
proof -
  from assms obtain ch s1 where ch: "s_Channels s c = Some ch"
    and s1: "s' = put_chan c (Channel_SetIndex NEW ch) s1"
    and u: "EPoller_update ctl EPOLL_CTL_DEL c (s\<lparr>s_mpChannel := (s_mpChannel s)(ch_Fd ch := None)\<rparr>) = Inr s1 \<or>
      s1 = s\<lparr>s_mpChannel := (s_mpChannel s)(ch_Fd ch := None)\<rparr>"
    by (auto simp: EPoller_RemoveChannel_def with_chan_Inr Let_def check_Inr rbind_Inr assert_in_loop_Inr
        split: if_splits)
  from u show ?thesis
  proof
    assume "EPoller_update ctl EPOLL_CTL_DEL c (s\<lparr>s_mpChannel := (s_mpChannel s)(ch_Fd ch := None)\<rparr>) = Inr s1"
    from EPoller_update_told [OF this] ch s1
    have "\<exists>k. s' = told c (Channel_SetIndex NEW ch) k ((s_mpChannel s)(ch_Fd ch := None)) s"
      by (auto simp: told_eqs)
    with ch show ?thesis by blast
  next
    assume "s1 = s\<lparr>s_mpChannel := (s_mpChannel s)(ch_Fd ch := None)\<rparr>"
    then show ?thesis using s1 ch by (auto simp: told_eqs)
  qed
qed

text \<open>On the connection's own channel, hence the view: a told state differs in the channel alone.\<close>

lemma server_view_told:
  "server_view r (told (c_pChannel s) ch k mp s) = (server_view r s)\<lparr>sc_bEnabled := reads ch\<rparr>"
  by (simp add: server_view_def reading_def)

lemma change_view:
  assumes "with_chan (c_pChannel s) s (\<lambda>ch.
      Channel_update ctl tid (c_pChannel s) (put_chan (c_pChannel s) (f ch) s)) = Inr s'"
    and "\<And>ch. reads (f ch) = (if keep then reads ch else en)"
  shows "server_view r s' = (server_view r s)\<lparr>sc_bEnabled := (if keep then reading s else en)\<rparr>"
proof -
  from assms(1) obtain ch where ch: "s_Channels s (c_pChannel s) = Some ch"
    and u: "Channel_update ctl tid (c_pChannel s) (put_chan (c_pChannel s) (f ch) s) = Inr s'"
    by (auto simp: with_chan_Inr)
  from Channel_update_told [OF u] ch assms(2) show ?thesis
    by (auto simp: server_view_told reading_def)
qed

lemma server_view_same [simp]: "(server_view r s)\<lparr>sc_bEnabled := reading s\<rparr> = server_view r s"
  by (simp add: server_view_def)

lemma channel_views:
  "Channel_EnableReading ctl tid (c_pChannel s) s = Inr s' \<Longrightarrow>
     server_view r s' = (server_view r s)\<lparr>sc_bEnabled := True\<rparr>"
  "Channel_EnableWriting ctl tid (c_pChannel s) s = Inr s' \<Longrightarrow> server_view r s' = server_view r s"
  "Channel_DisableWriting ctl tid (c_pChannel s) s = Inr s' \<Longrightarrow> server_view r s' = server_view r s"
  "Channel_DisableAll ctl tid (c_pChannel s) s = Inr s' \<Longrightarrow>
     server_view r s' = (server_view r s)\<lparr>sc_bEnabled := False\<rparr>"
  unfolding Channel_change_defs
  using change_view [where f = enable_reading and keep = False and en = True]
    change_view [where f = enable_writing and keep = True]
    change_view [where f = disable_writing and keep = True]
    change_view [where f = disable_all and keep = False and en = False]
  by simp_all

lemma RemoveChannel_view:
  assumes "EventLoop_RemoveChannel ctl tid (c_pChannel s) s = Inr s'"
  shows "server_view r s' = server_view r s"
proof -
  from assms have "EPoller_RemoveChannel ctl tid (c_pChannel s) s = Inr s'"
    by (auto simp: EventLoop_RemoveChannel_def EventLoop_AssertInLoopThread_def with_chan_Inr
        check_Inr assert_in_loop_Inr)
  from EPoller_RemoveChannel_told [OF this] obtain ch i k mp where
    "s_Channels s (c_pChannel s) = Some ch" "s' = told (c_pChannel s) (Channel_SetIndex i ch) k mp s"
    by blast
  moreover from this have "reads ch = reading s" by (simp add: reading_def)
  ultimately show ?thesis by (simp add: server_view_told)
qed

section \<open>What the connection's operations do to it\<close>

text \<open>
  Whatever becomes of the data: sending, writing and the half-close leave the view alone. The
  facts are about calls that return; \<open>TcpConnections\<close> proves that they do.
\<close>

lemmas conn_results = with_chan_Inr rbind_Inr check_Inr assert_in_loop_Inr EventLoop_AssertInLoopThread_def

lemma send_rest_view:
  assumes "send_rest ctl tid rest s = Inr s'"
  shows "server_view r s' = server_view r s"
proof (cases "rest = []")
  case False
  with assms obtain b where
    "Channel_EnableWriting ctl tid (c_pChannel s) (s\<lparr>c_OutputBuffer := b\<rparr>) = Inr s' \<or>
     s' = s\<lparr>c_OutputBuffer := b\<rparr>"
    by (auto simp: send_rest_def Let_def conn_results split: if_splits)
  with channel_views(2) [of ctl tid "s\<lparr>c_OutputBuffer := b\<rparr>" s' r] show ?thesis by auto
qed (use assms in \<open>simp add: send_rest_def\<close>)

lemma sendInLoop_view:
  assumes "Connection_sendInLoop ctl tid w d s = Inr s'"
  shows "server_view r s' = server_view r s"
proof (cases "c_eConnectState s = eTCS_Disconnected")
  case True
  with assms show ?thesis by (simp add: Connection_sendInLoop_def conn_results)
next
  case False
  with assms obtain t rest where "send_rest ctl tid rest t = Inr s'" "server_view r t = server_view r s"
    by (auto simp: Connection_sendInLoop_def Let_def conn_results split: if_splits io_write.splits)
  with send_rest_view [of ctl tid rest t s' r] show ?thesis by simp
qed

lemma shutDownInLoop_view:
  "Connection_shutDownInLoop tid s = Inr s' \<Longrightarrow> server_view r s' = server_view r s"
  by (auto simp: Connection_shutDownInLoop_def conn_results split: if_splits)

lemma Send_view:
  "Connection_Send ctl tid w d s = Inr s' \<Longrightarrow> server_view r s' = server_view r s"
  by (auto simp: Connection_Send_def dest: sendInLoop_view split: if_splits)

lemma handleWrite_view:
  assumes "Connection_handleWrite ctl tid w s = Inr s'"
  shows "server_view r s' = server_view r s"
proof -
  let ?t = "\<lambda>b d. s\<lparr>c_OutputBuffer := b, w_Wire := d\<rparr>"
  from assms consider "s' = s" | b d where "s' = ?t b d"
    | b d s2 where "Channel_DisableWriting ctl tid (c_pChannel s) (?t b d) = Inr s2"
      "Connection_shutDownInLoop tid (queue_write_complete tid s2) = Inr s' \<or> s' = queue_write_complete tid s2"
    by (auto simp: Connection_handleWrite_def Let_def conn_results split: if_splits io_write.splits nat.splits)
  then show ?thesis
  proof cases
    case (3 b d s2)
    from channel_views(3) [of ctl tid "?t b d" s2 r] 3 show ?thesis
      by (auto dest: shutDownInLoop_view [where r = r])
  qed simp_all
qed

lemma ShutDown_view:
  assumes "Connection_ShutDown tid s = Inr s'"
  shows "server_view r s' = server_conn_shutdown (server_view r s)"
proof (cases "Connection_IsConnected s")
  case True
  let ?s = "s\<lparr>c_eConnectState := eTCS_Disconnecting\<rparr>"
  from assms True have "server_view r s' = server_view r ?s"
    by (auto simp: Connection_ShutDown_def Connection_setConnectedState_def Let_def
        dest!: shutDownInLoop_view split: if_splits)
  with True show ?thesis
    by (simp add: server_view_state server_conn_shutdown_def Connection_IsConnected_def)
next
  case False
  with assms show ?thesis
    by (simp add: Connection_ShutDown_def server_conn_shutdown_def Connection_IsConnected_def)
qed

lemma ConnectedDestroyed_view:
  assumes "Connection_ConnectedDestroyed ctl tid s = Inr s'"
  shows "server_conn_destroyed tid (server_view r s) = Inr (server_view r s')"
proof -
  let ?s = "s\<lparr>c_eConnectState := eTCS_Disconnected\<rparr>"
  from assms obtain s1 where g: "tid = s_ThreadId s"
      "c_eConnectState s = eTCS_Connected \<or> c_eConnectState s = eTCS_Disconnecting"
    and s1: "Channel_DisableAll ctl tid (c_pChannel ?s) ?s = Inr s1"
    and s': "EventLoop_RemoveChannel ctl tid (c_pChannel s1) s1 = Inr s'"
    by (auto simp: Connection_ConnectedDestroyed_def Connection_setConnectedState_def conn_results
        EventLoop_IsInLoopThread_def)
  from channel_views(4) [OF s1] RemoveChannel_view [OF s'] g show ?thesis
    by (auto simp: server_conn_destroyed_def server_view_state)
qed

text \<open>A new connection: \<open>r\<close> is the record the server makes for the same descriptor.\<close>

lemma server_view_new:
  assumes "Connection_new l c fd = Inr s" and "server_conn_new (s_ThreadId l) strName fd la pa = Inr r"
  shows "server_view r s = r"
proof -
  have "s_ThreadId s = s_ThreadId l \<and> c_eConnectState s = eTCS_Connecting \<and>
      s_Channels s (c_pChannel s) = Some (Connection_channel (s_Self l) fd)"
    using assms(1) by (auto simp: Connection_new_def check_Inr event_loop.defs conn.defs put_chan_def)
  with assms(2) show ?thesis
    by (auto simp: server_conn_new_def server_view_def rbind_Inr reading_def reads_def)
qed

section \<open>The interface to the user, and the simulation\<close>

text \<open>
  What the user's callbacks may do to the view: nothing, or what \<open>ShutDown\<close> does. That is all
  that \<open>Send\<close>, \<open>ShutDown\<close> and the buffers' operations can do.
\<close>

definition may_shut :: "server_conn \<Rightarrow> server_conn \<Rightarrow> bool" where
  "may_shut r r' \<longleftrightarrow> r' = r \<or> r' = server_conn_shutdown r"

lemma may_shut_refl [simp]: "may_shut r r"
  by (simp add: may_shut_def)

text \<open>What the server sees of an input.\<close>

fun server_sees :: "conn_input \<Rightarrow> 'k conn \<Rightarrow> server_conn \<Rightarrow> server_conn res" where
  "server_sees InEstablished s r = server_conn_established (sc_pEventLoop r) r"
| "server_sees (InRead io t) s r =
     (if io = ReadBytes [] then server_conn_close (sc_pEventLoop r) r else Inr r)"
| "server_sees InClose s r = server_conn_close (sc_pEventLoop r) r"
| "server_sees (InShutDown tid) s r = Inr (server_conn_shutdown r)"
| "server_sees (InRun w) s r =
     (case c_vBatch s of
        ConnectedDestroyed # fs \<Rightarrow> server_conn_destroyed (sc_pEventLoop r) r
      | _ \<Rightarrow> Inr r)"
| "server_sees _ s r = Inr r"

locale server_user = connection_user interest user
  for interest :: "'k \<Rightarrow> int \<Rightarrow> (events \<times> nat) option" and user +
  assumes user_view: "user ev s = Inr s' \<Longrightarrow> may_shut (server_view r s) (server_view r s')"
begin

lemma handleClose_view:
  assumes "Connection_handleClose ctl user tid s = Inr s'"
  shows "\<exists>r1. server_conn_close tid (server_view r s) = Inr r1 \<and> may_shut r1 (server_view r s')"
proof -
  let ?s = "s\<lparr>g_bClosed := True\<rparr>"
  from assms obtain s1 where g: "tid = s_ThreadId s"
      "c_eConnectState s = eTCS_Connected \<or> c_eConnectState s = eTCS_Disconnecting"
    and s1: "Channel_DisableAll ctl tid (c_pChannel ?s) ?s = Inr s1" and u: "user OnClose s1 = Inr s'"
    by (auto simp: Connection_handleClose_def conn_results EventLoop_IsInLoopThread_def split: if_splits)
  from channel_views(4) [OF s1, of r] user_view [OF u, of r] g show ?thesis
    by (auto simp: server_conn_close_def)
qed

lemma Established_view:
  assumes "Connection_ConnectedEstablished ctl user tid s = Inr s'"
  shows "\<exists>r1. server_conn_established tid (server_view r s) = Inr r1 \<and> may_shut r1 (server_view r s')"
proof -
  let ?s = "s\<lparr>c_eConnectState := eTCS_Connected\<rparr>"
  from assms obtain s1 where g: "tid = s_ThreadId s" "c_eConnectState s = eTCS_Connecting"
    and s1: "Channel_EnableReading ctl tid (c_pChannel ?s) ?s = Inr s1"
    and u: "user OnConnection s1 = Inr s' \<or> s' = s1"
    by (auto simp: Connection_ConnectedEstablished_def Connection_setConnectedState_def conn_results
        EventLoop_IsInLoopThread_def split: if_splits)
  have "may_shut (server_view r s1) (server_view r s')" using u user_view by auto
  with channel_views(1) [OF s1, of r] g show ?thesis
    by (auto simp: server_conn_established_def server_view_state)
qed

lemma handleRead_view:
  assumes "Connection_handleRead ctl user tid io t s = Inr s'"
  shows "\<exists>r1. (if io = ReadBytes [] then server_conn_close tid (server_view r s) else Inr (server_view r s)) = Inr r1 \<and>
    may_shut r1 (server_view r s')"
proof -
  from assms obtain n er b where rd: "Buffer_ReadFd io (c_InputBuffer s) = Inr (n, er, b)"
    and pos: "0 < n \<Longrightarrow> user (OnMessage t) (s\<lparr>c_InputBuffer := b\<rparr>) = Inr s' \<or> s' = s\<lparr>c_InputBuffer := b\<rparr>"
    and zero: "n = 0 \<Longrightarrow> Connection_handleClose ctl user tid (s\<lparr>c_InputBuffer := b\<rparr>) = Inr s'"
    and neg: "n < 0 \<Longrightarrow> s' = s\<lparr>c_InputBuffer := b\<rparr>"
    by (fastforce simp: Connection_handleRead_def Connection_handleError_def rbind_Inr Let_def split: if_splits)
  have n: "n = 0 \<longleftrightarrow> io = ReadBytes []"
    using rd by (auto simp: Buffer_ReadFd_def rbind_Inr Let_def split: io_read.splits if_splits)
  show ?thesis
  proof (cases "io = ReadBytes []")
    case True
    with n zero have "Connection_handleClose ctl user tid (s\<lparr>c_InputBuffer := b\<rparr>) = Inr s'" by simp
    from handleClose_view [OF this, of r] True show ?thesis by simp
  next
    case False
    with n pos neg have "user (OnMessage t) (s\<lparr>c_InputBuffer := b\<rparr>) = Inr s' \<or> s' = s\<lparr>c_InputBuffer := b\<rparr>"
      by (cases n "0 :: int" rule: linorder_cases) auto
    with user_view [of "OnMessage t" "s\<lparr>c_InputBuffer := b\<rparr>" s' r] False show ?thesis by auto
  qed
qed

lemma runFunctor_view:
  assumes "Connection_runFunctor ctl user tid w f s = Inr s'"
  shows "\<exists>r1. (if f = ConnectedDestroyed then server_conn_destroyed tid (server_view r s) else Inr (server_view r s)) = Inr r1 \<and>
    may_shut r1 (server_view r s')"
  using assms user_view [of OnWriteComplete s s' r] sendInLoop_view [of ctl tid w _ s s' r]
    shutDownInLoop_view [of tid s s' r] ConnectedDestroyed_view [of ctl tid s s' r]
  by (cases f) (auto simp: Connection_runFunctor_def split: if_splits)

lemma exec_view:
  assumes "conn_exec ctl user ev s = Inr s'" and nd: "ev \<noteq> InDestroy"
  shows "\<exists>r1. server_sees ev s (server_view r s) = Inr r1 \<and> may_shut r1 (server_view r s')"
proof (cases ev)
  case InEstablished
  with assms Established_view show ?thesis by simp
next
  case (InRead io t)
  with assms handleRead_view [of ctl _ io t s s' r] show ?thesis by simp
next
  case (InWritable w)
  with assms handleWrite_view [of ctl _ w s s' r] show ?thesis by auto
next
  case InClose
  with assms handleClose_view show ?thesis by simp
next
  case InError
  with assms show ?thesis by (simp add: Connection_handleError_def)
next
  case (InSend tid w d)
  with assms Send_view [of ctl tid w d s s' r] show ?thesis by auto
next
  case (InShutDown tid)
  with assms ShutDown_view [of tid s s' r] show ?thesis by auto
next
  case InTake
  with assms show ?thesis by (auto simp: take_functors_def)
next
  case (InRun w)
  show ?thesis
  proof (cases "c_vBatch s")
    case Nil
    with InRun assms show ?thesis by simp
  next
    case (Cons f fs)
    with InRun assms have "Connection_runFunctor ctl user (s_ThreadId s) w f (s\<lparr>c_vBatch := fs\<rparr>) = Inr s'" by simp
    from runFunctor_view [OF this, of r] InRun Cons show ?thesis by (cases f) auto
  qed
next
  case InDone
  with assms show ?thesis by auto
next
  case InDestroy
  with nd show ?thesis by simp
qed

end

lemma default_user_view: "default_user ev s = Inr s' \<Longrightarrow> server_view r s' = server_view r s"
  by (cases ev) (auto simp: default_user_def DefaultConnectionCallBack_def DefaultMessageCallBack_def)

interpretation default_server: server_user interest default_user for interest
  by unfold_locales (simp add: default_user_view)

section \<open>Runs\<close>

text \<open>The moves of the server's record of a connection.\<close>

inductive server_conn_move :: "server_conn \<Rightarrow> server_conn \<Rightarrow> bool" where
  established: "server_conn_established (sc_pEventLoop r) r = Inr r' \<Longrightarrow> server_conn_move r r'"
| closes: "server_conn_close (sc_pEventLoop r) r = Inr r' \<Longrightarrow> server_conn_move r r'"
| destroyed: "server_conn_destroyed (sc_pEventLoop r) r = Inr r' \<Longrightarrow> server_conn_move r r'"
| shut_down: "server_conn_move r (server_conn_shutdown r)"

inductive_cases server_conn_moveE: "server_conn_move r r'"

lemma server_sees_move:
  assumes "server_sees ev s r = Inr r1"
  shows "r1 = r \<or> server_conn_move r r1"
  using assms
  by (cases ev) (auto intro: server_conn_move.intros split: if_splits list.splits conn_functor.splits)

lemma seen_moves:
  assumes "server_sees ev s r = Inr r1" and "may_shut r1 r2"
  shows "server_conn_move\<^sup>*\<^sup>* r r2"
  using server_sees_move [OF assms(1)] assms(2) shut_down [of r1]
  by (auto simp: may_shut_def intro: rtranclp.rtrancl_into_rtrancl)

text \<open>The states of a connection in the order they come.\<close>

fun stage :: "conn_state \<Rightarrow> nat" where
  "stage eTCS_Connecting = 0"
| "stage eTCS_Connected = 1"
| "stage eTCS_Disconnecting = 2"
| "stage eTCS_Disconnected = 3"

lemma server_conn_move_stage: "server_conn_move r r' \<Longrightarrow> stage (sc_eConnectState r) \<le> stage (sc_eConnectState r')"
  by (erule server_conn_moveE)
    (auto simp: server_conn_established_def server_conn_close_def server_conn_destroyed_def
      server_conn_shutdown_def check_Inr assert_in_loop_Inr)

lemma server_conn_moves_stage:
  "server_conn_move\<^sup>*\<^sup>* r r' \<Longrightarrow> stage (sc_eConnectState r) \<le> stage (sc_eConnectState r')"
  by (induction rule: rtranclp_induct) (auto dest: server_conn_move_stage)

lemma dead_stays: "conn_move ctl user s s' \<Longrightarrow> \<not> c_bAlive s \<Longrightarrow> \<not> c_bAlive s'"
  by (erule conn_moveE, rename_tac ev, case_tac ev)
    (auto simp: take_functors_def Connection_runFunctor_def split: list.splits)

lemma conn_run_seen:
  assumes "reach (conn_start interest) (conn_move ctl user) s" and u: "server_user interest user"
    and "c_bAlive s"
  shows "\<exists>s0. conn_start interest s0 \<and> server_conn_move\<^sup>*\<^sup>* (server_view r s0) (server_view r s)"
  using assms(1,3)
proof (induction rule: reach.induct)
  case (reach_init s)
  then show ?case by blast
next
  case (reach_step s s')
  then have "c_bAlive s" using dead_stays by blast
  with reach_step.IH obtain s0 where s0: "conn_start interest s0"
    "server_conn_move\<^sup>*\<^sup>* (server_view r s0) (server_view r s)" by blast
  from reach_step.hyps(2) obtain ev where ev: "conn_exec ctl user ev s = Inr s'" by (rule conn_moveE)
  have "ev \<noteq> InDestroy" using ev reach_step.prems by (auto simp: Connection_destroy_def rbind_Inr)
  from server_user.exec_view [OF u ev this, of r] seen_moves s0 show ?case
    by (meson rtranclp_trans)
qed

section \<open>A connection that ends twice\<close>

text \<open>
  The end of a connection does not change its state, so \<open>Send\<close> goes on accepting data. When the
  write fails, as it does on a connection the peer has reset, the rest is queued and the channel
  that \<open>handleClose\<close> had disabled is given back to the poller.
\<close>

lemma EnableWriting_watched:
  assumes "chan_ok interest s" and "epoll_ok ctl interest"
  shows "ensures {Aborted} (\<lambda>s'. keeps_rest s s' \<and>
      (\<exists>ev. EPoller_view interest s' (c_pChannel s') = Some ev \<and> ev AND WRITE_EVENT \<noteq> 0))
    (Channel_EnableWriting ctl (s_ThreadId s) (c_pChannel s) s)"
  unfolding Channel_EnableWriting_def
proof (rule ensures_mono [OF change_ok [OF assms]], simp)
  fix s'
  assume "\<exists>ch i. s_Channels s (c_pChannel s) = Some ch \<and>
    s_Channels s' (c_pChannel s) = Some (Channel_SetIndex i (enable_writing ch)) \<and> i \<noteq> NEW \<and>
    after_change interest s (Channel_IsWriting (enable_writing ch)) s'"
  then obtain ch i where
    ch: "s_Channels s' (c_pChannel s) = Some (Channel_SetIndex i (enable_writing ch))" "i \<noteq> NEW"
    and a: "after_change interest s True s'" by auto
  from after_change_keeps [OF a] have k: "keeps_rest s s'" "chan_ok interest s'" by auto
  then have "c_pChannel s' = c_pChannel s" "ep_inv interest {} s'" by (simp_all add: keeps_rest_def chan_ok_def)
  with k ch show "keeps_rest s s' \<and>
      (\<exists>ev. EPoller_view interest s' (c_pChannel s') = Some ev \<and> ev AND WRITE_EVENT \<noteq> 0)"
    using IsWriting_changes(2) [of ch] by (simp add: EPoller_view_eq Channel_IsWriting_def)
qed

lemma Send_rearms:
  assumes inv: "conn_inv interest s" and ctl: "epoll_ok ctl interest"
    and st: "c_eConnectState s = eTCS_Connected" and wr: "\<not> writing s"
    and d: "d \<noteq> []" "Buffer_room (length d) (c_OutputBuffer s)"
  shows "ensures {Aborted} (\<lambda>s'. c_eConnectState s' = eTCS_Connected \<and> c_bAlive s' \<and>
      c_CloseCallBack s' = c_CloseCallBack s \<and>
      (\<exists>ev. EPoller_view interest s' (c_pChannel s') = Some ev \<and> ev AND WRITE_EVENT \<noteq> 0))
    (Connection_Send ctl (s_ThreadId s) WriteFails d s)"
proof -
  from inv have c: "chan_ok interest s" and b: "buffer_inv (c_OutputBuffer s)" and alive: "c_bAlive s"
    by (simp_all add: conn_inv_def)
  from Append_after [OF b d(2)] obtain b' where b': "Buffer_Append d (c_OutputBuffer s) = Inr b'"
    by (auto simp: buffer_after_def)
  from chan_ok_live [OF c] wr obtain ch where ch: "s_Channels s (c_pChannel s) = Some ch" "\<not> Channel_IsWriting ch"
    by (auto simp: writing_def)
  let ?t = "s\<lparr>g_Accepted := g_Accepted s @ d, c_OutputBuffer := b'\<rparr>"
  have "Connection_Send ctl (s_ThreadId s) WriteFails d s = Channel_EnableWriting ctl (s_ThreadId ?t) (c_pChannel ?t) ?t"
    using st ch d(1) b' by (simp add: Connection_Send_def Connection_IsConnected_def
        EventLoop_IsInLoopThread_def Connection_sendInLoop_def send_rest_def Let_def)
  moreover have "chan_ok interest ?t" using c by simp
  ultimately show ?thesis
    using EnableWriting_watched [of interest ?t ctl] ctl st alive
    by (auto elim!: ensures_mono simp: keeps_rest_def)
qed

text \<open>The server with one I/O thread, up to the first end of its first connection.\<close>

lemma single_next:
  "EventLoopThreadPool_GetNextLoop True (first_pool base 1 start_loop 0) =
   Inr (start_loop 0, first_pool base 1 start_loop 0)"
  by (simp add: EventLoopThreadPool_GetNextLoop_def first_pool_def Let_def)

lemma single_closes:
  assumes "ac_pEventLoop a = base" and "start_loop 0 \<noteq> base"
  shows "rfold (server_step e) [Readable ((7, ENOERROR), zero_addr) None, Runs (start_loop 0), Closes 0]
      (first_server a base strName (first_pool base 1 start_loop 0) 1 Map.empty [] (\<lambda>_. [])) =
    Inr (first_server a base strName (first_pool base 1 start_loop 0) 2 [conn_name strName 1 \<mapsto> 0]
      [first_conn (start_loop 0) (conn_name strName 1) eTCS_Connected False] ((\<lambda>_. [])(base := [RemoveFn 0])))"
  using assms single_next [of base start_loop]
  by (simp add: first_server_def first_conn_def Acceptor_handleRead_def Socket_Accpet_def Sockets_Accept_def
      TcpServer_newConnection_def server_conn_new_def Socket_new_def Socket_GetFd_def GetLocalAddr_def
      Acceptor_SetNewConnectionCallback_def run_in_loop_def queue_functor_def run_functor_def on_conn_def
      server_conn_established_def handle_close_def server_conn_close_def TcpServer_removeConnection_def
      first_pool_def Let_def fun_eq_iff)

lemma single_closes_again:
  assumes "start_loop 0 \<noteq> base"
  shows "rbind (handle_close 0 (first_server a base strName (first_pool base 1 start_loop 0) 2 [name \<mapsto> 0]
      [first_conn (start_loop 0) name eTCS_Connected False] ((\<lambda>_. [])(base := [RemoveFn 0]))))
    (rfold (server_step e) [Runs base, Runs base]) = Inl AssertFailed"
  using assms single_next [of base start_loop]
  by (simp add: first_server_def first_conn_def handle_close_def on_conn_def server_conn_close_def
      TcpServer_removeConnection_def run_in_loop_def queue_functor_def run_functor_def
      TcpServer_removeConnectionInLoop_def first_pool_def Let_def)

section \<open>Properties\<close>



text \<open>Seen by the server a connection only ever goes forward.\<close>

theorem connection_goes_forward:
  assumes "reach (conn_start interest) (conn_move ctl user) s" and "server_user interest user"
    and "conn_move ctl user s s'" and "c_bAlive s'"
  shows "stage (c_eConnectState s) \<le> stage (c_eConnectState s')"
proof -
  obtain r :: server_conn where "True" by simp
  from assms(3) obtain ev where ev: "conn_exec ctl user ev s = Inr s'" by (rule conn_moveE)
  have "ev \<noteq> InDestroy" using ev assms(4) by (auto simp: Connection_destroy_def rbind_Inr)
  from server_user.exec_view [OF assms(2) ev this, of r] seen_moves
  have "server_conn_move\<^sup>*\<^sup>* (server_view r s) (server_view r s')" by blast
  from server_conn_moves_stage [OF this] show ?thesis by simp
qed

text \<open>
  C14: A connection can end twice, and then the server aborts. In a server with one I/O thread the
  first connection has been accepted and closed, and the base loop has not removed it yet. Its
  state is still \<open>Connected\<close>: when its channel waits for nothing, a \<open>Send\<close> in its loop's thread
  whose write fails makes the poller watch the descriptor again, and a hang-up then calls
  \<open>handleClose\<close> once more. If it does so before the base loop has turned,
  \<open>removeConnectionInLoop\<close> runs twice and its assertion that one entry was erased fails.
\<close>

theorem server_closed_twice_asserts:
  assumes "Acceptor_new False socket setsockopt bind base addr = Inr (a, lg)"
    and "server_started e a base addr 1 start_loop = Inr sv" and "start_loop 0 \<noteq> base"
    and "rfold (server_step e) [Readable ((7, ENOERROR), zero_addr) None, Runs (start_loop 0), Closes 0] sv = Inr t"
    and "reach (conn_start interest) (conn_move ctl user) s" and "connection_user interest user"
    and "epoll_ok ctl interest" and "c_bAlive s" and "c_CloseCallBack s"
    and "server_view r s = sv_Conns t ! 0" and "\<not> writing s"
    and "d \<noteq> []" and "Buffer_room (length d) (c_OutputBuffer s)"
  shows "ensures {Aborted} (\<lambda>s'. conn_allowed InClose s' \<and>
        (\<exists>ev. EPoller_view interest s' (c_pChannel s') = Some ev \<and> ev AND WRITE_EVENT \<noteq> 0))
      (conn_exec ctl user (InSend (s_ThreadId s) WriteFails d) s) \<and>
    rbind (handle_close 0 t) (rfold (server_step e) [Runs base, Runs base]) = Inl AssertFailed"
proof
  let ?p = "first_pool base 1 start_loop 0" and ?n = "InetAddress_ToHostPort e addr"
  have a: "ac_pEventLoop a = base" "\<not> ac_bListenning a"
    using assms(1)
    by (auto simp: Acceptor_new_def CreateNonBlockingOrDie_def Socket_new_def rbind_Inr check_Inr Let_def)
  have "sv = first_server a base ?n ?p 1 Map.empty [] (\<lambda>_. [])"
    using assms(2) server_started_state [OF a(1), of 1 e addr start_loop] a(2)
    by (auto simp: TcpServer_new_def first_server_def first_pool_def)
  with assms(4) single_closes [where start_loop = start_loop and e = e and strName = ?n, OF a(1) assms(3)] have
    t: "t = first_server a base ?n ?p 2 [conn_name ?n 1 \<mapsto> 0]
      [first_conn (start_loop 0) (conn_name ?n 1) eTCS_Connected False] ((\<lambda>_. [])(base := [RemoveFn 0]))"
    by simp
  show "rbind (handle_close 0 t) (rfold (server_step e) [Runs base, Runs base]) = Inl AssertFailed"
    unfolding t by (rule single_closes_again [where start_loop = start_loop, OF assms(3)])
  have "sc_eConnectState (server_view r s) = eTCS_Connected"
    unfolding assms(10) t by (simp add: first_server_def first_conn_def)
  then have "c_eConnectState s = eTCS_Connected" by simp
  from Send_rearms [OF conn_reach_inv [OF assms(5-8)] assms(7) this assms(11-13)] assms(9)
  show "ensures {Aborted} (\<lambda>s'. conn_allowed InClose s' \<and>
        (\<exists>ev. EPoller_view interest s' (c_pChannel s') = Some ev \<and> ev AND WRITE_EVENT \<noteq> 0))
      (conn_exec ctl user (InSend (s_ThreadId s) WriteFails d) s)"
    by (auto elim!: ensures_mono simp: is_open_def)
qed

text \<open>
  The callbacks of a connection whose server is on another thread: at its end the server only
  queues a functor in its own loop.
\<close>

definition remote_user :: "'k conn_user" where
  "remote_user ev s = Inr (case ev of OnMessage _ \<Rightarrow> DefaultMessageCallBack s | _ \<Rightarrow> s)"

interpretation remote_callbacks: server_user interest remote_user for interest
proof unfold_locales
  show "ensures {Aborted} (conn_inv interest) (remote_user ev s)" if "conn_inv interest s" for s ev
    using that by (cases ev) (simp_all add: remote_user_def DefaultMessageCallBack_def conn_inv_def)
  show "may_shut (server_view r s) (server_view r s')" if "remote_user ev s = Inr s'" for ev s s' r
    using that by (cases ev) (auto simp: remote_user_def DefaultMessageCallBack_def)
qed

text \<open>A connection on thread 1 that has been established and closed.\<close>

definition closed_conn :: "(int \<Rightarrow> (events \<times> nat) option) conn" where
  "closed_conn = demo_up\<lparr>s_Channels := [3 \<mapsto> (Connection_channel 0 5)\<lparr>ch_nEvents := 0, ch_nIndex := 2\<rparr>],
     s_Kernel := (\<lambda>_. None), g_bClosed := True\<rparr>"

lemma closed_conn_reach: "reach (conn_start demo_interest) (conn_move demo_ctl remote_user) closed_conn"
proof -
  have "conn_exec demo_ctl remote_user InEstablished demo_conn = Inr demo_up"
    by (simp add: Connection_ConnectedEstablished_def conn_eval demo_conn_def demo_up_def remote_user_def)
  moreover have "conn_allowed InEstablished demo_conn" by (simp add: demo_conn_def)
  ultimately have "reach (conn_start demo_interest) (conn_move demo_ctl remote_user) demo_up"
    by (blast intro: reach_once demo_conn_start conn_input)
  moreover have "conn_exec demo_ctl remote_user InClose demo_up = Inr closed_conn"
    by (simp add: Connection_handleClose_def conn_eval closed_conn_def demo_up_def demo_conn_def
        remote_user_def fun_eq_iff)
  moreover have "conn_allowed InClose demo_up" by (simp add: demo_up_def demo_conn_def is_open_def)
  ultimately show ?thesis by (blast intro: reach_step conn_input)
qed

theorem server_closed_twice_asserts_witness:
  "\<exists>a sv t s. Acceptor_new False (3, ENOERROR) (\<lambda>_ _ _. (0, ENOERROR)) (\<lambda>_ _. (0, ENOERROR)) 2 demo_listen = Inr (a, []) \<and>
     server_started LittleEndian a 2 demo_listen 1 (\<lambda>i. 1 + i) = Inr sv \<and>
     rfold (server_step LittleEndian) [Readable ((7, ENOERROR), zero_addr) None, Runs 1, Closes 0] sv = Inr t \<and>
     ensures {Aborted} (conn_allowed InClose) (conn_exec demo_ctl remote_user (InSend 1 WriteFails [1]) s) \<and>
     rbind (handle_close 0 t) (rfold (server_step LittleEndian) [Runs 2, Runs 2]) = Inl AssertFailed"
proof -
  let ?l = "\<lambda>i. 1 + i :: nat" and ?n = "InetAddress_ToHostPort LittleEndian demo_listen"
  let ?new = "Acceptor_new False (3, ENOERROR) (\<lambda>_ _ _. (0, ENOERROR)) (\<lambda>_ _. (0, ENOERROR)) 2 demo_listen"
  let ?evs = "[Readable ((7, ENOERROR), zero_addr) None, Runs 1, Closes 0]"
  obtain a where a: "?new = Inr (a, [])" "ac_pEventLoop a = 2" "\<not> ac_bListenning a"
    by (simp add: Acceptor_new_def CreateNonBlockingOrDie_def Socket_new_def
        Socket_SetReuseAddr_def Socket_Bind_def BindOrDie_def log_failed_def)
  let ?sv = "first_server a 2 ?n (first_pool 2 1 ?l 0) 1 Map.empty [] (\<lambda>_. [])"
  have sv: "server_started LittleEndian a 2 demo_listen 1 ?l = Inr ?sv"
    using server_started_state [OF a(2), of 1 LittleEndian demo_listen ?l] a(3)
    by (simp add: TcpServer_new_def first_server_def first_pool_def)
  obtain t where t: "rfold (server_step LittleEndian) ?evs ?sv = Inr t"
    "sv_Conns t = [first_conn 1 (conn_name ?n 1) eTCS_Connected False]"
    using single_closes [where start_loop = ?l and e = LittleEndian and strName = ?n, OF a(2)]
    by (simp add: first_server_def del: rfold.simps)
  have s: "c_bAlive closed_conn" "c_CloseCallBack closed_conn" "\<not> writing closed_conn"
      "Buffer_room (length [1 :: byte]) (c_OutputBuffer closed_conn)" "s_ThreadId closed_conn = 1"
    by (simp_all add: closed_conn_def demo_up_def demo_conn_def writing_def Channel_IsWriting_def
        Buffer_room_def Buffer_init_def CHEAP_PREPEND_def vector_max_def)
  have view: "server_view (first_conn 0 (conn_name ?n 1) eTCS_Connected True) closed_conn = sv_Conns t ! 0"
    unfolding t by (simp add: server_view_def first_conn_def reading_def reads_def closed_conn_def demo_up_def
        demo_conn_def)
  have "ensures {Aborted} (conn_allowed InClose) (conn_exec demo_ctl remote_user (InSend 1 WriteFails [1]) closed_conn) \<and>
      rbind (handle_close 0 t) (rfold (server_step LittleEndian) [Runs 2, Runs 2]) = Inl AssertFailed"
    using server_closed_twice_asserts [where start_loop = ?l and d = "[1]", OF a(1) sv _ _ closed_conn_reach
        remote_callbacks.connection_user_axioms demo_epoll_ok s(1,2) view s(3) _ s(4)] t(1) s(5)
    by (auto elim!: ensures_mono)
  with a(1) sv t(1) show ?thesis by blast
qed

end
