(* ===== verification/TestServers.thy ===== *)
theory TestServers
  imports ServerConnections
begin

text \<open>
  A program over the library: the server of \<open>reactor/test/Eventloop_unittest10.cpp\<close>, whose
  connection callback sends two messages and shuts the connection down, on one thread. Its
  callbacks are a user of \<open>TcpConnections\<close>, and what its peer receives is proved of every run.
\<close>

section \<open>The program's callbacks\<close>

text \<open>
  \<open>onConnection\<close>, with what each of the two writes does; a message that is empty is not sent.
\<close>

definition send_message :: "'k epoll_ctl \<Rightarrow> io_write \<Rightarrow> byte list \<Rightarrow> 'k conn \<Rightarrow> 'k conn res" where
  "send_message ctl w strMsg s =
     (if strMsg \<noteq> [] then Connection_Send ctl (s_ThreadId s) w strMsg s else Inr s)"

definition test_onConnection ::
    "'k epoll_ctl \<Rightarrow> io_write \<Rightarrow> io_write \<Rightarrow> byte list \<Rightarrow> byte list \<Rightarrow> 'k conn \<Rightarrow> 'k conn res" where
  "test_onConnection ctl w1 w2 strMsg1 strMsg2 s =
     (if Connection_IsConnected s
      then rbind (send_message ctl w1 strMsg1 s) (\<lambda>s1.
           rbind (send_message ctl w2 strMsg2 s1) (\<lambda>s2. Connection_ShutDown (s_ThreadId s2) s2))
      else Inr s)"

definition test_onMessage :: "'k conn \<Rightarrow> 'k conn" where
  "test_onMessage s = s\<lparr>c_InputBuffer := Buffer_RetrieveAll (c_InputBuffer s)\<rparr>"

text \<open>With the close callback of a server on the same loop, which queues \<open>ConnectedDestroyed\<close>.\<close>

definition test_user ::
    "'k epoll_ctl \<Rightarrow> io_write \<Rightarrow> io_write \<Rightarrow> byte list \<Rightarrow> byte list \<Rightarrow> 'k conn_user" where
  "test_user ctl w1 w2 strMsg1 strMsg2 ev s =
     (case ev of
        OnConnection \<Rightarrow> test_onConnection ctl w1 w2 strMsg1 strMsg2 s
      | OnMessage t \<Rightarrow> Inr (test_onMessage s)
      | OnClose \<Rightarrow> Inr (EventLoop_QueueInLoop (s_ThreadId s) ConnectedDestroyed s)
      | OnWriteComplete \<Rightarrow> Inr s)"

section \<open>What the operations do to what was accepted\<close>

text \<open>The fields the program's guarantee is about, through the channel's operations.\<close>

definition same_output :: "'k conn \<Rightarrow> 'k conn \<Rightarrow> bool" where
  "same_output s s' \<longleftrightarrow>
     g_Accepted s' = g_Accepted s \<and> w_ShutDown s' = w_ShutDown s \<and> g_bClosed s' = g_bClosed s \<and>
     c_eConnectState s' = c_eConnectState s \<and> c_OutputBuffer s' = c_OutputBuffer s \<and>
     l_vPendingFunctors s' = l_vPendingFunctors s \<and> c_vBatch s' = c_vBatch s \<and>
     c_pChannel s' = c_pChannel s \<and> s_ThreadId s' = s_ThreadId s"

lemma same_output_told: "same_output s (told c ch k mp s)"
  by (simp add: same_output_def) (simp add: told_def)

lemma same_output_changes:
  "Channel_EnableReading ctl tid (c_pChannel s) s = Inr s' \<Longrightarrow> same_output s s' \<and> writing s' = writing s"
  "Channel_EnableWriting ctl tid (c_pChannel s) s = Inr s' \<Longrightarrow> same_output s s' \<and> writing s'"
  "Channel_DisableWriting ctl tid (c_pChannel s) s = Inr s' \<Longrightarrow> same_output s s' \<and> \<not> writing s'"
  "Channel_DisableAll ctl tid (c_pChannel s) s = Inr s' \<Longrightarrow> same_output s s' \<and> \<not> writing s'"
  by (auto simp: Channel_change_defs with_chan_Inr writing_def same_output_told dest!: Channel_update_told)

lemma same_output_remove:
  assumes "EventLoop_RemoveChannel ctl tid (c_pChannel s) s = Inr s'"
  shows "same_output s s'"
proof -
  from assms have "EPoller_RemoveChannel ctl tid (c_pChannel s) s = Inr s'"
    by (auto simp: EventLoop_RemoveChannel_def conn_results)
  from EPoller_RemoveChannel_told [OF this] show ?thesis by (auto simp: same_output_told)
qed

text \<open>One \<open>Send\<close> in the loop's thread of an open connection.\<close>

definition sent :: "byte list \<Rightarrow> 'k conn \<Rightarrow> 'k conn \<Rightarrow> bool" where
  "sent d s s' \<longleftrightarrow>
     g_Accepted s' = g_Accepted s @ d \<and> w_ShutDown s' = w_ShutDown s \<and> g_bClosed s' = g_bClosed s \<and>
     c_eConnectState s' = c_eConnectState s \<and> c_vBatch s' = c_vBatch s \<and> s_ThreadId s' = s_ThreadId s \<and>
     set (l_vPendingFunctors s') \<subseteq> insert WriteComplete (set (l_vPendingFunctors s)) \<and>
     (c_OutputBuffer s' = c_OutputBuffer s \<or>
      (\<exists>n. Buffer_Append (drop n d) (c_OutputBuffer s) = Inr (c_OutputBuffer s')))"

lemma send_rest_output:
  assumes "send_rest ctl tid rest s = Inr s'"
  shows "\<exists>b. same_output (s\<lparr>c_OutputBuffer := b\<rparr>) s' \<and>
    (b = c_OutputBuffer s \<and> rest = [] \<or> Buffer_Append rest (c_OutputBuffer s) = Inr b)"
proof (cases "rest = []")
  case True
  with assms show ?thesis by (auto simp: send_rest_def same_output_def intro!: exI [of _ "c_OutputBuffer s"])
next
  case False
  with assms obtain b where b: "Buffer_Append rest (c_OutputBuffer s) = Inr b"
    and "Channel_EnableWriting ctl tid (c_pChannel s) (s\<lparr>c_OutputBuffer := b\<rparr>) = Inr s' \<or>
     s' = s\<lparr>c_OutputBuffer := b\<rparr>"
    by (auto simp: send_rest_def Let_def conn_results split: if_splits)
  with same_output_changes(2) [of ctl tid "s\<lparr>c_OutputBuffer := b\<rparr>" s']
  show ?thesis by (auto simp: same_output_def intro!: exI [of _ b])
qed

lemma queue_write_complete_output:
  "same_output s (queue_write_complete tid s) \<or>
   set (l_vPendingFunctors (queue_write_complete tid s)) = insert WriteComplete (set (l_vPendingFunctors s))"
  "c_vBatch (queue_write_complete tid s) = c_vBatch s"
  by (auto simp: queue_write_complete_def same_output_def EventLoop_QueueInLoop_def queue_wake_def queue_push_def
      EventLoop_WakeUp_def)

lemma queue_write_complete_pending:
  "set (l_vPendingFunctors (queue_write_complete tid s)) \<subseteq> insert WriteComplete (set (l_vPendingFunctors s))"
  using queue_write_complete_output(1) [of s tid] by (auto simp: same_output_def)

lemma sent_rest:
  assumes "send_rest ctl tid (drop n d) t = Inr s'" and "g_Accepted t = g_Accepted s @ d"
    and "w_ShutDown t = w_ShutDown s" "g_bClosed t = g_bClosed s" "c_eConnectState t = c_eConnectState s"
    "c_vBatch t = c_vBatch s" "s_ThreadId t = s_ThreadId s" "c_OutputBuffer t = c_OutputBuffer s"
    "set (l_vPendingFunctors t) \<subseteq> insert WriteComplete (set (l_vPendingFunctors s))"
  shows "sent d s s'"
  using send_rest_output [OF assms(1)] assms(2-9) by (auto simp: sent_def same_output_def)

lemma sendInLoop_sent:
  assumes "Connection_sendInLoop ctl tid w d s = Inr s'" and open_s: "c_eConnectState s \<noteq> eTCS_Disconnected"
  shows "sent d s s'"
proof -
  let ?s = "s\<lparr>g_Accepted := g_Accepted s @ d\<rparr>"
  from assms consider "send_rest ctl tid d ?s = Inr s'"
    | n t where "send_rest ctl tid (drop n d) t = Inr s'"
      "t = ?s\<lparr>w_Wire := w_Wire s @ take n d\<rparr> \<or> t = queue_write_complete tid (?s\<lparr>w_Wire := w_Wire s @ take n d\<rparr>)"
    by (auto simp: Connection_sendInLoop_def Let_def conn_results split: if_splits io_write.splits)
  then show ?thesis
  proof cases
    case 1
    then have "send_rest ctl tid (drop 0 d) ?s = Inr s'" by simp
    then show ?thesis by (rule sent_rest) auto
  next
    case (2 n t)
    show ?thesis
      by (rule sent_rest [OF 2(1)])
        (use 2(2) queue_write_complete_pending [of tid "?s\<lparr>w_Wire := w_Wire s @ take n d\<rparr>"]
          queue_write_complete_output(2) [of tid "?s\<lparr>w_Wire := w_Wire s @ take n d\<rparr>"] in auto)
  qed
qed

lemma sent_room:
  assumes "sent d s s'" and "buffer_inv (c_OutputBuffer s)" and "Buffer_room (length d + k) (c_OutputBuffer s)"
  shows "Buffer_room k (c_OutputBuffer s')"
proof -
  have room: "Buffer_room (length (drop n d)) (c_OutputBuffer s)" for n
    using assms(3) by (auto simp: Buffer_room_def)
  from assms(1) consider "c_OutputBuffer s' = c_OutputBuffer s"
    | n where "Buffer_Append (drop n d) (c_OutputBuffer s) = Inr (c_OutputBuffer s')"
    by (auto simp: sent_def)
  then show ?thesis
  proof cases
    case 1
    with assms(3) show ?thesis by (simp add: Buffer_room_def)
  next
    case (2 n)
    with Append_after [OF assms(2) room [of n]] assms(3) show ?thesis
      by (auto simp: Buffer_room_def buffer_after_def)
  qed
qed

definition write_fits :: "io_write \<Rightarrow> byte list \<Rightarrow> bool" where
  "write_fits w d \<longleftrightarrow> (case w of Wrote n \<Rightarrow> n \<le> length d | WriteFails \<Rightarrow> True)"

lemma send_message_ok:
  assumes inv: "conn_inv interest s" and ctl: "epoll_ok ctl interest" and st: "c_eConnectState s = eTCS_Connected"
    and room: "Buffer_room (length d + k) (c_OutputBuffer s)" and w: "write_fits w d"
  shows "ensures {Aborted} (\<lambda>s'. conn_inv interest s' \<and> sent d s s' \<and> Buffer_room k (c_OutputBuffer s'))
    (send_message ctl w d s)"
proof (cases "d = []")
  case True
  with inv room show ?thesis by (auto simp: send_message_def sent_def Buffer_room_def)
next
  case False
  have b: "buffer_inv (c_OutputBuffer s)" using inv by (simp add: conn_inv_def)
  have r: "Buffer_room (length d) (c_OutputBuffer s)" using room by (simp add: Buffer_room_def)
  have len: "length d < 2 ^ 64" using room by (simp add: Buffer_room_def vector_max_def)
  have fits: "\<And>n. w = Wrote n \<Longrightarrow> n \<le> length d" using w by (simp add: write_fits_def)
  have "send_message ctl w d s = Connection_sendInLoop ctl (s_ThreadId s) w d s"
    using False st by (simp add: send_message_def Connection_Send_def Connection_IsConnected_def
        EventLoop_IsInLoopThread_def)
  with sendInLoop_ok [where w = w, OF inv ctl r fits len] show ?thesis
    using sendInLoop_sent [of ctl "s_ThreadId s" w d s] sent_room [OF _ b room] st
    by (auto elim!: ensures_mono)
qed

definition done_sending :: "byte list \<Rightarrow> 'k conn \<Rightarrow> 'k conn \<Rightarrow> bool" where
  "done_sending d s s' \<longleftrightarrow>
     g_Accepted s' = d \<and> c_eConnectState s' = eTCS_Disconnecting \<and> g_bClosed s' = g_bClosed s \<and>
     w_ShutDown s' = (if writing s' then w_ShutDown s else Some d) \<and> c_vBatch s' = c_vBatch s \<and>
     set (l_vPendingFunctors s') \<subseteq> insert WriteComplete (set (l_vPendingFunctors s))"

lemma ShutDown_own:
  assumes "conn_inv interest s" and "c_eConnectState s = eTCS_Connected"
  shows "\<exists>s'. Connection_ShutDown (s_ThreadId s) s = Inr s' \<and> conn_inv interest s' \<and>
    (let t = s\<lparr>c_eConnectState := eTCS_Disconnecting\<rparr> in s' = (if writing s then t else Socket_ShutDownWrite t))"
proof -
  let ?t = "s\<lparr>c_eConnectState := eTCS_Disconnecting\<rparr>"
  have "conn_inv interest ?t" using assms by (intro conn_inv_state) simp_all
  from shutDownInLoop_ok [OF this] assms(2) show ?thesis
    by (simp add: Connection_ShutDown_def Connection_IsConnected_def Connection_setConnectedState_def
        EventLoop_IsInLoopThread_def Let_def)
qed

lemma test_onConnection_ok:
  assumes inv: "conn_inv interest s" and ctl: "epoll_ok ctl interest" and st: "c_eConnectState s = eTCS_Connected"
    and acc: "g_Accepted s = []" and room: "Buffer_room (length d1 + length d2) (c_OutputBuffer s)"
    and w: "write_fits w1 d1" "write_fits w2 d2"
  shows "ensures {Aborted} (\<lambda>s'. conn_inv interest s' \<and> done_sending (d1 @ d2) s s')
    (test_onConnection ctl w1 w2 d1 d2 s)"
proof -
  have "ensures {Aborted} (\<lambda>s'. conn_inv interest s' \<and> done_sending (d1 @ d2) s s')
    (rbind (send_message ctl w1 d1 s) (\<lambda>s1.
           rbind (send_message ctl w2 d2 s1) (\<lambda>s2. Connection_ShutDown (s_ThreadId s2) s2)))"
  proof (rule ensures_rbind [OF send_message_ok [OF inv ctl st room w(1)]], elim conjE)
    fix s1
    assume 1: "conn_inv interest s1" "sent d1 s s1" and r: "Buffer_room (length d2) (c_OutputBuffer s1)"
    then have st1: "c_eConnectState s1 = eTCS_Connected" using st by (simp add: sent_def)
    have r0: "Buffer_room (length d2 + 0) (c_OutputBuffer s1)" using r by simp
    show "ensures {Aborted} (\<lambda>s'. conn_inv interest s' \<and> done_sending (d1 @ d2) s s')
        (rbind (send_message ctl w2 d2 s1) (\<lambda>s2. Connection_ShutDown (s_ThreadId s2) s2))"
    proof (rule ensures_rbind [OF send_message_ok [OF 1(1) ctl st1 r0 w(2)]], elim conjE)
      fix s2
      assume 2: "conn_inv interest s2" "sent d2 s1 s2"
      then have st2: "c_eConnectState s2 = eTCS_Connected" using st1 by (simp add: sent_def)
      from ShutDown_own [OF 2(1) st2] 1(2) 2(2) acc
      show "ensures {Aborted} (\<lambda>s'. conn_inv interest s' \<and> done_sending (d1 @ d2) s s')
          (Connection_ShutDown (s_ThreadId s2) s2)"
        by (auto simp: done_sending_def sent_def Let_def Socket_ShutDownWrite_def)
    qed
  qed
  then show ?thesis using st by (simp add: test_onConnection_def Connection_IsConnected_def)
qed

section \<open>The program's runs\<close>

text \<open>What happens in the program: everything but calls of \<open>Send\<close> and \<open>ShutDown\<close> by somebody else.\<close>

fun own_input :: "conn_input \<Rightarrow> bool" where
  "own_input (InSend tid w d) \<longleftrightarrow> False"
| "own_input (InShutDown tid) \<longleftrightarrow> False"
| "own_input _ \<longleftrightarrow> True"

inductive test_move ::
    "'k epoll_ctl \<Rightarrow> byte list \<Rightarrow> byte list \<Rightarrow> 'k conn \<Rightarrow> 'k conn \<Rightarrow> bool" for ctl d1 d2 where
  test_input: "own_input ev \<Longrightarrow> conn_allowed ev s \<Longrightarrow> write_fits w1 d1 \<Longrightarrow> write_fits w2 d2 \<Longrightarrow>
    conn_exec ctl (test_user ctl w1 w2 d1 d2) ev s = Inr s' \<Longrightarrow> test_move ctl d1 d2 s s'"

inductive_cases test_moveE: "test_move ctl d1 d2 s s'"

definition test_start :: "('k \<Rightarrow> int \<Rightarrow> (events \<times> nat) option) \<Rightarrow> 'k conn \<Rightarrow> bool" where
  "test_start interest s \<longleftrightarrow> conn_start interest s \<and> l_vPendingFunctors s = [] \<and> c_ConnCallBack s"

text \<open>
  Until the connection is established nothing has happened; from then on both messages have been
  accepted and, while the connection is not closed, the write side is shut down exactly when
  nothing is left to write.
\<close>

definition test_inv :: "byte list \<Rightarrow> 'k conn \<Rightarrow> bool" where
  "test_inv d s \<longleftrightarrow>
     set (l_vPendingFunctors s) \<union> set (c_vBatch s) \<subseteq> {WriteComplete, ConnectedDestroyed} \<and>
     (case c_eConnectState s of
        eTCS_Connecting \<Rightarrow> g_Accepted s = [] \<and> c_OutputBuffer s = Buffer_init \<and> \<not> g_bClosed s \<and>
          w_ShutDown s = None \<and> \<not> writing s \<and> c_ConnCallBack s
      | eTCS_Connected \<Rightarrow> False
      | eTCS_Disconnecting \<Rightarrow> g_Accepted s = d \<and> w_ShutDown s \<in> {None, Some d} \<and>
          (g_bClosed s \<or> w_ShutDown s = (if writing s then None else Some d))
      | eTCS_Disconnected \<Rightarrow> g_Accepted s = d \<and> w_ShutDown s \<in> {None, Some d})"

lemma test_inv_start: "test_start interest s \<Longrightarrow> test_inv d s"
  by (simp add: test_start_def conn_start_def test_inv_def)

lemma test_user_default:
  "test_user ctl w1 w2 d1 d2 OnClose = default_user OnClose"
  "test_user ctl w1 w2 d1 d2 (OnMessage t) = default_user (OnMessage t)"
  "test_user ctl w1 w2 d1 d2 OnWriteComplete = default_user OnWriteComplete"
  by (simp_all add: test_user_def default_user_def test_onMessage_def DefaultMessageCallBack_def fun_eq_iff)

lemma handlers_default:
  "Connection_handleClose ctl (test_user ctl w1 w2 d1 d2) tid s = Connection_handleClose ctl default_user tid s"
  "Connection_runFunctor ctl (test_user ctl w1 w2 d1 d2) tid w f s = Connection_runFunctor ctl default_user tid w f s"
  unfolding Connection_handleClose_def Connection_runFunctor_def test_user_default by (rule refl)+

lemma handleRead_default:
  "Connection_handleRead ctl (test_user ctl w1 w2 d1 d2) tid io t s = Connection_handleRead ctl default_user tid io t s"
  unfolding Connection_handleRead_def test_user_default handlers_default by (rule refl)

lemma test_exec_default:
  "ev \<noteq> InEstablished \<Longrightarrow> conn_exec ctl (test_user ctl w1 w2 d1 d2) ev s = conn_exec ctl default_user ev s"
  by (cases ev) (simp_all add: handlers_default handleRead_default split: list.split)

text \<open>The connection is established: both messages go out, or wait, and it is shut down.\<close>

lemma test_established:
  assumes inv: "conn_inv interest s" "test_inv (d1 @ d2) s" and ctl: "epoll_ok ctl interest"
    and st: "c_eConnectState s = eTCS_Connecting"
    and size: "8 + length d1 + length d2 \<le> vector_max" and w: "write_fits w1 d1" "write_fits w2 d2"
  shows "ensures {Aborted} (\<lambda>s'. conn_inv interest s' \<and> test_inv (d1 @ d2) s')
    (conn_exec ctl (test_user ctl w1 w2 d1 d2) InEstablished s)"
proof -
  let ?s = "s\<lparr>c_eConnectState := eTCS_Connected\<rparr>" and ?P = "\<lambda>s'. conn_inv interest s' \<and> test_inv (d1 @ d2) s'"
  let ?call = "\<lambda>s1. if c_ConnCallBack s1 then test_user ctl w1 w2 d1 d2 OnConnection s1 else Inr s1"
  have i: "conn_inv interest ?s" using inv(1) st by (simp add: conn_inv_state)
  then have c: "chan_ok interest ?s" by (simp add: conn_inv_def)
  have start: "g_Accepted s = []" "c_OutputBuffer s = Buffer_init" "\<not> g_bClosed s" "w_ShutDown s = None" "\<not> writing s"
    and cb: "c_ConnCallBack s"
    and queued: "set (l_vPendingFunctors s) \<union> set (c_vBatch s) \<subseteq> {WriteComplete, ConnectedDestroyed}"
    using inv(2) st by (simp_all add: test_inv_def)
  have "ensures {Aborted} ?P (rbind (Channel_EnableReading ctl (s_ThreadId ?s) (c_pChannel ?s) ?s) ?call)"
  proof (rule ensures_rbind [OF EnableReading_conn [OF c ctl]])
    fix s1
    assume r: "Channel_EnableReading ctl (s_ThreadId ?s) (c_pChannel ?s) ?s = Inr s1"
      and a: "after_change interest ?s (writing ?s) s1"
    from same_output_changes(1) [OF r] have o: "same_output ?s s1" "\<not> writing s1" using start(5) by simp_all
    from a have cb1: "c_ConnCallBack s1" using cb by (auto simp: after_change_def)
    have "conn_inv interest s1"
      using i a after_change_keeps [OF a] by (auto simp: conn_inv_def keeps_rest_def)
    moreover have "c_eConnectState s1 = eTCS_Connected" "g_Accepted s1 = []"
      "Buffer_room (length d1 + length d2) (c_OutputBuffer s1)"
      using o start size by (simp_all add: same_output_def Buffer_room_def Buffer_init_def CHEAP_PREPEND_def)
    ultimately have "ensures {Aborted} (\<lambda>s'. conn_inv interest s' \<and> done_sending (d1 @ d2) s1 s')
        (test_onConnection ctl w1 w2 d1 d2 s1)"
      by (rule test_onConnection_ok [OF _ ctl _ _ _ w])
    then show "ensures {Aborted} ?P (?call s1)"
      using cb1 o start queued
      by (auto simp: test_user_def test_inv_def done_sending_def same_output_def elim!: ensures_mono)
  qed
  then show ?thesis
    using st by (simp add: Connection_ConnectedEstablished_def Connection_setConnectedState_def)
qed

text \<open>The end of the connection.\<close>

lemma QueueInLoop_pending [simp]:
  "l_vPendingFunctors (EventLoop_QueueInLoop tid f s) = l_vPendingFunctors s @ [f]"
  "c_vBatch (EventLoop_QueueInLoop tid f s) = c_vBatch s"
  by (simp_all add: EventLoop_QueueInLoop_def queue_wake_def queue_push_def EventLoop_WakeUp_def)

lemma test_closes:
  assumes "Connection_handleClose ctl default_user tid s = Inr s'" and "test_inv d s"
  shows "test_inv d s'"
proof -
  let ?s = "s\<lparr>g_bClosed := True\<rparr>"
  from assms(1) obtain s1 where st: "c_eConnectState s = eTCS_Connected \<or> c_eConnectState s = eTCS_Disconnecting"
    and s1: "Channel_DisableAll ctl tid (c_pChannel ?s) ?s = Inr s1" and u: "default_user OnClose s1 = Inr s'"
    by (auto simp: Connection_handleClose_def conn_results split: if_splits)
  from same_output_changes(4) [OF s1] u st assms(2) show ?thesis
    by (auto simp: same_output_def default_user_def test_inv_def)
qed

lemma test_reads:
  assumes "Connection_handleRead ctl default_user tid io t s = Inr s'" and "test_inv d s" and "is_open s"
  shows "test_inv d s'"
proof -
  from assms(1) obtain n er b where rd: "Buffer_ReadFd io (c_InputBuffer s) = Inr (n, er, b)"
    and pos: "0 < n \<Longrightarrow> default_user (OnMessage t) (s\<lparr>c_InputBuffer := b\<rparr>) = Inr s' \<or> s' = s\<lparr>c_InputBuffer := b\<rparr>"
    and zero: "n = 0 \<Longrightarrow> Connection_handleClose ctl default_user tid (s\<lparr>c_InputBuffer := b\<rparr>) = Inr s'"
    and neg: "n < 0 \<Longrightarrow> s' = s\<lparr>c_InputBuffer := b\<rparr>"
    by (fastforce simp: Connection_handleRead_def Connection_handleError_def rbind_Inr Let_def split: if_splits)
  have "Connection_handleClose ctl default_user tid (s\<lparr>c_InputBuffer := b\<rparr>) = Inr s' \<or>
     default_user (OnMessage t) (s\<lparr>c_InputBuffer := b\<rparr>) = Inr s' \<or> s' = s\<lparr>c_InputBuffer := b\<rparr>"
    using pos zero neg by (cases n "0 :: int" rule: linorder_cases) auto
  moreover have "test_inv d (s\<lparr>c_InputBuffer := b\<rparr>)" using assms(2,3)
    by (auto simp: test_inv_def is_open_def)
  moreover have "test_inv d t'" if "default_user (OnMessage t) (s\<lparr>c_InputBuffer := b\<rparr>) = Inr t'" for t'
    using that assms(2,3) by (auto simp: default_user_def DefaultMessageCallBack_def test_inv_def is_open_def)
  ultimately show ?thesis using test_closes by blast
qed

lemma handleWrite_result:
  assumes "Connection_handleWrite ctl tid w s = Inr s'"
  obtains (same) "s' = s"
    | (some_left) b e where "s' = s\<lparr>c_OutputBuffer := b, w_Wire := e\<rparr>"
    | (all_out) b e s2 where
      "Channel_DisableWriting ctl tid (c_pChannel s) (s\<lparr>c_OutputBuffer := b, w_Wire := e\<rparr>) = Inr s2"
      "(let s3 = queue_write_complete tid s2 in
        if c_eConnectState s3 = eTCS_Disconnecting then Connection_shutDownInLoop tid s3 else Inr s3) = Inr s'"
proof -
  from assms obtain ch where ch: "s_Channels s (c_pChannel s) = Some ch"
    by (auto simp: Connection_handleWrite_def conn_results)
  show thesis
  proof (cases "Channel_IsWriting ch \<and> (\<exists>n. w = Wrote (Suc n))")
    case False
    with assms ch have "s' = s"
      by (cases w) (auto simp: Connection_handleWrite_def conn_results split: nat.splits if_splits)
    then show thesis by (rule same)
  next
    case True
    then obtain n where "w = Wrote (Suc n)" by blast
    with True ch assms obtain b sent where
      r: "(let s1 = s\<lparr>c_OutputBuffer := b, w_Wire := w_Wire s @ sent\<rparr> in
        if Buffer_ReadableBytes b = 0
        then rbind (Channel_DisableWriting ctl tid (c_pChannel s1) s1) (\<lambda>s2.
               let s3 = queue_write_complete tid s2 in
               if c_eConnectState s3 = eTCS_Disconnecting then Connection_shutDownInLoop tid s3 else Inr s3)
        else Inr s1) = Inr s'"
      by (simp add: Connection_handleWrite_def conn_results) blast
    show thesis
    proof (cases "Buffer_ReadableBytes b = 0")
      case True
      with r obtain s2 where
        "Channel_DisableWriting ctl tid (c_pChannel s) (s\<lparr>c_OutputBuffer := b, w_Wire := w_Wire s @ sent\<rparr>) = Inr s2"
        "(let s3 = queue_write_complete tid s2 in
          if c_eConnectState s3 = eTCS_Disconnecting then Connection_shutDownInLoop tid s3 else Inr s3) = Inr s'"
        by (simp add: rbind_Inr) blast
      then show thesis by (rule all_out)
    next
      case False
      with r have "s' = s\<lparr>c_OutputBuffer := b, w_Wire := w_Wire s @ sent\<rparr>" by simp
      then show thesis by (rule some_left)
    qed
  qed
qed

lemma test_writes:
  assumes "Connection_handleWrite ctl tid w s = Inr s'" and "test_inv d s" and "is_open s"
  shows "test_inv d s'"
proof -
  let ?t = "\<lambda>b d. s\<lparr>c_OutputBuffer := b, w_Wire := d\<rparr>"
  have st: "c_eConnectState s = eTCS_Disconnecting" and acc: "g_Accepted s = d"
    using assms(2,3) by (auto simp: test_inv_def is_open_def split: conn_state.splits)
  show ?thesis
  using assms(1)
  proof (cases rule: handleWrite_result)
    case (all_out b e s2)
    from same_output_changes(3) [of ctl tid "?t b e" s2] all_out(1) have o: "same_output (?t b e) s2" "\<not> writing s2"
      by auto
    let ?q = "queue_write_complete tid s2"
    have q: "\<not> writing ?q" "c_eConnectState ?q = eTCS_Disconnecting" "g_Accepted ?q = d"
      using o st acc by (simp_all add: same_output_def)
    from all_out(2) o(1) st have "Connection_shutDownInLoop tid ?q = Inr s'" by (simp add: same_output_def)
    then obtain ch where ch: "s_Channels ?q (c_pChannel ?q) = Some ch"
        "s' = (if \<not> Channel_IsWriting ch then Socket_ShutDownWrite ?q else ?q)"
      by (auto simp: Connection_shutDownInLoop_def conn_results simp del: queue_write_complete_conn)
    with q(1) have s': "s' = Socket_ShutDownWrite ?q"
      by (simp add: writing_def del: queue_write_complete_conn)
    have "set (l_vPendingFunctors ?q) \<union> set (c_vBatch ?q) \<subseteq> {WriteComplete, ConnectedDestroyed}"
      using queue_write_complete_pending [of tid s2] o(1) assms(2)
        queue_write_complete_output(2) [of tid s2] by (auto simp: same_output_def test_inv_def)
    with q show ?thesis
      by (simp add: s' Socket_ShutDownWrite_def test_inv_def)
  qed (use assms(2) st in \<open>auto simp: test_inv_def\<close>)
qed

lemma test_destroyed:
  assumes "Connection_ConnectedDestroyed ctl tid s = Inr s'" and "test_inv d s"
  shows "test_inv d s'"
proof -
  let ?s = "s\<lparr>c_eConnectState := eTCS_Disconnected\<rparr>"
  from assms(1) obtain s1 where
    st: "c_eConnectState s = eTCS_Connected \<or> c_eConnectState s = eTCS_Disconnecting"
    and s1: "Channel_DisableAll ctl tid (c_pChannel ?s) ?s = Inr s1"
    and s': "EventLoop_RemoveChannel ctl tid (c_pChannel s1) s1 = Inr s'"
    by (auto simp: Connection_ConnectedDestroyed_def Connection_setConnectedState_def conn_results)
  from same_output_changes(4) [OF s1] same_output_remove [OF s'] st assms(2) show ?thesis
    by (auto simp: same_output_def test_inv_def)
qed

lemma test_runs:
  assumes "Connection_runFunctor ctl default_user tid w f s = Inr s'" and "test_inv d s"
    and "f \<in> {WriteComplete, ConnectedDestroyed}"
  shows "test_inv d s'"
  using assms test_destroyed [of ctl tid s s' d]
  by (auto simp: Connection_runFunctor_def default_user_def split: if_splits)

lemma test_inv_fields:
  "test_inv d (s\<lparr>l_bCallingFunctors := b\<rparr>) = test_inv d s"
  "test_inv d s \<Longrightarrow> set fs \<subseteq> {WriteComplete, ConnectedDestroyed} \<Longrightarrow> test_inv d (s\<lparr>c_vBatch := fs\<rparr>)"
  by (auto simp: test_inv_def split: conn_state.splits)

lemma test_exec_keeps:
  assumes r: "conn_exec ctl default_user ev s = Inr s'" and inv: "test_inv d s" and own: "own_input ev"
    and a: "conn_allowed ev s" and ev: "ev \<notin> {InEstablished, InDestroy}"
  shows "test_inv d s'"
proof (cases ev)
  case (InRead io t)
  with r inv a test_reads show ?thesis by auto
next
  case (InWritable w)
  with r inv a test_writes show ?thesis by auto
next
  case InClose
  with r inv test_closes show ?thesis by auto
next
  case InError
  with r inv show ?thesis by (simp add: Connection_handleError_def)
next
  case InTake
  have "set (l_vPendingFunctors s) \<subseteq> {WriteComplete, ConnectedDestroyed}" using inv by (simp add: test_inv_def)
  with InTake r inv show ?thesis
    by (auto simp: take_functors_def test_inv_def split: conn_state.splits)
next
  case (InRun w)
  show ?thesis
  proof (cases "c_vBatch s")
    case Nil
    with InRun r inv show ?thesis by simp
  next
    case (Cons f fs)
    then have "set (f # fs) \<subseteq> {WriteComplete, ConnectedDestroyed}" using inv by (simp add: test_inv_def)
    with Cons InRun r inv show ?thesis
      using test_runs [of ctl "s_ThreadId s" w f "s\<lparr>c_vBatch := fs\<rparr>" s' d] test_inv_fields(2) [OF inv, of fs]
      by simp
  qed
next
  case InDone
  with r inv show ?thesis by (auto simp: test_inv_fields)
qed (use ev own in auto)

text \<open>Both invariants, in every run of the program.\<close>

lemma test_exec_ok:
  assumes inv: "conn_inv interest s" "test_inv (d1 @ d2) s" and ctl: "epoll_ok ctl interest"
    and own: "own_input ev" and a: "conn_allowed ev s" and nd: "ev \<noteq> InDestroy"
    and size: "8 + length d1 + length d2 \<le> vector_max" and w: "write_fits w1 d1" "write_fits w2 d2"
  shows "ensures {Aborted} (\<lambda>s'. conn_inv interest s' \<and> test_inv (d1 @ d2) s')
    (conn_exec ctl (test_user ctl w1 w2 d1 d2) ev s)"
proof (cases "ev = InEstablished")
  case True
  with a test_established [OF inv ctl _ size w] show ?thesis by simp
next
  case False
  with default_callbacks.conn_exec_ok [OF inv(1) ctl a nd] test_exec_keeps [of ctl ev s _ "d1 @ d2"] inv(2) own a nd
  show ?thesis by (auto simp: test_exec_default elim!: ensures_mono)
qed

lemma test_reach_inv:
  assumes "reach (test_start interest) (test_move ctl d1 d2) s" and ctl: "epoll_ok ctl interest"
    and size: "8 + length d1 + length d2 \<le> vector_max" and "c_bAlive s"
  shows "conn_inv interest s \<and> test_inv (d1 @ d2) s"
  using assms(1,4)
proof (induction rule: reach.induct)
  case (reach_init s)
  then show ?case using test_inv_start [of interest s] conn_start_inv [of interest s] by (simp add: test_start_def)
next
  case (reach_step s s')
  from reach_step.hyps(2) obtain ev w1 w2 where ev: "own_input ev" "conn_allowed ev s" "write_fits w1 d1" "write_fits w2 d2"
    and r: "conn_exec ctl (test_user ctl w1 w2 d1 d2) ev s = Inr s'" by (rule test_moveE)
  have "conn_move ctl (test_user ctl w1 w2 d1 d2) s s'" by (rule conn_input [OF ev(2) r])
  then have "c_bAlive s" using dead_stays reach_step.prems by blast
  moreover have "ev \<noteq> InDestroy" using r reach_step.prems by (auto simp: Connection_destroy_def rbind_Inr)
  ultimately have "ensures {Aborted} (\<lambda>s'. conn_inv interest s' \<and> test_inv (d1 @ d2) s')
      (conn_exec ctl (test_user ctl w1 w2 d1 d2) ev s)"
    using reach_step.IH by (blast intro: test_exec_ok ctl ev size)
  with r show ?case by simp
qed

section \<open>Properties\<close>


text \<open>The messages \<open>A\<close> and \<open>BB\<close>, both written at once.\<close>

lemma demo_test_start: "test_start demo_interest demo_conn"
  using demo_conn_start by (simp add: test_start_def demo_conn_def)


end
