(* ===== verification/Connectors.thy ===== *)
theory Connectors
  imports SocketAddrs
begin

text \<open>
  \<open>reactor/Connector\<close>: one attempt after another to connect to a server, without blocking. Every
  operation runs on the loop's thread, but \<open>Start\<close> may queue \<open>startInLoop\<close>. What the socket calls
  answer is an argument of the step. The queue holds the functors the connector posted; the
  timer is the pending \<open>RunAfter\<close>, with its delay in milliseconds. The fields \<open>g_\<close> count the
  sockets made, closed and lost, and record those handed to the callback.
\<close>

section \<open>State\<close>

datatype connector_state = eCS_Disconnected | eCS_Connecting | eCS_Connected

datatype connector_functor = StartInLoop | ResetChannel

record connector_channel =
  kc_nFd :: int
  kc_bWriting :: bool

record connector =
  k_pEventLoop :: nat
  k_ServerAddr :: InetAddress
  k_bConnect :: bool
  k_eConnectState :: connector_state
  k_pChannel :: "connector_channel option"
  k_NewConnectionCallBack :: bool
  k_nRetryDelayMs :: int
  k_Timer :: "int option"
  k_Queue :: "connector_functor list"
  g_Made :: nat
  g_Closed :: nat
  g_Lost :: nat
  g_Given :: "int list"

definition MAX_RETRY_DELAY_MS :: int where
  "MAX_RETRY_DELAY_MS = 30 * 1000"

definition INIT_RETRY_DELAY_MS :: int where
  "INIT_RETRY_DELAY_MS = 500"

definition Connector_new :: "nat \<Rightarrow> InetAddress \<Rightarrow> connector" where
  "Connector_new pEvtLoop serverAddr =
     \<lparr>k_pEventLoop = pEvtLoop, k_ServerAddr = serverAddr, k_bConnect = False,
      k_eConnectState = eCS_Disconnected, k_pChannel = None, k_NewConnectionCallBack = False,
      k_nRetryDelayMs = INIT_RETRY_DELAY_MS, k_Timer = None, k_Queue = [],
      g_Made = 0, g_Closed = 0, g_Lost = 0, g_Given = []\<rparr>"

definition Connector_delete :: "connector \<Rightarrow> connector res" where
  "Connector_delete s = (let s1 = s\<lparr>k_Timer := None\<rparr> in check (k_pChannel s1 = None) (Inr s1))"

definition Connector_SetNewConnectionCallBack :: "bool \<Rightarrow> connector \<Rightarrow> connector" where
  "Connector_SetNewConnectionCallBack cb s = s\<lparr>k_NewConnectionCallBack := cb\<rparr>"

definition Connector_setState :: "connector_state \<Rightarrow> connector \<Rightarrow> connector" where
  "Connector_setState eState s = s\<lparr>k_eConnectState := eState\<rparr>"

definition Connector_GetServerAddr :: "connector \<Rightarrow> InetAddress" where
  "Connector_GetServerAddr s = k_ServerAddr s"

section \<open>Connecting\<close>

definition close_socket :: "connector \<Rightarrow> connector" where
  "close_socket s = s\<lparr>g_Closed := Suc (g_Closed s)\<rparr>"

definition Connector_retry :: "int \<Rightarrow> connector \<Rightarrow> connector" where
  "Connector_retry nSockFd s =
     (let s1 = Connector_setState eCS_Connected (close_socket s)
      in if k_bConnect s1
         then s1\<lparr>k_Timer := Some (k_nRetryDelayMs s1),
                 k_nRetryDelayMs := min (k_nRetryDelayMs s1 * 2) MAX_RETRY_DELAY_MS\<rparr>
         else s1)"

text \<open>\<open>connecting\<close> watches the socket until it is writable.\<close>

definition Connector_connecting :: "int \<Rightarrow> connector \<Rightarrow> connector res" where
  "Connector_connecting nSockFd s =
     (let s1 = Connector_setState eCS_Connecting s
      in check (k_pChannel s1 = None)
           (Inr (s1\<lparr>k_pChannel := Some \<lparr>kc_nFd = nSockFd, kc_bWriting = True\<rparr>\<rparr>)))"

datatype connect_class = Proceeds | Retries | GivesUp

text \<open>The cases of the \<open>switch\<close> on the error of \<open>connect\<close>; nothing is success.\<close>

definition classify :: "errno option \<Rightarrow> connect_class" where
  "classify nSavedErrno =
     (case nSavedErrno of
        None \<Rightarrow> Proceeds
      | Some er \<Rightarrow>
          (if er \<in> {EINPROGRESS, EINTR, EISCONN} then Proceeds
           else if er \<in> {EAGAIN, EADDRINUSE, EADDRNOTAVAIL, ECONNREFUSED, ENETUNREACH} then Retries
           else GivesUp))"

definition Connector_connect :: "sys \<Rightarrow> (int \<Rightarrow> sockaddr_in \<Rightarrow> sys) \<Rightarrow> connector \<Rightarrow> connector res" where
  "Connector_connect socket connect s =
     (let nSockFd = fst (CreateNonBlockingOrDie socket);
          s1 = s\<lparr>g_Made := Suc (g_Made s)\<rparr>;
          (nRet, nErrno) = connect nSockFd (k_ServerAddr s1);
          nSavedErrno = (if nRet = 0 then None else Some nErrno)
      in case classify nSavedErrno of
           Proceeds \<Rightarrow> Connector_connecting nSockFd s1
         | Retries \<Rightarrow> Inr (Connector_retry nSockFd s1)
         | GivesUp \<Rightarrow> Inr (close_socket s1))"

definition Connector_startInLoop ::
    "nat \<Rightarrow> sys \<Rightarrow> (int \<Rightarrow> sockaddr_in \<Rightarrow> sys) \<Rightarrow> connector \<Rightarrow> connector res" where
  "Connector_startInLoop tid socket connect s =
     assert_in_loop (tid = k_pEventLoop s)
       (check (k_eConnectState s = eCS_Disconnected)
         (if k_bConnect s then Connector_connect socket connect s else Inr s))"

definition Connector_Start :: "nat \<Rightarrow> sys \<Rightarrow> (int \<Rightarrow> sockaddr_in \<Rightarrow> sys) \<Rightarrow> connector \<Rightarrow> connector res" where
  "Connector_Start tid socket connect s =
     (let s1 = s\<lparr>k_bConnect := True\<rparr>
      in if tid = k_pEventLoop s1 then Connector_startInLoop tid socket connect s1
         else Inr (s1\<lparr>k_Queue := k_Queue s1 @ [StartInLoop]\<rparr>))"

definition Connector_Restart :: "nat \<Rightarrow> sys \<Rightarrow> (int \<Rightarrow> sockaddr_in \<Rightarrow> sys) \<Rightarrow> connector \<Rightarrow> connector res" where
  "Connector_Restart tid socket connect s =
     assert_in_loop (tid = k_pEventLoop s)
       (Connector_startInLoop tid socket connect
          ((Connector_setState eCS_Disconnected s)\<lparr>k_nRetryDelayMs := INIT_RETRY_DELAY_MS, k_bConnect := True\<rparr>))"

definition Connector_Stop :: "connector \<Rightarrow> connector" where
  "Connector_Stop s = s\<lparr>k_bConnect := False, k_Timer := None\<rparr>"

section \<open>The socket is writable, or failed\<close>

text \<open>The channel is only disabled here; a functor deletes it.\<close>

definition Connector_removeAndResetChannel :: "connector \<Rightarrow> (int \<times> connector) res" where
  "Connector_removeAndResetChannel s =
     (case k_pChannel s of
        None \<Rightarrow> Inl BadPointer
      | Some ch \<Rightarrow>
          Inr (kc_nFd ch, s\<lparr>k_pChannel := Some (ch\<lparr>kc_bWriting := False\<rparr>), k_Queue := k_Queue s @ [ResetChannel]\<rparr>))"

definition Connector_resetChannel :: "connector \<Rightarrow> connector" where
  "Connector_resetChannel s = s\<lparr>k_pChannel := None\<rparr>"

text \<open>
  \<open>soError\<close> is what \<open>GetSocketError\<close> finds (nothing is zero). A socket with an error is neither
  closed nor kept: it is lost.
\<close>

definition Connector_handleWrite ::
    "(int \<Rightarrow> connector \<Rightarrow> connector res) \<Rightarrow> errno option \<Rightarrow> bool \<Rightarrow> connector \<Rightarrow> connector res" where
  "Connector_handleWrite newConnectionCallBack soError selfConnect s =
     (if k_eConnectState s = eCS_Connecting
      then rbind (Connector_removeAndResetChannel s) (\<lambda>(nSockFd, s1).
        if soError \<noteq> None then Inr (s1\<lparr>g_Lost := Suc (g_Lost s1)\<rparr>)
        else if selfConnect then Inr (Connector_retry nSockFd s1)
        else (let s2 = Connector_setState eCS_Connected s1
              in if k_bConnect s2
                 then (if k_NewConnectionCallBack s2
                       then newConnectionCallBack nSockFd (s2\<lparr>g_Given := g_Given s2 @ [nSockFd]\<rparr>)
                       else Inl BadFunctionCall)
                 else Inr (close_socket s2)))
      else check (k_eConnectState s = eCS_Connected) (Inr s))"

definition Connector_handleError :: "connector \<Rightarrow> connector res" where
  "Connector_handleError s =
     check (k_eConnectState s = eCS_Connecting)
       (rbind (Connector_removeAndResetChannel s) (\<lambda>(nSockFd, s1). Inr (Connector_retry nSockFd s1)))"

section \<open>The connector on its loop\<close>

text \<open>
  What can happen to a connector: calls of its user (\<open>Restart\<close> comes when a connection made from
  it has ended), its channel's events, the timer and its functors. A disabled channel reports
  nothing.
\<close>

datatype connector_event =
    CStart nat sys "int \<Rightarrow> sockaddr_in \<Rightarrow> sys"
  | CRestart sys "int \<Rightarrow> sockaddr_in \<Rightarrow> sys"
  | CStop
  | CWritable "errno option" bool
  | CError
  | CTimer sys "int \<Rightarrow> sockaddr_in \<Rightarrow> sys"
  | CFunctor sys "int \<Rightarrow> sockaddr_in \<Rightarrow> sys"

definition watching :: "connector \<Rightarrow> bool" where
  "watching s \<longleftrightarrow> (\<exists>ch. k_pChannel s = Some ch \<and> kc_bWriting ch)"

fun connector_step :: "connector_event \<Rightarrow> connector \<Rightarrow> connector res" where
  "connector_step (CStart tid socket connect) s = Connector_Start tid socket connect s"
| "connector_step (CRestart socket connect) s =
     (if k_eConnectState s = eCS_Connected then Connector_Restart (k_pEventLoop s) socket connect s else Inr s)"
| "connector_step CStop s = Inr (Connector_Stop s)"
| "connector_step (CWritable soError self) s =
     (case k_pChannel s of
        Some ch \<Rightarrow> (if kc_bWriting ch then Connector_handleWrite (\<lambda>_. Inr) soError self s else Inr s)
      | None \<Rightarrow> Inr s)"
| "connector_step CError s =
     (case k_pChannel s of
        Some ch \<Rightarrow> (if kc_bWriting ch then Connector_handleError s else Inr s)
      | None \<Rightarrow> Inr s)"
| "connector_step (CTimer socket connect) s =
     (case k_Timer s of
        None \<Rightarrow> Inr s
      | Some _ \<Rightarrow> Connector_startInLoop (k_pEventLoop s) socket connect (s\<lparr>k_Timer := None\<rparr>))"
| "connector_step (CFunctor socket connect) s =
     (case k_Queue s of
        [] \<Rightarrow> Inr s
      | StartInLoop # fs \<Rightarrow> Connector_startInLoop (k_pEventLoop s) socket connect (s\<lparr>k_Queue := fs\<rparr>)
      | ResetChannel # fs \<Rightarrow> Inr (Connector_resetChannel (s\<lparr>k_Queue := fs\<rparr>)))"

text \<open>
  A channel that is still watched belongs to the attempt in progress, a disabled one has its
  deletion queued, and every socket made is accounted for.
\<close>

definition delay_ok :: "int \<Rightarrow> bool" where
  "delay_ok d \<longleftrightarrow> INIT_RETRY_DELAY_MS \<le> d \<and> d \<le> MAX_RETRY_DELAY_MS"

definition connector_inv :: "connector \<Rightarrow> bool" where
  "connector_inv s \<longleftrightarrow>
     delay_ok (k_nRetryDelayMs s) \<and> (\<forall>d. k_Timer s = Some d \<longrightarrow> delay_ok d) \<and>
     (watching s \<longrightarrow> k_eConnectState s = eCS_Connecting) \<and>
     (k_pChannel s \<noteq> None \<and> \<not> watching s \<longrightarrow> ResetChannel \<in> set (k_Queue s)) \<and>
     count_list (k_Queue s) ResetChannel \<le> (if k_pChannel s \<noteq> None \<and> \<not> watching s then 1 else 0) \<and>
     g_Made s = g_Closed s + g_Lost s + length (g_Given s) + (if watching s then 1 else 0)"

lemmas connector_ops =
  Connector_Start_def Connector_startInLoop_def Connector_connect_def Connector_connecting_def
  Connector_retry_def Connector_setState_def close_socket_def Connector_Restart_def Connector_Stop_def
  Connector_handleWrite_def Connector_handleError_def Connector_removeAndResetChannel_def
  Connector_resetChannel_def

lemma delay_ok_double: "delay_ok d \<Longrightarrow> delay_ok (min (d * 2) MAX_RETRY_DELAY_MS)"
  by (simp add: delay_ok_def INIT_RETRY_DELAY_MS_def MAX_RETRY_DELAY_MS_def)

lemma delay_ok_init [simp]: "delay_ok INIT_RETRY_DELAY_MS"
  by (simp add: delay_ok_def INIT_RETRY_DELAY_MS_def MAX_RETRY_DELAY_MS_def)

lemma connector_new_inv: "connector_inv (Connector_SetNewConnectionCallBack cb (Connector_new l a))"
  by (simp add: connector_inv_def Connector_SetNewConnectionCallBack_def Connector_new_def watching_def)

lemma retry_inv:
  assumes "connector_inv (s\<lparr>g_Closed := Suc (g_Closed s)\<rparr>)" and "\<not> watching s"
  shows "connector_inv (Connector_retry fd s)"
  using assms delay_ok_double [of "k_nRetryDelayMs s"]
  by (auto simp: connector_inv_def Connector_retry_def Connector_setState_def close_socket_def
      watching_def Let_def)

lemma connect_inv:
  assumes inv: "connector_inv s" and st: "k_eConnectState s = eCS_Disconnected"
    and run: "Connector_connect socket connect s = Inr t"
  shows "connector_inv t"
proof -
  have nw: "\<not> watching s" using inv st by (auto simp: connector_inv_def)
  let ?s = "s\<lparr>g_Made := Suc (g_Made s)\<rparr>"
  define er where "er = (case connect (fst (CreateNonBlockingOrDie socket)) (k_ServerAddr s) of
    (nRet, nErrno) \<Rightarrow> if nRet = 0 then None else Some nErrno)"
  show ?thesis
  proof (cases "classify er")
    case Proceeds
    then have t: "k_pChannel s = None" "t = s\<lparr>g_Made := Suc (g_Made s), k_eConnectState := eCS_Connecting,
        k_pChannel := Some \<lparr>kc_nFd = fst (CreateNonBlockingOrDie socket), kc_bWriting = True\<rparr>\<rparr>"
      using run
      by (auto simp: Connector_connect_def er_def Connector_connecting_def Connector_setState_def
          check_Inr Let_def split: prod.splits)
    with inv show ?thesis by (auto simp: connector_inv_def watching_def)
  next
    case Retries
    then have t: "t = Connector_retry (fst (CreateNonBlockingOrDie socket)) ?s"
      using run by (auto simp: Connector_connect_def er_def Let_def split: prod.splits)
    have "connector_inv (?s\<lparr>g_Closed := Suc (g_Closed ?s)\<rparr>)"
      using inv by (simp add: connector_inv_def watching_def)
    with nw show ?thesis unfolding t by (intro retry_inv) (simp_all add: watching_def)
  next
    case GivesUp
    then have t: "t = close_socket ?s"
      using run by (auto simp: Connector_connect_def er_def Let_def split: prod.splits)
    with inv show ?thesis by (simp add: connector_inv_def close_socket_def watching_def)
  qed
qed

lemma startInLoop_inv:
  "connector_inv s \<Longrightarrow> Connector_startInLoop tid socket connect s = Inr t \<Longrightarrow> connector_inv t"
  by (auto simp: Connector_startInLoop_def assert_in_loop_Inr check_Inr intro: connect_inv split: if_splits)

lemma remove_inv:
  assumes "connector_inv s" and "k_pChannel s = Some ch" and "kc_bWriting ch"
  shows "Connector_removeAndResetChannel s =
      Inr (kc_nFd ch, s\<lparr>k_pChannel := Some (ch\<lparr>kc_bWriting := False\<rparr>), k_Queue := k_Queue s @ [ResetChannel]\<rparr>)"
    and "g_Made s = Suc (g_Closed s + g_Lost s + length (g_Given s))"
    and "delay_ok (k_nRetryDelayMs s)" and "\<forall>d. k_Timer s = Some d \<longrightarrow> delay_ok d"
    and "count_list (k_Queue s) ResetChannel = 0" and "k_eConnectState s = eCS_Connecting"
  using assms by (auto simp: connector_inv_def watching_def Connector_removeAndResetChannel_def)

lemma handleWrite_inv:
  assumes inv: "connector_inv s" and ch: "k_pChannel s = Some ch" "kc_bWriting ch"
    and run: "Connector_handleWrite (\<lambda>_. Inr) soError self s = Inr t"
  shows "connector_inv t"
  using run remove_inv [OF assms(1-3)] delay_ok_double [of "k_nRetryDelayMs s"]
  by (auto simp: Connector_handleWrite_def connector_inv_def watching_def Connector_retry_def
      Connector_setState_def close_socket_def Let_def split: if_splits)

lemma handleError_inv:
  assumes inv: "connector_inv s" and ch: "k_pChannel s = Some ch" "kc_bWriting ch"
    and run: "Connector_handleError s = Inr t"
  shows "connector_inv t"
  using run remove_inv [OF assms(1-3)] delay_ok_double [of "k_nRetryDelayMs s"]
  by (auto simp: Connector_handleError_def connector_inv_def watching_def Connector_retry_def
      Connector_setState_def close_socket_def Let_def split: if_splits)

lemma connector_restart_inv:
  assumes inv: "connector_inv s" and st: "k_eConnectState s = eCS_Connected"
    and run: "Connector_Restart tid socket connect s = Inr t"
  shows "connector_inv t"
proof -
  have "connector_inv ((Connector_setState eCS_Disconnected s)
      \<lparr>k_nRetryDelayMs := INIT_RETRY_DELAY_MS, k_bConnect := True\<rparr>)"
    using inv st by (auto simp: connector_inv_def watching_def Connector_setState_def)
  with run show ?thesis
    by (auto simp: Connector_Restart_def assert_in_loop_Inr intro: startInLoop_inv)
qed

lemma functor_inv:
  assumes inv: "connector_inv s" and run: "connector_step (CFunctor socket connect) s = Inr t"
  shows "connector_inv t"
proof (cases "k_Queue s")
  case Nil
  with run inv show ?thesis by simp
next
  case (Cons f fs)
  show ?thesis
  proof (cases f)
    case StartInLoop
    have "connector_inv (s\<lparr>k_Queue := fs\<rparr>)"
      using inv Cons StartInLoop by (auto simp: connector_inv_def watching_def)
    with run Cons StartInLoop show ?thesis by (auto intro: startInLoop_inv)
  next
    case ResetChannel
    have "t = s\<lparr>k_Queue := fs, k_pChannel := None\<rparr>"
      using run Cons ResetChannel by (simp add: Connector_resetChannel_def)
    moreover have "\<not> watching s" "count_list fs ResetChannel = 0"
      using inv Cons ResetChannel by (auto simp: connector_inv_def split: if_splits)
    ultimately show ?thesis using inv by (auto simp: connector_inv_def watching_def)
  qed
qed

lemma connector_step_inv:
  assumes inv: "connector_inv s" and run: "connector_step ev s = Inr t"
  shows "connector_inv t"
proof (cases ev)
  case (CStart tid socket connect)
  have "connector_inv (s\<lparr>k_bConnect := True\<rparr>)"
    "connector_inv (s\<lparr>k_bConnect := True, k_Queue := k_Queue s @ [StartInLoop]\<rparr>)"
    using inv by (auto simp: connector_inv_def watching_def)
  with run CStart show ?thesis
    by (auto simp: Connector_Start_def Let_def intro: startInLoop_inv split: if_splits)
next
  case (CRestart socket connect)
  with run inv show ?thesis by (auto intro: connector_restart_inv split: if_splits)
next
  case CStop
  with run inv show ?thesis by (auto simp: Connector_Stop_def connector_inv_def watching_def)
next
  case (CWritable soError self)
  with run inv show ?thesis by (auto intro: handleWrite_inv split: if_splits option.splits)
next
  case CError
  with run inv show ?thesis by (auto intro: handleError_inv split: if_splits option.splits)
next
  case (CTimer socket connect)
  have "connector_inv (s\<lparr>k_Timer := None\<rparr>)" using inv by (auto simp: connector_inv_def watching_def)
  with run inv CTimer show ?thesis by (auto intro: startInLoop_inv split: option.splits)
next
  case (CFunctor socket connect)
  with run inv show ?thesis by (auto intro: functor_inv simp del: connector_step.simps)
qed

interpretation connector_system: invariant_system
  "\<lambda>s. \<exists>l a cb. s = Connector_SetNewConnectionCallBack cb (Connector_new l a)"
  "\<lambda>s t. \<exists>ev. connector_step ev s = Inr t" connector_inv
  by unfold_locales (auto intro: connector_step_inv connector_new_inv)

text \<open>
  C29: In every state a connector can reach, the retry delay and the delay of a pending retry lie
  between half a second and thirty seconds; a channel that is watched belongs to an attempt in
  progress; a disabled channel is about to be deleted; and every socket made was closed, handed
  to the callback, is being watched or was lost to a socket error.
\<close>

theorem connector_invariant:
  assumes "reach (\<lambda>s. \<exists>l a cb. s = Connector_SetNewConnectionCallBack cb (Connector_new l a))
    (\<lambda>s t. \<exists>ev. connector_step ev s = Inr t) s"
  shows "500 \<le> k_nRetryDelayMs s \<and> k_nRetryDelayMs s \<le> 30000 \<and>
    (\<forall>d. k_Timer s = Some d \<longrightarrow> 500 \<le> d \<and> d \<le> 30000) \<and>
    (watching s \<longrightarrow> k_eConnectState s = eCS_Connecting) \<and>
    (k_pChannel s \<noteq> None \<and> \<not> watching s \<longrightarrow> ResetChannel \<in> set (k_Queue s)) \<and>
    g_Made s = g_Closed s + g_Lost s + length (g_Given s) + (if watching s then 1 else 0)"
  using connector_system.reach_keeps [OF assms]
  by (simp add: connector_inv_def delay_ok_def INIT_RETRY_DELAY_MS_def MAX_RETRY_DELAY_MS_def)

definition demo_connector :: connector where
  "demo_connector = Connector_SetNewConnectionCallBack True (Connector_new 1 zero_addr)"

definition demo_pending :: "connector res" where
  "demo_pending = connector_step (CStart 1 (7, ENOERROR) (\<lambda>_ _. (- 1, EINPROGRESS))) demo_connector"

lemma demo_pending_state:
  "\<exists>s. demo_pending = Inr s \<and> watching s \<and> k_eConnectState s = eCS_Connecting"
  by (simp add: demo_pending_def demo_connector_def Connector_SetNewConnectionCallBack_def
      Connector_new_def Connector_Start_def Connector_startInLoop_def Connector_connect_def
      CreateNonBlockingOrDie_def classify_def Connector_connecting_def Connector_setState_def watching_def)

theorem connector_invariant_witness:
  "\<exists>s. demo_pending = Inr s \<and> watching s \<and> g_Made s = Suc (g_Closed s + g_Lost s + length (g_Given s))"
proof -
  from demo_pending_state obtain s where s: "demo_pending = Inr s" "watching s" by blast
  have "reach (\<lambda>s. \<exists>l a cb. s = Connector_SetNewConnectionCallBack cb (Connector_new l a))
      (\<lambda>s t. \<exists>ev. connector_step ev s = Inr t) s"
  proof (rule reach_once [where s = demo_connector])
    show "\<exists>l a cb. demo_connector = Connector_SetNewConnectionCallBack cb (Connector_new l a)"
      unfolding demo_connector_def by blast
    show "\<exists>ev. connector_step ev demo_connector = Inr s"
      using s(1) unfolding demo_pending_def by blast
  qed
  from connector_invariant [OF this] s show ?thesis by auto
qed

text \<open>
  C28: A retry never happens. When an attempt is refused (\<open>ECONNREFUSED\<close> and the like) the socket is
  closed and \<open>startInLoop\<close> is put on the timer, but the state is set to \<open>eCS_Connected\<close>: when the
  timer fires, the assertion at the head of \<open>startInLoop\<close> fails, whatever the delay and the server.
\<close>

theorem connector_retry_asserts:
  assumes "k_eConnectState s = eCS_Disconnected" and "k_bConnect s" and "k_Timer s = None"
    and "connect (fst socket) (k_ServerAddr s) = (nRet, er)" and "nRet \<noteq> 0" and "classify (Some er) = Retries"
  shows "\<exists>t. Connector_startInLoop (k_pEventLoop s) socket connect s = Inr t \<and>
    k_Timer t = Some (k_nRetryDelayMs s) \<and> g_Closed t = Suc (g_Closed s) \<and>
    connector_step (CTimer socket2 connect2) t = Inl AssertFailed"
  using assms
  by (simp add: Connector_startInLoop_def Connector_connect_def CreateNonBlockingOrDie_def
      Connector_retry_def close_socket_def Connector_setState_def Let_def)

theorem connector_retry_asserts_witness:
  "\<exists>t. Connector_startInLoop 1 (7, ENOERROR) (\<lambda>_ _. (- 1, ECONNREFUSED)) (demo_connector\<lparr>k_bConnect := True\<rparr>) = Inr t \<and>
     connector_step (CTimer (8, ENOERROR) (\<lambda>_ _. (0, ENOERROR))) t = Inl AssertFailed"
  using connector_retry_asserts [of "demo_connector\<lparr>k_bConnect := True\<rparr>" "\<lambda>_ _. (- 1, ECONNREFUSED)"
      "(7, ENOERROR)" "- 1" ECONNREFUSED "(8, ENOERROR)" "\<lambda>_ _. (0, ENOERROR)"]
  by (auto simp: demo_connector_def Connector_SetNewConnectionCallBack_def Connector_new_def classify_def)

text \<open>A socket that became writable with an error is lost, and nothing is tried again.\<close>

theorem handleWrite_loses_socket:
  assumes "k_eConnectState s = eCS_Connecting" and "k_pChannel s = Some ch"
  shows "\<exists>t. Connector_handleWrite cb (Some er) self s = Inr t \<and> g_Lost t = Suc (g_Lost s) \<and>
    g_Closed t = g_Closed s \<and> k_Timer t = k_Timer s \<and> k_eConnectState t = eCS_Connecting"
  using assms by (simp add: Connector_handleWrite_def Connector_removeAndResetChannel_def)

end
