(* ===== verification/TcpClients.thy ===== *)
theory TcpClients
  imports TcpServers Connectors
begin

text \<open>
  \<open>reactor/TcpClient\<close>: a connector and the one connection made from it, on one loop. The
  connections it ever made are \<open>tc_Conns\<close>, as in \<open>TcpServers\<close>; the functors of the connector wait in
  the connector's queue, those of the connections in \<open>tc_Queue\<close>. The bodies of the user's
  callbacks are left out; whether one is set is kept.
\<close>

section \<open>State and operations\<close>

datatype client_functor = ConnDestroyedFn nat | SetCloseFn nat

text \<open>What a connection's close callback is bound to: the client, or \<open>detail::removeConnection\<close>.\<close>

datatype close_target = ToClient | ToDetail

record client =
  tc_pEventLoop :: nat
  tc_pConnector :: connector
  tc_ConnectionCallBack :: bool
  tc_MessageCallBack :: bool
  tc_WriteCompleteCallBack :: bool
  tc_bRetry :: bool
  tc_bConnect :: bool
  tc_nNextConnId :: int
  tc_pTcpConnection :: "nat option"
  tc_Conns :: "server_conn list"
  tc_CloseCallBack :: "nat \<Rightarrow> close_target"
  tc_Queue :: "client_functor list"
  tc_bAlive :: bool

text \<open>\<open>CHECK_NOTNULL\<close> aborts on a null loop.\<close>

definition TcpClient_new :: "nat option \<Rightarrow> InetAddress \<Rightarrow> client res" where
  "TcpClient_new pEvtLoop rServerAddr =
     (case pEvtLoop of
        None \<Rightarrow> Inl Aborted
      | Some l \<Rightarrow>
          Inr \<lparr>tc_pEventLoop = l,
               tc_pConnector = Connector_SetNewConnectionCallBack True (Connector_new l rServerAddr),
               tc_ConnectionCallBack = False, tc_MessageCallBack = False, tc_WriteCompleteCallBack = False,
               tc_bRetry = False, tc_bConnect = False, tc_nNextConnId = 1, tc_pTcpConnection = None,
               tc_Conns = [], tc_CloseCallBack = (\<lambda>_. ToClient), tc_Queue = [], tc_bAlive = True\<rparr>)"

definition TcpClient_EnableRetry :: "client \<Rightarrow> client" where
  "TcpClient_EnableRetry s = s\<lparr>tc_bRetry := True\<rparr>"

definition TcpClient_GetTcpConnection :: "client \<Rightarrow> nat option" where
  "TcpClient_GetTcpConnection s = tc_pTcpConnection s"

definition TcpClient_SetConnectionCallBack :: "bool \<Rightarrow> client \<Rightarrow> client" where
  "TcpClient_SetConnectionCallBack rCallBack s = s\<lparr>tc_ConnectionCallBack := rCallBack\<rparr>"

definition TcpClient_SetMessageCallBack :: "bool \<Rightarrow> client \<Rightarrow> client" where
  "TcpClient_SetMessageCallBack rCallBack s = s\<lparr>tc_MessageCallBack := rCallBack\<rparr>"

text \<open>The member is assigned to itself.\<close>

definition TcpClient_SetWriteCompleteCallBack :: "bool \<Rightarrow> client \<Rightarrow> client" where
  "TcpClient_SetWriteCompleteCallBack rCallBack s =
     s\<lparr>tc_WriteCompleteCallBack := tc_WriteCompleteCallBack s\<rparr>"

definition on_connector :: "(connector \<Rightarrow> connector res) \<Rightarrow> client \<Rightarrow> client res" where
  "on_connector f s = rbind (f (tc_pConnector s)) (\<lambda>k. Inr (s\<lparr>tc_pConnector := k\<rparr>))"

definition on_client_conn :: "(server_conn \<Rightarrow> server_conn res) \<Rightarrow> nat \<Rightarrow> client \<Rightarrow> client res" where
  "on_client_conn f c s =
     (if c < length (tc_Conns s)
      then rbind (f (tc_Conns s ! c)) (\<lambda>r. Inr (s\<lparr>tc_Conns := (tc_Conns s)[c := r]\<rparr>))
      else Inl BadPointer)"

definition TcpClient_Connect :: "nat \<Rightarrow> sys \<Rightarrow> (int \<Rightarrow> sockaddr_in \<Rightarrow> sys) \<Rightarrow> client \<Rightarrow> client res" where
  "TcpClient_Connect tid socket connect s =
     check (\<not> tc_bConnect s)
       (on_connector (Connector_Start tid socket connect) (s\<lparr>tc_bConnect := True\<rparr>))"

definition TcpClient_DisConnect :: "client \<Rightarrow> client res" where
  "TcpClient_DisConnect s =
     (let s1 = s\<lparr>tc_bConnect := False\<rparr>
      in case tc_pTcpConnection s1 of
           None \<Rightarrow> Inr s1
         | Some c \<Rightarrow> on_client_conn (\<lambda>r. Inr (server_conn_shutdown r)) c s1)"

definition TcpClient_Stop :: "client \<Rightarrow> client" where
  "TcpClient_Stop s = s\<lparr>tc_bConnect := False, tc_pConnector := Connector_Stop (tc_pConnector s)\<rparr>"

definition client_conn_name :: "string \<Rightarrow> int \<Rightarrow> string" where
  "client_conn_name peer nConnId = fst (snprintf 32 ('':'' @ peer @ ''#'' @ dec nConnId))"

definition TcpClient_newConnection ::
    "endian \<Rightarrow> nat \<Rightarrow> sockaddr_in option \<Rightarrow> sockaddr_in option \<Rightarrow> int \<Rightarrow> client \<Rightarrow> client res" where
  "TcpClient_newConnection e tid getpeername getsockname nSockFd s =
     assert_in_loop (tid = tc_pEventLoop s)
       (let peerAddr = fst (GetPeerAddr getpeername);
            strConnName = client_conn_name (InetAddress_ToHostPort e peerAddr) (tc_nNextConnId s);
            localAddr = fst (GetLocalAddr getsockname);
            c = length (tc_Conns s)
        in rbind (server_conn_new (tc_pEventLoop s) strConnName nSockFd localAddr peerAddr) (\<lambda>r.
             on_client_conn (server_conn_established tid) c
               (s\<lparr>tc_nNextConnId := tc_nNextConnId s + 1, tc_Conns := tc_Conns s @ [r],
                  tc_CloseCallBack := (tc_CloseCallBack s)(c := ToClient), tc_pTcpConnection := Some c\<rparr>)))"

definition queue_destroyed :: "nat \<Rightarrow> client \<Rightarrow> client" where
  "queue_destroyed c s = s\<lparr>tc_Queue := tc_Queue s @ [ConnDestroyedFn c]\<rparr>"

definition TcpClient_removeConnection ::
    "nat \<Rightarrow> sys \<Rightarrow> (int \<Rightarrow> sockaddr_in \<Rightarrow> sys) \<Rightarrow> nat \<Rightarrow> client \<Rightarrow> client res" where
  "TcpClient_removeConnection tid socket connect c s =
     assert_in_loop (tid = tc_pEventLoop s)
       (case tc_pTcpConnection s of
          None \<Rightarrow> Inl BadPointer
        | Some p \<Rightarrow>
            check (sc_pEventLoop (tc_Conns s ! p) = tc_pEventLoop s)
              (check (c = p)
                (let s1 = queue_destroyed c (s\<lparr>tc_pTcpConnection := None\<rparr>)
                 in if tc_bRetry s1 \<and> tc_bConnect s1
                    then on_connector (Connector_Restart tid socket connect) s1 else Inr s1)))"

text \<open>\<open>detail::removeConnection\<close>, for connections that outlive the client.\<close>

definition detail_removeConnection :: "nat \<Rightarrow> client \<Rightarrow> client" where
  "detail_removeConnection c s = queue_destroyed c s"

text \<open>
  The destructor rebinds the close callback of a connection that is still there, on the loop; it
  stops the connector otherwise.
\<close>

definition TcpClient_delete :: "nat \<Rightarrow> client \<Rightarrow> client" where
  "TcpClient_delete tid s =
     (let s1 = (case tc_pTcpConnection s of
          Some c \<Rightarrow> (if tid = tc_pEventLoop s then s\<lparr>tc_CloseCallBack := (tc_CloseCallBack s)(c := ToDetail)\<rparr>
                     else s\<lparr>tc_Queue := tc_Queue s @ [SetCloseFn c]\<rparr>)
        | None \<Rightarrow> s\<lparr>tc_pConnector := Connector_Stop (tc_pConnector s)\<rparr>)
      in s1\<lparr>tc_bAlive := False\<rparr>)"

section \<open>The client on its loop\<close>

text \<open>A connection's end: \<open>handleClose\<close>, then whatever its close callback is bound to.\<close>

definition client_close :: "sys \<Rightarrow> (int \<Rightarrow> sockaddr_in \<Rightarrow> sys) \<Rightarrow> nat \<Rightarrow> client \<Rightarrow> client res" where
  "client_close socket connect c s =
     rbind (on_client_conn (server_conn_close (tc_pEventLoop s)) c s) (\<lambda>s1.
       case tc_CloseCallBack s1 c of
         ToDetail \<Rightarrow> Inr (detail_removeConnection c s1)
       | ToClient \<Rightarrow> (if tc_bAlive s1 then TcpClient_removeConnection (tc_pEventLoop s1) socket connect c s1
                      else Inl BadPointer))"

text \<open>The connector's socket is writable; it may hand the socket to the client.\<close>

definition client_writable ::
    "endian \<Rightarrow> errno option \<Rightarrow> bool \<Rightarrow> sockaddr_in option \<Rightarrow> sockaddr_in option \<Rightarrow> client \<Rightarrow> client res" where
  "client_writable e soError self peer loc s =
     rbind (connector_step (CWritable soError self) (tc_pConnector s)) (\<lambda>k.
       let s1 = s\<lparr>tc_pConnector := k\<rparr> in
       if length (g_Given (tc_pConnector s)) < length (g_Given k)
       then TcpClient_newConnection e (tc_pEventLoop s1) peer loc (last (g_Given k)) s1 else Inr s1)"

definition run_client_functor :: "client_functor \<Rightarrow> client \<Rightarrow> client res" where
  "run_client_functor f s =
     (case f of
        ConnDestroyedFn c \<Rightarrow> on_client_conn (server_conn_destroyed (tc_pEventLoop s)) c s
      | SetCloseFn c \<Rightarrow> Inr (s\<lparr>tc_CloseCallBack := (tc_CloseCallBack s)(c := ToDetail)\<rparr>))"

datatype client_event =
    ClConnect nat sys "int \<Rightarrow> sockaddr_in \<Rightarrow> sys"
  | ClDisConnect
  | ClStop
  | ClRetry
  | ClWritable "errno option" bool "sockaddr_in option" "sockaddr_in option"
  | ClError
  | ClTimer sys "int \<Rightarrow> sockaddr_in \<Rightarrow> sys"
  | ClConnectorFunctor sys "int \<Rightarrow> sockaddr_in \<Rightarrow> sys"
  | ClFunctor
  | ClCloses nat sys "int \<Rightarrow> sockaddr_in \<Rightarrow> sys"

fun client_step :: "endian \<Rightarrow> client_event \<Rightarrow> client \<Rightarrow> client res" where
  "client_step e (ClConnect tid socket connect) s = TcpClient_Connect tid socket connect s"
| "client_step e ClDisConnect s = TcpClient_DisConnect s"
| "client_step e ClStop s = Inr (TcpClient_Stop s)"
| "client_step e ClRetry s = Inr (TcpClient_EnableRetry s)"
| "client_step e (ClWritable soError self peer loc) s = client_writable e soError self peer loc s"
| "client_step e ClError s = on_connector (connector_step CError) s"
| "client_step e (ClTimer socket connect) s = on_connector (connector_step (CTimer socket connect)) s"
| "client_step e (ClConnectorFunctor socket connect) s =
     on_connector (connector_step (CFunctor socket connect)) s"
| "client_step e ClFunctor s =
     (case tc_Queue s of [] \<Rightarrow> Inr s | f # fs \<Rightarrow> run_client_functor f (s\<lparr>tc_Queue := fs\<rparr>))"
| "client_step e (ClCloses c socket connect) s =
     (if c < length (tc_Conns s) \<and> sc_bEnabled (tc_Conns s ! c) then client_close socket connect c s
      else Inr s)"

section \<open>Invariant\<close>

text \<open>
  The one connection whose channel is enabled is the one the client points to, and while it is
  there the connector is connected; every other one is waiting to be destroyed or is destroyed.
\<close>

definition stage_ok :: "bool \<Rightarrow> server_conn \<Rightarrow> nat \<Rightarrow> bool" where
  "stage_ok current r n \<longleftrightarrow>
     (if sc_eConnectState r = eTCS_Connected \<or> sc_eConnectState r = eTCS_Disconnecting
      then (if current then sc_bEnabled r \<and> n = 0 else \<not> sc_bEnabled r \<and> n = 1)
      else sc_eConnectState r = eTCS_Disconnected \<and> \<not> current \<and> \<not> sc_bEnabled r \<and> n = 0)"

definition conn_ok :: "client \<Rightarrow> nat \<Rightarrow> bool" where
  "conn_ok s c \<longleftrightarrow>
     sc_pEventLoop (tc_Conns s ! c) = tc_pEventLoop s \<and> tc_CloseCallBack s c = ToClient \<and>
     stage_ok (tc_pTcpConnection s = Some c) (tc_Conns s ! c) (count_list (tc_Queue s) (ConnDestroyedFn c))"

definition client_inv :: "client \<Rightarrow> bool" where
  "client_inv s \<longleftrightarrow>
     k_pEventLoop (tc_pConnector s) = tc_pEventLoop s \<and> tc_bAlive s \<and>
     (\<forall>c < length (tc_Conns s). conn_ok s c) \<and>
     (\<forall>c. tc_pTcpConnection s = Some c \<longrightarrow>
        c < length (tc_Conns s) \<and> k_eConnectState (tc_pConnector s) = eCS_Connected) \<and>
     (\<forall>f \<in> set (tc_Queue s). \<exists>c < length (tc_Conns s). f = ConnDestroyedFn c)"

lemma startInLoop_keeps:
  "Connector_startInLoop tid socket connect k = Inr k' \<Longrightarrow>
     k_pEventLoop k' = k_pEventLoop k \<and> k_eConnectState k \<noteq> eCS_Connected \<and> g_Given k' = g_Given k"
  by (auto simp: Connector_startInLoop_def Connector_connect_def Connector_connecting_def Connector_retry_def
      Connector_setState_def close_socket_def assert_in_loop_Inr check_Inr Let_def
      split: if_splits prod.splits connect_class.splits)

lemma connector_step_keeps:
  assumes "connector_step ev k = Inr k'" and "\<And>so co. ev \<noteq> CRestart so co"
  shows "k_pEventLoop k' = k_pEventLoop k \<and> (k_eConnectState k = eCS_Connected \<longrightarrow> k_eConnectState k' = eCS_Connected)"
proof (cases ev)
  case (CStart tid so co)
  with assms(1) show ?thesis
    using startInLoop_keeps [of tid so co "k\<lparr>k_bConnect := True\<rparr>" k']
    by (auto simp: Connector_Start_def Let_def split: if_splits)
next
  case (CTimer so co)
  with assms(1) show ?thesis
    using startInLoop_keeps [of "k_pEventLoop k" so co "k\<lparr>k_Timer := None\<rparr>" k']
    by (auto split: option.splits)
next
  case (CFunctor so co)
  show ?thesis
  proof (cases "k_Queue k")
    case Nil
    with assms(1) CFunctor show ?thesis by simp
  next
    case (Cons f fs)
    with assms(1) CFunctor show ?thesis
      using startInLoop_keeps [of "k_pEventLoop k" so co "k\<lparr>k_Queue := fs\<rparr>" k']
      by (cases f) (auto simp: Connector_resetChannel_def)
  qed
next
  case CError
  with assms(1) show ?thesis
    by (auto simp: Connector_handleError_def Connector_removeAndResetChannel_def check_Inr Connector_retry_def
        Connector_setState_def close_socket_def Let_def split: option.splits if_splits)
next
  case (CWritable er self)
  with assms(1) show ?thesis
    by (auto simp: Connector_handleWrite_def Connector_removeAndResetChannel_def check_Inr rbind_Inr
        Connector_retry_def Connector_setState_def close_socket_def Let_def split: option.splits if_splits)
next
  case CStop
  with assms(1) show ?thesis by (auto simp: Connector_Stop_def)
qed (use assms in auto)

lemma writable_gives:
  assumes "connector_step (CWritable er self) k = Inr k'" and "length (g_Given k) < length (g_Given k')"
  shows "k_eConnectState k = eCS_Connecting \<and> k_eConnectState k' = eCS_Connected"
  using assms
  by (auto simp: Connector_handleWrite_def Connector_removeAndResetChannel_def check_Inr rbind_Inr
      Connector_retry_def Connector_setState_def close_socket_def Let_def split: option.splits if_splits)

text \<open>Only the connector changes.\<close>

lemma client_inv_connector:
  assumes "client_inv s" and "k_pEventLoop k = tc_pEventLoop s"
    and "tc_pTcpConnection s \<noteq> None \<Longrightarrow> k_eConnectState k = eCS_Connected"
  shows "client_inv (s\<lparr>tc_pConnector := k\<rparr>)"
  using assms by (auto simp: client_inv_def conn_ok_def)

lemma on_connector_inv:
  assumes inv: "client_inv s" and run: "on_connector (connector_step ev) s = Inr t"
    and ev: "\<And>so co. ev \<noteq> CRestart so co"
  shows "client_inv t"
proof -
  from run obtain k where k: "connector_step ev (tc_pConnector s) = Inr k" "t = s\<lparr>tc_pConnector := k\<rparr>"
    by (auto simp: on_connector_def rbind_Inr)
  show ?thesis
    unfolding k(2) using connector_step_keeps [OF k(1) ev] inv
    by (intro client_inv_connector) (auto simp: client_inv_def)
qed

text \<open>
  Only connection \<open>c\<close> changes, the queue may gain or lose its functor, and the pointer may be
  cleared.
\<close>

lemma client_inv_conn:
  assumes inv: "client_inv s" and c: "c < length (tc_Conns s)"
    and same: "tc_pEventLoop t = tc_pEventLoop s" "tc_pConnector t = tc_pConnector s"
      "tc_CloseCallBack t = tc_CloseCallBack s" "tc_bAlive t = tc_bAlive s" "tc_Conns t = (tc_Conns s)[c := r]"
    and r: "sc_pEventLoop r = sc_pEventLoop (tc_Conns s ! c)"
    and ptr: "tc_pTcpConnection t = tc_pTcpConnection s \<or> tc_pTcpConnection s = Some c \<and> tc_pTcpConnection t = None"
    and own: "stage_ok (tc_pTcpConnection t = Some c) r (count_list (tc_Queue t) (ConnDestroyedFn c))"
    and others: "\<And>c'. c' \<noteq> c \<Longrightarrow> count_list (tc_Queue t) (ConnDestroyedFn c') = count_list (tc_Queue s) (ConnDestroyedFn c')"
    and fs: "set (tc_Queue t) \<subseteq> insert (ConnDestroyedFn c) (set (tc_Queue s))"
  shows "client_inv t"
proof -
  have "conn_ok t c'" if lt: "c' < length (tc_Conns s)" for c'
  proof (cases "c' = c")
    case True
    with own inv c r show ?thesis by (simp add: same client_inv_def conn_ok_def)
  next
    case False
    have "(tc_pTcpConnection t = Some c') = (tc_pTcpConnection s = Some c')" using ptr False by auto
    with inv lt False others [OF False] show ?thesis
      by (simp add: same client_inv_def conn_ok_def)
  qed
  moreover have "tc_pTcpConnection s = Some c'" if "tc_pTcpConnection t = Some c'" for c'
    using ptr that by auto
  ultimately show ?thesis
    using inv fs c unfolding client_inv_def same by auto
qed

lemma conn_client:
  assumes "client_inv s" and "c < length (tc_Conns s)"
  shows "sc_pEventLoop (tc_Conns s ! c) = tc_pEventLoop s" and "tc_CloseCallBack s c = ToClient"
    and "stage_ok (tc_pTcpConnection s = Some c) (tc_Conns s ! c) (count_list (tc_Queue s) (ConnDestroyedFn c))"
  using assms by (auto simp: client_inv_def conn_ok_def)

lemma stage_enabled:
  "stage_ok p r n \<Longrightarrow> sc_bEnabled r \<longleftrightarrow> p"
  "stage_ok True r n \<Longrightarrow> n = 0 \<and> (sc_eConnectState r = eTCS_Connected \<or> sc_eConnectState r = eTCS_Disconnecting)"
  by (auto simp: stage_ok_def split: if_splits)

lemma stage_shutdown: "stage_ok p r n \<Longrightarrow> stage_ok p (server_conn_shutdown r) n"
  by (auto simp: stage_ok_def server_conn_shutdown_def split: if_splits)

lemma shutdown_loop [simp]: "sc_pEventLoop (server_conn_shutdown r) = sc_pEventLoop r"
  by (simp add: server_conn_shutdown_def)

lemma disconnect_inv:
  assumes inv: "client_inv s" and run: "TcpClient_DisConnect s = Inr t"
  shows "client_inv t"
proof (cases "tc_pTcpConnection s")
  case None
  have "client_inv (s\<lparr>tc_bConnect := False\<rparr>)" using inv by (simp add: client_inv_def conn_ok_def)
  with run None show ?thesis by (simp add: TcpClient_DisConnect_def)
next
  case (Some c)
  then have c: "c < length (tc_Conns s)" using inv by (simp add: client_inv_def)
  have t: "t = s\<lparr>tc_bConnect := False, tc_Conns := (tc_Conns s)[c := server_conn_shutdown (tc_Conns s ! c)]\<rparr>"
    using run Some c by (simp add: TcpClient_DisConnect_def on_client_conn_def)
  show ?thesis
    by (rule client_inv_conn [OF inv c, where r = "server_conn_shutdown (tc_Conns s ! c)"])
       (use stage_shutdown [OF conn_client(3) [OF inv c]] in \<open>auto simp: t\<close>)
qed

lemma newConnection_inv:
  assumes inv: "client_inv s" and ptr: "tc_pTcpConnection s = None"
    and st: "k_eConnectState (tc_pConnector s) = eCS_Connected"
    and run: "TcpClient_newConnection e (tc_pEventLoop s) peer loc fd s = Inr t"
  shows "client_inv t"
proof -
  let ?c = "length (tc_Conns s)"
  define r where "r = \<lparr>sc_pEventLoop = tc_pEventLoop s,
    sc_strName = client_conn_name (InetAddress_ToHostPort e (fst (GetPeerAddr peer))) (tc_nNextConnId s),
    sc_eConnectState = eTCS_Connected, sc_nSockFd = fd, sc_LocalAddr = fst (GetLocalAddr loc),
    sc_PeerAddr = fst (GetPeerAddr peer), sc_bEnabled = True\<rparr>"
  have t: "t = s\<lparr>tc_nNextConnId := tc_nNextConnId s + 1, tc_Conns := tc_Conns s @ [r],
      tc_CloseCallBack := (tc_CloseCallBack s)(?c := ToClient), tc_pTcpConnection := Some ?c\<rparr>"
    using run
    by (cases "0 \<le> fd")
       (auto simp: TcpClient_newConnection_def server_conn_new_def on_client_conn_def r_def
        server_conn_established_def Socket_new_def Socket_GetFd_def Let_def)
  have r: "sc_pEventLoop r = tc_pEventLoop s" "sc_eConnectState r = eTCS_Connected" "sc_bEnabled r"
    by (simp_all add: r_def)
  have no: "count_list (tc_Queue s) (ConnDestroyedFn ?c) = 0"
    using inv by (fastforce simp: client_inv_def count_list_0_iff)
  have "conn_ok t c" if "c < Suc ?c" for c
  proof (cases "c = ?c")
    case True
    with r no show ?thesis by (simp add: t conn_ok_def stage_ok_def)
  next
    case False
    with that conn_client [OF inv, of c] ptr show ?thesis by (simp add: t conn_ok_def nth_append)
  qed
  with inv st show ?thesis by (auto simp: client_inv_def t less_Suc_eq)
qed

lemma writable_inv:
  assumes inv: "client_inv s" and run: "client_writable e er self peer loc s = Inr t"
  shows "client_inv t"
proof -
  from run obtain k where k: "connector_step (CWritable er self) (tc_pConnector s) = Inr k"
    and t0: "(let s1 = s\<lparr>tc_pConnector := k\<rparr> in
       if length (g_Given (tc_pConnector s)) < length (g_Given k)
       then TcpClient_newConnection e (tc_pEventLoop s1) peer loc (last (g_Given k)) s1 else Inr s1) = Inr t"
    unfolding client_writable_def rbind_Inr by blast
  from t0 have t: "(if length (g_Given (tc_pConnector s)) < length (g_Given k)
      then TcpClient_newConnection e (tc_pEventLoop s) peer loc (last (g_Given k)) (s\<lparr>tc_pConnector := k\<rparr>)
      else Inr (s\<lparr>tc_pConnector := k\<rparr>)) = Inr t"
    by (auto simp: Let_def split: if_splits)
  have inv1: "client_inv (s\<lparr>tc_pConnector := k\<rparr>)"
    by (rule on_connector_inv [OF inv, where ev = "CWritable er self"])
       (use k in \<open>simp_all add: on_connector_def del: connector_step.simps\<close>)
  show ?thesis
  proof (cases "length (g_Given (tc_pConnector s)) < length (g_Given k)")
    case True
    from writable_gives [OF k True] have "k_eConnectState (tc_pConnector s) = eCS_Connecting"
      "k_eConnectState k = eCS_Connected" by simp_all
    moreover from this(1) inv have "tc_pTcpConnection s = None"
      by (cases "tc_pTcpConnection s") (auto simp: client_inv_def)
    ultimately show ?thesis
      using newConnection_inv [OF inv1] t True by simp
  next
    case False
    with t inv1 show ?thesis by simp
  qed
qed

lemma functor_client_inv:
  assumes inv: "client_inv s" and run: "client_step e ClFunctor s = Inr t"
  shows "client_inv t"
proof (cases "tc_Queue s")
  case Nil
  with run inv show ?thesis by simp
next
  case (Cons f fs)
  then obtain c where f: "f = ConnDestroyedFn c" and c: "c < length (tc_Conns s)"
    using inv by (auto simp: client_inv_def)
  let ?r = "(tc_Conns s ! c)\<lparr>sc_eConnectState := eTCS_Disconnected, sc_bEnabled := False\<rparr>"
  have t: "t = s\<lparr>tc_Queue := fs, tc_Conns := (tc_Conns s)[c := ?r]\<rparr>"
    using run c by (auto simp: Cons f run_client_functor_def on_client_conn_def server_conn_destroyed_def
      rbind_Inr check_Inr assert_in_loop_Inr)
  have st: "stage_ok (tc_pTcpConnection s = Some c) (tc_Conns s ! c) (Suc (count_list fs (ConnDestroyedFn c)))"
    using conn_client(3) [OF inv c] by (simp add: Cons f)
  show ?thesis
    by (rule client_inv_conn [OF inv c, where r = ?r])
       (use st in \<open>auto simp: t Cons f stage_ok_def split: if_splits\<close>)
qed

text \<open>A connection's end before a possible restart of the connector.\<close>

definition closed_client :: "nat \<Rightarrow> client \<Rightarrow> client" where
  "closed_client c s =
     queue_destroyed c (s\<lparr>tc_Conns := (tc_Conns s)[c := (tc_Conns s ! c)\<lparr>sc_bEnabled := False\<rparr>],
       tc_pTcpConnection := None\<rparr>)"

lemma closed_client_fields [simp]:
  "tc_pConnector (closed_client c s) = tc_pConnector s" "tc_pTcpConnection (closed_client c s) = None"
  "tc_Queue (closed_client c s) = tc_Queue s @ [ConnDestroyedFn c]"
  "tc_pEventLoop (closed_client c s) = tc_pEventLoop s" "tc_bRetry (closed_client c s) = tc_bRetry s"
  "tc_bConnect (closed_client c s) = tc_bConnect s"
  by (simp_all add: closed_client_def queue_destroyed_def)

lemma client_close_runs:
  assumes inv: "client_inv s" and c: "c < length (tc_Conns s)" and en: "sc_bEnabled (tc_Conns s ! c)"
  shows "client_close socket connect c s =
      (if tc_bRetry s \<and> tc_bConnect s
       then on_connector (Connector_Restart (tc_pEventLoop s) socket connect) (closed_client c s)
       else Inr (closed_client c s))"
    and "client_inv (closed_client c s)"
proof -
  have p: "tc_pTcpConnection s = Some c"
    using stage_enabled(1) [OF conn_client(3) [OF inv c]] en by simp
  have st: "count_list (tc_Queue s) (ConnDestroyedFn c) = 0"
    "sc_eConnectState (tc_Conns s ! c) = eTCS_Connected \<or> sc_eConnectState (tc_Conns s ! c) = eTCS_Disconnecting"
    using stage_enabled(2) conn_client(3) [OF inv c] p by auto
  have al: "tc_bAlive s" using inv by (simp add: client_inv_def)
  show "client_close socket connect c s =
      (if tc_bRetry s \<and> tc_bConnect s
       then on_connector (Connector_Restart (tc_pEventLoop s) socket connect) (closed_client c s)
       else Inr (closed_client c s))"
    using st(2) p conn_client(1,2) [OF inv c] c al
    by (auto simp: client_close_def on_client_conn_def server_conn_close_def TcpClient_removeConnection_def
        closed_client_def queue_destroyed_def Let_def)
  show "client_inv (closed_client c s)"
    by (rule client_inv_conn [OF inv c, where r = "(tc_Conns s ! c)\<lparr>sc_bEnabled := False\<rparr>"])
       (use st p in \<open>auto simp: closed_client_def queue_destroyed_def stage_ok_def\<close>)
qed

lemma Restart_keeps_loop:
  "Connector_Restart tid socket connect k = Inr k' \<Longrightarrow> k_pEventLoop k' = k_pEventLoop k"
  by (auto simp: Connector_Restart_def assert_in_loop_Inr Connector_setState_def dest: startInLoop_keeps)

lemma Restart_runs:
  assumes "k_pChannel k = None"
  shows "\<exists>k'. Connector_Restart (k_pEventLoop k) socket connect k = Inr k' \<and> g_Made k' = Suc (g_Made k)"
proof -
  obtain nRet er where r: "connect (fst (CreateNonBlockingOrDie socket)) (k_ServerAddr k) = (nRet, er)"
    by fastforce
  show ?thesis
    using assms
    by (cases "classify (if nRet = 0 then None else Some er)")
       (simp_all add: Connector_Restart_def Connector_startInLoop_def Connector_connect_def r
        Connector_setState_def Connector_connecting_def Connector_retry_def close_socket_def Let_def)
qed

lemma client_step_inv:
  assumes inv: "client_inv s" and run: "client_step e ev s = Inr t"
  shows "client_inv t"
proof (cases ev)
  case (ClConnect tid so co)
  have "client_inv (s\<lparr>tc_bConnect := True\<rparr>)" using inv by (simp add: client_inv_def conn_ok_def)
  moreover have "on_connector (connector_step (CStart tid so co)) (s\<lparr>tc_bConnect := True\<rparr>) = Inr t"
    using run by (simp add: ClConnect TcpClient_Connect_def check_Inr on_connector_def)
  ultimately show ?thesis by (rule on_connector_inv) simp
next
  case ClStop
  with inv run show ?thesis by (auto simp: TcpClient_Stop_def client_inv_def conn_ok_def Connector_Stop_def)
next
  case ClRetry
  with inv run show ?thesis by (auto simp: TcpClient_EnableRetry_def client_inv_def conn_ok_def)
next
  case ClDisConnect
  with inv run show ?thesis by (auto intro: disconnect_inv)
next
  case (ClWritable er self peer loc)
  with inv run show ?thesis by (auto intro: writable_inv)
next
  case ClError
  with inv run show ?thesis by (auto intro: on_connector_inv simp del: connector_step.simps)
next
  case (ClTimer so co)
  with inv run show ?thesis by (auto intro: on_connector_inv simp del: connector_step.simps)
next
  case (ClConnectorFunctor so co)
  with inv run show ?thesis by (auto intro: on_connector_inv simp del: connector_step.simps)
next
  case ClFunctor
  with inv run show ?thesis by (auto intro: functor_client_inv simp del: client_step.simps)
next
  case (ClCloses c so co)
  show ?thesis
  proof (cases "c < length (tc_Conns s) \<and> sc_bEnabled (tc_Conns s ! c)")
    case False
    with run ClCloses inv show ?thesis by auto
  next
    case True
    note cl = client_close_runs(1) [OF inv conjunct1 [OF True] conjunct2 [OF True], of so co]
      client_close_runs(2) [OF inv conjunct1 [OF True] conjunct2 [OF True]]
    show ?thesis
    proof (cases "tc_bRetry s \<and> tc_bConnect s")
      case False
      with run ClCloses True cl show ?thesis by auto
    next
      case retry: True
      then have "on_connector (Connector_Restart (tc_pEventLoop s) so co) (closed_client c s) = Inr t"
        using run ClCloses True cl(1) by simp
      then obtain k where k: "Connector_Restart (tc_pEventLoop s) so co (tc_pConnector s) = Inr k"
        and t: "t = (closed_client c s)\<lparr>tc_pConnector := k\<rparr>"
        by (auto simp: on_connector_def rbind_Inr)
      show ?thesis unfolding t
        using Restart_keeps_loop [OF k] inv
        by (intro client_inv_connector [OF cl(2)]) (simp_all add: client_inv_def)
    qed
  qed
qed

definition client_start :: "client \<Rightarrow> bool" where
  "client_start s \<longleftrightarrow> (\<exists>l a. TcpClient_new (Some l) a = Inr s)"

interpretation client_system: invariant_system client_start
  "\<lambda>s t. \<exists>ev. client_step e ev s = Inr t" client_inv for e :: endian
proof unfold_locales
  show "client_inv s" if "client_start s" for s
    using that by (auto simp: client_start_def TcpClient_new_def client_inv_def
      Connector_SetNewConnectionCallBack_def Connector_new_def)
  show "client_inv t" if "\<exists>ev. client_step e ev s = Inr t" "client_inv s" for s t
    using that by (auto intro: client_step_inv)
qed

text \<open>
  C15: In every state a client can reach through its calls and its loop's events, the end of the
  open connection is handled without a failed assertion: the pointer is cleared, the
  connection's destruction is queued, and with retry wanted (and the connector's old channel
  deleted) the connector makes a new socket at once; at most one connection is open, the one
  \<open>GetTcpConnection\<close> returns.
\<close>

theorem client_close_handled:
  assumes "reach client_start (\<lambda>s t. \<exists>ev. client_step e ev s = Inr t) s"
    and "c < length (tc_Conns s)" and "sc_bEnabled (tc_Conns s ! c)"
    and "tc_bRetry s \<and> tc_bConnect s \<longrightarrow> k_pChannel (tc_pConnector s) = None"
  shows "TcpClient_GetTcpConnection s = Some c \<and>
    (\<exists>t. client_step e (ClCloses c socket connect) s = Inr t \<and> TcpClient_GetTcpConnection t = None \<and>
      ConnDestroyedFn c \<in> set (tc_Queue t) \<and>
      g_Made (tc_pConnector t) = g_Made (tc_pConnector s) + (if tc_bRetry s \<and> tc_bConnect s then 1 else 0))"
proof -
  have inv: "client_inv s" by (rule client_system.reach_keeps [OF assms(1)])
  have p: "tc_pTcpConnection s = Some c"
    using stage_enabled(1) [OF conn_client(3) [OF inv assms(2)]] assms(3) by simp
  have l: "k_pEventLoop (tc_pConnector s) = tc_pEventLoop s" using inv by (simp add: client_inv_def)
  note cl = client_close_runs(1) [OF inv assms(2,3), of socket connect]
  show ?thesis
  proof (cases "tc_bRetry s \<and> tc_bConnect s")
    case False
    with p assms(2,3) cl show ?thesis by (auto simp: TcpClient_GetTcpConnection_def)
  next
    case True
    then have "k_pChannel (tc_pConnector s) = None" using assms(4) by simp
    from Restart_runs [OF this, of socket connect, unfolded l]
    obtain k where "Connector_Restart (tc_pEventLoop s) socket connect (tc_pConnector s) = Inr k"
      and "g_Made k = Suc (g_Made (tc_pConnector s))" by blast
    with True p assms(2,3) cl show ?thesis
      by (simp add: TcpClient_GetTcpConnection_def on_connector_def)
  qed
qed

text \<open>A client whose first attempt succeeds at once.\<close>

definition demo_client_events :: "client_event list" where
  "demo_client_events =
     [ClConnect 1 (7, ENOERROR) (\<lambda>_ _. (- 1, EINPROGRESS)), ClWritable None False None None,
      ClConnectorFunctor (8, ENOERROR) (\<lambda>_ _. (0, ENOERROR))]"

definition demo_client :: "client res" where
  "demo_client = rbind (TcpClient_new (Some 1) zero_addr) (rfold (client_step LittleEndian) demo_client_events)"

lemma demo_client_state:
  "\<exists>s. demo_client = Inr s \<and> length (tc_Conns s) = 1 \<and> sc_bEnabled (tc_Conns s ! 0) \<and>
     k_pChannel (tc_pConnector s) = None \<and> tc_pEventLoop s = 1 \<and> tc_bConnect s"
  by (simp add: demo_client_def demo_client_events_def TcpClient_new_def TcpClient_Connect_def on_connector_def
      Connector_SetNewConnectionCallBack_def Connector_new_def Connector_Start_def Connector_startInLoop_def
      Connector_connect_def CreateNonBlockingOrDie_def classify_def Connector_connecting_def Connector_setState_def
      client_writable_def Connector_handleWrite_def Connector_removeAndResetChannel_def TcpClient_newConnection_def
      server_conn_new_def Socket_new_def Socket_GetFd_def on_client_conn_def server_conn_established_def
      Connector_resetChannel_def Let_def)

lemma reach_rfold:
  assumes "reach I (\<lambda>s t. \<exists>ev. f ev s = Inr t) s" and "rfold f evs s = Inr t"
  shows "reach I (\<lambda>s t. \<exists>ev. f ev s = Inr t) t"
  using assms
proof (induction evs arbitrary: s)
  case (Cons ev evs)
  then obtain s1 where s1: "f ev s = Inr s1" "rfold f evs s1 = Inr t" by (auto simp: rbind_Inr)
  have "reach I (\<lambda>s t. \<exists>ev. f ev s = Inr t) s1"
    by (rule reach_step [OF Cons.prems(1)]) (use s1(1) in blast)
  with Cons.IH s1(2) show ?case by blast
qed simp

lemma demo_client_reachable:
  assumes "demo_client = Inr s"
  shows "reach client_start (\<lambda>s t. \<exists>ev. client_step LittleEndian ev s = Inr t) s"
proof -
  from assms obtain s0 where s0: "TcpClient_new (Some 1) zero_addr = Inr s0"
    and s: "rfold (client_step LittleEndian) demo_client_events s0 = Inr s"
    unfolding demo_client_def rbind_Inr by blast
  have "reach client_start (\<lambda>s t. \<exists>ev. client_step LittleEndian ev s = Inr t) s0"
    by (rule reach_init) (use s0 in \<open>auto simp: client_start_def\<close>)
  from reach_rfold [OF this s] show ?thesis .
qed

theorem client_close_handled_witness:
  "\<exists>s t. demo_client = Inr s \<and> TcpClient_GetTcpConnection s = Some 0 \<and>
     client_step LittleEndian (ClCloses 0 (9, ENOERROR) (\<lambda>_ _. (0, ENOERROR))) s = Inr t"
proof -
  from demo_client_state obtain s where s: "demo_client = Inr s" "length (tc_Conns s) = 1"
    "sc_bEnabled (tc_Conns s ! 0)" "k_pChannel (tc_pConnector s) = None" by blast
  then have "TcpClient_GetTcpConnection s = Some 0"
    and "\<exists>t. client_step LittleEndian (ClCloses 0 (9, ENOERROR) (\<lambda>_ _. (0, ENOERROR))) s = Inr t"
    using client_close_handled [OF demo_client_reachable [OF s(1)], of 0 "(9, ENOERROR)" "\<lambda>_ _. (0, ENOERROR)"]
    by auto
  with s(1) show ?thesis by blast
qed

text \<open>
  After \<open>DisConnect\<close> the client can never connect again: the connector still says \<open>eCS_Connected\<close>, and
  the next \<open>Connect\<close> fails the assertion in \<open>startInLoop\<close>.
\<close>

theorem client_reconnect_asserts:
  assumes "reach client_start (\<lambda>s t. \<exists>ev. client_step e ev s = Inr t) s"
    and "TcpClient_GetTcpConnection s = Some c"
  shows "\<exists>t. TcpClient_DisConnect s = Inr t \<and>
    TcpClient_Connect (tc_pEventLoop t) socket connect t = Inl AssertFailed"
proof -
  have inv: "client_inv s" by (rule client_system.reach_keeps [OF assms(1)])
  have p: "tc_pTcpConnection s = Some c" using assms(2) by (simp add: TcpClient_GetTcpConnection_def)
  with inv have "c < length (tc_Conns s)" "k_eConnectState (tc_pConnector s) = eCS_Connected"
    "k_pEventLoop (tc_pConnector s) = tc_pEventLoop s" by (auto simp: client_inv_def)
  with p show ?thesis
    by (simp add: TcpClient_DisConnect_def on_client_conn_def TcpClient_Connect_def on_connector_def
        Connector_Start_def Connector_startInLoop_def Let_def)
qed

text \<open>
  A client destroyed by another thread leaves a connection bound to it until the loop has run
  the rebinding functor; a close before that uses the dead object.
\<close>

theorem client_delete_race:
  assumes "client_inv s" and "tc_pTcpConnection s = Some c" and "tid \<noteq> tc_pEventLoop s"
  shows "client_close socket connect c (TcpClient_delete tid s) = Inl BadPointer"
proof -
  have c: "c < length (tc_Conns s)" using assms by (simp add: client_inv_def)
  note k = conn_client [OF assms(1) c]
  have "sc_eConnectState (tc_Conns s ! c) = eTCS_Connected \<or> sc_eConnectState (tc_Conns s ! c) = eTCS_Disconnecting"
    using stage_enabled(2) k(3) assms(2) by auto
  with k(1,2) c assms(2,3) show ?thesis
    by (auto simp: client_close_def TcpClient_delete_def on_client_conn_def server_conn_close_def Let_def)
qed

end
