(* ===== verification/PollPollers.thy ===== *)
theory PollPollers
  imports Channels
begin

text \<open>
  \<open>reactor/Poller\<close>: the poller over \<open>poll\<close>, the alternative to \<open>EPoller\<close>. It keeps the array
  passed to \<open>poll\<close>; a channel's index is its position there, a channel that wants no event has
  its descriptor replaced by a negative one, and removal moves the last entry into the hole.
\<close>

section \<open>The poller\<close>

record pollfd =
  pfd_fd :: int
  pfd_events :: "16 word"
  pfd_revents :: "16 word"

record 'cb poll_store = "'cb chan_store" +
  p_ThreadId :: nat
  p_PollFds :: "pollfd list"
  p_mpChannels :: "int \<Rightarrow> nat option"

definition Poller_new :: "nat \<Rightarrow> (nat \<Rightarrow> 'cb channel option) \<Rightarrow> 'cb poll_store" where
  "Poller_new tid chans =
     \<lparr>s_Channels = chans, p_ThreadId = tid, p_PollFds = [], p_mpChannels = (\<lambda>_. None)\<rparr>"

definition Poller_UpdateChannel ::
    "nat \<Rightarrow> nat \<Rightarrow> ('cb, 'a) poll_store_scheme \<Rightarrow> ('cb, 'a) poll_store_scheme res" where
  "Poller_UpdateChannel tid c s =
     assert_in_loop (tid = p_ThreadId s)
       (with_chan c s (\<lambda>ch.
          let fd = ch_Fd ch in
          if ch_nIndex ch < 0
          then check (p_mpChannels s fd = None)
            (let pfds = p_PollFds s @ [\<lparr>pfd_fd = fd, pfd_events = ucast (ch_nEvents ch), pfd_revents = 0\<rparr>]
             in Inr (put_chan c (Channel_SetIndex (int (length pfds) - 1) ch)
                  (s\<lparr>p_PollFds := pfds, p_mpChannels := (p_mpChannels s)(fd \<mapsto> c)\<rparr>)))
          else check (p_mpChannels s fd \<noteq> None) (check (p_mpChannels s fd = Some c)
            (let nIndex = ch_nIndex ch in
             check (0 \<le> nIndex \<and> nIndex < int (length (p_PollFds s)))
               (let pfd = p_PollFds s ! nat nIndex in
                check (pfd_fd pfd = fd \<or> - fd - 1 = pfd_fd pfd)
                  (let pfd1 = pfd\<lparr>pfd_events := ucast (ch_nEvents ch), pfd_revents := 0\<rparr>;
                       pfd2 = (if Channel_IsNoneEvent ch then pfd1\<lparr>pfd_fd := - fd - 1\<rparr> else pfd1)
                   in Inr (s\<lparr>p_PollFds := (p_PollFds s)[nat nIndex := pfd2]\<rparr>)))))))"

text \<open>The descriptor an entry stands for.\<close>

definition entry_fd :: "pollfd \<Rightarrow> int" where
  "entry_fd pfd = (if pfd_fd pfd < 0 then - pfd_fd pfd - 1 else pfd_fd pfd)"

definition Poller_RemoveChannel ::
    "nat \<Rightarrow> nat \<Rightarrow> ('cb, 'a) poll_store_scheme \<Rightarrow> ('cb, 'a) poll_store_scheme res" where
  "Poller_RemoveChannel tid c s =
     assert_in_loop (tid = p_ThreadId s)
       (with_chan c s (\<lambda>ch.
          let fd = ch_Fd ch; nIndex = ch_nIndex ch in
          check (p_mpChannels s fd \<noteq> None) (check (p_mpChannels s fd = Some c)
            (check (Channel_IsNoneEvent ch)
              (check (0 \<le> nIndex \<and> nIndex < int (length (p_PollFds s)))
                (let pfd = p_PollFds s ! nat nIndex in
                 check (pfd_fd pfd = - fd - 1 \<and> scast (pfd_events pfd) = ch_nEvents ch)
                   (let s1 = s\<lparr>p_mpChannels := (p_mpChannels s)(fd := None)\<rparr> in
                    if nat nIndex = length (p_PollFds s) - 1
                    then Inr (s1\<lparr>p_PollFds := butlast (p_PollFds s)\<rparr>)
                    else
                      (let atEnd = last (p_PollFds s) in
                       case p_mpChannels s1 (entry_fd atEnd) of
                         None \<Rightarrow> Inl BadPointer
                       | Some c' \<Rightarrow> with_chan c' s1 (\<lambda>ch'.
                           Inr (put_chan c' (Channel_SetIndex nIndex ch')
                             (s1\<lparr>p_PollFds := butlast ((p_PollFds s)[nat nIndex := atEnd])\<rparr>)))))))))))"

text \<open>
  After \<open>poll\<close>: the array as the kernel filled it (the reported events of each entry) and the
  number of entries with events. The loop stops when it has seen that many.
\<close>

fun Poller_fillActiveChannels ::
    "pollfd list \<Rightarrow> int \<Rightarrow> nat list \<Rightarrow> ('cb, 'a) poll_store_scheme \<Rightarrow>
     (nat list \<times> ('cb, 'a) poll_store_scheme) res" where
  "Poller_fillActiveChannels [] n active s = Inr (active, s)"
| "Poller_fillActiveChannels (pfd # pfds) n active s =
     (if 0 < n
      then (if 0 < sint (pfd_revents pfd)
            then (case p_mpChannels s (pfd_fd pfd) of
                    None \<Rightarrow> Inl AssertFailed
                  | Some c \<Rightarrow> with_chan c s (\<lambda>ch.
                      check (ch_Fd ch = pfd_fd pfd)
                        (Poller_fillActiveChannels pfds (n - 1) (active @ [c])
                          (put_chan c (Channel_SetREvents (scast (pfd_revents pfd)) ch) s))))
            else Poller_fillActiveChannels pfds n active s)
      else Inr (active, s))"

definition set_revents :: "16 word list \<Rightarrow> pollfd list \<Rightarrow> pollfd list" where
  "set_revents revents pfds = map (\<lambda>(r, p). p\<lparr>pfd_revents := r\<rparr>) (zip revents pfds)"

definition Poller_Poll ::
    "int \<Rightarrow> 16 word list \<Rightarrow> nat list \<Rightarrow> ('cb, 'a) poll_store_scheme \<Rightarrow>
     (nat list \<times> ('cb, 'a) poll_store_scheme) res" where
  "Poller_Poll nNumEvents revents active s =
     (if 0 < nNumEvents
      then (let s1 = s\<lparr>p_PollFds := set_revents revents (p_PollFds s)\<rparr>
            in Poller_fillActiveChannels (p_PollFds s1) nNumEvents active s1)
      else Inr (active, s))"

section \<open>The invariant\<close>

text \<open>
  The map, the array and the indices of the registered channels agree: every registered channel
  is at its index in the array, and every entry belongs to a registered channel.
\<close>

definition at_index :: "('cb, 'a) poll_store_scheme \<Rightarrow> int \<Rightarrow> nat \<Rightarrow> bool" where
  "at_index s fd c \<longleftrightarrow>
     (\<exists>ch i. s_Channels s c = Some ch \<and> ch_Fd ch = fd \<and> ch_nIndex ch = int i \<and>
        i < length (p_PollFds s) \<and> entry_fd (p_PollFds s ! i) = fd)"

definition poll_inv :: "('cb, 'a) poll_store_scheme \<Rightarrow> bool" where
  "poll_inv s \<longleftrightarrow>
     (\<forall>fd c. p_mpChannels s fd = Some c \<longrightarrow> 0 \<le> fd \<and> at_index s fd c) \<and>
     entry_fd ` set (p_PollFds s) \<subseteq> dom (p_mpChannels s) \<and>
     distinct (map entry_fd (p_PollFds s))"

lemma poll_inv_new [simp]: "poll_inv (Poller_new tid chans)"
  by (simp add: poll_inv_def Poller_new_def)

lemma put_chan_poll [simp]:
  "p_mpChannels (put_chan c ch s) = p_mpChannels s" "p_PollFds (put_chan c ch s) = p_PollFds s"
  "p_ThreadId (put_chan c ch s) = p_ThreadId s"
  by (simp_all add: put_chan_def)

lemma poll_inv_mapped:
  assumes "poll_inv s" and "p_mpChannels s fd = Some c"
  obtains ch i where "s_Channels s c = Some ch" and "ch_Fd ch = fd" and "ch_nIndex ch = int i"
    and "i < length (p_PollFds s)" and "entry_fd (p_PollFds s ! i) = fd" and "0 \<le> fd"
  using assms unfolding poll_inv_def at_index_def by blast

lemma entry_fd_encode [simp]: "0 \<le> fd \<Longrightarrow> pfd_fd p = - fd - 1 \<Longrightarrow> entry_fd p = fd"
  by (simp add: entry_fd_def)

lemma entry_fd_cases: "entry_fd p = fd \<Longrightarrow> pfd_fd p = fd \<or> - fd - 1 = pfd_fd p"
  by (auto simp: entry_fd_def)

text \<open>A new entry at the end.\<close>

lemma push_entry_inv:
  assumes inv: "poll_inv s" and c: "s_Channels s c = Some ch" "p_mpChannels s (ch_Fd ch) = None"
    and p: "entry_fd p = ch_Fd ch" "0 \<le> ch_Fd ch"
    and fresh: "\<forall>fd. p_mpChannels s fd \<noteq> Some c"
  shows "poll_inv (put_chan c (Channel_SetIndex (int (length (p_PollFds s))) ch)
    (s\<lparr>p_PollFds := p_PollFds s @ [p], p_mpChannels := (p_mpChannels s)(ch_Fd ch \<mapsto> c)\<rparr>))" (is "poll_inv ?s")
proof -
  have new: "ch_Fd ch \<notin> entry_fd ` set (p_PollFds s)"
    using inv c(2) unfolding poll_inv_def by (auto simp: dom_def)
  have "0 \<le> fd \<and> at_index ?s fd c'" if "p_mpChannels ?s fd = Some c'" for fd c'
  proof (cases "fd = ch_Fd ch")
    case True
    with that have "c' = c" by simp
    with True p show ?thesis
      by (auto simp: at_index_def Channel_SetIndex_def intro!: exI [of _ "length (p_PollFds s)"])
  next
    case False
    with that have m: "p_mpChannels s fd = Some c'" by simp
    with fresh have "c' \<noteq> c" by auto
    from inv m obtain ch' i where "s_Channels s c' = Some ch'" "ch_Fd ch' = fd" "ch_nIndex ch' = int i"
      "i < length (p_PollFds s)" "entry_fd (p_PollFds s ! i) = fd" "0 \<le> fd" by (rule poll_inv_mapped)
    with \<open>c' \<noteq> c\<close> show ?thesis
      by (auto simp: at_index_def put_chan_def nth_append intro!: exI [of _ i])
  qed
  moreover have "entry_fd ` set (p_PollFds ?s) \<subseteq> dom (p_mpChannels ?s)"
    using inv p unfolding poll_inv_def by auto
  moreover have "distinct (map entry_fd (p_PollFds ?s))"
    using inv p new by (auto simp: poll_inv_def)
  ultimately show ?thesis unfolding poll_inv_def by blast
qed

text \<open>An entry changed in place, its descriptor the same.\<close>

lemma set_entry_inv:
  assumes inv: "poll_inv s" and i: "i < length (p_PollFds s)" "entry_fd p = entry_fd (p_PollFds s ! i)"
  shows "poll_inv (s\<lparr>p_PollFds := (p_PollFds s)[i := p]\<rparr>)" (is "poll_inv ?s")
proof -
  have m: "map entry_fd ((p_PollFds s)[i := p]) = map entry_fd (p_PollFds s)"
    using i by (simp add: map_update list_update_same_conv)
  have "at_index ?s fd c" if "at_index s fd c" for fd c
  proof -
    from that obtain ch j where j: "s_Channels s c = Some ch" "ch_Fd ch = fd" "ch_nIndex ch = int j"
      "j < length (p_PollFds s)" "entry_fd (p_PollFds s ! j) = fd" unfolding at_index_def by blast
    have "entry_fd ((p_PollFds s)[i := p] ! j) = fd" using j i by (cases "j = i") auto
    with j show ?thesis by (auto simp: at_index_def)
  qed
  moreover have "entry_fd ` set (p_PollFds ?s) = entry_fd ` set (p_PollFds s)"
    using arg_cong [OF m, of set] by simp
  ultimately show ?thesis using inv unfolding poll_inv_def by (auto simp: m)
qed

text \<open>Removing an element by moving the last one into its place.\<close>

lemma swap_remove:
  assumes "distinct xs" and "i < length xs - 1"
  shows "set (butlast (xs[i := last xs])) = set xs - {xs ! i}"
    and "distinct (butlast (xs[i := last xs]))"
proof -
  obtain ys y where xs: "xs = ys @ [y]" using assms(2) by (cases xs rule: rev_cases) auto
  then have i: "i < length ys" "xs ! i = ys ! i" using assms(2) by (auto simp: nth_append)
  have e: "butlast (xs[i := last xs]) = ys[i := y]"
    using xs i by (simp add: list_update_append)
  have "distinct ys" "y \<notin> set ys" "y \<noteq> ys ! i" using assms(1) xs i by auto
  then show "set (butlast (xs[i := last xs])) = set xs - {xs ! i}"
    and "distinct (butlast (xs[i := last xs]))"
    unfolding e using xs i by (auto simp: set_update_distinct distinct_list_update)
qed

lemma remove_last_inv:
  assumes inv: "poll_inv s" and m: "p_mpChannels s fd = Some c"
    and i: "length (p_PollFds s) = Suc n" "entry_fd (p_PollFds s ! n) = fd"
  shows "poll_inv (s\<lparr>p_mpChannels := (p_mpChannels s)(fd := None), p_PollFds := butlast (p_PollFds s)\<rparr>)"
    (is "poll_inv ?s")
proof -
  obtain ys y where ys: "p_PollFds s = ys @ [y]" "length ys = n" "entry_fd y = fd"
    using i by (cases "p_PollFds s" rule: rev_cases) (auto simp: nth_append)
  have "0 \<le> fd' \<and> at_index ?s fd' c'" if "p_mpChannels ?s fd' = Some c'" for fd' c'
  proof -
    from that have m': "p_mpChannels s fd' = Some c'" and ne: "fd' \<noteq> fd" by (auto split: if_splits)
    from inv m' obtain ch j where j: "s_Channels s c' = Some ch" "ch_Fd ch = fd'" "ch_nIndex ch = int j"
      "j < length (p_PollFds s)" "entry_fd (p_PollFds s ! j) = fd'" "0 \<le> fd'" by (rule poll_inv_mapped)
    have "j < n" using j ne ys by (cases "j = n") (auto simp: nth_append)
    with j ys show ?thesis by (auto simp: at_index_def nth_append)
  qed
  moreover have "entry_fd ` set (p_PollFds ?s) \<subseteq> dom (p_mpChannels ?s)"
    "distinct (map entry_fd (p_PollFds ?s))"
    using inv ys by (auto simp: poll_inv_def image_iff)
  ultimately show ?thesis unfolding poll_inv_def by blast
qed

lemma remove_swap_inv:
  assumes inv: "poll_inv s" and i: "i < length (p_PollFds s) - 1" "entry_fd (p_PollFds s ! i) = fd"
  obtains c' ch' where "p_mpChannels s (entry_fd (last (p_PollFds s))) = Some c'"
    and "entry_fd (last (p_PollFds s)) \<noteq> fd" and "s_Channels s c' = Some ch'"
    and "poll_inv (put_chan c' (Channel_SetIndex (int i) ch')
      (s\<lparr>p_mpChannels := (p_mpChannels s)(fd := None),
         p_PollFds := butlast ((p_PollFds s)[i := last (p_PollFds s)])\<rparr>))"
proof -
  let ?xs = "p_PollFds s" and ?l = "last (p_PollFds s)"
  let ?n = "length ?xs - 1" and ?ys = "butlast (?xs[i := ?l])"
  have n: "?l = ?xs ! ?n" "i < length ?xs" "?n < length ?xs" using i(1)
    by (cases "?xs = []"; simp add: last_conv_nth)+
  have d: "distinct (map entry_fd ?xs)" using inv by (simp add: poll_inv_def)
  have ne: "entry_fd ?l \<noteq> fd"
    using nth_eq_iff_index_eq [OF d, of i ?n] n i by auto
  have "?l \<in> set ?xs" using n by (metis nth_mem)
  with inv have "entry_fd ?l \<in> dom (p_mpChannels s)" unfolding poll_inv_def by auto
  then obtain c' where c': "p_mpChannels s (entry_fd ?l) = Some c'" by blast
  from inv c' obtain ch' k where k: "s_Channels s c' = Some ch'" "ch_Fd ch' = entry_fd ?l"
    "ch_nIndex ch' = int k" "k < length ?xs" "entry_fd (?xs ! k) = entry_fd ?l" by (rule poll_inv_mapped)
  have kn: "k = ?n" using nth_eq_iff_index_eq [OF d, of k ?n] k n by auto
  have nth: "?ys ! j = (if j = i then ?l else ?xs ! j)" if "j < ?n" for j
    using that n(2) by (simp add: nth_butlast nth_list_update)
  let ?s = "put_chan c' (Channel_SetIndex (int i) ch') (s\<lparr>p_mpChannels := (p_mpChannels s)(fd := None),
      p_PollFds := ?ys\<rparr>)"
  have at: "0 \<le> fd2 \<and> at_index ?s fd2 c2" if "p_mpChannels ?s fd2 = Some c2" for fd2 c2
  proof -
    from that have m: "p_mpChannels s fd2 = Some c2" and ne2: "fd2 \<noteq> fd" by (auto split: if_splits)
    from inv m obtain ch2 j where j: "s_Channels s c2 = Some ch2" "ch_Fd ch2 = fd2" "ch_nIndex ch2 = int j"
      "j < length ?xs" "entry_fd (?xs ! j) = fd2" "0 \<le> fd2" by (rule poll_inv_mapped)
    have "j \<noteq> i" using j ne2 i(2) by auto
    show ?thesis
    proof (cases "j = ?n")
      case True
      then have "fd2 = entry_fd ?l" using j n by simp
      with m c' have "c2 = c'" by simp
      with j k True i nth [of i] n show ?thesis
        by (auto simp: at_index_def Channel_SetIndex_def intro!: exI [of _ i])
    next
      case False
      have "c2 \<noteq> c'"
      proof
        assume "c2 = c'"
        with j(1,3) k(1,3) have "j = k" by simp
        with False kn show False by simp
      qed
      moreover have "j < ?n" using False j(4) by linarith
      ultimately show ?thesis using j nth [of j] \<open>j \<noteq> i\<close>
        by (auto simp: at_index_def put_chan_def intro!: exI [of _ j])
    qed
  qed
  have m: "map entry_fd ?ys = butlast ((map entry_fd ?xs)[i := last (map entry_fd ?xs)])"
    using n i(1) by (simp add: map_butlast map_update last_map) (metis last_map length_0_conv not_less0)
  have "set (map entry_fd ?ys) = set (map entry_fd ?xs) - {map entry_fd ?xs ! i}"
    unfolding m using swap_remove(1) [OF d] i(1) by simp
  then have "entry_fd ` set ?ys = entry_fd ` set ?xs - {fd}" using i(2) n(2) by simp
  then have "entry_fd ` set (p_PollFds ?s) \<subseteq> dom (p_mpChannels ?s)"
    using inv unfolding poll_inv_def by auto
  moreover have "distinct (map entry_fd (p_PollFds ?s))"
    using swap_remove(2) [OF d] i(1) by (simp add: m)
  ultimately have "poll_inv ?s" using at unfolding poll_inv_def by blast
  with c' ne k that show thesis by blast
qed

section \<open>The operations\<close>

text \<open>When \<open>UpdateChannel\<close> may be called: on a new channel of a free descriptor, or a registered one.\<close>

definition may_update :: "('cb, 'a) poll_store_scheme \<Rightarrow> nat \<Rightarrow> 'cb channel \<Rightarrow> bool" where
  "may_update s c ch \<longleftrightarrow>
     s_Channels s c = Some ch \<and>
     (p_mpChannels s (ch_Fd ch) = Some c \<or>
      ch_nIndex ch < 0 \<and> 0 \<le> ch_Fd ch \<and> p_mpChannels s (ch_Fd ch) = None)"

lemma unregistered:
  assumes "poll_inv s" and "s_Channels s c = Some ch" and "ch_nIndex ch < 0"
  shows "p_mpChannels s fd \<noteq> Some c"
  using poll_inv_mapped [OF assms(1)] assms(2,3) by (metis negative_zless of_nat_less_0_iff option.inject)

text \<open>The entry \<open>UpdateChannel\<close> writes for a registered channel.\<close>

definition updated_entry :: "'cb channel \<Rightarrow> pollfd \<Rightarrow> pollfd" where
  "updated_entry ch pfd =
     (let pfd1 = pfd\<lparr>pfd_events := ucast (ch_nEvents ch), pfd_revents := 0\<rparr>
      in if Channel_IsNoneEvent ch then pfd1\<lparr>pfd_fd := - ch_Fd ch - 1\<rparr> else pfd1)"

lemma UpdateChannel_registered:
  assumes inv: "poll_inv s" and c: "s_Channels s c = Some ch" "p_mpChannels s (ch_Fd ch) = Some c"
  obtains i where "ch_nIndex ch = int i" and "i < length (p_PollFds s)"
    and "entry_fd (p_PollFds s ! i) = ch_Fd ch"
    and "Poller_UpdateChannel (p_ThreadId s) c s =
      Inr (s\<lparr>p_PollFds := (p_PollFds s)[i := updated_entry ch (p_PollFds s ! i)]\<rparr>)"
    and "poll_inv (s\<lparr>p_PollFds := (p_PollFds s)[i := updated_entry ch (p_PollFds s ! i)]\<rparr>)"
proof -
  from inv c(2) obtain ch' i where "s_Channels s c = Some ch'" "ch_nIndex ch' = int i"
    "i < length (p_PollFds s)" "entry_fd (p_PollFds s ! i) = ch_Fd ch" "0 \<le> ch_Fd ch"
    by (rule poll_inv_mapped)
  with c have i: "ch_nIndex ch = int i" "i < length (p_PollFds s)"
    "entry_fd (p_PollFds s ! i) = ch_Fd ch" "0 \<le> ch_Fd ch" by simp_all
  have "entry_fd (updated_entry ch (p_PollFds s ! i)) = entry_fd (p_PollFds s ! i)"
    using i(3,4) entry_fd_cases [OF i(3)] by (cases "Channel_IsNoneEvent ch") (auto simp: updated_entry_def entry_fd_def)
  note keeps = set_entry_inv [OF inv i(2) this]
  have "Poller_UpdateChannel (p_ThreadId s) c s =
      Inr (s\<lparr>p_PollFds := (p_PollFds s)[i := updated_entry ch (p_PollFds s ! i)]\<rparr>)"
    using c i entry_fd_cases [OF i(3)]
    by (simp add: Poller_UpdateChannel_def updated_entry_def Let_def)
  with i keeps that show thesis by blast
qed

lemma UpdateChannel_keeps:
  assumes inv: "poll_inv s" and c: "may_update s c ch"
  shows "\<exists>s'. Poller_UpdateChannel (p_ThreadId s) c s = Inr s' \<and> poll_inv s' \<and>
    p_mpChannels s' = (p_mpChannels s)(ch_Fd ch \<mapsto> c)"
proof (cases "p_mpChannels s (ch_Fd ch) = Some c")
  case True
  from c have s: "s_Channels s c = Some ch" by (simp add: may_update_def)
  from True have m: "(p_mpChannels s)(ch_Fd ch \<mapsto> c) = p_mpChannels s" by (simp add: fun_upd_idem)
  show ?thesis unfolding m by (rule UpdateChannel_registered [OF inv s True]) simp
next
  case False
  with c have s: "s_Channels s c = Some ch" "ch_nIndex ch < 0" "0 \<le> ch_Fd ch"
    "p_mpChannels s (ch_Fd ch) = None" by (auto simp: may_update_def)
  let ?p = "\<lparr>pfd_fd = ch_Fd ch, pfd_events = ucast (ch_nEvents ch), pfd_revents = 0\<rparr>"
  have "entry_fd ?p = ch_Fd ch" using s(3) by (simp add: entry_fd_def)
  from push_entry_inv [OF inv s(1,4) this s(3)] unregistered [OF inv s(1,2)] s show ?thesis
    by (simp add: Poller_UpdateChannel_def Let_def)
qed

lemma RemoveChannel_keeps:
  assumes inv: "poll_inv s" and c: "s_Channels s c = Some ch" "p_mpChannels s (ch_Fd ch) = Some c"
    and none: "Channel_IsNoneEvent ch"
    and p: "p_PollFds s ! nat (ch_nIndex ch) = p" "pfd_fd p = - ch_Fd ch - 1" "pfd_events p = 0"
  shows "\<exists>s'. Poller_RemoveChannel (p_ThreadId s) c s = Inr s' \<and> poll_inv s' \<and>
    p_mpChannels s' = (p_mpChannels s)(ch_Fd ch := None) \<and> s_Channels s' c = Some ch \<and> p_ThreadId s' = p_ThreadId s"
proof -
  from inv c(2) obtain ch' i where "s_Channels s c = Some ch'" "ch_nIndex ch' = int i"
    "i < length (p_PollFds s)" "entry_fd (p_PollFds s ! i) = ch_Fd ch" "0 \<le> ch_Fd ch"
    by (rule poll_inv_mapped)
  with c have i: "ch_nIndex ch = int i" "i < length (p_PollFds s)"
    "entry_fd (p_PollFds s ! i) = ch_Fd ch" by simp_all
  have ev: "scast (pfd_events p) = ch_nEvents ch"
    using p none by (simp add: Channel_IsNoneEvent_def NONE_EVENT_def)
  show ?thesis
  proof (cases "i = length (p_PollFds s) - 1")
    case True
    obtain n where n: "length (p_PollFds s) = Suc n" using i(2) by (cases "length (p_PollFds s)") auto
    with True have "i = n" by simp
    with remove_last_inv [OF inv c(2) n] i c p ev none n show ?thesis
      by (simp add: Poller_RemoveChannel_def Let_def)
  next
    case False
    with i have lt: "i < length (p_PollFds s) - 1" by simp
    obtain c' ch' where e: "p_mpChannels s (entry_fd (last (p_PollFds s))) = Some c'"
      "entry_fd (last (p_PollFds s)) \<noteq> ch_Fd ch" "s_Channels s c' = Some ch'"
      and inv': "poll_inv (put_chan c' (Channel_SetIndex (int i) ch')
        (s\<lparr>p_mpChannels := (p_mpChannels s)(ch_Fd ch := None),
           p_PollFds := butlast ((p_PollFds s)[i := last (p_PollFds s)])\<rparr>))"
      by (rule remove_swap_inv [OF inv lt i(3)])
    from inv e(1) obtain ch2 where "s_Channels s c' = Some ch2"
      "ch_Fd ch2 = entry_fd (last (p_PollFds s))" by (rule poll_inv_mapped)
    with e(2) c(1) have "c' \<noteq> c" by auto
    with e i c p ev none False inv' show ?thesis
      by (simp add: Poller_RemoveChannel_def Let_def)
  qed
qed

lemma poll_inv_put_chan:
  assumes "poll_inv s" and "s_Channels s c = Some ch"
    and "ch_Fd ch' = ch_Fd ch" "ch_nIndex ch' = ch_nIndex ch"
  shows "poll_inv (put_chan c ch' s)"
proof -
  have "at_index (put_chan c ch' s) fd c'" if "at_index s fd c'" for fd c'
    using that assms(2-4) by (cases "c' = c") (auto simp: at_index_def)
  then show ?thesis using assms(1) by (simp add: poll_inv_def)
qed

section \<open>Properties\<close>


definition two_polled :: "nat poll_store" where
  "two_polled =
     \<lparr>s_Channels = [3 \<mapsto> (Channel_new 0 5)\<lparr>ch_nIndex := 0\<rparr>,
        4 \<mapsto> (Channel_new 0 6)\<lparr>ch_nIndex := 1, ch_nEvents := POLLIN\<rparr>],
      p_ThreadId = 1,
      p_PollFds = [\<lparr>pfd_fd = - 6, pfd_events = 0, pfd_revents = 0\<rparr>,
        \<lparr>pfd_fd = 6, pfd_events = 1, pfd_revents = 0\<rparr>],
      p_mpChannels = [5 \<mapsto> 3, 6 \<mapsto> 4]\<rparr>"

lemma two_polled_inv: "poll_inv two_polled"
proof -
  have "at_index two_polled 5 3" "at_index two_polled 6 4"
    by (auto simp: at_index_def two_polled_def entry_fd_def Channel_new_def)
  then show ?thesis by (auto simp: poll_inv_def two_polled_def entry_fd_def split: if_splits)
qed


text \<open>
  Once a registered channel has been disabled, its entry in the array for \<open>poll\<close> keeps the
  negative descriptor: enabling the channel again updates the events of the entry but not its
  descriptor, so the kernel goes on ignoring the channel.
\<close>

theorem Poller_reenabled_ignored:
  assumes inv: "poll_inv s" and c: "s_Channels s c = Some ch" "p_mpChannels s (ch_Fd ch) = Some c"
    and ev: "ev \<noteq> NONE_EVENT"
  shows "\<exists>s1 s2. Poller_UpdateChannel (p_ThreadId s) c (put_chan c (disable_all ch) s) = Inr s1 \<and>
    Poller_UpdateChannel (p_ThreadId s) c (put_chan c (ch\<lparr>ch_nEvents := ev\<rparr>) s1) = Inr s2 \<and>
    pfd_events (p_PollFds s2 ! nat (ch_nIndex ch)) = ucast ev \<and>
    pfd_fd (p_PollFds s2 ! nat (ch_nIndex ch)) < 0"
proof -
  let ?d = "disable_all ch" and ?e = "ch\<lparr>ch_nEvents := ev\<rparr>"
  have d: "ch_Fd ?d = ch_Fd ch" "ch_nIndex ?d = ch_nIndex ch" "ch_nEvents ?d = NONE_EVENT"
    by (simp_all add: disable_all_def)
  have i1: "poll_inv (put_chan c ?d s)" by (rule poll_inv_put_chan [OF inv c(1) d(1,2)])
  have fd: "0 \<le> ch_Fd ch" using inv c(2) by (auto simp: poll_inv_def)
  obtain i where i: "ch_nIndex ?d = int i" "i < length (p_PollFds s)"
    and r1: "Poller_UpdateChannel (p_ThreadId s) c (put_chan c ?d s) =
      Inr ((put_chan c ?d s)\<lparr>p_PollFds := (p_PollFds s)[i := updated_entry ?d (p_PollFds s ! i)]\<rparr>)"
    and inv1: "poll_inv ((put_chan c ?d s)\<lparr>p_PollFds := (p_PollFds s)[i := updated_entry ?d (p_PollFds s ! i)]\<rparr>)"
      (is "poll_inv ?s1")
    using UpdateChannel_registered [OF i1, of c ?d] c(2) d(1) by auto
  have s1: "s_Channels ?s1 c = Some ?d" "p_mpChannels ?s1 (ch_Fd ?e) = Some c"
    using c(2) by simp_all
  have i2: "poll_inv (put_chan c ?e ?s1)" by (rule poll_inv_put_chan [OF inv1 s1(1)]) (simp_all add: d)
  obtain j where j: "ch_nIndex ?e = int j" "j < length (p_PollFds ?s1)"
    and r2: "Poller_UpdateChannel (p_ThreadId s) c (put_chan c ?e ?s1) =
      Inr ((put_chan c ?e ?s1)\<lparr>p_PollFds := (p_PollFds ?s1)[j := updated_entry ?e (p_PollFds ?s1 ! j)]\<rparr>)"
    using UpdateChannel_registered [OF i2, of c ?e] s1(2) by auto
  have ji: "j = i" using i(1) j(1) d(2) by simp
  have "pfd_fd (updated_entry ?d (p_PollFds s ! i)) = - ch_Fd ch - 1"
    by (simp add: updated_entry_def Channel_IsNoneEvent_def d Let_def)
  with fd ev i ji d(2) have "pfd_fd (updated_entry ?e (p_PollFds ?s1 ! j)) < 0"
    "pfd_events (updated_entry ?e (p_PollFds ?s1 ! j)) = ucast ev"
    by (simp_all add: updated_entry_def Channel_IsNoneEvent_def Let_def)
  with r1 r2 i j ji show ?thesis by auto
qed

theorem Poller_reenabled_ignored_witness:
  "\<exists>s1 s2. Poller_UpdateChannel 1 4 (put_chan 4 (disable_all ((Channel_new 0 6)\<lparr>ch_nIndex := 1, ch_nEvents := POLLIN\<rparr>)) two_polled) = Inr s1 \<and>
     Poller_UpdateChannel 1 4 (put_chan 4 ((Channel_new 0 6)\<lparr>ch_nIndex := 1, ch_nEvents := POLLIN\<rparr>) s1) = Inr s2 \<and>
     pfd_fd (p_PollFds s2 ! 1) < 0"
proof -
  let ?ch = "(Channel_new 0 6)\<lparr>ch_nIndex := 1, ch_nEvents := POLLIN\<rparr> :: nat channel"
  have s: "s_Channels two_polled 4 = Some ?ch" "p_mpChannels two_polled (ch_Fd ?ch) = Some 4"
    by (simp_all add: two_polled_def Channel_new_def)
  have "POLLIN \<noteq> NONE_EVENT" by (simp add: event_defs)
  from Poller_reenabled_ignored [OF two_polled_inv s this] show ?thesis
    by (auto simp: two_polled_def)
qed

text \<open>
  \<open>RemoveChannel\<close> leaves the index in the removed channel, so handing the same channel to the
  poller again takes the branch for registered channels and fails its assertion (\<open>EPoller\<close>
  resets the index).
\<close>

theorem Poller_removed_not_reusable:
  assumes inv: "poll_inv s" and c: "s_Channels s c = Some ch" "p_mpChannels s (ch_Fd ch) = Some c"
    and r: "Poller_RemoveChannel (p_ThreadId s) c s = Inr s'"
  shows "Poller_UpdateChannel (p_ThreadId s) c s' = Inl AssertFailed"
proof -
  from inv c(2) obtain ch' i where "s_Channels s c = Some ch'" "ch_nIndex ch' = int i"
    by (rule poll_inv_mapped)
  with c(1) have i: "\<not> ch_nIndex ch < 0" by simp
  let ?p = "p_PollFds s ! nat (ch_nIndex ch)"
  from r c have none: "Channel_IsNoneEvent ch" and p: "pfd_fd ?p = - ch_Fd ch - 1"
    "scast (pfd_events ?p) = ch_nEvents ch"
    by (simp_all add: Poller_RemoveChannel_def check_Inr Let_def)
  have "pfd_events ?p = scast (scast (pfd_events ?p) :: events)" by (simp add: scast_up_scast_id is_up)
  with p(2) none have "pfd_events ?p = 0" by (simp add: Channel_IsNoneEvent_def NONE_EVENT_def)
  from RemoveChannel_keeps [OF inv c none refl p(1) this] r have "s_Channels s' c = Some ch"
    "p_mpChannels s' (ch_Fd ch) = None" "p_ThreadId s' = p_ThreadId s" by auto
  with i show ?thesis by (simp add: Poller_UpdateChannel_def Let_def)
qed

theorem Poller_removed_not_reusable_witness:
  "\<exists>s'. Poller_RemoveChannel 1 3 two_polled = Inr s' \<and>
     Poller_UpdateChannel 1 3 s' = Inl AssertFailed"
proof -
  let ?ch = "(Channel_new 0 5)\<lparr>ch_nIndex := 0\<rparr> :: nat channel"
  have s: "s_Channels two_polled 3 = Some ?ch" "p_mpChannels two_polled (ch_Fd ?ch) = Some 3"
    by (simp_all add: two_polled_def Channel_new_def)
  define s' where "s' = two_polled\<lparr>s_Channels := (s_Channels two_polled)(4 \<mapsto>
      (Channel_new 0 6)\<lparr>ch_nIndex := 0, ch_nEvents := POLLIN\<rparr>),
    p_PollFds := [\<lparr>pfd_fd = 6, pfd_events = 1, pfd_revents = 0\<rparr>], p_mpChannels := [6 \<mapsto> 4]\<rparr>"
  have r: "Poller_RemoveChannel (p_ThreadId two_polled) 3 two_polled = Inr s'"
    by (simp add: Poller_RemoveChannel_def two_polled_def Channel_new_def Channel_IsNoneEvent_def
        NONE_EVENT_def s'_def entry_fd_def put_chan_def Channel_SetIndex_def fun_eq_iff Let_def)
  from Poller_removed_not_reusable [OF two_polled_inv s r] r show ?thesis
    by (simp add: two_polled_def)
qed

end
