(* ===== verification/BlockingQueues.thy ===== *)
theory BlockingQueues
  imports Monitors
begin

text \<open>
  \<open>thread/BlockingQueue.h\<close> and \<open>thread/BoundedBlockingQueue.h\<close>. What a thread does between
  getting the mutex (on entry, or back from \<open>Wait\<close>) and giving it up (on return, or in
  \<open>Wait\<close>) is one step, since no other thread touches the queue meanwhile. The step relations
  let any number of threads enter, be signalled, time out or wake up spuriously. The laws a
  client of either queue relies on are the locale \<open>message_queue\<close>.
\<close>

locale message_queue =
  fixes put :: "'m \<Rightarrow> 'q \<Rightarrow> 'q option" and get :: "'q \<Rightarrow> ('m \<times> 'q) option"
    and items :: "'q \<Rightarrow> 'm list"
  assumes put_items: "put x q = Some q' \<Longrightarrow> items q' = items q @ [x]"
    and get_items: "get q = Some (x, q') \<Longrightarrow> items q = x # items q'"
    and get_blocks: "get q = None \<longleftrightarrow> items q = []"
begin

lemma get_first: "items q = x # xs \<Longrightarrow> \<exists>q'. get q = Some (x, q') \<and> items q' = xs"
  by (cases "get q") (auto simp: get_blocks [of q] dest: get_items)

end

section \<open>The unbounded queue\<close>

record 'a blocking_queue =
  m_NotEmptyCond :: condition
  m_Queue :: "'a list"

definition BlockingQueue_new :: "'a blocking_queue" where
  "BlockingQueue_new = \<lparr>m_NotEmptyCond = Condition_new, m_Queue = []\<rparr>"

definition BlockingQueue_Put :: "nat \<Rightarrow> 'a \<Rightarrow> 'a blocking_queue \<Rightarrow> 'a blocking_queue" where
  "BlockingQueue_Put k t q =
     q\<lparr>m_Queue := m_Queue q @ [t], m_NotEmptyCond := Condition_Notify k (m_NotEmptyCond q)\<rparr>"

text \<open>\<open>Take\<close> with the mutex held: an element, or nothing when the loop blocks in \<open>Wait\<close>.\<close>

definition BlockingQueue_Take ::
    "nat \<Rightarrow> 'a blocking_queue \<Rightarrow> ('a option \<times> 'a blocking_queue) res" where
  "BlockingQueue_Take tid q =
     (if m_Queue q = [] then Inr (None, q\<lparr>m_NotEmptyCond := cv_sleep tid (m_NotEmptyCond q)\<rparr>)
      else check (m_Queue q \<noteq> [])
        (let front = hd (m_Queue q) in Inr (Some front, q\<lparr>m_Queue := tl (m_Queue q)\<rparr>)))"

definition BlockingQueue_Size :: "'a blocking_queue \<Rightarrow> nat" where
  "BlockingQueue_Size q = length (m_Queue q)"

text \<open>The queue in use: what has been put and what has been taken, in order.\<close>

record 'a queue_run =
  r_Queue :: "'a blocking_queue"
  g_Put :: "'a list"
  g_Taken :: "'a list"

definition took :: "('a option \<times> 'a blocking_queue) \<Rightarrow> 'a queue_run \<Rightarrow> 'a queue_run" where
  "took r s = s\<lparr>r_Queue := snd r,
     g_Taken := g_Taken s @ (case fst r of None \<Rightarrow> [] | Some x \<Rightarrow> [x])\<rparr>"

inductive queue_move :: "'a queue_run \<Rightarrow> 'a queue_run \<Rightarrow> bool" where
  q_put: "queue_move s
     (s\<lparr>r_Queue := BlockingQueue_Put k t (r_Queue s), g_Put := g_Put s @ [t]\<rparr>)"
| q_take: "BlockingQueue_Take tid (r_Queue s) = Inr r \<Longrightarrow> queue_move s (took r s)"
| q_resume: "tid \<in> set (cv_Ready (m_NotEmptyCond (r_Queue s))) \<Longrightarrow>
     BlockingQueue_Take tid
       (r_Queue s\<lparr>m_NotEmptyCond := cv_resume tid (m_NotEmptyCond (r_Queue s))\<rparr>) = Inr r \<Longrightarrow>
     queue_move s (took r s)"
| q_wake: "queue_move s
     (s\<lparr>r_Queue := r_Queue s\<lparr>m_NotEmptyCond := cv_unblock tid (m_NotEmptyCond (r_Queue s))\<rparr>\<rparr>)"

definition queue_start :: "'a queue_run \<Rightarrow> bool" where
  "queue_start s \<longleftrightarrow> r_Queue s = BlockingQueue_new \<and> g_Put s = [] \<and> g_Taken s = []"

definition served :: "condition \<Rightarrow> nat \<Rightarrow> bool" where
  "served c n \<longleftrightarrow> cv_Waiting c = [] \<or> n \<le> length (cv_Ready c)"

definition queue_inv :: "'a queue_run \<Rightarrow> bool" where
  "queue_inv s \<longleftrightarrow> g_Taken s @ m_Queue (r_Queue s) = g_Put s \<and>
     served (m_NotEmptyCond (r_Queue s)) (length (m_Queue (r_Queue s)))"

lemma served_notify: "served c n \<Longrightarrow> served (Condition_Notify k c) (Suc n)"
  by (auto simp: served_def monitor_simps)

lemma served_less: "served c n \<Longrightarrow> m \<le> n \<Longrightarrow> served c m"
  by (auto simp: served_def)

lemma served_Suc: "served c (Suc n) \<Longrightarrow> served c n"
  by (erule served_less) simp

lemma served_sleep: "served (cv_sleep tid c) 0"
  by (simp add: served_def)

lemma served_resume:
  assumes "served c n" and "tid \<in> set (cv_Ready c)"
  shows "served (cv_resume tid c) (n - 1)"
  using assms by (auto simp: served_def monitor_simps length_remove1)

lemma served_unblock: "served c n \<Longrightarrow> served (cv_unblock tid c) n"
  by (auto simp: served_def cv_unblock_def)

interpretation queue_system: invariant_system queue_start queue_move queue_inv
proof unfold_locales
  show "queue_inv s" if "queue_start s" for s :: "'a queue_run"
    using that
    by (simp add: queue_inv_def queue_start_def BlockingQueue_new_def Condition_new_def served_def)
  show "queue_inv t" if "queue_move s t" "queue_inv s" for s t :: "'a queue_run"
    using that
  proof (cases rule: queue_move.cases)
    case (q_put k x)
    with that(2) show ?thesis
      by (simp add: queue_inv_def BlockingQueue_Put_def served_notify)
  next
    case (q_take tid r)
    with that(2) show ?thesis
      by (cases "m_Queue (r_Queue s)")
         (auto simp: queue_inv_def BlockingQueue_Take_def took_def served_sleep Let_def
            dest: served_Suc)
  next
    case (q_resume tid r)
    with that(2) served_resume [of "m_NotEmptyCond (r_Queue s)" _ tid] show ?thesis
      by (cases "m_Queue (r_Queue s)")
         (force simp: queue_inv_def BlockingQueue_Take_def took_def served_sleep Let_def)+
  next
    case (q_wake tid)
    with that(2) show ?thesis by (simp add: queue_inv_def served_unblock)
  qed
qed

section \<open>The bounded queue\<close>

text \<open>
  \<open>boost::circular_buffer\<close> is its elements and its capacity; \<open>full()\<close> compares the two.
  \<open>b_Item\<close> is what each thread blocked in \<open>Put\<close> came with.
\<close>

record 'a bounded_queue =
  b_NotEmptyCond :: condition
  b_NoeFullCond :: condition
  b_Queue :: "'a list"
  b_Capacity :: nat
  b_Item :: "nat \<Rightarrow> 'a option"

definition BoundedBlockingQueue_new :: "nat \<Rightarrow> 'a bounded_queue" where
  "BoundedBlockingQueue_new nMaxSize =
     \<lparr>b_NotEmptyCond = Condition_new, b_NoeFullCond = Condition_new, b_Queue = [],
      b_Capacity = nMaxSize, b_Item = (\<lambda>_. None)\<rparr>"

definition BoundedBlockingQueue_Empty :: "'a bounded_queue \<Rightarrow> bool" where
  "BoundedBlockingQueue_Empty q \<longleftrightarrow> b_Queue q = []"

definition BoundedBlockingQueue_Full :: "'a bounded_queue \<Rightarrow> bool" where
  "BoundedBlockingQueue_Full q \<longleftrightarrow> length (b_Queue q) = b_Capacity q"

definition BoundedBlockingQueue_Size :: "'a bounded_queue \<Rightarrow> nat" where
  "BoundedBlockingQueue_Size q = length (b_Queue q)"

definition BoundedBlockingQueue_Capacity :: "'a bounded_queue \<Rightarrow> nat" where
  "BoundedBlockingQueue_Capacity q = b_Capacity q"

text \<open>\<open>push_back\<close> of a full circular buffer overwrites the first element (and does nothing at capacity 0).\<close>

definition circular_push :: "'a \<Rightarrow> 'a bounded_queue \<Rightarrow> 'a bounded_queue" where
  "circular_push t q =
     (if BoundedBlockingQueue_Full q then q\<lparr>b_Queue := tl (b_Queue q @ [t])\<rparr>
      else q\<lparr>b_Queue := b_Queue q @ [t]\<rparr>)"

text \<open>\<open>Put\<close> and \<open>Take\<close> with the mutex held; \<open>False\<close> and nothing when the loop blocks.\<close>

definition BoundedBlockingQueue_Put ::
    "nat \<Rightarrow> nat \<Rightarrow> 'a \<Rightarrow> 'a bounded_queue \<Rightarrow> (bool \<times> 'a bounded_queue) res" where
  "BoundedBlockingQueue_Put k tid t q =
     (if BoundedBlockingQueue_Full q
      then Inr (False, q\<lparr>b_NoeFullCond := cv_sleep tid (b_NoeFullCond q),
                         b_Item := (b_Item q)(tid \<mapsto> t)\<rparr>)
      else check (\<not> BoundedBlockingQueue_Full q)
        (let q1 = circular_push t q
         in Inr (True, q1\<lparr>b_NotEmptyCond := Condition_Notify k (b_NotEmptyCond q1)\<rparr>)))"

definition BoundedBlockingQueue_Take ::
    "nat \<Rightarrow> nat \<Rightarrow> 'a bounded_queue \<Rightarrow> ('a option \<times> 'a bounded_queue) res" where
  "BoundedBlockingQueue_Take k tid q =
     (if b_Queue q = [] then Inr (None, q\<lparr>b_NotEmptyCond := cv_sleep tid (b_NotEmptyCond q)\<rparr>)
      else check (b_Queue q \<noteq> [])
        (let front = hd (b_Queue q);
             q1 = q\<lparr>b_Queue := tl (b_Queue q)\<rparr>
         in Inr (Some front, q1\<lparr>b_NoeFullCond := Condition_Notify k (b_NoeFullCond q1)\<rparr>)))"

record 'a bounded_run =
  br_Queue :: "'a bounded_queue"
  h_Put :: "'a list"
  h_Taken :: "'a list"

definition b_took :: "('a option \<times> 'a bounded_queue) \<Rightarrow> 'a bounded_run \<Rightarrow> 'a bounded_run" where
  "b_took r s = s\<lparr>br_Queue := snd r,
     h_Taken := h_Taken s @ (case fst r of None \<Rightarrow> [] | Some x \<Rightarrow> [x])\<rparr>"

definition b_put :: "'a \<Rightarrow> (bool \<times> 'a bounded_queue) \<Rightarrow> 'a bounded_run \<Rightarrow> 'a bounded_run" where
  "b_put t r s = s\<lparr>br_Queue := snd r, h_Put := h_Put s @ (if fst r then [t] else [])\<rparr>"

inductive bounded_move :: "'a bounded_run \<Rightarrow> 'a bounded_run \<Rightarrow> bool" where
  b_enter_put: "BoundedBlockingQueue_Put k tid t (br_Queue s) = Inr r \<Longrightarrow> bounded_move s (b_put t r s)"
| b_resume_put: "tid \<in> set (cv_Ready (b_NoeFullCond (br_Queue s))) \<Longrightarrow>
     b_Item (br_Queue s) tid = Some t \<Longrightarrow>
     BoundedBlockingQueue_Put k tid t
       (br_Queue s\<lparr>b_NoeFullCond := cv_resume tid (b_NoeFullCond (br_Queue s))\<rparr>) = Inr r \<Longrightarrow>
     bounded_move s (b_put t r s)"
| b_enter_take: "BoundedBlockingQueue_Take k tid (br_Queue s) = Inr r \<Longrightarrow> bounded_move s (b_took r s)"
| b_resume_take: "tid \<in> set (cv_Ready (b_NotEmptyCond (br_Queue s))) \<Longrightarrow>
     BoundedBlockingQueue_Take k tid
       (br_Queue s\<lparr>b_NotEmptyCond := cv_resume tid (b_NotEmptyCond (br_Queue s))\<rparr>) = Inr r \<Longrightarrow>
     bounded_move s (b_took r s)"
| b_wake_put: "bounded_move s
     (s\<lparr>br_Queue := br_Queue s\<lparr>b_NoeFullCond := cv_unblock tid (b_NoeFullCond (br_Queue s))\<rparr>\<rparr>)"
| b_wake_take: "bounded_move s
     (s\<lparr>br_Queue := br_Queue s\<lparr>b_NotEmptyCond := cv_unblock tid (b_NotEmptyCond (br_Queue s))\<rparr>\<rparr>)"

definition bounded_start :: "nat \<Rightarrow> 'a bounded_run \<Rightarrow> bool" where
  "bounded_start n s \<longleftrightarrow> br_Queue s = BoundedBlockingQueue_new n \<and> h_Put s = [] \<and> h_Taken s = []"

definition bounded_inv :: "nat \<Rightarrow> 'a bounded_run \<Rightarrow> bool" where
  "bounded_inv n s \<longleftrightarrow> (let q = br_Queue s in
     b_Capacity q = n \<and> length (b_Queue q) \<le> n \<and> h_Taken s @ b_Queue q = h_Put s \<and>
     served (b_NotEmptyCond q) (length (b_Queue q)) \<and>
     served (b_NoeFullCond q) (n - length (b_Queue q)))"

lemmas bounded_defs = bounded_inv_def Let_def BoundedBlockingQueue_Put_def
  BoundedBlockingQueue_Take_def BoundedBlockingQueue_Full_def circular_push_def b_put_def b_took_def

lemma bounded_put_inv:
  assumes inv: "b_Capacity q = n" "length (b_Queue q) \<le> n" "taken @ b_Queue q = done"
    and e: "served (b_NotEmptyCond q) (length (b_Queue q))"
    and f: "served (b_NoeFullCond q) (n - length (b_Queue q) - 1)"
    and r: "BoundedBlockingQueue_Put k tid t q = Inr (ok, q')"
  shows "b_Capacity q' = n \<and> length (b_Queue q') \<le> n \<and>
    taken @ b_Queue q' = done @ (if ok then [t] else []) \<and>
    served (b_NotEmptyCond q') (length (b_Queue q')) \<and>
    served (b_NoeFullCond q') (n - length (b_Queue q'))"
proof (cases "length (b_Queue q) = n")
  case True
  with inv r e show ?thesis
    by (auto simp: BoundedBlockingQueue_Put_def BoundedBlockingQueue_Full_def served_sleep)
next
  case False
  with inv r e f served_notify [OF e, of k] show ?thesis
    by (auto simp: BoundedBlockingQueue_Put_def BoundedBlockingQueue_Full_def circular_push_def Let_def)
qed

lemma bounded_take_inv:
  assumes inv: "b_Capacity q = n" "length (b_Queue q) \<le> n" "taken @ b_Queue q = done"
    and e: "served (b_NotEmptyCond q) (length (b_Queue q) - 1)"
    and f: "served (b_NoeFullCond q) (n - length (b_Queue q))"
    and r: "BoundedBlockingQueue_Take k tid q = Inr (x, q')"
  shows "b_Capacity q' = n \<and> length (b_Queue q') \<le> n \<and>
    (taken @ (case x of None \<Rightarrow> [] | Some a \<Rightarrow> [a])) @ b_Queue q' = done \<and>
    served (b_NotEmptyCond q') (length (b_Queue q')) \<and>
    served (b_NoeFullCond q') (n - length (b_Queue q'))"
proof (cases "b_Queue q")
  case Nil
  with inv r f show ?thesis by (auto simp: BoundedBlockingQueue_Take_def served_sleep)
next
  case (Cons a as)
  then have "Suc (n - length (b_Queue q)) = n - length as" using inv(2) by simp
  with Cons inv r e f served_notify [OF f, of k] show ?thesis
    by (auto simp: BoundedBlockingQueue_Take_def Let_def)
qed

interpretation bounded_system: invariant_system "bounded_start n" bounded_move "bounded_inv n"
  for n :: nat
proof unfold_locales
  show "bounded_inv n s" if "bounded_start n s" for s :: "'a bounded_run"
    using that
    by (simp add: bounded_inv_def bounded_start_def BoundedBlockingQueue_new_def Condition_new_def
          served_def)
  show "bounded_inv n t" if "bounded_move s t" "bounded_inv n s" for s t :: "'a bounded_run"
    using that(1)
  proof (cases rule: bounded_move.cases)
    case (b_enter_put k tid x r)
    have "served (b_NoeFullCond (br_Queue s)) (n - length (b_Queue (br_Queue s)) - 1)"
      using that(2) by (auto simp: bounded_inv_def Let_def intro: served_less)
    with b_enter_put that(2) bounded_put_inv [of "br_Queue s" n "h_Taken s" "h_Put s" k tid x "fst r" "snd r"]
    show ?thesis by (auto simp: bounded_inv_def b_put_def Let_def)
  next
    case (b_resume_put tid x k r)
    let ?q = "br_Queue s\<lparr>b_NoeFullCond := cv_resume tid (b_NoeFullCond (br_Queue s))\<rparr>"
    have "served (b_NoeFullCond ?q) (n - length (b_Queue ?q) - 1)"
      using that(2) b_resume_put served_resume [of _ "n - length (b_Queue (br_Queue s))" tid]
      by (simp add: bounded_inv_def Let_def)
    with that(2) b_resume_put bounded_put_inv [of ?q n "h_Taken s" "h_Put s" k tid x "fst r" "snd r"]
    show ?thesis by (auto simp: bounded_inv_def b_put_def Let_def)
  next
    case (b_enter_take k tid r)
    have "served (b_NotEmptyCond (br_Queue s)) (length (b_Queue (br_Queue s)) - 1)"
      using that(2) by (auto simp: bounded_inv_def Let_def intro: served_less)
    with b_enter_take that(2) bounded_take_inv [of "br_Queue s" n "h_Taken s" "h_Put s" k tid "fst r" "snd r"]
    show ?thesis by (auto simp: bounded_inv_def b_took_def Let_def)
  next
    case (b_resume_take tid k r)
    let ?q = "br_Queue s\<lparr>b_NotEmptyCond := cv_resume tid (b_NotEmptyCond (br_Queue s))\<rparr>"
    have "served (b_NotEmptyCond ?q) (length (b_Queue ?q) - 1)"
      using that(2) b_resume_take served_resume [of _ "length (b_Queue (br_Queue s))" tid]
      by (simp add: bounded_inv_def Let_def)
    with that(2) b_resume_take bounded_take_inv [of ?q n "h_Taken s" "h_Put s" k tid "fst r" "snd r"]
    show ?thesis by (auto simp: bounded_inv_def b_took_def Let_def)
  next
    case (b_wake_put tid)
    with that(2) show ?thesis by (simp add: bounded_inv_def Let_def served_unblock)
  next
    case (b_wake_take tid)
    with that(2) show ?thesis by (simp add: bounded_inv_def Let_def served_unblock)
  qed
qed

section \<open>The queues as message queues\<close>

text \<open>What a call that does not block does, for clients that use a queue from two threads.\<close>

definition unbounded_put :: "'a \<Rightarrow> 'a blocking_queue \<Rightarrow> 'a blocking_queue option" where
  "unbounded_put t q = Some (BlockingQueue_Put 0 t q)"

definition unbounded_get :: "'a blocking_queue \<Rightarrow> ('a \<times> 'a blocking_queue) option" where
  "unbounded_get q =
     (case BlockingQueue_Take 0 q of Inr (Some x, q') \<Rightarrow> Some (x, q') | _ \<Rightarrow> None)"

definition bounded_put :: "'a \<Rightarrow> 'a bounded_queue \<Rightarrow> 'a bounded_queue option" where
  "bounded_put t q =
     (case BoundedBlockingQueue_Put 0 0 t q of Inr (True, q') \<Rightarrow> Some q' | _ \<Rightarrow> None)"

definition bounded_get :: "'a bounded_queue \<Rightarrow> ('a \<times> 'a bounded_queue) option" where
  "bounded_get q =
     (case BoundedBlockingQueue_Take 0 0 q of Inr (Some x, q') \<Rightarrow> Some (x, q') | _ \<Rightarrow> None)"

interpretation unbounded: message_queue unbounded_put unbounded_get m_Queue
  by unfold_locales
     (auto simp: unbounded_put_def unbounded_get_def BlockingQueue_Put_def BlockingQueue_Take_def
        Let_def split: if_splits)

interpretation bounded: message_queue bounded_put bounded_get b_Queue
  by unfold_locales
     (auto simp: bounded_put_def bounded_get_def BoundedBlockingQueue_Put_def circular_push_def
        BoundedBlockingQueue_Take_def Let_def split: if_splits)

section \<open>Properties\<close>

text \<open>
  \<open>BlockingQueue\<close> with any number of producers and consumers is a queue: what has been
  taken, followed by what is still there, is what has been put, in that order; and no wake-up is
  lost: while elements are there and a consumer is blocked in \<open>Wait\<close>, another that a
  notification has woken is on its way to each of them.
\<close>

theorem blocking_queue_fifo:
  assumes "reach queue_start queue_move s"
  shows "g_Taken s @ m_Queue (r_Queue s) = g_Put s \<and>
    (cv_Waiting (m_NotEmptyCond (r_Queue s)) \<noteq> [] \<longrightarrow>
       BlockingQueue_Size (r_Queue s) \<le> length (cv_Ready (m_NotEmptyCond (r_Queue s))))"
  using queue_system.reach_keeps [OF assms]
  by (auto simp: queue_inv_def served_def BlockingQueue_Size_def)

theorem blocking_queue_fifo_witness:
  "[] @ m_Queue (BlockingQueue_Put 0 (5 :: nat) BlockingQueue_new) = [5]"
proof -
  let ?s = "\<lparr>r_Queue = BlockingQueue_new, g_Put = [], g_Taken = []\<rparr> :: nat queue_run"
  have "reach queue_start queue_move
      (?s\<lparr>r_Queue := BlockingQueue_Put 0 5 (r_Queue ?s), g_Put := g_Put ?s @ [5]\<rparr>)"
    by (rule reach_once [where s = ?s]) (simp add: queue_start_def, rule q_put)
  from blocking_queue_fifo [OF this] show ?thesis by simp
qed

text \<open>
  C32: \<open>BoundedBlockingQueue\<close> never holds more than its capacity, never overwrites an element,
  hands the elements out in the order they were put, and loses no wake-up on either condition: a
  blocked consumer implies that every element there has a woken consumer, and a blocked
  producer that every free place has a woken producer.
\<close>

theorem bounded_queue_fifo:
  assumes "reach (bounded_start n) bounded_move s"
  shows "h_Taken s @ b_Queue (br_Queue s) = h_Put s \<and>
    BoundedBlockingQueue_Size (br_Queue s) \<le> n \<and>
    (cv_Waiting (b_NotEmptyCond (br_Queue s)) \<noteq> [] \<longrightarrow>
       BoundedBlockingQueue_Size (br_Queue s) \<le> length (cv_Ready (b_NotEmptyCond (br_Queue s)))) \<and>
    (cv_Waiting (b_NoeFullCond (br_Queue s)) \<noteq> [] \<longrightarrow>
       n - BoundedBlockingQueue_Size (br_Queue s) \<le> length (cv_Ready (b_NoeFullCond (br_Queue s))))"
  using bounded_system.reach_keeps [OF assms]
  by (auto simp: bounded_inv_def Let_def served_def BoundedBlockingQueue_Size_def)

theorem bounded_queue_fifo_witness:
  "\<exists>s :: nat bounded_run. h_Put s = [5] \<and> h_Taken s @ b_Queue (br_Queue s) = h_Put s \<and>
     BoundedBlockingQueue_Size (br_Queue s) \<le> 1"
proof -
  let ?s = "\<lparr>br_Queue = BoundedBlockingQueue_new 1, h_Put = [], h_Taken = []\<rparr> :: nat bounded_run"
  obtain q where q: "BoundedBlockingQueue_Put 0 7 5 (br_Queue ?s) = Inr (True, q)"
    by (simp add: BoundedBlockingQueue_Put_def BoundedBlockingQueue_Full_def
          BoundedBlockingQueue_new_def Let_def)
  have "reach (bounded_start 1) bounded_move (b_put 5 (True, q) ?s)"
    by (rule reach_once [where s = ?s]) (simp add: bounded_start_def, rule b_enter_put [OF q])
  from bounded_queue_fifo [OF this] show ?thesis
    by (intro exI [of _ "b_put 5 (True, q) ?s"]) (simp add: b_put_def)
qed

end
