(* ===== verification/QueueLogging.thy ===== *)
theory QueueLogging
  imports BlockingQueues
begin

text \<open>
  \<open>logging/AsyncLoggingQueue.h\<close>: \<open>AsyncLoggingT\<close> hands each line to the logging thread through
  a queue of messages, of either kind of queue (\<open>put\<close> and \<open>get\<close>, nothing when the call blocks)
  and either kind of message (\<open>mk\<close>: \<open>std::string\<close>, or \<open>LogMessage\<close> with its fixed array). The
  empty message ends the thread. \<open>a_Output\<close> is what has been handed to \<open>LogFile::Append\<close>.
\<close>

definition string_message :: "string \<Rightarrow> string res" where
  "string_message s = Inr s"

definition LogMessage_new :: "string \<Rightarrow> string res" where
  "LogMessage_new s = check (length s \<le> 4000) (Inr (take (length s) s))"

datatype queue_thread_pc = Idle | Taking | Ended

record 'q async_logging =
  m_bRunning :: bool
  a_Queue :: 'q
  a_pc :: queue_thread_pc
  a_Output :: "string list"
  g_Put :: "string list"

definition AsyncLogging_new :: "'q \<Rightarrow> 'q async_logging" where
  "AsyncLogging_new q =
     \<lparr>m_bRunning = False, a_Queue = q, a_pc = Idle, a_Output = [], g_Put = []\<rparr>"

definition put_message ::
    "(string \<Rightarrow> 'q \<Rightarrow> 'q option) \<Rightarrow> string \<Rightarrow> 'q async_logging \<Rightarrow> 'q async_logging option" where
  "put_message put msg s =
     map_option (\<lambda>q. s\<lparr>a_Queue := q, g_Put := g_Put s @ [msg]\<rparr>) (put msg (a_Queue s))"

definition AsyncLogging_Append ::
    "(string \<Rightarrow> 'q \<Rightarrow> 'q option) \<Rightarrow> (string \<Rightarrow> string res) \<Rightarrow> string \<Rightarrow> 'q async_logging \<Rightarrow>
     'q async_logging res option" where
  "AsyncLogging_Append put mk line s =
     (case mk line of
        Inl e \<Rightarrow> Some (Inl e)
      | Inr msg \<Rightarrow> map_option Inr (put_message put msg s))"

definition AsyncLogging_Start :: "'q async_logging \<Rightarrow> 'q async_logging" where
  "AsyncLogging_Start s = s\<lparr>m_bRunning := True, a_pc := Taking\<rparr>"

text \<open>\<open>Stop\<close>: the flag, the empty message, the join (which waits for \<open>Ended\<close>).\<close>

definition AsyncLogging_Stop_flag :: "'q async_logging \<Rightarrow> 'q async_logging" where
  "AsyncLogging_Stop_flag s = s\<lparr>m_bRunning := False\<rparr>"

definition AsyncLogging_Stop_put ::
    "(string \<Rightarrow> 'q \<Rightarrow> 'q option) \<Rightarrow> 'q async_logging \<Rightarrow> 'q async_logging option" where
  "AsyncLogging_Stop_put put s = put_message put [] s"

text \<open>One round of \<open>threadFunc\<close>'s loop; nothing while \<open>Take\<close> blocks.\<close>

definition AsyncLogging_threadFunc ::
    "('q \<Rightarrow> (string \<times> 'q) option) \<Rightarrow> 'q async_logging \<Rightarrow> 'q async_logging res option" where
  "AsyncLogging_threadFunc get s =
     (case get (a_Queue s) of
        None \<Rightarrow> None
      | Some (msg, q) \<Rightarrow>
          Some (if msg = [] then check (\<not> m_bRunning s) (Inr (s\<lparr>a_Queue := q, a_pc := Ended\<rparr>))
                else Inr (s\<lparr>a_Queue := q, a_Output := a_Output s @ [msg]\<rparr>)))"

inductive al_move ::
    "(string \<Rightarrow> 'q \<Rightarrow> 'q option) \<Rightarrow> ('q \<Rightarrow> (string \<times> 'q) option) \<Rightarrow> (string \<Rightarrow> string res) \<Rightarrow>
     'q async_logging \<Rightarrow> 'q async_logging \<Rightarrow> bool"
  for put :: "string \<Rightarrow> 'q \<Rightarrow> 'q option" and get :: "'q \<Rightarrow> (string \<times> 'q) option"
    and mk :: "string \<Rightarrow> string res" where
  al_append: "AsyncLogging_Append put mk line s = Some (Inr t) \<Longrightarrow> al_move put get mk s t"
| al_start: "a_pc s = Idle \<Longrightarrow> al_move put get mk s (AsyncLogging_Start s)"
| al_flag: "m_bRunning s \<Longrightarrow> al_move put get mk s (AsyncLogging_Stop_flag s)"
| al_stop: "a_pc s \<noteq> Idle \<Longrightarrow> \<not> m_bRunning s \<Longrightarrow> AsyncLogging_Stop_put put s = Some t \<Longrightarrow>
     al_move put get mk s t"
| al_thread: "a_pc s = Taking \<Longrightarrow> AsyncLogging_threadFunc get s = Some (Inr t) \<Longrightarrow> al_move put get mk s t"

text \<open>
  Until the thread has ended, what it has written and what is still queued are the messages put;
  it ends at the first empty one.
\<close>

definition al_inv :: "('q \<Rightarrow> string list) \<Rightarrow> 'q async_logging \<Rightarrow> bool" where
  "al_inv items s \<longleftrightarrow> (\<forall>l \<in> set (a_Output s). l \<noteq> []) \<and>
     a_Output s @ (if a_pc s = Ended then [[]] else []) @ items (a_Queue s) = g_Put s"

locale queue_logging = message_queue put get items
  for put :: "string \<Rightarrow> 'q \<Rightarrow> 'q option" and get :: "'q \<Rightarrow> (string \<times> 'q) option"
    and items :: "'q \<Rightarrow> string list" +
  fixes q0 :: 'q
  assumes starts_empty: "items q0 = []"
begin

lemma put_message_inv:
  assumes "put_message put msg s = Some t" and "al_inv items s"
  shows "al_inv items t"
  using assms by (auto simp: put_message_def al_inv_def dest: put_items)

lemma al_keeps:
  assumes "reach (\<lambda>s. s = AsyncLogging_new q0) (al_move put get mk) s"
  shows "al_inv items s"
  using assms
proof (induction rule: reach.induct)
  case (reach_init s)
  then show ?case by (simp add: al_inv_def AsyncLogging_new_def starts_empty)
next
  case (reach_step s t)
  from reach_step.hyps(2) show ?case
  proof cases
    case (al_append line)
    then obtain msg where "put_message put msg s = Some t"
      by (auto simp: AsyncLogging_Append_def split: sum.splits)
    with reach_step.IH show ?thesis by (rule put_message_inv [rotated])
  next
    case al_start
    with reach_step.IH show ?thesis by (simp add: al_inv_def AsyncLogging_Start_def)
  next
    case al_flag
    with reach_step.IH show ?thesis by (simp add: al_inv_def AsyncLogging_Stop_flag_def)
  next
    case al_stop
    with reach_step.IH show ?thesis by (auto simp: AsyncLogging_Stop_put_def intro: put_message_inv)
  next
    case al_thread
    then obtain msg q where g: "get (a_Queue s) = Some (msg, q)"
      by (auto simp: AsyncLogging_threadFunc_def split: option.splits)
    with al_thread reach_step.IH get_items [OF g] show ?thesis
      by (fastforce simp: al_inv_def AsyncLogging_threadFunc_def check_def split: if_splits)
  qed
qed

lemma ended_writes_all:
  assumes "reach (\<lambda>s. s = AsyncLogging_new q0) (al_move put get mk) s" and "a_pc s = Ended"
  shows "a_Output s = takeWhile (\<lambda>l. l \<noteq> []) (g_Put s)"
proof -
  have inv: "\<forall>l \<in> set (a_Output s). l \<noteq> []" "a_Output s @ [[]] @ items (a_Queue s) = g_Put s"
    using al_keeps [OF assms(1)] assms(2) by (simp_all add: al_inv_def)
  have "takeWhile (\<lambda>l. l \<noteq> []) (a_Output s @ [[]] @ items (a_Queue s)) = a_Output s"
    using inv(1) by (simp add: takeWhile_append2)
  with inv(2) show ?thesis by simp
qed

text \<open>An empty line is taken for the end although the log is running, which the thread asserts.\<close>

lemma empty_line_asserts:
  assumes "items (a_Queue s) = [] # ms" and "m_bRunning s"
  shows "AsyncLogging_threadFunc get s = Some (Inl AssertFailed)"
  using get_first [OF assms(1)] assms(2) by (auto simp: AsyncLogging_threadFunc_def)

end

interpretation unbounded_logging: queue_logging unbounded_put unbounded_get m_Queue BlockingQueue_new
  by unfold_locales (simp add: BlockingQueue_new_def)

interpretation bounded_logging: queue_logging bounded_put bounded_get b_Queue "BoundedBlockingQueue_new n"
  for n :: nat
  by unfold_locales (simp add: BoundedBlockingQueue_new_def)

lemma unbounded_logging_complete:
  assumes "reach (\<lambda>s. s = AsyncLogging_new BlockingQueue_new) (al_move unbounded_put unbounded_get mk) s"
    and "a_pc s = Ended"
  shows "a_Output s = takeWhile (\<lambda>l. l \<noteq> []) (g_Put s)"
  by (rule unbounded_logging.ended_writes_all [OF assms])

text \<open>
  With a queue between the callers and the logging thread, bounded or not, \<open>Stop\<close> loses
  nothing: when the thread has ended, it has written exactly the lines put before the empty
  message of \<open>Stop\<close>, in order.
\<close>

theorem queue_logging_complete:
  assumes "reach (\<lambda>s. s = AsyncLogging_new (BoundedBlockingQueue_new n))
      (al_move bounded_put bounded_get mk) s"
    and "a_pc s = Ended"
  shows "a_Output s = takeWhile (\<lambda>l. l \<noteq> []) (g_Put s)"
  by (rule bounded_logging.ended_writes_all [OF assms])

text \<open>A log of capacity two, with one line and then \<open>Stop\<close>.\<close>

definition demo_log :: "nat \<Rightarrow> string bounded_queue async_logging" where
  "demo_log k =
     (let s1 = AsyncLogging_Start (AsyncLogging_new (BoundedBlockingQueue_new 2));
          s2 = (if 0 < k then the (put_message bounded_put ''x'' s1) else s1);
          s3 = (if 1 < k then AsyncLogging_Stop_flag s2 else s2);
          s4 = (if 2 < k then the (AsyncLogging_Stop_put bounded_put s3) else s3);
          s5 = (if 3 < k then projr (the (AsyncLogging_threadFunc bounded_get s4)) else s4)
      in if 4 < k then projr (the (AsyncLogging_threadFunc bounded_get s5)) else s5)"

lemmas demo_log_defs = demo_log_def Let_def AsyncLogging_Start_def AsyncLogging_new_def
  BoundedBlockingQueue_new_def put_message_def bounded_put_def bounded_get_def
  BoundedBlockingQueue_Put_def BoundedBlockingQueue_Take_def BoundedBlockingQueue_Full_def
  circular_push_def AsyncLogging_Stop_flag_def AsyncLogging_Stop_put_def AsyncLogging_threadFunc_def
  Condition_new_def Condition_Notify_def

lemma demo_log_reach:
  "reach (\<lambda>s. s = AsyncLogging_new (BoundedBlockingQueue_new 2))
     (al_move bounded_put bounded_get string_message) (demo_log 5)"
proof -
  let ?R = "al_move bounded_put bounded_get string_message"
  let ?r = "reach (\<lambda>s. s = AsyncLogging_new (BoundedBlockingQueue_new 2)) ?R"
  have "?R (AsyncLogging_new (BoundedBlockingQueue_new 2)) (demo_log 0)"
    using al_start [of "AsyncLogging_new (BoundedBlockingQueue_new 2)"]
    by (simp add: demo_log_def AsyncLogging_new_def)
  then have 0: "?r (demo_log 0)" by (intro reach_once [where R = ?R]) simp_all
  have "?R (demo_log 0) (demo_log 1)"
    by (rule al_append [where line = "''x''"])
       (simp add: AsyncLogging_Append_def string_message_def demo_log_defs)
  with 0 have 1: "?r (demo_log 1)" by (rule reach_step)
  have "?R (demo_log 1) (demo_log 2)"
    using al_flag [of "demo_log 1"] by (simp add: demo_log_defs)
  with 1 have 2: "?r (demo_log 2)" by (rule reach_step)
  have "?R (demo_log 2) (demo_log 3)" by (rule al_stop) (simp_all add: demo_log_defs)
  with 2 have 3: "?r (demo_log 3)" by (rule reach_step)
  have "?R (demo_log 3) (demo_log 4)" by (rule al_thread) (simp_all add: demo_log_defs)
  with 3 have 4: "?r (demo_log 4)" by (rule reach_step)
  have "?R (demo_log 4) (demo_log 5)" by (rule al_thread) (simp_all add: demo_log_defs)
  with 4 show ?thesis by (rule reach_step)
qed

theorem queue_logging_complete_witness:
  "a_pc (demo_log 5) = Ended \<and> g_Put (demo_log 5) = [''x'', []] \<and> a_Output (demo_log 5) = [''x'']"
proof -
  have "a_pc (demo_log 5) = Ended" "g_Put (demo_log 5) = [''x'', []]" by (simp_all add: demo_log_defs)
  with queue_logging_complete [OF demo_log_reach] show ?thesis by simp
qed

text \<open>An empty line crashes a running log.\<close>

lemma Append_empty_asserts:
  "b_Queue (a_Queue s) = [] # ms \<Longrightarrow> m_bRunning s \<Longrightarrow>
     AsyncLogging_threadFunc bounded_get s = Some (Inl AssertFailed)"
  by (rule bounded_logging.empty_line_asserts)

end
