(* ===== verification/LogMessages.thy ===== *)
theory LogMessages
  imports QueueLogging
begin

text \<open>
  \<open>LogMessage\<close> of \<open>logging/AsyncLoggingQueue.h\<close>, the message type with an array of its own, and the
  destructor of \<open>AsyncLoggingT\<close>. A constructor does not initialise the array: what its memory holds
  is an argument. The theory shows that the copies a message goes through on its way through a
  queue keep its text, which is what \<open>QueueLogging\<close> takes a message for.
\<close>

record LogMessage =
  m_Data :: string
  m_unLength :: nat

definition DATA_SIZE :: nat where
  "DATA_SIZE = 4000"

text \<open>\<open>memcpy\<close> of the first \<open>n\<close> bytes.\<close>

definition copy_in :: "string \<Rightarrow> nat \<Rightarrow> string \<Rightarrow> string res" where
  "copy_in src n dst = rbind (mem_read src 0 n) (mem_write dst 0)"

definition LogMessage_of :: "string \<Rightarrow> string \<Rightarrow> nat \<Rightarrow> LogMessage res" where
  "LogMessage_of memory pStrMsg unLength =
     check (unLength \<le> DATA_SIZE)
       (rbind (copy_in pStrMsg unLength memory) (\<lambda>d. Inr \<lparr>m_Data = d, m_unLength = unLength\<rparr>))"

definition LogMessage_default :: "string \<Rightarrow> LogMessage" where
  "LogMessage_default memory = \<lparr>m_Data = memory, m_unLength = 0\<rparr>"

definition LogMessage_copy :: "string \<Rightarrow> LogMessage \<Rightarrow> LogMessage res" where
  "LogMessage_copy memory rLogMsg =
     check (m_unLength rLogMsg \<le> DATA_SIZE)
       (rbind (copy_in (m_Data rLogMsg) (m_unLength rLogMsg) memory) (\<lambda>d.
        Inr \<lparr>m_Data = d, m_unLength = m_unLength rLogMsg\<rparr>))"

definition LogMessage_assign :: "LogMessage \<Rightarrow> LogMessage \<Rightarrow> LogMessage res" where
  "LogMessage_assign rhs msg =
     (let msg = msg\<lparr>m_unLength := m_unLength rhs\<rparr> in
      check (m_unLength msg \<le> DATA_SIZE)
        (rbind (copy_in (m_Data rhs) (m_unLength msg) (m_Data msg)) (\<lambda>d. Inr (msg\<lparr>m_Data := d\<rparr>))))"

definition LogMessage_data :: "LogMessage \<Rightarrow> string" where
  "LogMessage_data msg = m_Data msg"

definition LogMessage_length :: "LogMessage \<Rightarrow> nat" where
  "LogMessage_length msg = m_unLength msg"

definition LogMessage_empty :: "LogMessage \<Rightarrow> bool" where
  "LogMessage_empty msg \<longleftrightarrow> 0 = m_unLength msg"

text \<open>The destructor of the asynchronous log stops it when it runs; the join is not a step here.\<close>

definition AsyncLogging_delete ::
    "(string \<Rightarrow> 'q \<Rightarrow> 'q option) \<Rightarrow> 'q async_logging \<Rightarrow> 'q async_logging option" where
  "AsyncLogging_delete put s =
     (if m_bRunning s then AsyncLogging_Stop_put put (AsyncLogging_Stop_flag s) else Some s)"

section \<open>The text of a message\<close>

definition msg_ok :: "LogMessage \<Rightarrow> bool" where
  "msg_ok m \<longleftrightarrow> length (m_Data m) = DATA_SIZE \<and> m_unLength m \<le> DATA_SIZE"

definition msg_text :: "LogMessage \<Rightarrow> string" where
  "msg_text m = take (LogMessage_length m) (LogMessage_data m)"

lemma copy_in_ok:
  "n \<le> length src \<Longrightarrow> n \<le> length dst \<Longrightarrow>
    copy_in src n dst = Inr (take n src @ drop n dst)"
  by (simp add: copy_in_def)

lemma LogMessage_of_ok:
  assumes "length memory = DATA_SIZE" and "length s \<le> DATA_SIZE"
  obtains m where "LogMessage_of memory s (length s) = Inr m" and "msg_ok m" and "msg_text m = s"
  using assms
  by (intro that [of "\<lparr>m_Data = s @ drop (length s) memory, m_unLength = length s\<rparr>"])
    (simp_all add: LogMessage_of_def copy_in_ok msg_ok_def msg_text_def LogMessage_length_def LogMessage_data_def)

lemma LogMessage_copy_ok:
  assumes "length memory = DATA_SIZE" and "msg_ok m"
  obtains c where "LogMessage_copy memory m = Inr c" and "msg_ok c" and "msg_text c = msg_text m"
  using assms
  by (intro that [of "\<lparr>m_Data = take (m_unLength m) (m_Data m) @ drop (m_unLength m) memory, m_unLength = m_unLength m\<rparr>"])
    (simp_all add: LogMessage_copy_def copy_in_ok msg_ok_def msg_text_def LogMessage_length_def LogMessage_data_def)

lemma LogMessage_assign_ok:
  assumes "msg_ok m" and "msg_ok rhs"
  obtains c where "LogMessage_assign rhs m = Inr c" and "msg_ok c" and "msg_text c = msg_text rhs"
  using assms
  by (intro that [of "\<lparr>m_Data = take (m_unLength rhs) (m_Data rhs) @ drop (m_unLength rhs) (m_Data m), m_unLength = m_unLength rhs\<rparr>"])
    (simp_all add: LogMessage_assign_def copy_in_ok msg_ok_def msg_text_def LogMessage_length_def LogMessage_data_def Let_def)

lemma LogMessage_empty_text: "msg_ok m \<Longrightarrow> LogMessage_empty m \<longleftrightarrow> msg_text m = []"
  by (auto simp: LogMessage_empty_def msg_text_def msg_ok_def LogMessage_length_def LogMessage_data_def)

lemma LogMessage_default_text: "msg_text (LogMessage_default memory) = []"
  by (simp add: LogMessage_default_def msg_text_def LogMessage_length_def)

text \<open>
  The way of a line: the message made by \<open>Append\<close>, its copy in the queue's container, the copy
  that \<open>Take\<close> makes of the front, and the one its result initialises.
\<close>

definition through_queue :: "string \<Rightarrow> string \<Rightarrow> string \<Rightarrow> string \<Rightarrow> string \<Rightarrow> LogMessage res" where
  "through_queue mem1 mem2 mem3 mem4 line =
     rbind (LogMessage_of mem1 line (length line)) (\<lambda>msg.
     rbind (LogMessage_copy mem2 msg) (\<lambda>slot.
     rbind (LogMessage_copy mem3 slot) (LogMessage_copy mem4)))"

lemma through_queue_text:
  assumes "length mem1 = DATA_SIZE" "length mem2 = DATA_SIZE" "length mem3 = DATA_SIZE" "length mem4 = DATA_SIZE"
  shows "map_sum id msg_text (through_queue mem1 mem2 mem3 mem4 line) = LogMessage_new line"
proof (cases "length line \<le> DATA_SIZE")
  case True
  obtain m where m: "LogMessage_of mem1 line (length line) = Inr m" "msg_ok m" "msg_text m = line"
    by (rule LogMessage_of_ok [OF assms(1) True])
  obtain c where c: "LogMessage_copy mem2 m = Inr c" "msg_ok c" "msg_text c = msg_text m"
    by (rule LogMessage_copy_ok [OF assms(2) m(2)])
  obtain d where d: "LogMessage_copy mem3 c = Inr d" "msg_ok d" "msg_text d = msg_text c"
    by (rule LogMessage_copy_ok [OF assms(3) c(2)])
  obtain r where r: "LogMessage_copy mem4 d = Inr r" "msg_ok r" "msg_text r = msg_text d"
    by (rule LogMessage_copy_ok [OF assms(4) d(2)])
  show ?thesis
    using True by (simp add: through_queue_def m c d r LogMessage_new_def DATA_SIZE_def)
next
  case False
  then show ?thesis by (simp add: through_queue_def LogMessage_of_def LogMessage_new_def DATA_SIZE_def)
qed

end
