(* ===== verification/LogStreams.thy ===== *)
theory LogStreams
  imports CFormat
begin

text \<open>
  \<open>logging/LogStream.h\<close> and \<open>logging/LogStream.cpp\<close>: the fixed buffer as its array of
  characters and the offset of \<open>m_pCur\<close>, the conversions of integers and pointers to text, and
  one operation per \<open>operator<<\<close>. Writes through \<open>m_pCur\<close> are checked against the array. The
  texts of \<open>%.12g\<close> and of a caller's \<open>Fmt\<close> format are arguments.
\<close>

section \<open>The fixed buffer\<close>

definition SAMLL_BUFFER :: nat where
  "SAMLL_BUFFER = 4000"

definition LARGE_BUFFER :: nat where
  "LARGE_BUFFER = 4000 * 1000"

record fixed_buffer =
  m_Data :: string
  m_pCur :: nat

definition FixedBuffer_new :: "string \<Rightarrow> fixed_buffer" where
  "FixedBuffer_new memory = \<lparr>m_Data = memory, m_pCur = 0\<rparr>"

definition FixedBuffer_GetLength :: "fixed_buffer \<Rightarrow> nat" where
  "FixedBuffer_GetLength b = m_pCur b"

definition FixedBuffer_GetAvail :: "fixed_buffer \<Rightarrow> int" where
  "FixedBuffer_GetAvail b = int (length (m_Data b)) - int (m_pCur b)"

definition FixedBuffer_Add :: "nat \<Rightarrow> fixed_buffer \<Rightarrow> fixed_buffer" where
  "FixedBuffer_Add unLength b = b\<lparr>m_pCur := m_pCur b + unLength\<rparr>"

definition FixedBuffer_Reset :: "fixed_buffer \<Rightarrow> fixed_buffer" where
  "FixedBuffer_Reset b = b\<lparr>m_pCur := 0\<rparr>"

definition FixedBuffer_BZero :: "fixed_buffer \<Rightarrow> fixed_buffer" where
  "FixedBuffer_BZero b = b\<lparr>m_Data := replicate (length (m_Data b)) CHR 0x00\<rparr>"

definition FixedBuffer_AsString :: "fixed_buffer \<Rightarrow> string res" where
  "FixedBuffer_AsString b = mem_read (m_Data b) 0 (FixedBuffer_GetLength b)"

text \<open>What the code writes at \<open>m_pCur\<close>, without moving it.\<close>

definition write_at :: "string \<Rightarrow> fixed_buffer \<Rightarrow> fixed_buffer res" where
  "write_at s b = rbind (mem_write (m_Data b) (m_pCur b) s) (\<lambda>d. Inr (b\<lparr>m_Data := d\<rparr>))"

definition FixedBuffer_DebugString :: "fixed_buffer \<Rightarrow> fixed_buffer res" where
  "FixedBuffer_DebugString b = write_at [CHR 0x00] b"

text \<open>
  \<open>Append\<close> takes an \<open>int\<close> length: \<open>nLength\<close> characters of \<open>pStrBuf\<close>, all or none. A negative
  length passes the test and reaches \<open>memcpy\<close> as a huge number.
\<close>

definition FixedBuffer_Append :: "string \<Rightarrow> int \<Rightarrow> fixed_buffer \<Rightarrow> fixed_buffer res" where
  "FixedBuffer_Append pStrBuf nLength b =
     (if FixedBuffer_GetAvail b > nLength
      then (if 0 \<le> nLength
            then rbind (mem_read pStrBuf 0 (nat nLength)) (\<lambda>s.
                 rbind (write_at s b) (\<lambda>b1. Inr (b1\<lparr>m_pCur := m_pCur b1 + nat nLength\<rparr>)))
            else Inl OutOfBounds)
      else Inr b)"

text \<open>A \<open>size_t\<close> given where an \<open>int\<close> is wanted.\<close>

definition int_of_size :: "nat \<Rightarrow> int" where
  "int_of_size n = sint (of_nat n :: 32 word)"

definition append_string :: "string \<Rightarrow> fixed_buffer \<Rightarrow> fixed_buffer res" where
  "append_string s b = FixedBuffer_Append s (int_of_size (length s)) b"

section \<open>Numbers as text\<close>

text \<open>
  The table \<open>digits\<close> with \<open>zero\<close> pointing at its tenth character, so that the remainders of
  negative numbers, which are negative, index it too.
\<close>

definition digits :: string where
  "digits = ''9876543210123456789''"

definition zero_at :: "int \<Rightarrow> char" where
  "zero_at nIndex = digits ! nat (9 + nIndex)"

definition digitsHex :: string where
  "digitsHex = ''0123456789abcdef''"

lemma c_div_shrinks:
  assumes "c_div i 10 \<noteq> 0"
  shows "nat \<bar>c_div i 10\<bar> < nat \<bar>i\<bar>"
proof (cases "i < 0")
  case True
  then show ?thesis using div_less_dividend [of "nat (- i)" 10]
    by (simp add: c_div_neg nat_div_distrib)
next
  case False
  with assms have "0 < i" by (cases "i = 0") simp_all
  then show ?thesis using div_less_dividend [of "nat i" 10] by (simp add: nat_div_distrib)
qed

function convert_loop :: "int \<Rightarrow> string" where
  "convert_loop i =
     zero_at (c_mod i 10) # (let i' = c_div i 10 in if 0 \<noteq> i' then convert_loop i' else [])"
  by pat_completeness auto
termination
  by (relation "measure (\<lambda>i. nat \<bar>i\<bar>)") (auto simp only: in_measure wf_measure intro: c_div_shrinks)

declare convert_loop.simps [simp del]

definition convert :: "int \<Rightarrow> string" where
  "convert value = rev (convert_loop value @ (if value < 0 then ''-'' else ''''))"

fun hex_loop :: "nat \<Rightarrow> string" where
  "hex_loop i = digitsHex ! (i mod 16) # (let i' = i div 16 in if i' \<noteq> 0 then hex_loop i' else [])"

declare hex_loop.simps [simp del]

definition convertHex :: "nat \<Rightarrow> string" where
  "convertHex value = rev (hex_loop value)"

section \<open>The stream\<close>

definition MAX_NUMERIC_SIZE :: int where
  "MAX_NUMERIC_SIZE = 32"

text \<open>Both conversions leave a terminating NUL after their text, which \<open>Add\<close> does not count.\<close>

definition formatInteger :: "int \<Rightarrow> fixed_buffer \<Rightarrow> fixed_buffer res" where
  "formatInteger v b =
     (if FixedBuffer_GetAvail b > MAX_NUMERIC_SIZE
      then rbind (write_at (convert v @ [CHR 0x00]) b) (\<lambda>b1.
             Inr (FixedBuffer_Add (length (convert v)) b1))
      else Inr b)"

definition put_double :: "string \<Rightarrow> fixed_buffer \<Rightarrow> fixed_buffer res" where
  "put_double text12g b =
     (if FixedBuffer_GetAvail b \<ge> MAX_NUMERIC_SIZE
      then (let (s, nLength) = snprintf 32 text12g
            in rbind (write_at (s @ [CHR 0x00]) b) (\<lambda>b1. Inr (FixedBuffer_Add (nat nLength) b1)))
      else Inr b)"

definition put_pointer :: "nat \<Rightarrow> fixed_buffer \<Rightarrow> fixed_buffer res" where
  "put_pointer v b =
     (if FixedBuffer_GetAvail b \<ge> MAX_NUMERIC_SIZE
      then rbind (write_at (''0x'' @ convertHex v @ [CHR 0x00]) b) (\<lambda>b1.
             Inr (FixedBuffer_Add (length (convertHex v) + 2) b1))
      else Inr b)"

text \<open>\<open>T\<close> is text with the length the compiler knows, which the constructor asserts.\<close>

record sized_text =
  m_pStr :: string
  m_unLength :: nat

definition T_new :: "string \<Rightarrow> nat \<Rightarrow> sized_text res" where
  "T_new pStr nLength = check (length pStr = nLength) (Inr \<lparr>m_pStr = pStr, m_unLength = nLength\<rparr>)"

definition put_T :: "sized_text \<Rightarrow> fixed_buffer \<Rightarrow> fixed_buffer res" where
  "put_T t b = FixedBuffer_Append (m_pStr t) (int_of_size (m_unLength t)) b"

text \<open>\<open>Fmt\<close>: the text \<open>snprintf\<close> makes of the caller's format, which must fit in 32 characters.\<close>

record fmt =
  m_pStrBuffer :: string
  m_nLength :: int

definition Fmt_new :: "string \<Rightarrow> fmt res" where
  "Fmt_new text =
     (let (s, n) = snprintf 32 text in check (n < 32) (Inr \<lparr>m_pStrBuffer = s, m_nLength = n\<rparr>))"

definition put_Fmt :: "fmt \<Rightarrow> fixed_buffer \<Rightarrow> fixed_buffer res" where
  "put_Fmt f b = FixedBuffer_Append (m_pStrBuffer f) (m_nLength f) b"

text \<open>
  What can be put on a stream, one constructor per \<open>operator<<\<close>. The integer types are told
  apart by their ranges; a \<open>float\<close> is widened to a \<open>double\<close>, given by its text.
\<close>

datatype item =
    LBool bool
  | LShort "16 word"
  | LUShort "16 word"
  | LInt "32 word"
  | LUInt "32 word"
  | LLong "64 word"
  | LULong "64 word"
  | LLongLong "64 word"
  | LULongLong "64 word"
  | LFloat string
  | LDouble string
  | LChar char
  | LPointer "64 word"
  | LCString string
  | LText sized_text
  | LString string
  | LFmt fmt

fun LogStream_put :: "item \<Rightarrow> fixed_buffer \<Rightarrow> fixed_buffer res" where
  "LogStream_put (LBool bVal) b = FixedBuffer_Append (if bVal then ''1'' else ''0'') 1 b"
| "LogStream_put (LShort sVal) b = formatInteger (sint sVal) b"
| "LogStream_put (LUShort usVal) b = formatInteger (uint usVal) b"
| "LogStream_put (LInt nVal) b = formatInteger (sint nVal) b"
| "LogStream_put (LUInt unVal) b = formatInteger (uint unVal) b"
| "LogStream_put (LLong lVal) b = formatInteger (sint lVal) b"
| "LogStream_put (LULong ulVal) b = formatInteger (uint ulVal) b"
| "LogStream_put (LLongLong llVal) b = formatInteger (sint llVal) b"
| "LogStream_put (LULongLong ullVal) b = formatInteger (uint ullVal) b"
| "LogStream_put (LFloat fVal) b = put_double fVal b"
| "LogStream_put (LDouble dVal) b = put_double dVal b"
| "LogStream_put (LChar cVal) b = FixedBuffer_Append [cVal] 1 b"
| "LogStream_put (LPointer pVoid) b = put_pointer (unat pVoid) b"
| "LogStream_put (LCString pCVal) b = append_string pCVal b"
| "LogStream_put (LText val) b = put_T val b"
| "LogStream_put (LString rStr) b = append_string rStr b"
| "LogStream_put (LFmt f) b = put_Fmt f b"

text \<open>A statement \<open>stream << a << b << ...\<close>.\<close>

definition LogStream_puts :: "item list \<Rightarrow> fixed_buffer \<Rightarrow> fixed_buffer res" where
  "LogStream_puts = rfold LogStream_put"

section \<open>The conversions\<close>

lemma zero_at_digit:
  assumes "\<bar>k\<bar> < 10"
  shows "zero_at k = digit (nat \<bar>k\<bar>)"
proof -
  have "k = - 9 \<or> k = - 8 \<or> k = - 7 \<or> k = - 6 \<or> k = - 5 \<or> k = - 4 \<or> k = - 3 \<or> k = - 2 \<or>
      k = - 1 \<or> k = 0 \<or> k = 1 \<or> k = 2 \<or> k = 3 \<or> k = 4 \<or> k = 5 \<or> k = 6 \<or> k = 7 \<or> k = 8 \<or> k = 9"
    using assms by presburger
  then show ?thesis by (elim disjE) (simp_all add: zero_at_def digits_def digit_def char_of_def bit_0)
qed

lemma c_div_abs: "nat \<bar>c_div i 10\<bar> = nat \<bar>i\<bar> div 10"
  by (cases "i < 0") (simp_all add: c_div_neg nat_div_distrib)

lemma c_mod_abs: "nat \<bar>c_mod i 10\<bar> = nat \<bar>i\<bar> mod 10"
  by (cases "i < 0") (simp_all add: c_mod_neg nat_mod_distrib)

lemma convert_loop_dec: "convert_loop i = rev (dec_nat (nat \<bar>i\<bar>))"
proof (induction i rule: convert_loop.induct)
  case (1 i)
  have d: "zero_at (c_mod i 10) = digit (nat \<bar>i\<bar> mod 10)"
    using zero_at_digit [of "c_mod i 10"] c_mod_abs [of i] by (simp add: nat_less_iff)
  show ?case
  proof (cases "c_div i 10 = 0")
    case True
    then have "nat \<bar>i\<bar> < 10" using c_div_abs [of i] by simp
    with True d show ?thesis by (subst convert_loop.simps) (simp add: dec_nat_single)
  next
    case False
    then have "10 \<le> nat \<bar>i\<bar>" using c_div_abs [of i] by simp
    with False d 1 [OF refl] show ?thesis
      by (subst convert_loop.simps) (simp add: dec_nat_step c_div_abs)
  qed
qed

lemma convert_dec: "convert i = dec i"
  by (auto simp: convert_def convert_loop_dec dec_def)

lemma length_dec_word: "\<bar>i\<bar> < 10 ^ 20 \<Longrightarrow> length (dec i) \<le> 21"
proof -
  assume "\<bar>i\<bar> < 10 ^ 20"
  then have "nat \<bar>i\<bar> < 10 ^ 20" by simp
  then have "length (dec_nat (nat \<bar>i\<bar>)) \<le> 20" by (intro length_dec_nat) auto
  then show ?thesis by (auto simp: dec_def)
qed

text \<open>Hexadecimal text reads back.\<close>

definition unhex_digit :: "char \<Rightarrow> nat" where
  "unhex_digit c = (let n = of_char c in if n < 58 then n - 48 else n - 87)"

definition unhex :: "string \<Rightarrow> nat" where
  "unhex = foldl (\<lambda>n c. 16 * n + unhex_digit c) 0"

lemma unhex_digitsHex: "k < 16 \<Longrightarrow> unhex_digit (digitsHex ! k) = k"
proof -
  assume "k < 16"
  then have "k = 0 \<or> k = 1 \<or> k = 2 \<or> k = 3 \<or> k = 4 \<or> k = 5 \<or> k = 6 \<or> k = 7 \<or> k = 8 \<or> k = 9 \<or>
      k = 10 \<or> k = 11 \<or> k = 12 \<or> k = 13 \<or> k = 14 \<or> k = 15" by presburger
  then show ?thesis by (elim disjE) (simp_all add: digitsHex_def unhex_digit_def)
qed

lemma unhex_convertHex: "unhex (convertHex n) = n"
proof (induction n rule: hex_loop.induct)
  case (1 n)
  show ?case
  proof (cases "n div 16 = 0")
    case True
    then show ?thesis by (subst convertHex_def, subst hex_loop.simps) (simp add: unhex_def unhex_digitsHex)
  next
    case False
    with 1 [OF refl] have "unhex (rev (hex_loop (n div 16))) = n div 16" by (simp add: convertHex_def)
    with False show ?thesis
      by (subst convertHex_def, subst hex_loop.simps) (simp add: unhex_def unhex_digitsHex)
  qed
qed

lemma length_hex_loop: "0 < k \<Longrightarrow> n < 16 ^ k \<Longrightarrow> length (hex_loop n) \<le> k"
proof (induction k arbitrary: n rule: nat_induct_non_zero)
  case 1
  then show ?case by (subst hex_loop.simps) simp
next
  case (Suc k)
  have "n div 16 < 16 ^ k" using Suc.prems by (simp add: div_less_iff_less_mult)
  with Suc.IH [of "n div 16"] show ?case by (subst hex_loop.simps) (simp add: Let_def)
qed

section \<open>What the stream holds\<close>

definition fb_ok :: "fixed_buffer \<Rightarrow> bool" where
  "fb_ok b \<longleftrightarrow> m_pCur b \<le> length (m_Data b)"

definition fb_text :: "fixed_buffer \<Rightarrow> string" where
  "fb_text b = take (m_pCur b) (m_Data b)"

lemma fb_new [simp]: "fb_ok (FixedBuffer_new m)" "fb_text (FixedBuffer_new m) = []"
  "FixedBuffer_GetAvail (FixedBuffer_new m) = int (length m)"
  by (simp_all add: fb_ok_def fb_text_def FixedBuffer_new_def FixedBuffer_GetAvail_def)

lemma AsString_text: "fb_ok b \<Longrightarrow> FixedBuffer_AsString b = Inr (fb_text b)"
  by (simp add: FixedBuffer_AsString_def fb_ok_def fb_text_def FixedBuffer_GetLength_def)

text \<open>Writing \<open>s\<close> and then \<open>z\<close>, and moving past \<open>s\<close>.\<close>

lemma write_then_add:
  assumes "fb_ok b" and "int (length s + length z) \<le> FixedBuffer_GetAvail b"
  shows "\<exists>b1. write_at (s @ z) b = Inr b1 \<and> fb_ok (b1\<lparr>m_pCur := m_pCur b1 + length s\<rparr>) \<and>
    fb_text (b1\<lparr>m_pCur := m_pCur b1 + length s\<rparr>) = fb_text b @ s \<and>
    FixedBuffer_GetAvail (b1\<lparr>m_pCur := m_pCur b1 + length s\<rparr>) = FixedBuffer_GetAvail b - int (length s)"
proof -
  have fit: "m_pCur b + length (s @ z) \<le> length (m_Data b)"
    using assms by (simp add: FixedBuffer_GetAvail_def)
  then have "write_at (s @ z) b =
      Inr (b\<lparr>m_Data := take (m_pCur b) (m_Data b) @ (s @ z) @ drop (m_pCur b + length (s @ z)) (m_Data b)\<rparr>)"
    unfolding write_at_def by (simp del: length_append append_assoc)
  then show ?thesis using fit by (simp add: fb_ok_def fb_text_def FixedBuffer_GetAvail_def)
qed

text \<open>The text of an item, and how many characters have to be free for it.\<close>

fun item_text :: "item \<Rightarrow> string" where
  "item_text (LBool v) = (if v then ''1'' else ''0'')"
| "item_text (LShort v) = dec (sint v)"
| "item_text (LUShort v) = dec (uint v)"
| "item_text (LInt v) = dec (sint v)"
| "item_text (LUInt v) = dec (uint v)"
| "item_text (LLong v) = dec (sint v)"
| "item_text (LULong v) = dec (uint v)"
| "item_text (LLongLong v) = dec (sint v)"
| "item_text (LULongLong v) = dec (uint v)"
| "item_text (LFloat s) = s"
| "item_text (LDouble s) = s"
| "item_text (LChar c) = [c]"
| "item_text (LPointer p) = ''0x'' @ convertHex (unat p)"
| "item_text (LCString s) = s"
| "item_text (LText t) = m_pStr t"
| "item_text (LString s) = s"
| "item_text (LFmt f) = m_pStrBuffer f"

fun item_room :: "item \<Rightarrow> int" where
  "item_room (LFloat s) = 32"
| "item_room (LDouble s) = 32"
| "item_room (LPointer p) = 32"
| "item_room (LShort v) = 33"
| "item_room (LUShort v) = 33"
| "item_room (LInt v) = 33"
| "item_room (LUInt v) = 33"
| "item_room (LLong v) = 33"
| "item_room (LULong v) = 33"
| "item_room (LLongLong v) = 33"
| "item_room (LULongLong v) = 33"
| "item_room it = int (length (item_text it)) + 1"

text \<open>
  What the callers keep to: lengths that fit an \<open>int\<close>, texts of \<open>%.12g\<close> of less than 32
  characters, and \<open>T\<close> and \<open>Fmt\<close> values that passed their constructors' assertions.
\<close>

fun item_ok :: "item \<Rightarrow> bool" where
  "item_ok (LFloat s) = (length s < 32)"
| "item_ok (LDouble s) = (length s < 32)"
| "item_ok (LCString s) = (length s < 2 ^ 31)"
| "item_ok (LString s) = (length s < 2 ^ 31)"
| "item_ok (LText t) = (length (m_pStr t) = m_unLength t \<and> m_unLength t < 2 ^ 31)"
| "item_ok (LFmt f) = (int (length (m_pStrBuffer f)) = m_nLength f \<and> m_nLength f < 32)"
| "item_ok _ = True"

definition put_result :: "item \<Rightarrow> fixed_buffer \<Rightarrow> fixed_buffer \<Rightarrow> bool" where
  "put_result it b b1 \<longleftrightarrow> fb_ok b1 \<and>
     (if item_room it \<le> FixedBuffer_GetAvail b
      then fb_text b1 = fb_text b @ item_text it \<and>
           FixedBuffer_GetAvail b1 = FixedBuffer_GetAvail b - int (length (item_text it))
      else b1 = b)"

lemma int_of_size_small: "n < 2 ^ 31 \<Longrightarrow> int_of_size n = int n"
  by (simp add: int_of_size_def signed_of_nat signed_take_bit_int_eq_self)

lemma Append_text:
  assumes "fb_ok b" and "n = int (length s)"
  shows "\<exists>b1. FixedBuffer_Append s n b = Inr b1 \<and> fb_ok b1 \<and>
    (if n + 1 \<le> FixedBuffer_GetAvail b
     then fb_text b1 = fb_text b @ s \<and> FixedBuffer_GetAvail b1 = FixedBuffer_GetAvail b - n
     else b1 = b)"
  using write_then_add [OF assms(1), of s "[]"] assms
  by (auto simp: FixedBuffer_Append_def)

lemma formatInteger_text:
  assumes "fb_ok b" and "\<bar>v\<bar> < 10 ^ 20"
  shows "\<exists>b1. formatInteger v b = Inr b1 \<and> fb_ok b1 \<and>
    (if 33 \<le> FixedBuffer_GetAvail b
     then fb_text b1 = fb_text b @ dec v \<and>
          FixedBuffer_GetAvail b1 = FixedBuffer_GetAvail b - int (length (dec v))
     else b1 = b)"
  using write_then_add [OF assms(1), of "dec v" "[CHR 0x00]"] length_dec_word [OF assms(2)] assms(1)
  by (auto simp: formatInteger_def MAX_NUMERIC_SIZE_def convert_dec FixedBuffer_Add_def)

lemma put_double_text:
  assumes "fb_ok b" and "length s < 32"
  shows "\<exists>b1. put_double s b = Inr b1 \<and> fb_ok b1 \<and>
    (if 32 \<le> FixedBuffer_GetAvail b
     then fb_text b1 = fb_text b @ s \<and>
          FixedBuffer_GetAvail b1 = FixedBuffer_GetAvail b - int (length s)
     else b1 = b)"
  using write_then_add [OF assms(1), of s "[CHR 0x00]"] assms
  by (auto simp: put_double_def MAX_NUMERIC_SIZE_def snprintf_fits FixedBuffer_Add_def)

lemma put_pointer_text:
  assumes "fb_ok b" and "v < 16 ^ 16"
  shows "\<exists>b1. put_pointer v b = Inr b1 \<and> fb_ok b1 \<and>
    (if 32 \<le> FixedBuffer_GetAvail b
     then fb_text b1 = fb_text b @ ''0x'' @ convertHex v \<and>
          FixedBuffer_GetAvail b1 = FixedBuffer_GetAvail b - int (length (''0x'' @ convertHex v))
     else b1 = b)"
proof -
  have "length (convertHex v) \<le> 16" using length_hex_loop [of 16 v] assms(2) by (simp add: convertHex_def)
  then show ?thesis
    using write_then_add [OF assms(1), of "''0x'' @ convertHex v" "[CHR 0x00]"] assms(1)
    by (auto simp: put_pointer_def MAX_NUMERIC_SIZE_def FixedBuffer_Add_def)
qed

lemma word_small:
  "\<bar>sint (v :: 16 word)\<bar> < 10 ^ 20" "\<bar>uint (v :: 16 word)\<bar> < 10 ^ 20"
  "\<bar>sint (w :: 32 word)\<bar> < 10 ^ 20" "\<bar>uint (w :: 32 word)\<bar> < 10 ^ 20"
  "\<bar>sint (x :: 64 word)\<bar> < 10 ^ 20" "\<bar>uint (x :: 64 word)\<bar> < 10 ^ 20"
  using sint_greater_eq [of v] sint_lt [of v] uint_lt2p [of v] sint_greater_eq [of w] sint_lt [of w]
    uint_lt2p [of w] sint_greater_eq [of x] sint_lt [of x] uint_lt2p [of x]
  by (simp_all add: abs_less_iff)

lemma unat_word64: "unat (x :: 64 word) < 16 ^ 16"
proof -
  have "unat x < 2 ^ LENGTH(64)" by (rule unsigned_less)
  then show ?thesis by simp
qed

lemma put_int_item:
  assumes "fb_ok b" and "\<bar>v\<bar> < 10 ^ 20" and "item_text it = dec v" and "item_room it = 33"
  shows "\<exists>b1. formatInteger v b = Inr b1 \<and> put_result it b b1"
  using formatInteger_text [OF assms(1,2)] assms(3,4) by (auto simp: put_result_def)

lemma put_double_item:
  assumes "fb_ok b" and "length s < 32" and "item_text it = s" and "item_room it = 32"
  shows "\<exists>b1. put_double s b = Inr b1 \<and> put_result it b b1"
  using put_double_text [OF assms(1,2)] assms(3,4) by (auto simp: put_result_def)

lemma LogStream_put_ok:
  assumes "fb_ok b" and "item_ok it"
  shows "\<exists>b1. LogStream_put it b = Inr b1 \<and> put_result it b b1"
proof (cases it)
  case (LBool v)
  then show ?thesis using Append_text [OF assms(1), of 1 "if v then ''1'' else ''0''"]
    by (cases v) (auto simp: put_result_def)
next
  case (LChar c)
  then show ?thesis using Append_text [OF assms(1), of 1 "[c]"] by (auto simp: put_result_def)
next
  case (LText t)
  then show ?thesis using assms(2) Append_text [OF assms(1) refl, of "m_pStr t"]
    by (auto simp: put_result_def put_T_def int_of_size_small)
next
  case (LFmt f)
  then show ?thesis using assms(2) Append_text [OF assms(1) refl, of "m_pStrBuffer f"]
    by (auto simp: put_result_def put_Fmt_def)
next
  case (LCString s)
  then show ?thesis using assms(2) Append_text [OF assms(1) refl, of s]
    by (auto simp: put_result_def append_string_def int_of_size_small)
next
  case (LString s)
  then show ?thesis using assms(2) Append_text [OF assms(1) refl, of s]
    by (auto simp: put_result_def append_string_def int_of_size_small)
next
  case (LPointer p)
  then show ?thesis using put_pointer_text [OF assms(1) unat_word64 [of p]]
    by (auto simp: put_result_def)
qed (use assms in \<open>auto intro: put_double_item put_int_item word_small\<close>)

section \<open>The property of the stream\<close>

text \<open>
  What a statement that puts items on a stream leaves in a buffer with \<open>room\<close> characters free:
  each item's text, except those there was no room for.
\<close>

fun stream_text :: "int \<Rightarrow> item list \<Rightarrow> string" where
  "stream_text room [] = []"
| "stream_text room (it # its) =
     (if item_room it \<le> room
      then item_text it @ stream_text (room - int (length (item_text it))) its
      else stream_text room its)"

lemma LogStream_puts_ok:
  assumes "fb_ok b" and "\<forall>it \<in> set its. item_ok it"
  shows "\<exists>b1. LogStream_puts its b = Inr b1 \<and> fb_ok b1 \<and>
    fb_text b1 = fb_text b @ stream_text (FixedBuffer_GetAvail b) its"
  using assms
proof (induction its arbitrary: b)
  case Nil
  then show ?case by (simp add: LogStream_puts_def)
next
  case (Cons it its)
  obtain b1 where b1: "LogStream_put it b = Inr b1" "put_result it b b1"
    using LogStream_put_ok [of b it] Cons.prems by auto
  then have "fb_ok b1" by (simp add: put_result_def)
  from Cons.IH [OF this] Cons.prems(2) b1 show ?case
    by (auto simp: LogStream_puts_def put_result_def split: if_splits)
qed

text \<open>
  C34: Whatever well-formed items are put on a stream, nothing is written outside its buffer, and
  the buffer then holds what it held followed by the items' texts in order (integers in decimal,
  pointers in hexadecimal), each item whole or, when there is no room for it, not at all.
\<close>

theorem LogStream_writes:
  assumes "fb_ok b" and "\<forall>it \<in> set its. item_ok it"
  shows "\<exists>b1. LogStream_puts its b = Inr b1 \<and> fb_ok b1 \<and>
    fb_text b1 = fb_text b @ stream_text (FixedBuffer_GetAvail b) its"
  using assms by (rule LogStream_puts_ok)

theorem LogStream_writes_witness:
  "\<exists>b1. LogStream_puts [LInt (- 42), LCString ''ms '', LPointer 255]
       (FixedBuffer_new (replicate 4000 CHR 0x00)) = Inr b1 \<and> fb_text b1 = ''-42ms 0xff''"
proof -
  have "convertHex 255 = ''ff''"
    unfolding convertHex_def by (subst hex_loop.simps, subst hex_loop.simps) (simp add: digitsHex_def)
  moreover have "dec (- 42) = ''-42''"
    by (simp add: dec_def dec_nat_step dec_nat_single digit_def char_of_def bit_0)
  ultimately have "stream_text 4000 [LInt (- 42), LCString ''ms '', LPointer 255] = ''-42ms 0xff''"
    by simp
  then show ?thesis
    using LogStream_writes [of "FixedBuffer_new (replicate 4000 CHR 0x00)"
        "[LInt (- 42), LCString ''ms '', LPointer 255]"] by auto
qed

end
