(* ===== verification/Loggers.thy ===== *)
theory Loggers
  imports LogStreams TimeStamps
begin

text \<open>
  \<open>logging/Logging.h\<close> and \<open>logging/Logging.cpp\<close>: a \<open>Logger\<close> lives for one statement; its
  constructor starts the line, the statement adds to it, its destructor ends it, hands it to
  the output function and aborts after a \<open>FATAL\<close> line. The globals (the level, the output and
  flush functions, and the thread's cached second with its text) are one record over the
  world \<open>'w\<close> the two functions change. The clock, \<open>gmtime_r\<close>, \<open>strerror_r\<close> and the memory a new
  buffer finds are arguments.
\<close>

datatype LogLevel = TRACE | DEBUG | INFO | WARNING | ERROR | FATAL

fun level_no :: "LogLevel \<Rightarrow> nat" where
  "level_no TRACE = 0"
| "level_no DEBUG = 1"
| "level_no INFO = 2"
| "level_no WARNING = 3"
| "level_no ERROR = 4"
| "level_no FATAL = 5"

instantiation LogLevel :: linorder
begin

definition less_LogLevel :: "LogLevel \<Rightarrow> LogLevel \<Rightarrow> bool" where
  "a < b \<longleftrightarrow> level_no a < level_no b"

definition less_eq_LogLevel :: "LogLevel \<Rightarrow> LogLevel \<Rightarrow> bool" where
  "a \<le> b \<longleftrightarrow> level_no a \<le> level_no b"

instance
proof
  show "a = b" if "a \<le> b" "b \<le> a" for a b :: LogLevel
    using that by (cases a; cases b) (simp_all add: less_eq_LogLevel_def)
qed (auto simp: less_LogLevel_def less_eq_LogLevel_def)

end

fun LogLevelName :: "LogLevel \<Rightarrow> string" where
  "LogLevelName TRACE = ''TRACE''"
| "LogLevelName DEBUG = ''DEBUG''"
| "LogLevelName INFO = ''INFO''"
| "LogLevelName WARNING = ''WARNING''"
| "LogLevelName ERROR = ''ERROR''"
| "LogLevelName FATAL = ''FATAL''"

record 'w logging =
  g_LogLevel :: LogLevel
  g_OutputFunc :: "string \<Rightarrow> 'w \<Rightarrow> 'w"
  g_FlushFunc :: "'w \<Rightarrow> 'w"
  t_time :: string
  t_lastSecond :: int
  g_World :: 'w

definition InitLogLevel :: "bool \<Rightarrow> LogLevel" where
  "InitLogLevel envLogTrace = (if envLogTrace then TRACE else DEBUG)"

text \<open>The program's start: the thread-local text and second are zero.\<close>

definition logging_new :: "bool \<Rightarrow> (string \<Rightarrow> 'w \<Rightarrow> 'w) \<Rightarrow> ('w \<Rightarrow> 'w) \<Rightarrow> 'w \<Rightarrow> 'w logging" where
  "logging_new envLogTrace DefaultOutput DefaultFlush w =
     \<lparr>g_LogLevel = InitLogLevel envLogTrace, g_OutputFunc = DefaultOutput,
      g_FlushFunc = DefaultFlush, t_time = [], t_lastSecond = 0, g_World = w\<rparr>"

definition Logger_GetLogLevel :: "'w logging \<Rightarrow> LogLevel" where
  "Logger_GetLogLevel g = g_LogLevel g"

definition Logger_SetLogLevel :: "LogLevel \<Rightarrow> 'w logging \<Rightarrow> 'w logging" where
  "Logger_SetLogLevel eLevel g = g\<lparr>g_LogLevel := eLevel\<rparr>"

definition Logger_SetOutputFunc :: "(string \<Rightarrow> 'w \<Rightarrow> 'w) \<Rightarrow> 'w logging \<Rightarrow> 'w logging" where
  "Logger_SetOutputFunc func g = g\<lparr>g_OutputFunc := func\<rparr>"

definition Logger_SetFlushFunc :: "('w \<Rightarrow> 'w) \<Rightarrow> 'w logging \<Rightarrow> 'w logging" where
  "Logger_SetFlushFunc func g = g\<lparr>g_FlushFunc := func\<rparr>"

section \<open>One line\<close>

record logger =
  i_timeStamp :: TimeStamp
  i_stream :: fixed_buffer
  i_level :: LogLevel
  i_nLine :: "32 word"
  i_pStrFullName :: string
  i_pStrBaseName :: string

text \<open>\<open>strrchr\<close>: the rest of the string from the last occurrence on.\<close>

fun strrchr :: "string \<Rightarrow> char \<Rightarrow> string option" where
  "strrchr [] c = None"
| "strrchr (d # s) c =
     (case strrchr s c of Some r \<Rightarrow> Some r | None \<Rightarrow> if d = c then Some (d # s) else None)"

definition base_name :: "string \<Rightarrow> string" where
  "base_name pStrFullName =
     (case strrchr pStrFullName CHR ''/'' of Some pStrPathSepPos \<Rightarrow> tl pStrPathSepPos | None \<Rightarrow> pStrFullName)"

definition on_stream :: "item list \<Rightarrow> logger \<Rightarrow> logger res" where
  "on_stream its l = rbind (LogStream_puts its (i_stream l)) (\<lambda>b. Inr (l\<lparr>i_stream := b\<rparr>))"

text \<open>The thread's text of the current second, computed again when the second has changed.\<close>

definition refresh_time :: "(int \<Rightarrow> tm) \<Rightarrow> int \<Rightarrow> 'w logging \<Rightarrow> 'w logging res" where
  "refresh_time gmtime seconds g =
     (if seconds \<noteq> t_lastSecond g
      then (let (text, len) = snprintf 32 (format_tm (gmtime seconds))
            in check (len = 17) (Inr (g\<lparr>t_time := text, t_lastSecond := seconds\<rparr>)))
      else Inr g)"

definition Impl_FormatTime :: "(int \<Rightarrow> tm) \<Rightarrow> logger \<times> 'w logging \<Rightarrow> (logger \<times> 'w logging) res" where
  "Impl_FormatTime gmtime s =
     (case s of (l, g) \<Rightarrow>
       let t = m_MicroSecondsSinceEpoch (i_timeStamp l);
           seconds = c_div t MICRO_SECOND_PER_SECOND;
           microSeconds = c_mod t MICRO_SECOND_PER_SECOND
       in rbind (refresh_time gmtime seconds g) (\<lambda>g1.
          rbind (Fmt_new (''.'' @ fmt_zero 6 microSeconds @ ''Z '')) (\<lambda>us.
          check (m_nLength us = 9)
            (rbind (T_new (t_time g1) 17) (\<lambda>a.
             rbind (T_new (m_pStrBuffer us) 9) (\<lambda>b.
             rbind (on_stream [LText a, LText b] l) (\<lambda>l1. Inr (l1, g1))))))))"

definition Impl_new ::
    "(int \<Rightarrow> tm) \<Rightarrow> (int \<Rightarrow> string) \<Rightarrow> string \<Rightarrow> TimeStamp \<Rightarrow> LogLevel \<Rightarrow> 32 word \<Rightarrow> string \<Rightarrow> 32 word \<Rightarrow>
     'w logging \<Rightarrow> (logger \<times> 'w logging) res" where
  "Impl_new gmtime StrError_tl memory now eLevel nOldErrno pStrFile nLine g =
     (let l = \<lparr>i_timeStamp = now, i_stream = FixedBuffer_new memory, i_level = eLevel,
               i_nLine = nLine, i_pStrFullName = pStrFile, i_pStrBaseName = base_name pStrFile\<rparr>
      in rbind (Impl_FormatTime gmtime (l, g)) (\<lambda>(l1, g1).
         rbind (on_stream [LCString ''['', LCString (LogLevelName (i_level l1)), LCString ('']'' @ [CHR 0x09])] l1) (\<lambda>l2.
         rbind
           (if 0 \<noteq> nOldErrno
            then on_stream [LCString (StrError_tl (sint nOldErrno)), LCString '' (errno='',
                            LInt nOldErrno, LCString '') ''] l2
            else Inr l2) (\<lambda>l3. Inr (l3, g1)))))"

definition Impl_Finish :: "logger \<Rightarrow> logger res" where
  "Impl_Finish l =
     on_stream [LCString [CHR 0x09], LCString (i_pStrBaseName l), LCString '':'', LInt (i_nLine l),
                LChar (CHR 0x0A)] l"

text \<open>The four constructors: at \<open>INFO\<close>, at a level, at a level with the function's name, and of a failed system call.\<close>

datatype log_kind =
    AtInfo
  | AtLevel LogLevel
  | InFunction LogLevel string
  | SystemCall bool

definition kind_level :: "log_kind \<Rightarrow> LogLevel" where
  "kind_level k =
     (case k of AtInfo \<Rightarrow> INFO | AtLevel l \<Rightarrow> l | InFunction l _ \<Rightarrow> l
      | SystemCall bAbort \<Rightarrow> if bAbort then FATAL else ERROR)"

definition Logger_new ::
    "(int \<Rightarrow> tm) \<Rightarrow> (int \<Rightarrow> string) \<Rightarrow> string \<Rightarrow> TimeStamp \<Rightarrow> 32 word \<Rightarrow> string \<Rightarrow> 32 word \<Rightarrow> log_kind \<Rightarrow>
     'w logging \<Rightarrow> (logger \<times> 'w logging) res" where
  "Logger_new gmtime StrError_tl memory now errno pStrFile nLine k g =
     (case k of
        AtInfo \<Rightarrow> Impl_new gmtime StrError_tl memory now INFO 0 pStrFile nLine g
      | AtLevel eLevel \<Rightarrow> Impl_new gmtime StrError_tl memory now eLevel 0 pStrFile nLine g
      | InFunction eLevel pStrFunc \<Rightarrow>
          rbind (Impl_new gmtime StrError_tl memory now eLevel 0 pStrFile nLine g) (\<lambda>(l, g1).
          rbind (on_stream [LCString pStrFunc, LChar CHR '' ''] l) (\<lambda>l1. Inr (l1, g1)))
      | SystemCall bAbort \<Rightarrow>
          Impl_new gmtime StrError_tl memory now (if bAbort then FATAL else ERROR) errno pStrFile nLine g)"

text \<open>
  The destructor. Its result is the globals and whether the program goes on; \<open>abort()\<close> comes
  after the output and flush functions have run.
\<close>

definition Logger_delete :: "logger \<Rightarrow> 'w logging \<Rightarrow> ('w logging \<times> bool) res" where
  "Logger_delete l g =
     rbind (Impl_Finish l) (\<lambda>l1.
     rbind (FixedBuffer_AsString (i_stream l1)) (\<lambda>line.
       let g1 = g\<lparr>g_World := g_OutputFunc g line (g_World g)\<rparr>
       in if FATAL = i_level l1
          then Inr (g1\<lparr>g_World := g_FlushFunc g1 (g_World g1)\<rparr>, False)
          else Inr (g1, True)))"

text \<open>The macros: the first three are guarded by the level, the others always run.\<close>

definition log_guard :: "log_kind \<Rightarrow> 'w logging \<Rightarrow> bool" where
  "log_guard k g \<longleftrightarrow>
     (case k of InFunction l _ \<Rightarrow> Logger_GetLogLevel g \<le> l | AtInfo \<Rightarrow> Logger_GetLogLevel g \<le> INFO | _ \<Rightarrow> True)"

definition log_statement ::
    "(int \<Rightarrow> tm) \<Rightarrow> (int \<Rightarrow> string) \<Rightarrow> string \<Rightarrow> TimeStamp \<Rightarrow> 32 word \<Rightarrow> string \<Rightarrow> 32 word \<Rightarrow> log_kind \<Rightarrow>
     item list \<Rightarrow> 'w logging \<Rightarrow> ('w logging \<times> bool) res" where
  "log_statement gmtime StrError_tl memory now errno pStrFile nLine k its g =
     (if log_guard k g
      then rbind (Logger_new gmtime StrError_tl memory now errno pStrFile nLine k g) (\<lambda>(l, g1).
           rbind (on_stream its l) (\<lambda>l1. Logger_delete l1 g1))
      else Inr (g, True))"

text \<open>\<open>CheckNotNull\<close> passes its pointer on, after a \<open>FATAL\<close> line when it is null.\<close>

definition CheckNotNull ::
    "(item list \<Rightarrow> 'w logging \<Rightarrow> ('w logging \<times> bool) res) \<Rightarrow> string \<Rightarrow> 'p option \<Rightarrow> 'w logging \<Rightarrow>
     ('p \<times> 'w logging) res" where
  "CheckNotNull fatal pStrName pT g =
     (case pT of
        None \<Rightarrow> rbind (fatal [LCString pStrName] g) (\<lambda>_. Inl Aborted)
      | Some p \<Rightarrow> Inr (p, g))"

section \<open>The line that is written\<close>

lemma puts_append:
  "LogStream_puts (xs @ ys) b = rbind (LogStream_puts xs b) (LogStream_puts ys)"
  by (simp add: LogStream_puts_def rfold_append)

text \<open>The items a statement puts on its stream, from the time to the end of the line.\<close>

definition time_items :: "(int \<Rightarrow> tm) \<Rightarrow> int \<Rightarrow> item list" where
  "time_items gmtime t =
     [LText \<lparr>m_pStr = format_tm (gmtime (t div 1000000)), m_unLength = 17\<rparr>,
      LText \<lparr>m_pStr = ''.'' @ fmt_zero 6 (t mod 1000000) @ ''Z '', m_unLength = 9\<rparr>]"

definition level_items :: "LogLevel \<Rightarrow> item list" where
  "level_items eLevel = [LCString ''['', LCString (LogLevelName eLevel), LCString ('']'' @ [CHR 0x09])]"

definition kind_items :: "(int \<Rightarrow> string) \<Rightarrow> 32 word \<Rightarrow> log_kind \<Rightarrow> item list" where
  "kind_items StrError_tl errno k =
     (case k of
        InFunction _ pStrFunc \<Rightarrow> [LCString pStrFunc, LChar CHR '' '']
      | SystemCall _ \<Rightarrow>
          if errno = 0 then []
          else [LCString (StrError_tl (sint errno)), LCString '' (errno='', LInt errno, LCString '') '']
      | _ \<Rightarrow> [])"

definition end_items :: "string \<Rightarrow> 32 word \<Rightarrow> item list" where
  "end_items pStrFile nLine =
     [LCString [CHR 0x09], LCString (base_name pStrFile), LCString '':'', LInt nLine, LChar (CHR 0x0A)]"

definition line_items ::
    "(int \<Rightarrow> tm) \<Rightarrow> (int \<Rightarrow> string) \<Rightarrow> int \<Rightarrow> 32 word \<Rightarrow> string \<Rightarrow> 32 word \<Rightarrow> log_kind \<Rightarrow> item list \<Rightarrow> item list" where
  "line_items gmtime StrError_tl t errno pStrFile nLine k its =
     time_items gmtime t @ level_items (kind_level k) @ kind_items StrError_tl errno k @ its @
     end_items pStrFile nLine"

text \<open>The cached text belongs to the cached second.\<close>

definition cache_ok :: "(int \<Rightarrow> tm) \<Rightarrow> 'w logging \<Rightarrow> bool" where
  "cache_ok gmtime g \<longleftrightarrow> t_lastSecond g = 0 \<or> t_time g = format_tm (gmtime (t_lastSecond g))"

definition refreshed :: "(int \<Rightarrow> tm) \<Rightarrow> int \<Rightarrow> 'w logging \<Rightarrow> 'w logging" where
  "refreshed gmtime t g =
     g\<lparr>t_time := format_tm (gmtime (t div 1000000)), t_lastSecond := t div 1000000\<rparr>"

lemma refresh_time_ok:
  assumes "cache_ok gmtime g" and "tm_ok (gmtime (t div 1000000))" and "1000000 \<le> t"
  shows "refresh_time gmtime (t div 1000000) g = Inr (refreshed gmtime t g)"
proof -
  have len: "length (format_tm (gmtime (t div 1000000))) = 17" by (rule length_format_tm [OF assms(2)])
  show ?thesis
  proof (cases "t div 1000000 = t_lastSecond g")
    case True
    moreover have "t div 1000000 \<noteq> 0" using assms(3) by linarith
    ultimately have "t_time g = format_tm (gmtime (t div 1000000))" using assms(1) by (simp add: cache_ok_def)
    with True show ?thesis by (simp add: refresh_time_def refreshed_def)
  qed (simp add: refresh_time_def refreshed_def snprintf_fits len)
qed

lemma FormatTime_ok:
  assumes "cache_ok gmtime g" and "tm_ok (gmtime (t div 1000000))" and "1000000 \<le> t"
    and "i_timeStamp l = TimeStamp t"
  shows "Impl_FormatTime gmtime (l, g) =
    rbind (on_stream (time_items gmtime t) l) (\<lambda>l1. Inr (l1, refreshed gmtime t g))"
proof -
  have us: "length (''.'' @ fmt_zero 6 (t mod 1000000) @ ''Z '') = 9"
    by (simp add: length_fmt_zero)
  then have "Fmt_new (''.'' @ fmt_zero 6 (t mod 1000000) @ ''Z '') =
      Inr \<lparr>m_pStrBuffer = ''.'' @ fmt_zero 6 (t mod 1000000) @ ''Z '', m_nLength = 9\<rparr>"
    unfolding Fmt_new_def by (subst snprintf_fits) simp_all
  then show ?thesis
    using assms us length_format_tm [OF assms(2)] refresh_time_ok [OF assms(1-3)]
    by (simp add: Impl_FormatTime_def MICRO_SECOND_PER_SECOND_def T_new_def time_items_def refreshed_def
          Let_def del: length_append)
qed

lemma log_statement_ok:
  assumes g: "cache_ok gmtime g" "tm_ok (gmtime (t div 1000000))" "1000000 \<le> t" and guard: "log_guard k g"
    and puts: "LogStream_puts (line_items gmtime StrError_tl t errno pStrFile nLine k its) (FixedBuffer_new memory) = Inr b"
    and b: "fb_ok b"
  shows "log_statement gmtime StrError_tl memory (TimeStamp t) errno pStrFile nLine k its g =
    (let w1 = g_OutputFunc g (fb_text b) (g_World g) in
     if kind_level k = FATAL then Inr ((refreshed gmtime t g)\<lparr>g_World := g_FlushFunc g w1\<rparr>, False)
     else Inr ((refreshed gmtime t g)\<lparr>g_World := w1\<rparr>, True))"
proof -
  obtain b1 b2 b3 b4 where b1: "LogStream_puts (time_items gmtime t) (FixedBuffer_new memory) = Inr b1"
    and b2: "LogStream_puts (level_items (kind_level k)) b1 = Inr b2"
    and b3: "LogStream_puts (kind_items StrError_tl errno k) b2 = Inr b3"
    and b4: "LogStream_puts its b3 = Inr b4" and b5: "LogStream_puts (end_items pStrFile nLine) b4 = Inr b"
    using puts by (auto simp: line_items_def puts_append rbind_Inr)
  let ?l = "\<lambda>b. \<lparr>i_timeStamp = TimeStamp t, i_stream = b, i_level = kind_level k,
               i_nLine = nLine, i_pStrFullName = pStrFile, i_pStrBaseName = base_name pStrFile\<rparr>"
  have new: "Logger_new gmtime StrError_tl memory (TimeStamp t) errno pStrFile nLine k g =
      Inr (?l b3, refreshed gmtime t g)"
    using b1 b2 b3
    by (cases k) (auto simp: Logger_new_def Impl_new_def Let_def FormatTime_ok [OF g] on_stream_def
        kind_level_def level_items_def kind_items_def LogStream_puts_def)
  show ?thesis
    using new b4 b5 guard
    by (simp add: log_statement_def on_stream_def Logger_delete_def Impl_Finish_def end_items_def
          AsString_text [OF b] refreshed_def Let_def eq_commute [of FATAL])
qed

lemma refreshed_output [simp]: "g_OutputFunc (refreshed gmtime t g) = g_OutputFunc g"
  by (simp add: refreshed_def)

lemma refreshed_cache: "cache_ok gmtime (refreshed gmtime t g\<lparr>g_World := w\<rparr>)"
  by (simp add: cache_ok_def refreshed_def)

lemma line_items_ok:
  assumes "tm_ok (gmtime (t div 1000000))" and "\<forall>it \<in> set its. item_ok it"
    and "length pStrFile < 2 ^ 31" and "length (StrError_tl (sint errno)) < 2 ^ 31"
    and "\<forall>l f. k = InFunction l f \<longrightarrow> length f < 2 ^ 31"
  shows "\<forall>it \<in> set (line_items gmtime StrError_tl t errno pStrFile nLine k its). item_ok it"
proof -
  have "length (base_name s) \<le> length s" for s
  proof (induction s)
    case (Cons c s)
    then show ?case by (auto simp: base_name_def split: option.splits)
  qed (simp add: base_name_def)
  then have "length (base_name pStrFile) < 2 ^ 31" using assms(3) le_less_trans by blast
  moreover have "length (LogLevelName l) < 2 ^ 31" for l by (cases l) simp_all
  ultimately show ?thesis
    using assms
    by (auto simp: line_items_def time_items_def level_items_def kind_items_def end_items_def
          length_format_tm length_fmt_zero split: log_kind.splits if_splits)
qed

lemma log_statement_gives:
  assumes "cache_ok gmtime g" and "tm_ok (gmtime (t div 1000000))" and "1000000 \<le> t"
    and "log_guard k g" and "length memory = SAMLL_BUFFER" and "\<forall>it \<in> set its. item_ok it"
    and "length pStrFile < 2 ^ 31" and "length (StrError_tl (sint errno)) < 2 ^ 31"
    and "\<forall>l f. k = InFunction l f \<longrightarrow> length f < 2 ^ 31"
  shows "\<exists>g1. log_statement gmtime StrError_tl memory (TimeStamp t) errno pStrFile nLine k its g =
      Inr (g1, kind_level k \<noteq> FATAL) \<and> cache_ok gmtime g1 \<and>
    g_World g1 = (if kind_level k = FATAL then g_FlushFunc g else (\<lambda>w. w))
      (g_OutputFunc g
        (stream_text 4000 (line_items gmtime StrError_tl t errno pStrFile nLine k its)) (g_World g)) \<and>
    g_OutputFunc g1 = g_OutputFunc g"
proof -
  have ok: "\<forall>it \<in> set (line_items gmtime StrError_tl t errno pStrFile nLine k its). item_ok it"
    by (rule line_items_ok [where StrError_tl = StrError_tl and errno = errno]) (fact assms)+
  obtain b where b: "LogStream_puts (line_items gmtime StrError_tl t errno pStrFile nLine k its)
      (FixedBuffer_new memory) = Inr b" "fb_ok b"
    "fb_text b = stream_text 4000 (line_items gmtime StrError_tl t errno pStrFile nLine k its)"
    using LogStream_puts_ok [OF fb_new(1) ok, of memory]
    by (auto simp: assms(5) SAMLL_BUFFER_def)
  from log_statement_ok [OF assms(1-4) b(1,2)] b(3) show ?thesis
    by (simp add: Let_def refreshed_cache)
qed

text \<open>
  C35: A statement whose level is enabled hands exactly one text to the output function: the UTC
  time to the microsecond, the level in brackets, the function or the system error, what the
  statement put on the stream, and the file's base name with the line, each piece whole as long
  as the line's buffer of 4000 characters has room; the program ends after a \<open>FATAL\<close> line, with
  the output flushed, and only then. The cached time text stays that of its second.
\<close>

theorem log_statement_line:
  assumes "cache_ok gmtime g" and "tm_ok (gmtime (t div 1000000))" and "1000000 \<le> t"
    and "log_guard k g" and "length memory = SAMLL_BUFFER" and "\<forall>it \<in> set its. item_ok it"
    and "length pStrFile < 2 ^ 31" and "length (StrError_tl (sint errno)) < 2 ^ 31"
    and "\<forall>l f. k = InFunction l f \<longrightarrow> length f < 2 ^ 31"
  shows "\<exists>g1. log_statement gmtime StrError_tl memory (TimeStamp t) errno pStrFile nLine k its g =
      Inr (g1, kind_level k \<noteq> FATAL) \<and> cache_ok gmtime g1 \<and>
    g_World g1 = (if kind_level k = FATAL then g_FlushFunc g else (\<lambda>w. w))
      (g_OutputFunc g
        (stream_text 4000 (line_items gmtime StrError_tl t errno pStrFile nLine k its)) (g_World g))"
  using log_statement_gives [where StrError_tl = StrError_tl and errno = errno, OF assms] by blast

text \<open>A world that is the lines written so far, at noon of a day in 2020.\<close>

definition demo_logging :: "string list logging" where
  "demo_logging = logging_new False (\<lambda>line w. w @ [line]) (\<lambda>w. w @ [''flushed'']) []"

definition demo_gmtime :: "int \<Rightarrow> tm" where
  "demo_gmtime s = \<lparr>tm_year = 120, tm_mon = 0, tm_mday = 2, tm_hour = 12, tm_min = 0, tm_sec = s mod 60\<rparr>"

lemma log_values:
  "dec_nat (Suc 0) = ''1''" "dec_nat 7 = ''7''" "dec_nat 0 = ''0''" "dec_nat 1 = ''1''" "dec_nat 2 = ''2''" "dec_nat 12 = ''12''"
  "dec_nat 50 = ''50''" "dec_nat 2020 = ''2020''" "dec_nat 31 = ''31''" "dec_nat 40 = ''40''"
  by (simp_all add: dec_nat_step dec_nat_single digit_def char_of_def bit_0)

lemma replicate_five: "replicate 5 c = [c, c, c, c, c]"
  by (simp add: eval_nat_numeral)

theorem log_statement_line_witness:
  "\<exists>g1. log_statement demo_gmtime (\<lambda>_. []) (replicate 4000 CHR 0x00) (TimeStamp 1577966400000007) 0
      ''net/x.cpp'' 31 (AtLevel FATAL) [LCString ''bad''] demo_logging = Inr (g1, False) \<and>
     g_World g1 = [''20200102 12:00:00.000007Z [FATAL]'' @ [CHR 0x09] @ ''bad'' @ [CHR 0x09] @
        ''x.cpp:31'' @ [CHR 0x0A], ''flushed'']"
proof -
  let ?its = "line_items demo_gmtime (\<lambda>_. []) 1577966400000007 0 ''net/x.cpp'' 31 (AtLevel FATAL) [LCString ''bad'']"
  have "format_tm (demo_gmtime 1577966400) = ''20200102 12:00:00''"
    by (simp add: format_tm_def demo_gmtime_def fmt_pad_def fmt_zero_def dec_def log_values Let_def)
  moreover have "''.'' @ fmt_zero 6 7 @ ''Z '' = ''.000007Z ''"
    by (simp add: fmt_zero_def log_values Let_def replicate_five)
  ultimately have written: "stream_text 4000 ?its = ''20200102 12:00:00.000007Z [FATAL]'' @ [CHR 0x09] @
      ''bad'' @ [CHR 0x09] @ ''x.cpp:31'' @ [CHR 0x0A]"
    by (simp add: line_items_def time_items_def level_items_def kind_items_def end_items_def
          kind_level_def base_name_def dec_def log_values)
  have "cache_ok demo_gmtime demo_logging" "tm_ok (demo_gmtime (1577966400000007 div 1000000))"
    "log_guard (AtLevel FATAL) demo_logging"
    by (simp_all add: cache_ok_def demo_logging_def logging_new_def tm_ok_def demo_gmtime_def log_guard_def)
  from log_statement_line [where t = 1577966400000007 and memory = "replicate 4000 CHR 0x00" and
      its = "[LCString ''bad'']" and pStrFile = "''net/x.cpp''" and StrError_tl = "\<lambda>_. []" and errno = 0 and
      nLine = 31, OF this(1,2) _ this(3)] written
  show ?thesis by (auto simp: SAMLL_BUFFER_def kind_level_def demo_logging_def logging_new_def)
qed

end
