(* ===== verification/LogStatements.thy ===== *)
theory LogStatements
  imports Loggers
begin

text \<open>
  Log statements in front of an asynchronous log, as \<open>logging/test/AsyncLogging_test.cpp\<close> sets them up:
  the statements of any number of threads go through \<open>Logger\<close>, whose output function appends each
  line to the log. The world of the logger's globals is the state of the asynchronous log; each
  thread has its own cached second and text. The locale \<open>async_log\<close> is what a log has to promise so
  that its lines are those of the statements executed; \<open>LogPipelines\<close> and \<open>QueuePipelines\<close> interpret it.
\<close>

section \<open>Statements\<close>

text \<open>A statement: its thread, what its buffer's memory holds, its time, and what it logs.\<close>

record statement =
  ls_tid :: nat
  ls_memory :: string
  ls_time :: int
  ls_errno :: "32 word"
  ls_file :: string
  ls_line :: "32 word"
  ls_kind :: log_kind
  ls_items :: "item list"

definition statement_text :: "(int \<Rightarrow> tm) \<Rightarrow> (int \<Rightarrow> string) \<Rightarrow> statement \<Rightarrow> string" where
  "statement_text gmtime StrError_tl x =
     stream_text 4000
       (line_items gmtime StrError_tl (ls_time x) (ls_errno x) (ls_file x) (ls_line x) (ls_kind x) (ls_items x))"

definition statement_ok :: "(int \<Rightarrow> tm) \<Rightarrow> (int \<Rightarrow> string) \<Rightarrow> statement \<Rightarrow> bool" where
  "statement_ok gmtime StrError_tl x \<longleftrightarrow>
     tm_ok (gmtime (ls_time x div 1000000)) \<and> 1000000 \<le> ls_time x \<and> length (ls_memory x) = SAMLL_BUFFER \<and>
     (\<forall>it \<in> set (ls_items x). item_ok it) \<and> length (ls_file x) < 2 ^ 31 \<and>
     length (StrError_tl (sint (ls_errno x))) < 2 ^ 31 \<and>
     (\<forall>l f. ls_kind x = InFunction l f \<longrightarrow> length f < 2 ^ 31) \<and> kind_level (ls_kind x) \<noteq> FATAL"

lemma stream_text_length:
  assumes "fb_ok b" and "\<forall>it \<in> set its. item_ok it"
  shows "int (length (stream_text (FixedBuffer_GetAvail b) its)) \<le> FixedBuffer_GetAvail b"
  using assms
proof (induction its arbitrary: b)
  case Nil
  then show ?case by (simp add: fb_ok_def FixedBuffer_GetAvail_def)
next
  case (Cons it its)
  obtain b1 where "put_result it b b1" using LogStream_put_ok [OF Cons.prems(1), of it] Cons.prems(2) by auto
  then show ?case
    using Cons.IH [of b] Cons.IH [of b1] Cons.prems by (auto simp: put_result_def split: if_splits)
qed

text \<open>A statement's line is not empty, as it begins with the time, and fits a stream's buffer.\<close>

lemma statement_text_size:
  assumes "statement_ok gmtime StrError_tl x"
  shows "length (statement_text gmtime StrError_tl x) \<le> 4000" and "statement_text gmtime StrError_tl x \<noteq> []"
proof -
  let ?its = "line_items gmtime StrError_tl (ls_time x) (ls_errno x) (ls_file x) (ls_line x) (ls_kind x) (ls_items x)"
  have "\<forall>it \<in> set ?its. item_ok it"
    by (rule line_items_ok [where StrError_tl = StrError_tl and errno = "ls_errno x"])
      (use assms in \<open>simp_all add: statement_ok_def\<close>)
  from stream_text_length [OF fb_new(1) this, of "ls_memory x"] assms
  show "length (statement_text gmtime StrError_tl x) \<le> 4000"
    by (simp add: statement_ok_def statement_text_def SAMLL_BUFFER_def)
  have "length (format_tm (gmtime (ls_time x div 1000000))) = 17"
    using assms by (intro length_format_tm) (simp add: statement_ok_def)
  then show "statement_text gmtime StrError_tl x \<noteq> []"
    by (auto simp: statement_text_def line_items_def time_items_def)
qed

lemma concat_map_concat: "concat (map concat gs) = concat (concat gs)"
  by (induction gs) simp_all

section \<open>Programs that log\<close>

record 'w pipeline =
  lp_log :: "'w logging"
  lp_cache :: "nat \<Rightarrow> string \<times> int"
  lp_lines :: "string list"   \<comment> \<open>the lines of the statements executed\<close>

definition thread_log :: "nat \<Rightarrow> 'w pipeline \<Rightarrow> 'w logging" where
  "thread_log tid p = (lp_log p)\<lparr>t_time := fst (lp_cache p tid), t_lastSecond := snd (lp_cache p tid)\<rparr>"

definition execute :: "(int \<Rightarrow> tm) \<Rightarrow> (int \<Rightarrow> string) \<Rightarrow> statement \<Rightarrow> 'w pipeline \<Rightarrow> 'w pipeline res" where
  "execute gmtime StrError_tl x p =
     rbind (log_statement gmtime StrError_tl (ls_memory x) (TimeStamp (ls_time x)) (ls_errno x) (ls_file x)
              (ls_line x) (ls_kind x) (ls_items x) (thread_log (ls_tid x) p)) (\<lambda>(g, goes_on).
     Inr (p\<lparr>lp_log := g, lp_cache := (lp_cache p)(ls_tid x := (t_time g, t_lastSecond g)),
            lp_lines := lp_lines p @
              (if log_guard (ls_kind x) (thread_log (ls_tid x) p) then [statement_text gmtime StrError_tl x] else [])\<rparr>))"

text \<open>
  The moves of a program: a statement, which waits as long as the output function would block, a
  change of the level, and what the log does beside it (\<open>control\<close>).
\<close>

inductive pipe_step ::
    "(int \<Rightarrow> tm) \<Rightarrow> (int \<Rightarrow> string) \<Rightarrow> ('w \<Rightarrow> bool) \<Rightarrow> ('w \<Rightarrow> 'w \<Rightarrow> bool) \<Rightarrow> 'w pipeline \<Rightarrow> 'w pipeline \<Rightarrow> bool"
  for gmtime :: "int \<Rightarrow> tm" and StrError_tl :: "int \<Rightarrow> string" and blocked :: "'w \<Rightarrow> bool"
    and control :: "'w \<Rightarrow> 'w \<Rightarrow> bool" where
  pipe_says: "statement_ok gmtime StrError_tl x \<Longrightarrow> execute gmtime StrError_tl x p = Inr q \<Longrightarrow>
    \<not> blocked (g_World (lp_log q)) \<Longrightarrow> pipe_step gmtime StrError_tl blocked control p q"
| pipe_level: "pipe_step gmtime StrError_tl blocked control p (p\<lparr>lp_log := Logger_SetLogLevel l (lp_log p)\<rparr>)"
| pipe_moves: "control (g_World (lp_log p)) w \<Longrightarrow>
    pipe_step gmtime StrError_tl blocked control p (p\<lparr>lp_log := (lp_log p)\<lparr>g_World := w\<rparr>\<rparr>)"

definition pipe_start :: "(string \<Rightarrow> 'w \<Rightarrow> 'w) \<Rightarrow> 'w \<Rightarrow> 'w pipeline \<Rightarrow> bool" where
  "pipe_start emit w p \<longleftrightarrow>
     (\<exists>tr out fl. p = \<lparr>lp_log = Logger_SetOutputFunc emit (logging_new tr out fl w),
        lp_cache = (\<lambda>_. ([], 0)), lp_lines = []\<rparr>)"

section \<open>What the log promises\<close>

definition pipe_inv ::
    "(int \<Rightarrow> tm) \<Rightarrow> (string \<Rightarrow> 'w \<Rightarrow> 'w) \<Rightarrow> ('w \<Rightarrow> bool) \<Rightarrow> ('w \<Rightarrow> string list) \<Rightarrow> 'w pipeline \<Rightarrow> bool" where
  "pipe_inv gmtime emit good lines p \<longleftrightarrow>
     good (g_World (lp_log p)) \<and> lines (g_World (lp_log p)) = lp_lines p \<and>
     g_OutputFunc (lp_log p) = emit \<and> (\<forall>tid. cache_ok gmtime (thread_log tid p))"

locale async_log =
  fixes emit :: "string \<Rightarrow> 'w \<Rightarrow> 'w" and start :: 'w and control :: "'w \<Rightarrow> 'w \<Rightarrow> bool"
    and blocked good :: "'w \<Rightarrow> bool" and lines :: "'w \<Rightarrow> string list"
  assumes starts_good: "good start \<and> lines start = []"
    and output_adds: "good w \<Longrightarrow> line \<noteq> [] \<Longrightarrow> length line \<le> 4000 \<Longrightarrow> \<not> blocked (emit line w) \<Longrightarrow>
      good (emit line w) \<and> lines (emit line w) = lines w @ [line]"
    and good_goes_on: "good w \<Longrightarrow> \<not> blocked w"
    and control_keeps: "good w \<Longrightarrow> control w w' \<Longrightarrow> good w' \<and> lines w' = lines w"
begin

text \<open>A statement returns; when it is enabled its line has been handed to the output function.\<close>

lemma execute_returns:
  assumes inv: "pipe_inv gmtime emit good lines p" and ok: "statement_ok gmtime StrError_tl x"
  shows "\<exists>q. execute gmtime StrError_tl x p = Inr q \<and>
    g_World (lp_log q) =
      (if log_guard (ls_kind x) (thread_log (ls_tid x) p)
       then emit (statement_text gmtime StrError_tl x) (g_World (lp_log p)) else g_World (lp_log p)) \<and>
    (\<not> blocked (g_World (lp_log q)) \<longrightarrow> pipe_inv gmtime emit good lines q)"
proof -
  let ?g = "thread_log (ls_tid x) p" and ?text = "statement_text gmtime StrError_tl x"
  have good: "good (g_World (lp_log p))" "lines (g_World (lp_log p)) = lp_lines p"
    and out: "g_OutputFunc (lp_log p) = emit" and caches: "\<And>tid. cache_ok gmtime (thread_log tid p)"
    using inv by (auto simp: pipe_inv_def)
  show ?thesis
  proof (cases "log_guard (ls_kind x) ?g")
    case False
    then have "execute gmtime StrError_tl x p = Inr (p\<lparr>lp_log := ?g\<rparr>)"
      by (simp add: execute_def log_statement_def thread_log_def)
    then show ?thesis
      using good out caches False by (auto simp: pipe_inv_def thread_log_def)
  next
    case True
    obtain g1 where g1: "log_statement gmtime StrError_tl (ls_memory x) (TimeStamp (ls_time x)) (ls_errno x)
          (ls_file x) (ls_line x) (ls_kind x) (ls_items x) ?g = Inr (g1, True)"
        "cache_ok gmtime g1" "g_OutputFunc g1 = emit"
        "g_World g1 = emit ?text (g_World (lp_log p))"
      using log_statement_gives [OF caches _ _ True, of "ls_time x" "ls_memory x" "ls_items x" "ls_file x"
          StrError_tl "ls_errno x" "ls_line x"] ok out
      by (auto simp: statement_ok_def statement_text_def thread_log_def)
    let ?q = "p\<lparr>lp_log := g1, lp_cache := (lp_cache p)(ls_tid x := (t_time g1, t_lastSecond g1)),
      lp_lines := lp_lines p @ [?text]\<rparr>"
    have q: "execute gmtime StrError_tl x p = Inr ?q" using g1(1) True by (simp add: execute_def)
    have "\<not> blocked (g_World g1) \<Longrightarrow> pipe_inv gmtime emit good lines ?q"
      using output_adds [OF good(1) statement_text_size(2,1) [OF ok]] g1 caches good(2)
      by (auto simp: pipe_inv_def thread_log_def cache_ok_def)
    with q g1(4) True show ?thesis by auto
  qed
qed

lemma pipe_step_inv:
  assumes "pipe_step gmtime StrError_tl blocked control p q" and inv: "pipe_inv gmtime emit good lines p"
  shows "pipe_inv gmtime emit good lines q"
  using assms(1)
proof cases
  case (pipe_says x)
  then show ?thesis using execute_returns [OF inv] by (metis Inr_inject)
next
  case (pipe_level l)
  then show ?thesis using inv by (simp add: pipe_inv_def thread_log_def Logger_SetLogLevel_def cache_ok_def)
next
  case (pipe_moves w)
  with control_keeps [of "g_World (lp_log p)" w] inv show ?thesis
    by (simp add: pipe_inv_def thread_log_def cache_ok_def)
qed

lemma pipe_start_inv: "pipe_start emit start p \<Longrightarrow> pipe_inv gmtime emit good lines p"
  using starts_good
  by (auto simp: pipe_start_def pipe_inv_def Logger_SetOutputFunc_def logging_new_def thread_log_def cache_ok_def)

lemma pipe_reach_inv:
  assumes "reach (pipe_start emit start) (pipe_step gmtime StrError_tl blocked control) p"
  shows "pipe_inv gmtime emit good lines p"
  using assms by (induction rule: reach.induct) (auto intro: pipe_start_inv pipe_step_inv)

text \<open>So the log has, in order, the lines of the statements executed, and no statement fails.\<close>

lemma pipe_lines:
  assumes "reach (pipe_start emit start) (pipe_step gmtime StrError_tl blocked control) p"
  shows "good (g_World (lp_log p))" and "lines (g_World (lp_log p)) = lp_lines p"
    and "statement_ok gmtime StrError_tl x \<Longrightarrow> returns (execute gmtime StrError_tl x p)"
  using pipe_reach_inv [OF assms] execute_returns [of gmtime p StrError_tl x]
  by (auto simp: pipe_inv_def returns_iff)

end

section \<open>A statement for the witnesses\<close>

definition demo_statement :: statement where
  "demo_statement =
     \<lparr>ls_tid = 1, ls_memory = replicate 4000 CHR 0x00, ls_time = 1577966400000007, ls_errno = 0,
      ls_file = ''x.cpp'', ls_line = 31, ls_kind = AtLevel WARNING, ls_items = [LCString ''low'']\<rparr>"

definition demo_pipeline :: "(string \<Rightarrow> 'w \<Rightarrow> 'w) \<Rightarrow> 'w \<Rightarrow> 'w pipeline" where
  "demo_pipeline emit w =
     \<lparr>lp_log = Logger_SetOutputFunc emit (logging_new False (\<lambda>_ w. w) (\<lambda>w. w) w),
      lp_cache = (\<lambda>_. ([], 0)), lp_lines = []\<rparr>"

lemma demo_statement_ok: "statement_ok demo_gmtime (\<lambda>_. []) demo_statement"
  by (simp add: statement_ok_def demo_statement_def tm_ok_def demo_gmtime_def SAMLL_BUFFER_def kind_level_def)

lemma demo_pipeline_start: "pipe_start emit w (demo_pipeline emit w)"
  unfolding pipe_start_def demo_pipeline_def by blast

lemma demo_guard: "log_guard (ls_kind demo_statement) (thread_log tid (demo_pipeline emit w))"
  by (simp add: log_guard_def demo_statement_def thread_log_def demo_pipeline_def Logger_SetOutputFunc_def
      logging_new_def)

lemma demo_world: "g_World (lp_log (demo_pipeline emit w)) = w"
  by (simp add: demo_pipeline_def Logger_SetOutputFunc_def logging_new_def)

context async_log
begin

lemma demo_executes:
  assumes "\<not> blocked (emit (statement_text demo_gmtime (\<lambda>_. []) demo_statement) start)"
  obtains p where "execute demo_gmtime (\<lambda>_. []) demo_statement (demo_pipeline emit start) = Inr p"
    and "g_World (lp_log p) = emit (statement_text demo_gmtime (\<lambda>_. []) demo_statement) start"
    and "reach (pipe_start emit start) (pipe_step demo_gmtime (\<lambda>_. []) blocked control) p"
proof -
  let ?p = "demo_pipeline emit start"
  obtain p where p: "execute demo_gmtime (\<lambda>_. []) demo_statement ?p = Inr p"
      "g_World (lp_log p) = emit (statement_text demo_gmtime (\<lambda>_. []) demo_statement) start"
    using execute_returns [OF pipe_start_inv [OF demo_pipeline_start] demo_statement_ok]
    by (auto simp: demo_guard demo_world)
  moreover have "pipe_step demo_gmtime (\<lambda>_. []) blocked control ?p p"
    by (rule pipe_says [OF demo_statement_ok p(1)]) (use assms p(2) in simp)
  then have "reach (pipe_start emit start) (pipe_step demo_gmtime (\<lambda>_. []) blocked control) p"
    by (blast intro: reach_once demo_pipeline_start)
  ultimately show thesis by (rule that)
qed

end

end
