(* ===== verification/DoubleBuffering.thy ===== *)
theory DoubleBuffering
  imports LogStreams
begin

text \<open>
  \<open>logging/AsyncLoggingDoubleBuffering.h\<close> and \<open>.cpp\<close>: callers append lines to the current
  buffer under the mutex; the logging thread takes the filled buffers away and writes them
  without it. A stretch under the mutex is one step, as is what the thread does with the buffers
  it has taken, which no one else touches. \<open>d_Output\<close> is what has been handed to
  \<open>LogFile::Append\<close>, in order.
\<close>

datatype log_thread_pc =
    NotStarted
  | AtHead        \<comment> \<open>at \<open>while (m_bRunning)\<close>\<close>
  | BeforeLock    \<comment> \<open>past the loop's assertions, about to lock\<close>
  | InTimedWait   \<comment> \<open>in \<open>m_Cond.WaitForSeconds\<close>\<close>
  | Writing       \<comment> \<open>with the buffers to write\<close>
  | Finished

record double_buffering =
  m_bRunning :: bool
  m_pCurBuffer :: "fixed_buffer option"
  m_pNextBuffer :: "fixed_buffer option"
  m_Buffers :: "fixed_buffer list"
  d_newBuffer1 :: "fixed_buffer option"
  d_newBuffer2 :: "fixed_buffer option"
  d_buffersToWrite :: "fixed_buffer list"
  d_pc :: log_thread_pc
  d_Output :: "string list"
  g_Lines :: "string list"   \<comment> \<open>the lines appended that are shorter than a buffer\<close>
  g_Dropped :: bool          \<comment> \<open>whether buffers have been thrown away\<close>

definition new_Buffer :: fixed_buffer where
  "new_Buffer = FixedBuffer_BZero (FixedBuffer_new (replicate LARGE_BUFFER CHR 0x00))"

definition DB_new :: double_buffering where
  "DB_new =
     \<lparr>m_bRunning = False, m_pCurBuffer = Some new_Buffer, m_pNextBuffer = Some new_Buffer,
      m_Buffers = [], d_newBuffer1 = None, d_newBuffer2 = None, d_buffersToWrite = [],
      d_pc = NotStarted, d_Output = [], g_Lines = [], g_Dropped = False\<rparr>"

text \<open>\<open>m_pCurBuffer->Append\<close>: the same bytes as \<open>FixedBuffer::Append\<close>, of a pointer that may be null.\<close>

definition cur_append :: "string \<Rightarrow> double_buffering \<Rightarrow> double_buffering res" where
  "cur_append line s =
     (case m_pCurBuffer s of
        None \<Rightarrow> Inl BadPointer
      | Some b \<Rightarrow> rbind (FixedBuffer_Append line (int (length line)) b) (\<lambda>b1. Inr (s\<lparr>m_pCurBuffer := Some b1\<rparr>)))"

definition note_line :: "string \<Rightarrow> double_buffering \<Rightarrow> double_buffering" where
  "note_line line s = (if length line < LARGE_BUFFER then s\<lparr>g_Lines := g_Lines s @ [line]\<rparr> else s)"

definition DB_Append :: "string \<Rightarrow> double_buffering \<Rightarrow> double_buffering res" where
  "DB_Append pStrLogLine s =
     (case m_pCurBuffer s of
        None \<Rightarrow> Inl BadPointer
      | Some b \<Rightarrow>
          if FixedBuffer_GetAvail b > int (length pStrLogLine) then cur_append pStrLogLine s
          else (let s1 = s\<lparr>m_pCurBuffer := None, m_Buffers := m_Buffers s @ [b]\<rparr>;
                    s2 = (if m_pNextBuffer s1 \<noteq> None
                          then s1\<lparr>m_pCurBuffer := m_pNextBuffer s1, m_pNextBuffer := None\<rparr>
                          else s1\<lparr>m_pCurBuffer := Some (FixedBuffer_new (replicate LARGE_BUFFER CHR 0x00))\<rparr>)
                in cur_append pStrLogLine s2))"

definition DB_Start :: "double_buffering \<Rightarrow> double_buffering" where
  "DB_Start s = s\<lparr>m_bRunning := True\<rparr>"

definition DB_Stop :: "double_buffering \<Rightarrow> double_buffering" where
  "DB_Stop s = s\<lparr>m_bRunning := False\<rparr>"

section \<open>The thread\<close>

definition is_fresh :: "fixed_buffer option \<Rightarrow> bool" where
  "is_fresh p \<longleftrightarrow> (case p of None \<Rightarrow> False | Some b \<Rightarrow> 0 = FixedBuffer_GetLength b)"

definition thread_begin :: "double_buffering \<Rightarrow> double_buffering res" where
  "thread_begin s =
     check (m_bRunning s)
       (Inr (s\<lparr>d_newBuffer1 := Some new_Buffer, d_newBuffer2 := Some new_Buffer, d_pc := AtHead\<rparr>))"

definition loop_head :: "double_buffering \<Rightarrow> double_buffering res" where
  "loop_head s =
     (if m_bRunning s
      then check (is_fresh (d_newBuffer1 s)) (check (is_fresh (d_newBuffer2 s))
             (check (d_buffersToWrite s = []) (Inr (s\<lparr>d_pc := BeforeLock\<rparr>))))
      else Inr (s\<lparr>d_pc := Finished\<rparr>))"

text \<open>Under the mutex, after the wait if there was one.\<close>

definition collect :: "double_buffering \<Rightarrow> double_buffering res" where
  "collect s =
     (case m_pCurBuffer s of
        None \<Rightarrow> Inl BadPointer
      | Some b \<Rightarrow>
          (let s1 = s\<lparr>m_pCurBuffer := d_newBuffer1 s, m_Buffers := [], d_newBuffer1 := None,
                      d_buffersToWrite := m_Buffers s @ [b]\<rparr>;
               s2 = (if m_pNextBuffer s1 = None
                     then s1\<lparr>m_pNextBuffer := d_newBuffer2 s1, d_newBuffer2 := None\<rparr> else s1)
           in check (d_buffersToWrite s2 \<noteq> []) (Inr (s2\<lparr>d_pc := Writing\<rparr>))))"

definition lock_and_collect :: "double_buffering \<Rightarrow> double_buffering res" where
  "lock_and_collect s = (if m_Buffers s \<noteq> [] then Inr (s\<lparr>d_pc := InTimedWait\<rparr>) else collect s)"

definition dropMsg :: string where
  "dropMsg = ''Dropped log messages'' @ [CHR 0x0A]"

definition drop_excess :: "double_buffering \<Rightarrow> double_buffering" where
  "drop_excess s =
     (if length (d_buffersToWrite s) > 25
      then s\<lparr>d_buffersToWrite := drop (length (d_buffersToWrite s) - 2) (d_buffersToWrite s),
             d_Output := d_Output s @ [dropMsg], g_Dropped := True\<rparr>
      else s)"

definition write_out :: "double_buffering \<Rightarrow> double_buffering" where
  "write_out s = s\<lparr>d_Output := d_Output s @ map fb_text (d_buffersToWrite s)\<rparr>"

definition refill1 :: "double_buffering \<Rightarrow> double_buffering res" where
  "refill1 s =
     (if d_newBuffer1 s = None
      then check (d_buffersToWrite s \<noteq> [])
             (Inr (s\<lparr>d_newBuffer1 := Some (FixedBuffer_Reset (last (d_buffersToWrite s))),
                     d_buffersToWrite := butlast (d_buffersToWrite s)\<rparr>))
      else Inr s)"

definition refill2 :: "double_buffering \<Rightarrow> double_buffering res" where
  "refill2 s =
     (if d_newBuffer2 s = None
      then check (d_buffersToWrite s \<noteq> [])
             (Inr (s\<lparr>d_newBuffer2 := Some (FixedBuffer_Reset (last (d_buffersToWrite s))),
                     d_buffersToWrite := butlast (d_buffersToWrite s)\<rparr>))
      else Inr s)"

definition write_buffers :: "double_buffering \<Rightarrow> double_buffering res" where
  "write_buffers s =
     (let s1 = write_out (drop_excess s);
          s2 = (if length (d_buffersToWrite s1) > 2
                then s1\<lparr>d_buffersToWrite := take 2 (d_buffersToWrite s1)\<rparr> else s1)
      in rbind (refill1 s2) (\<lambda>s3.
         rbind (refill2 s3) (\<lambda>s4. Inr (s4\<lparr>d_buffersToWrite := [], d_pc := AtHead\<rparr>))))"

text \<open>One step of \<open>threadFunc\<close>; a timed wait may end at any time.\<close>

fun DB_threadFunc :: "log_thread_pc \<Rightarrow> double_buffering \<Rightarrow> double_buffering res option" where
  "DB_threadFunc NotStarted s = (if m_bRunning s then Some (thread_begin s) else None)"
| "DB_threadFunc AtHead s = Some (loop_head s)"
| "DB_threadFunc BeforeLock s = Some (lock_and_collect s)"
| "DB_threadFunc InTimedWait s = Some (collect s)"
| "DB_threadFunc Writing s = Some (write_buffers s)"
| "DB_threadFunc Finished s = None"

inductive db_move :: "double_buffering \<Rightarrow> double_buffering res \<Rightarrow> bool" where
  db_append: "db_move s (rbind (DB_Append line s) (\<lambda>t. Inr (note_line line t)))"
| db_start: "d_pc s = NotStarted \<Longrightarrow> \<not> m_bRunning s \<Longrightarrow> db_move s (Inr (DB_Start s))"
| db_stop: "d_pc s \<noteq> NotStarted \<Longrightarrow> db_move s (Inr (DB_Stop s))"
| db_thread: "DB_threadFunc (d_pc s) s = Some r \<Longrightarrow> db_move s r"

definition db_step :: "double_buffering \<Rightarrow> double_buffering \<Rightarrow> bool" where
  "db_step s t \<longleftrightarrow> db_move s (Inr t)"

section \<open>Invariant\<close>

definition buf_ok :: "fixed_buffer \<Rightarrow> bool" where
  "buf_ok b \<longleftrightarrow> fb_ok b \<and> length (m_Data b) = LARGE_BUFFER"

definition empty_buf :: "fixed_buffer option \<Rightarrow> bool" where
  "empty_buf p \<longleftrightarrow> (\<exists>b. p = Some b \<and> buf_ok b \<and> m_pCur b = 0)"

definition texts :: "fixed_buffer list \<Rightarrow> string" where
  "texts bs = concat (map fb_text bs)"

definition db_inv :: "double_buffering \<Rightarrow> bool" where
  "db_inv s \<longleftrightarrow>
     (\<exists>b. m_pCurBuffer s = Some b \<and> buf_ok b \<and>
        (\<not> g_Dropped s \<longrightarrow>
           concat (d_Output s) @ texts (d_buffersToWrite s) @ texts (m_Buffers s) @ fb_text b =
           concat (g_Lines s))) \<and>
     (m_pNextBuffer s = None \<longrightarrow> m_Buffers s \<noteq> []) \<and>
     (m_pNextBuffer s \<noteq> None \<longrightarrow> empty_buf (m_pNextBuffer s)) \<and>
     (\<forall>b \<in> set (m_Buffers s @ d_buffersToWrite s). buf_ok b) \<and>
     (case d_pc s of
        NotStarted \<Rightarrow> d_buffersToWrite s = []
      | Writing \<Rightarrow> d_buffersToWrite s \<noteq> [] \<and> d_newBuffer1 s = None \<and>
          (d_newBuffer2 s = None \<longrightarrow> 2 \<le> length (d_buffersToWrite s)) \<and>
          (d_newBuffer2 s \<noteq> None \<longrightarrow> empty_buf (d_newBuffer2 s))
      | _ \<Rightarrow> d_buffersToWrite s = [] \<and> empty_buf (d_newBuffer1 s) \<and> empty_buf (d_newBuffer2 s))"

lemma buf_ok_new [simp]: "buf_ok (FixedBuffer_new (replicate LARGE_BUFFER c))" "buf_ok new_Buffer"
  "fb_text new_Buffer = []" "empty_buf (Some new_Buffer)"
  by (simp_all add: buf_ok_def fb_ok_def empty_buf_def new_Buffer_def FixedBuffer_BZero_def FixedBuffer_new_def
        fb_text_def)

lemma empty_buf_text: "empty_buf (Some b) \<Longrightarrow> fb_text b = []"
  by (simp add: empty_buf_def fb_text_def)

lemma reset_empty [simp]: "buf_ok b \<Longrightarrow> empty_buf (Some (FixedBuffer_Reset b))"
  by (simp add: empty_buf_def buf_ok_def FixedBuffer_Reset_def fb_ok_def)

lemma is_fresh_empty: "empty_buf p \<Longrightarrow> is_fresh p"
  by (auto simp: empty_buf_def is_fresh_def FixedBuffer_GetLength_def)

lemma write_at_length: "write_at s b = Inr b1 \<Longrightarrow> length (m_Data b1) = length (m_Data b)"
  by (auto simp: write_at_def rbind_Inr dest: mem_write_length)

lemma Append_buf:
  assumes "buf_ok b"
  shows "\<exists>b1. FixedBuffer_Append line (int (length line)) b = Inr b1 \<and> buf_ok b1 \<and>
    (if FixedBuffer_GetAvail b > int (length line) then fb_text b1 = fb_text b @ line else b1 = b)"
proof -
  have "fb_ok b" using assms by (simp add: buf_ok_def)
  from Append_text [OF this refl, of line] obtain b1 where b1:
    "FixedBuffer_Append line (int (length line)) b = Inr b1" "fb_ok b1"
    "if int (length line) + 1 \<le> FixedBuffer_GetAvail b then fb_text b1 = fb_text b @ line else b1 = b"
    by (auto split: if_splits)
  have "length (m_Data b1) = length (m_Data b)"
    using b1(1) by (auto simp: FixedBuffer_Append_def rbind_Inr split: if_splits dest: write_at_length)
  with b1 assms show ?thesis by (auto simp: buf_ok_def split: if_splits)
qed

lemma avail_empty: "buf_ok b \<Longrightarrow> m_pCur b = 0 \<Longrightarrow> FixedBuffer_GetAvail b = int LARGE_BUFFER"
  by (simp add: buf_ok_def FixedBuffer_GetAvail_def)

text \<open>The parts of the invariant.\<close>

definition pc_inv :: "double_buffering \<Rightarrow> bool" where
  "pc_inv s \<longleftrightarrow>
     (case d_pc s of
        NotStarted \<Rightarrow> d_buffersToWrite s = []
      | Writing \<Rightarrow> d_buffersToWrite s \<noteq> [] \<and> d_newBuffer1 s = None \<and>
          (d_newBuffer2 s = None \<longrightarrow> 2 \<le> length (d_buffersToWrite s)) \<and>
          (d_newBuffer2 s \<noteq> None \<longrightarrow> empty_buf (d_newBuffer2 s))
      | _ \<Rightarrow> d_buffersToWrite s = [] \<and> empty_buf (d_newBuffer1 s) \<and> empty_buf (d_newBuffer2 s))"

definition pending :: "double_buffering \<Rightarrow> string" where
  "pending s = concat (d_Output s) @ texts (d_buffersToWrite s) @ texts (m_Buffers s) @
     (case m_pCurBuffer s of None \<Rightarrow> [] | Some b \<Rightarrow> fb_text b)"

lemma db_inv_parts:
  "db_inv s \<longleftrightarrow> (\<exists>b. m_pCurBuffer s = Some b \<and> buf_ok b) \<and>
     (\<not> g_Dropped s \<longrightarrow> pending s = concat (g_Lines s)) \<and>
     (m_pNextBuffer s = None \<longrightarrow> m_Buffers s \<noteq> []) \<and>
     (m_pNextBuffer s \<noteq> None \<longrightarrow> empty_buf (m_pNextBuffer s)) \<and>
     (\<forall>b \<in> set (m_Buffers s @ d_buffersToWrite s). buf_ok b) \<and> pc_inv s"
  by (auto simp: db_inv_def pc_inv_def pending_def)

lemma texts_simps [simp]:
  "texts [] = []" "texts (b # bs) = fb_text b @ texts bs" "texts (bs @ cs) = texts bs @ texts cs"
  by (simp_all add: texts_def)

lemma cur_append_ok:
  assumes "m_pCurBuffer s = Some b" and "buf_ok b"
  shows "\<exists>b1. cur_append line s = Inr (s\<lparr>m_pCurBuffer := Some b1\<rparr>) \<and> buf_ok b1 \<and>
    (if FixedBuffer_GetAvail b > int (length line) then fb_text b1 = fb_text b @ line else b1 = b)"
  using Append_buf [OF assms(2), of line] assms(1) by (auto simp: cur_append_def)

lemma avail_le: "FixedBuffer_GetAvail b > int (length line) \<Longrightarrow> buf_ok b \<Longrightarrow> length line < LARGE_BUFFER"
  by (simp add: FixedBuffer_GetAvail_def buf_ok_def)

lemma DB_Append_inv:
  assumes inv: "db_inv s"
  shows "\<exists>t. DB_Append line s = Inr t \<and> db_inv (note_line line t)"
proof -
  obtain b where b: "m_pCurBuffer s = Some b" "buf_ok b" using inv by (auto simp: db_inv_parts)
  show ?thesis
  proof (cases "FixedBuffer_GetAvail b > int (length line)")
    case True
    obtain b1 where b1: "cur_append line s = Inr (s\<lparr>m_pCurBuffer := Some b1\<rparr>)" "buf_ok b1"
      "fb_text b1 = fb_text b @ line" using cur_append_ok [OF b, of line] True by auto
    with True b inv avail_le [OF True b(2)] show ?thesis
      by (auto simp: DB_Append_def note_line_def db_inv_parts pc_inv_def pending_def
            split: log_thread_pc.splits)
  next
    case False
    define n where "n = (case m_pNextBuffer s of Some n \<Rightarrow> n | None \<Rightarrow> FixedBuffer_new (replicate LARGE_BUFFER CHR 0x00))"
    let ?s = "s\<lparr>m_pCurBuffer := Some n, m_pNextBuffer := None, m_Buffers := m_Buffers s @ [b]\<rparr>"
    have n: "buf_ok n" "fb_text n = []" "FixedBuffer_GetAvail n = int LARGE_BUFFER"
    proof (atomize (full), cases "m_pNextBuffer s")
      case None
      then show "buf_ok n \<and> fb_text n = [] \<and> FixedBuffer_GetAvail n = int LARGE_BUFFER"
        by (simp add: n_def)
    next
      case (Some m)
      then have "empty_buf (Some n)" using inv by (auto simp: n_def db_inv_parts)
      then show "buf_ok n \<and> fb_text n = [] \<and> FixedBuffer_GetAvail n = int LARGE_BUFFER"
        by (auto simp: empty_buf_def avail_empty fb_text_def)
    qed
    have "DB_Append line s = cur_append line ?s"
      using False b
      by (auto simp: DB_Append_def Let_def n_def intro!: arg_cong [where f = "cur_append line"]
            split: option.splits)
    moreover obtain b1 where "cur_append line ?s = Inr (?s\<lparr>m_pCurBuffer := Some b1\<rparr>)" "buf_ok b1"
      "if length line < LARGE_BUFFER then fb_text b1 = line else b1 = n"
      using cur_append_ok [of ?s n line] n by auto
    ultimately show ?thesis
      using False b n inv
      by (auto simp: note_line_def db_inv_parts pc_inv_def pending_def split: log_thread_pc.splits if_splits)
  qed
qed

lemma collect_inv:
  assumes inv: "db_inv s" and pc: "d_pc s = BeforeLock \<or> d_pc s = InTimedWait"
  shows "\<exists>t. collect s = Inr t \<and> db_inv t"
proof -
  obtain b where b: "m_pCurBuffer s = Some b" "buf_ok b" using inv by (auto simp: db_inv_parts)
  have w: "d_buffersToWrite s = []" "empty_buf (d_newBuffer1 s)" "empty_buf (d_newBuffer2 s)"
    using inv pc by (auto simp: db_inv_parts pc_inv_def)
  obtain n1 n2 where n: "d_newBuffer1 s = Some n1" "d_newBuffer2 s = Some n2" "buf_ok n1" "fb_text n1 = []"
    using w empty_buf_text by (auto simp: empty_buf_def fb_text_def)
  show ?thesis
    using inv b w n
    by (auto simp: collect_def Let_def db_inv_parts pc_inv_def pending_def empty_buf_def Suc_le_eq
          split: option.splits)
qed

lemma write_buffers_inv:
  assumes inv: "db_inv s" and pc: "d_pc s = Writing"
  shows "\<exists>t. write_buffers s = Inr t \<and> db_inv t"
proof -
  define u where "u = d_buffersToWrite (drop_excess s)"
  define v where "v = (if length u > 2 then take 2 u else u)"
  have w: "d_buffersToWrite s \<noteq> []" "d_newBuffer1 s = None"
    "d_newBuffer2 s = None \<Longrightarrow> 2 \<le> length (d_buffersToWrite s)"
    "d_newBuffer2 s \<noteq> None \<Longrightarrow> empty_buf (d_newBuffer2 s)" "\<forall>b \<in> set (d_buffersToWrite s). buf_ok b"
    using inv pc by (auto simp: db_inv_parts pc_inv_def)
  have u: "u \<noteq> []" "d_newBuffer2 s = None \<Longrightarrow> 2 \<le> length u" "\<forall>b \<in> set u. buf_ok b"
    using w(1,3,5) by (auto simp: u_def drop_excess_def dest: in_set_dropD)
  then have v: "v \<noteq> []" "d_newBuffer2 s = None \<Longrightarrow> 2 \<le> length v" "\<forall>b \<in> set v. buf_ok b"
    by (auto simp: v_def dest: in_set_takeD)
  have l: "last v \<in> set v" "d_newBuffer2 s = None \<Longrightarrow> last (butlast v) \<in> set v \<and> butlast v \<noteq> []"
  proof -
    show "last v \<in> set v" using v(1) by (rule last_in_set)
    assume "d_newBuffer2 s = None"
    then have "butlast v \<noteq> []" using v(2) by (cases v rule: rev_cases) auto
    then show "last (butlast v) \<in> set v \<and> butlast v \<noteq> []"
      using in_set_butlastD last_in_set by metis
  qed
  let ?t = "\<lambda>n2. (write_out (drop_excess s))\<lparr>d_newBuffer1 := Some (FixedBuffer_Reset (last v)),
      d_newBuffer2 := n2, d_buffersToWrite := [], d_pc := AtHead\<rparr>"
  define n2 where "n2 = (if d_newBuffer2 s = None then Some (FixedBuffer_Reset (last (butlast v))) else d_newBuffer2 s)"
  let ?s1 = "write_out (drop_excess s)"
  let ?s2 = "if length (d_buffersToWrite ?s1) > 2
      then ?s1\<lparr>d_buffersToWrite := take 2 (d_buffersToWrite ?s1)\<rparr> else ?s1"
  have s2: "d_buffersToWrite ?s2 = v" "d_newBuffer1 ?s2 = None" "d_newBuffer2 ?s2 = d_newBuffer2 s"
    using w(2) by (simp_all add: v_def u_def write_out_def drop_excess_def)
  have r1: "refill1 ?s2 = Inr (?s2\<lparr>d_newBuffer1 := Some (FixedBuffer_Reset (last v)), d_buffersToWrite := butlast v\<rparr>)"
    unfolding refill1_def s2 using v(1) by simp
  have "write_buffers s = Inr (?t n2)"
    unfolding write_buffers_def Let_def r1 rbind.simps refill2_def n2_def
    using s2(3) l by (cases "d_newBuffer2 s") auto
  moreover have "empty_buf n2" using w(4) v l by (auto simp: n2_def)
  moreover have "empty_buf (Some (FixedBuffer_Reset (last v)))" using v l by simp
  moreover have "\<not> g_Dropped (drop_excess s) \<Longrightarrow> drop_excess s = s"
    by (simp add: drop_excess_def split: if_splits)
  ultimately show ?thesis
    using inv
    by (auto simp: db_inv_parts pc_inv_def pending_def write_out_def texts_def drop_excess_def)
qed

lemma db_inv_pc:
  assumes "db_inv s" and "d_pc s = AtHead \<or> d_pc s = BeforeLock"
    and "pc = BeforeLock \<or> pc = InTimedWait \<or> pc = Finished"
  shows "db_inv (s\<lparr>d_pc := pc\<rparr>)"
  using assms by (auto simp: db_inv_parts pc_inv_def pending_def)

lemma loop_head_inv:
  assumes "db_inv s" and "d_pc s = AtHead"
  shows "\<exists>t. loop_head s = Inr t \<and> db_inv t"
proof -
  have "is_fresh (d_newBuffer1 s)" "is_fresh (d_newBuffer2 s)" "d_buffersToWrite s = []"
    using assms by (simp_all add: db_inv_parts pc_inv_def is_fresh_empty)
  then show ?thesis using db_inv_pc [OF assms(1)] assms(2) by (simp add: loop_head_def)
qed

lemma db_move_inv:
  assumes "db_move s r" and inv: "db_inv s"
  shows "\<exists>t. r = Inr t \<and> db_inv t"
  using assms(1)
proof cases
  case (db_append line)
  with DB_Append_inv [OF inv, of line] show ?thesis by auto
next
  case db_start
  with inv show ?thesis by (auto simp: DB_Start_def db_inv_parts pc_inv_def pending_def)
next
  case db_stop
  with inv show ?thesis
    by (auto simp: DB_Stop_def db_inv_parts pc_inv_def pending_def split: log_thread_pc.splits)
next
  case db_thread
  show ?thesis
  proof (cases "d_pc s")
    case NotStarted
    with db_thread inv show ?thesis
      by (auto simp: thread_begin_def db_inv_parts pc_inv_def pending_def split: if_splits)
  next
    case AtHead
    with db_thread loop_head_inv [OF inv] show ?thesis by auto
  next
    case BeforeLock
    then have "db_inv (s\<lparr>d_pc := InTimedWait\<rparr>)" using db_inv_pc [OF inv] by blast
    with BeforeLock db_thread collect_inv [OF inv] show ?thesis
      by (cases "m_Buffers s = []") (auto simp: lock_and_collect_def)
  next
    case InTimedWait
    with db_thread collect_inv [OF inv] show ?thesis by auto
  next
    case Writing
    with db_thread write_buffers_inv [OF inv] show ?thesis by auto
  next
    case Finished
    with db_thread show ?thesis by simp
  qed
qed

interpretation double_buffers: invariant_system "\<lambda>s. s = DB_new" db_step db_inv
proof unfold_locales
  show "db_inv s" if "s = DB_new" for s
    using that by (auto simp: DB_new_def db_inv_parts pc_inv_def pending_def)
  show "db_inv t" if "db_step s t" "db_inv s" for s t
    using db_move_inv [OF _ that(2)] that(1) by (auto simp: db_step_def)
qed

section \<open>Properties\<close>


definition demo_started :: double_buffering where
  "demo_started = DB_new\<lparr>m_bRunning := True, d_newBuffer1 := Some new_Buffer,
     d_newBuffer2 := Some new_Buffer, d_pc := AtHead\<rparr>"

lemma demo_started_reach: "reach (\<lambda>s. s = DB_new) db_step demo_started"
proof -
  have "db_step DB_new (DB_Start DB_new)"
    unfolding db_step_def by (rule db_start) (simp_all add: DB_new_def)
  then have 1: "reach (\<lambda>s. s = DB_new) db_step (DB_Start DB_new)"
    by (rule reach_once [where s = DB_new, rotated]) simp
  have "DB_threadFunc (d_pc (DB_Start DB_new)) (DB_Start DB_new) = Some (Inr demo_started)"
    by (simp add: DB_Start_def DB_new_def thread_begin_def demo_started_def)
  then have "db_step (DB_Start DB_new) demo_started" by (simp add: db_step_def db_thread)
  with 1 show ?thesis by (rule reach_step)
qed


text \<open>
  \<open>Stop\<close> loses lines: a line appended when the logging thread is between two rounds, followed
  by \<open>Stop\<close>, leaves the thread finished with that line still in the current buffer, and nothing
  writes it any more.
\<close>

theorem Stop_loses_last_lines:
  assumes "reach (\<lambda>s. s = DB_new) db_step s" and "d_pc s = AtHead"
    and "DB_Append line s = Inr t" and "length line < LARGE_BUFFER"
  shows "\<exists>u. reach (\<lambda>s. s = DB_new) db_step u \<and> d_pc u = Finished \<and>
    DB_threadFunc (d_pc u) u = None \<and> g_Lines u = g_Lines s @ [line] \<and> d_Output u = d_Output s"
proof -
  have kept: "g_Lines t = g_Lines s" "d_Output t = d_Output s" "d_pc t = d_pc s"
    using assms(3)
    by (auto simp: DB_Append_def cur_append_def rbind_Inr Let_def split: option.splits if_splits)
  let ?t = "t\<lparr>g_Lines := g_Lines t @ [line]\<rparr>"
  let ?u = "(DB_Stop ?t)\<lparr>d_pc := Finished\<rparr>"
  have "db_move s (rbind (DB_Append line s) (\<lambda>t. Inr (note_line line t)))" by (rule db_append)
  then have "db_step s ?t" using assms(3,4) by (simp add: db_step_def note_line_def)
  moreover have "db_step ?t (DB_Stop ?t)"
    unfolding db_step_def by (rule db_stop) (simp add: kept assms(2))
  moreover have "DB_threadFunc (d_pc (DB_Stop ?t)) (DB_Stop ?t) = Some (Inr ?u)"
    by (simp add: DB_Stop_def kept assms(2) loop_head_def)
  then have "db_step (DB_Stop ?t) ?u" unfolding db_step_def by (rule db_thread)
  ultimately have "reach (\<lambda>s. s = DB_new) db_step ?u" using assms(1) by (blast intro: reach_step)
  then show ?thesis using kept by (intro exI [of _ ?u]) (simp add: DB_Stop_def)
qed

theorem Stop_loses_last_lines_witness:
  "\<exists>u :: double_buffering. d_pc u = Finished \<and> g_Lines u = [''hello''] \<and> concat (d_Output u) = []"
proof -
  obtain t where t: "DB_Append ''hello'' demo_started = Inr t"
    using DB_Append_inv [OF double_buffers.reach_keeps [OF demo_started_reach]] by blast
  have d: "d_pc demo_started = AtHead" "length ''hello'' < LARGE_BUFFER"
    by (simp_all add: demo_started_def LARGE_BUFFER_def)
  show ?thesis
    by (rule ex_forward [OF Stop_loses_last_lines [OF demo_started_reach d(1) t d(2)]])
       (simp add: demo_started_def DB_new_def)
qed

text \<open>
  The test before the wait is the wrong way round: with nothing to write, the thread does not
  wait but goes round at once, writing the current buffer, however empty, in every round.
\<close>

theorem idle_thread_never_waits:
  assumes "m_Buffers s = []" and "d_pc s = BeforeLock"
  shows "DB_threadFunc (d_pc s) s = Some (collect s)"
  using assms by (simp add: lock_and_collect_def)

end
