(* ===== verification/LogFiles.thy ===== *)
theory LogFiles
  imports TimeStamps Monitors
begin

text \<open>
  \<open>logging/LogFile.h\<close> and \<open>logging/LogFile.cpp\<close>: a log that starts a new file when the current
  one has grown past the roll size or a new day has begun. A file is its name and the text
  \<open>stdio\<close> has accepted for it. What \<open>fwrite_unlocked\<close> accepts of each call, whether \<open>fopen\<close>
  succeeds, the clock, \<open>gmtime_r\<close> and the process id are arguments.
\<close>

section \<open>One file\<close>

record log_output =
  f_Name :: string
  f_Text :: string
  m_unWrittenBytes :: nat
  f_Flushed :: nat

text \<open>A file that cannot be opened is a null \<open>FILE\<close>, which \<open>setbuffer\<close> uses.\<close>

definition File_new :: "bool \<Rightarrow> string \<Rightarrow> log_output res" where
  "File_new opens rStrFileName =
     (if opens then Inr \<lparr>f_Name = rStrFileName, f_Text = [], m_unWrittenBytes = 0, f_Flushed = 0\<rparr>
      else Inl BadPointer)"

text \<open>
  \<open>fwrite_unlocked\<close> accepts at most what it is given; \<open>answers\<close> are the counts of the calls to
  come, and it accepts everything when there are none left.
\<close>

definition File_write :: "nat list \<Rightarrow> nat \<Rightarrow> nat \<times> nat list" where
  "File_write answers unLength =
     (case answers of [] \<Rightarrow> (unLength, []) | a # as \<Rightarrow> (min a unLength, as))"

text \<open>The loop over the rest: it ends when nothing remains or a call accepts nothing.\<close>

function append_rest :: "nat list \<Rightarrow> string \<Rightarrow> string" where
  "append_rest answers rest =
     (if length rest > 0
      then (let (x, as) = File_write answers (length rest)
            in if 0 = x then [] else take x rest @ append_rest as (drop x rest))
      else [])"
  by pat_completeness auto
termination
  by (relation "measure (\<lambda>(as, rest). length rest)") auto

declare append_rest.simps [simp del]

definition File_Append :: "nat list \<Rightarrow> string \<Rightarrow> log_output \<Rightarrow> log_output" where
  "File_Append answers pLogLine f =
     (let (n, as) = File_write answers (length pLogLine)
      in f\<lparr>f_Text := f_Text f @ take n pLogLine @ append_rest as (drop n pLogLine),
           m_unWrittenBytes := m_unWrittenBytes f + length pLogLine\<rparr>)"

definition File_Flush :: "log_output \<Rightarrow> log_output" where
  "File_Flush f = f\<lparr>f_Flushed := length (f_Text f)\<rparr>"

definition File_GetWrittenBytes :: "log_output \<Rightarrow> nat" where
  "File_GetWrittenBytes f = m_unWrittenBytes f"

section \<open>The log\<close>

definition CHECK_TIME_ROLL :: int where
  "CHECK_TIME_ROLL = 1024"

definition ROLL_PER_SECONDS :: int where
  "ROLL_PER_SECONDS = 60 * 60 * 24"

record log_file =
  m_strBaseName :: string
  m_unRollSize :: "32 word"
  m_nFlushInterval :: int
  m_nCnt :: int
  m_pMutex :: "mutex option"
  m_tStartOfPeriod :: int
  m_tLastRoll :: int
  m_tLaseFlush :: int
  m_pFile :: "log_output option"
  w_Closed :: "log_output list"   \<comment> \<open>the files written and closed before the present one\<close>

text \<open>\<open>strftime\<close> of \<open>.%Y%m%d-%H%M%S\<close>.\<close>

definition time_suffix :: "tm \<Rightarrow> string" where
  "time_suffix t =
     ''.'' @ dec (tm_year t + 1900) @ fmt_zero 2 (tm_mon t + 1) @ fmt_zero 2 (tm_mday t) @ ''-'' @
     fmt_zero 2 (tm_hour t) @ fmt_zero 2 (tm_min t) @ fmt_zero 2 (tm_sec t)"

definition LogFile_getLogFileName :: "(int \<Rightarrow> tm) \<Rightarrow> int \<Rightarrow> int \<Rightarrow> string \<Rightarrow> string \<times> int" where
  "LogFile_getLogFileName gmtime pid tNow rStrBaseName =
     (rStrBaseName @ time_suffix (gmtime tNow) @ fst (snprintf 32 (''.'' @ dec pid)) @ ''.log'', tNow)"

definition period_start :: "int \<Rightarrow> int" where
  "period_start tNow = c_div tNow ROLL_PER_SECONDS * ROLL_PER_SECONDS"

record roll_env =
  e_gmtime :: "int \<Rightarrow> tm"
  e_pid :: int
  e_opens :: bool
  e_rollTime :: int   \<comment> \<open>\<open>time(NULL)\<close> in \<open>getLogFileName\<close>\<close>

definition LogFile_rollFile :: "roll_env \<Rightarrow> log_file \<Rightarrow> log_file res" where
  "LogFile_rollFile e s =
     (let (strFileName, tNow) = LogFile_getLogFileName (e_gmtime e) (e_pid e) (e_rollTime e) (m_strBaseName s);
          tStart = period_start tNow
      in if tNow > m_tLastRoll s
         then rbind (File_new (e_opens e) strFileName) (\<lambda>f.
              Inr (s\<lparr>m_tLastRoll := tNow, m_tLaseFlush := tNow, m_tStartOfPeriod := tStart,
                     m_pFile := Some f,
                     w_Closed := w_Closed s @ (case m_pFile s of None \<Rightarrow> [] | Some old \<Rightarrow> [old])\<rparr>))
         else Inr s)"

text \<open>
  The roll size is a \<open>size_t\<close> for the caller and kept in an \<open>unsigned int\<close>; the base name must
  not contain a slash.
\<close>

definition LogFile_new :: "roll_env \<Rightarrow> string \<Rightarrow> nat \<Rightarrow> bool \<Rightarrow> int \<Rightarrow> log_file res" where
  "LogFile_new e strBaseName unRollSize bThreadSafe nFlushInterval =
     check (CHR ''/'' \<notin> set strBaseName)
       (LogFile_rollFile e
          \<lparr>m_strBaseName = strBaseName, m_unRollSize = of_nat unRollSize,
           m_nFlushInterval = nFlushInterval, m_nCnt = 0,
           m_pMutex = (if bThreadSafe then Some MutexLock_new else None),
           m_tStartOfPeriod = 0, m_tLastRoll = 0, m_tLaseFlush = 0, m_pFile = None, w_Closed = []\<rparr>)"

definition on_file :: "(log_output \<Rightarrow> log_output) \<Rightarrow> log_file \<Rightarrow> log_file res" where
  "on_file f s =
     (case m_pFile s of None \<Rightarrow> Inl BadPointer | Some x \<Rightarrow> Inr (s\<lparr>m_pFile := Some (f x)\<rparr>))"

definition LogFile_appendUnlocked ::
    "roll_env \<Rightarrow> int \<Rightarrow> nat list \<Rightarrow> string \<Rightarrow> log_file \<Rightarrow> log_file res" where
  "LogFile_appendUnlocked e tNow answers pStrLogLine s =
     rbind (on_file (File_Append answers pStrLogLine) s) (\<lambda>s1.
     case m_pFile s1 of
       None \<Rightarrow> Inl BadPointer
     | Some f \<Rightarrow>
         if File_GetWrittenBytes f > unat (m_unRollSize s1) then LogFile_rollFile e s1
         else if m_nCnt s1 > CHECK_TIME_ROLL
         then (let s2 = s1\<lparr>m_nCnt := 0\<rparr>; tThisPeriod = period_start tNow
               in if tThisPeriod \<noteq> m_tStartOfPeriod s2 then LogFile_rollFile e s2
                  else if tNow - m_tLaseFlush s2 > m_nFlushInterval s2
                  then on_file File_Flush (s2\<lparr>m_tLaseFlush := tNow\<rparr>)
                  else Inr s2)
         else Inr (s1\<lparr>m_nCnt := m_nCnt s1 + 1\<rparr>))"

text \<open>With a mutex the call holds it throughout; nothing when it has to wait for it.\<close>

definition with_log_mutex ::
    "nat \<Rightarrow> (log_file \<Rightarrow> log_file res) \<Rightarrow> log_file \<Rightarrow> log_file res option" where
  "with_log_mutex tid body s =
     (case m_pMutex s of
        None \<Rightarrow> Some (body s)
      | Some m \<Rightarrow>
          map_option
            (\<lambda>m1. rbind (body (s\<lparr>m_pMutex := Some m1\<rparr>)) (\<lambda>s1. Inr (s1\<lparr>m_pMutex := Some (MutexLock_Unlock m1)\<rparr>)))
            (MutexLock_Lock tid m))"

definition LogFile_Append ::
    "nat \<Rightarrow> roll_env \<Rightarrow> int \<Rightarrow> nat list \<Rightarrow> string \<Rightarrow> log_file \<Rightarrow> log_file res option" where
  "LogFile_Append tid e tNow answers pLogLine =
     with_log_mutex tid (LogFile_appendUnlocked e tNow answers pLogLine)"

definition LogFile_Flush :: "nat \<Rightarrow> log_file \<Rightarrow> log_file res option" where
  "LogFile_Flush tid = with_log_mutex tid (on_file File_Flush)"

section \<open>Lemmas\<close>

lemma append_rest_all:
  assumes "\<forall>a \<in> set answers. 0 < a"
  shows "append_rest answers rest = rest"
  using assms
proof (induction answers rest rule: append_rest.induct)
  case (1 answers rest)
  show ?case
  proof (cases "rest = []")
    case False
    obtain x as where w: "File_write answers (length rest) = (x, as)" by fastforce
    with 1(2) False have x: "0 < x" "\<forall>a \<in> set as. 0 < a"
      by (auto simp: File_write_def split: list.splits)
    with 1(1) [OF _ w [symmetric] refl] w False have "append_rest as (drop x rest) = drop x rest" by simp
    with w x(1) show ?thesis by (subst append_rest.simps) simp
  qed (simp add: append_rest.simps)
qed

lemma File_Append_all:
  assumes "\<forall>a \<in> set (tl answers). 0 < a"
  shows "File_Append answers line f =
    f\<lparr>f_Text := f_Text f @ line, m_unWrittenBytes := m_unWrittenBytes f + length line\<rparr>"
  using assms
  by (cases answers) (auto simp: File_Append_def File_write_def append_rest_all)

text \<open>The texts of all files, the present one last.\<close>

definition log_texts :: "log_file \<Rightarrow> string list" where
  "log_texts s = map f_Text (w_Closed s) @ (case m_pFile s of None \<Rightarrow> [] | Some f \<Rightarrow> [f_Text f])"

lemma rollFile_texts:
  assumes "LogFile_rollFile e s = Inr t" and "m_pFile s \<noteq> None"
  shows "log_texts t = log_texts s @ (if e_rollTime e > m_tLastRoll s then [[]] else [])"
    and "m_pFile t \<noteq> None" and "m_unRollSize t = m_unRollSize s"
    and "m_pMutex t = m_pMutex s"
    and "(case m_pFile t of None \<Rightarrow> 0 | Some f \<Rightarrow> m_unWrittenBytes f) =
      (if e_rollTime e > m_tLastRoll s then 0 else m_unWrittenBytes (the (m_pFile s)))"
    and "m_tLastRoll t = max (m_tLastRoll s) (e_rollTime e)"
    and "m_nCnt t = m_nCnt s"
  using assms
  by (auto simp: LogFile_rollFile_def LogFile_getLogFileName_def File_new_def log_texts_def Let_def
        split: if_splits option.splits)

text \<open>
  The lines so far, grouped by file: no line is split over two files, none is lost, and the
  order is kept.
\<close>

definition holds_lines :: "log_file \<Rightarrow> string list \<Rightarrow> bool" where
  "holds_lines s ls \<longleftrightarrow> m_pFile s \<noteq> None \<and>
     (\<exists>groups. log_texts s = map concat groups \<and> concat groups = ls)"

lemma append_to_last:
  assumes "ts @ [t] = map concat gs"
  shows "\<exists>gs'. ts @ [t @ l] = map concat gs' \<and> concat gs' = concat gs @ [l]"
proof -
  obtain g gs0 where "gs = gs0 @ [g]" "ts = map concat gs0" "t = concat g"
    using assms by (cases gs rule: rev_cases) auto
  then show ?thesis by (intro exI [of _ "gs0 @ [g @ [l]]"]) simp
qed

lemma on_file_append_lines:
  assumes "on_file (File_Append answers line) s = Inr s1" and "\<forall>a \<in> set (tl answers). 0 < a"
    and "holds_lines s ls"
  shows "holds_lines s1 (ls @ [line])"
proof -
  obtain f where f: "m_pFile s = Some f" using assms(3) by (auto simp: holds_lines_def)
  obtain gs where gs: "map f_Text (w_Closed s) @ [f_Text f] = map concat gs" "concat gs = ls"
    using assms(3) f by (auto simp: holds_lines_def log_texts_def)
  from append_to_last [OF gs(1), of line] gs(2) f assms(1) File_Append_all [OF assms(2), of line f]
  show ?thesis by (auto simp: holds_lines_def log_texts_def on_file_def)
qed

lemma rollFile_lines:
  assumes "LogFile_rollFile e s = Inr t" and "holds_lines s ls"
  shows "holds_lines t ls"
proof -
  obtain gs where gs: "log_texts s = map concat gs" "concat gs = ls" and f: "m_pFile s \<noteq> None"
    using assms(2) by (auto simp: holds_lines_def)
  have "\<exists>gs'. log_texts t = map concat gs' \<and> concat gs' = ls"
  proof (cases "e_rollTime e > m_tLastRoll s")
    case True
    with rollFile_texts(1) [OF assms(1) f] gs show ?thesis by (intro exI [of _ "gs @ [[]]"]) simp
  qed (use rollFile_texts(1) [OF assms(1) f] gs in auto)
  with rollFile_texts(2) [OF assms(1) f] show ?thesis by (simp add: holds_lines_def)
qed

lemma flush_lines:
  assumes "on_file File_Flush s = Inr t" and "holds_lines s ls"
  shows "holds_lines t ls"
proof -
  have "log_texts t = log_texts s" "m_pFile t \<noteq> None"
    using assms by (auto simp: on_file_def holds_lines_def log_texts_def File_Flush_def)
  with assms(2) show ?thesis by (simp add: holds_lines_def)
qed

lemma holds_lines_counters [simp]:
  "holds_lines (s\<lparr>m_nCnt := n\<rparr>) ls = holds_lines s ls"
  "holds_lines (s\<lparr>m_tLaseFlush := i\<rparr>) ls = holds_lines s ls"
  by (simp_all add: holds_lines_def log_texts_def)

lemma rollFile_returns: "e_opens e \<Longrightarrow> \<exists>t. LogFile_rollFile e s = Inr t"
  by (simp add: LogFile_rollFile_def LogFile_getLogFileName_def File_new_def Let_def)

lemma on_file_returns: "m_pFile s \<noteq> None \<Longrightarrow> \<exists>t. on_file f s = Inr t \<and> m_pFile t \<noteq> None"
  by (auto simp: on_file_def)

lemma appendUnlocked_lines:
  assumes "e_opens e" and "\<forall>a \<in> set (tl answers). 0 < a" and "holds_lines s ls"
  shows "\<exists>t. LogFile_appendUnlocked e tNow answers line s = Inr t \<and> holds_lines t (ls @ [line])"
proof -
  obtain s1 where s1: "on_file (File_Append answers line) s = Inr s1"
    using on_file_returns assms(3) by (auto simp: holds_lines_def)
  have keep: "holds_lines s1 (ls @ [line])" by (rule on_file_append_lines [OF s1 assms(2,3)])
  then obtain f where f: "m_pFile s1 = Some f" by (auto simp: holds_lines_def)
  let ?s2 = "s1\<lparr>m_nCnt := 0\<rparr>"
  obtain r where r1: "LogFile_rollFile e s1 = Inr r" using rollFile_returns [OF assms(1)] by blast
  obtain r2 where r2: "LogFile_rollFile e ?s2 = Inr r2" using rollFile_returns [OF assms(1)] by blast
  obtain fl where fl: "on_file File_Flush (?s2\<lparr>m_tLaseFlush := tNow\<rparr>) = Inr fl"
    using on_file_returns [of "?s2\<lparr>m_tLaseFlush := tNow\<rparr>" File_Flush] f by auto
  note r = r1 r2 fl
  have "holds_lines r (ls @ [line])" by (rule rollFile_lines [OF r(1) keep])
  moreover have "holds_lines r2 (ls @ [line])" by (rule rollFile_lines [OF r(2)]) (simp add: keep)
  moreover have "holds_lines fl (ls @ [line])" by (rule flush_lines [OF r(3)]) (simp add: keep)
  ultimately show ?thesis
    using keep s1 f r by (simp add: LogFile_appendUnlocked_def Let_def)
qed

lemma LogFile_new_lines:
  assumes "e_opens e" and "0 < e_rollTime e" and "CHR ''/'' \<notin> set base"
  shows "\<exists>s. LogFile_new e base limit safe n = Inr s \<and> holds_lines s [] \<and>
    m_unRollSize s = of_nat limit \<and> m_pMutex s = (if safe then Some MutexLock_new else None)"
  using assms
  by (auto simp: LogFile_new_def LogFile_rollFile_def LogFile_getLogFileName_def File_new_def
        holds_lines_def log_texts_def intro!: exI [of _ "[[]]"])

section \<open>Properties\<close>

record log_call =
  c_env :: roll_env
  c_now :: int
  c_answers :: "nat list"
  c_line :: string

definition LogFile_run :: "log_call list \<Rightarrow> log_file \<Rightarrow> log_file res" where
  "LogFile_run = rfold (\<lambda>c. LogFile_appendUnlocked (c_env c) (c_now c) (c_answers c) (c_line c))"

lemma LogFile_run_lines:
  assumes "\<forall>c \<in> set cs. e_opens (c_env c) \<and> (\<forall>a \<in> set (tl (c_answers c)). 0 < a)"
    and "holds_lines s ls"
  shows "\<exists>t. LogFile_run cs s = Inr t \<and> holds_lines t (ls @ map c_line cs)"
  using assms
proof (induction cs arbitrary: s ls)
  case (Cons c cs)
  obtain s1 where s1: "LogFile_appendUnlocked (c_env c) (c_now c) (c_answers c) (c_line c) s = Inr s1"
      "holds_lines s1 (ls @ [c_line c])"
    using appendUnlocked_lines [of "c_env c" "c_answers c" s ls "c_now c" "c_line c"] Cons.prems by auto
  from Cons.IH [OF _ s1(2)] Cons.prems(1) s1(1) show ?case by (auto simp: LogFile_run_def)
qed (simp add: LogFile_run_def)


definition demo_env :: "int \<Rightarrow> roll_env" where
  "demo_env now =
     \<lparr>e_gmtime = (\<lambda>_. \<lparr>tm_year = 120, tm_mon = 0, tm_mday = 2, tm_hour = 12, tm_min = 0, tm_sec = 0\<rparr>),
      e_pid = 77, e_opens = True, e_rollTime = now\<rparr>"

definition demo_calls :: "log_call list" where
  "demo_calls =
     [\<lparr>c_env = demo_env 101, c_now = 101, c_answers = [3, 2], c_line = ''first''\<rparr>,
      \<lparr>c_env = demo_env 102, c_now = 102, c_answers = [], c_line = ''second''\<rparr>]"


text \<open>
  After an append the present file has not grown past the roll size, unless the last file was
  begun in this very second (or the clock has gone back): the log never makes two files in one
  second.
\<close>

theorem LogFile_rolls:
  assumes "LogFile_appendUnlocked e tNow answers line s = Inr t"
  shows "(\<exists>f. m_pFile t = Some f \<and>
      (File_GetWrittenBytes f \<le> unat (m_unRollSize t) \<or> e_rollTime e \<le> m_tLastRoll s))"
proof -
  obtain f where f: "m_pFile s = Some f"
    using assms by (auto simp: LogFile_appendUnlocked_def on_file_def split: option.splits)
  let ?f = "File_Append answers line f"
  let ?s = "s\<lparr>m_pFile := Some ?f\<rparr>"
  have roll: "\<exists>f. m_pFile t = Some f \<and>
      (File_GetWrittenBytes f \<le> unat (m_unRollSize t) \<or> e_rollTime e \<le> m_tLastRoll s)"
    if "LogFile_rollFile e x = Inr t" "m_pFile x = Some ?f" "m_tLastRoll x = m_tLastRoll s" for x
    using rollFile_texts(2,5) [OF that(1)] that(2,3)
    by (auto simp: File_GetWrittenBytes_def split: if_splits option.splits)
  show ?thesis
    using assms f roll [of ?s] roll [of "?s\<lparr>m_nCnt := 0\<rparr>"]
    by (auto simp: LogFile_appendUnlocked_def on_file_def File_GetWrittenBytes_def File_Flush_def
          Let_def split: if_splits)
qed

theorem LogFile_rolls_witness:
  "\<exists>s t f. LogFile_appendUnlocked (demo_env 101) 101 [] ''first'' s = Inr t \<and> m_pFile t = Some f \<and>
     File_GetWrittenBytes f \<le> unat (m_unRollSize t)"
proof -
  obtain s where s: "LogFile_new (demo_env 100) ''app'' 4 False 3 = Inr s" "holds_lines s []"
    using LogFile_new_lines [of "demo_env 100" "''app''" 4 False 3] by (auto simp: demo_env_def)
  then have roll: "m_tLastRoll s = 100"
    by (auto simp: LogFile_new_def LogFile_rollFile_def LogFile_getLogFileName_def File_new_def
          demo_env_def)
  obtain t where t: "LogFile_appendUnlocked (demo_env 101) 101 [] ''first'' s = Inr t"
    using appendUnlocked_lines [of "demo_env 101" "[]", OF _ _ s(2)] by (auto simp: demo_env_def)
  from LogFile_rolls [OF t] t roll show ?thesis by (auto simp: demo_env_def)
qed

text \<open>
  The constructor cuts the roll size to 32 bits: a size of four gigabytes becomes zero, and every
  line of a new second then begins a new file.
\<close>

theorem roll_size_truncated:
  assumes "LogFile_new e base (2 ^ 32) safe n = Inr s"
  shows "m_unRollSize s = 0"
proof -
  have "(of_nat (2 ^ 32) :: 32 word) = 0" by simp
  with assms show ?thesis
    by (auto simp: LogFile_new_def LogFile_rollFile_def LogFile_getLogFileName_def File_new_def
          check_def Let_def split: if_splits)
qed

theorem roll_size_truncated_witness:
  "\<exists>s. LogFile_new (demo_env 100) ''app'' (2 ^ 32) False 3 = Inr s \<and> m_unRollSize s = 0"
proof -
  obtain s where "LogFile_new (demo_env 100) ''app'' (2 ^ 32) False 3 = Inr s"
    using LogFile_new_lines [of "demo_env 100" "''app''" "2 ^ 32" False 3] by (auto simp: demo_env_def)
  with roll_size_truncated [OF this] show ?thesis by blast
qed

end
