(* ===== verification/LogPipelines.thy ===== *)
theory LogPipelines
  imports LogStatements DoubleBuffering LogFiles
begin

text \<open>
  The logging parts put together: log statements (\<open>LogStatements\<close>) whose output function appends
  each line to the double-buffered log, whose thread hands buffers to the log file. The world of
  the logger's globals is the state of the asynchronous log, or the fault that ended the program.
\<close>

section \<open>The output function and the log's own moves\<close>

definition asyncOutput :: "string \<Rightarrow> double_buffering res \<Rightarrow> double_buffering res" where
  "asyncOutput pStrMsg pLog =
     rbind pLog (\<lambda>s. rbind (DB_Append pStrMsg s) (\<lambda>t. Inr (note_line pStrMsg t)))"

text \<open>Starting and stopping the asynchronous log, and the steps of its thread.\<close>

definition control_move :: "double_buffering \<Rightarrow> double_buffering res \<Rightarrow> bool" where
  "control_move s r \<longleftrightarrow>
     d_pc s = NotStarted \<and> \<not> m_bRunning s \<and> r = Inr (DB_Start s) \<or>
     d_pc s \<noteq> NotStarted \<and> r = Inr (DB_Stop s) \<or>
     DB_threadFunc (d_pc s) s = Some r"

definition db_control :: "double_buffering res \<Rightarrow> double_buffering res \<Rightarrow> bool" where
  "db_control w r \<longleftrightarrow> (case w of Inl e \<Rightarrow> False | Inr s \<Rightarrow> control_move s r)"

abbreviation db_never :: "double_buffering res \<Rightarrow> bool" where
  "db_never \<equiv> \<lambda>w. False"

definition db_good :: "double_buffering res \<Rightarrow> bool" where
  "db_good w \<longleftrightarrow> (case w of Inl e \<Rightarrow> False | Inr s \<Rightarrow> db_inv s)"

definition db_lines :: "double_buffering res \<Rightarrow> string list" where
  "db_lines w = (case w of Inl e \<Rightarrow> [] | Inr s \<Rightarrow> g_Lines s)"

abbreviation pipe_reach :: "(int \<Rightarrow> tm) \<Rightarrow> (int \<Rightarrow> string) \<Rightarrow> double_buffering res pipeline \<Rightarrow> bool" where
  "pipe_reach gmtime StrError_tl \<equiv>
     reach (pipe_start asyncOutput (Inr DB_new)) (pipe_step gmtime StrError_tl db_never db_control)"

lemma control_move_db: "control_move s r \<Longrightarrow> db_move s r"
  by (auto simp: control_move_def intro: db_move.intros)

lemma control_move_lines:
  assumes "control_move s (Inr t)"
  shows "g_Lines t = g_Lines s"
proof -
  have "g_Lines u = g_Lines v" if "refill1 v = Inr u" for u v
    using that by (auto simp: refill1_def check_Inr split: if_splits)
  moreover have "g_Lines u = g_Lines v" if "refill2 v = Inr u" for u v
    using that by (auto simp: refill2_def check_Inr split: if_splits)
  moreover have "g_Lines u = g_Lines v" if "collect v = Inr u" for u v
    using that by (auto simp: collect_def check_Inr Let_def split: option.splits if_splits)
  ultimately show ?thesis
    using assms
    by (cases "d_pc s")
      (auto simp: control_move_def DB_Start_def DB_Stop_def thread_begin_def loop_head_def lock_and_collect_def
        write_buffers_def write_out_def drop_excess_def res_simps Let_def split: if_splits)
qed

lemma DB_Append_lines:
  "DB_Append line s = Inr t \<Longrightarrow> g_Lines t = g_Lines s \<and> d_Output t = d_Output s \<and> g_Dropped t = g_Dropped s"
  by (auto simp: DB_Append_def cur_append_def rbind_Inr Let_def split: option.splits if_splits)

lemma asyncOutput_ok:
  assumes "db_inv s" and "length line < LARGE_BUFFER"
  obtains t where "asyncOutput line (Inr s) = Inr t" and "db_inv t" and "g_Lines t = g_Lines s @ [line]"
proof -
  obtain t where t: "DB_Append line s = Inr t" "db_inv (note_line line t)"
    using DB_Append_inv [OF assms(1)] by blast
  then show thesis
    using that [of "note_line line t"] assms(2) DB_Append_lines [OF t(1)]
    by (simp add: asyncOutput_def note_line_def)
qed

interpretation buffered: async_log asyncOutput "Inr DB_new" db_control db_never db_good db_lines
proof unfold_locales
  have "db_inv DB_new" by (rule double_buffers.start_keeps) simp
  then show "db_good (Inr DB_new) \<and> db_lines (Inr DB_new) = []" by (simp add: db_good_def db_lines_def DB_new_def)
  show "db_good (asyncOutput line w) \<and> db_lines (asyncOutput line w) = db_lines w @ [line]"
    if w: "db_good w" and line: "length line \<le> 4000" for w line
  proof -
    obtain s where s: "w = Inr s" "db_inv s" using w by (auto simp: db_good_def split: sum.splits)
    have "length line < LARGE_BUFFER" using line by (simp add: LARGE_BUFFER_def)
    obtain t where "asyncOutput line (Inr s) = Inr t" "db_inv t" "g_Lines t = g_Lines s @ [line]"
      using asyncOutput_ok [OF s(2) \<open>length line < LARGE_BUFFER\<close>] by blast
    then show ?thesis by (simp add: s(1) db_good_def db_lines_def)
  qed
  show "db_good w' \<and> db_lines w' = db_lines w" if "db_good w" "db_control w w'" for w w'
  proof -
    from that obtain s where s: "w = Inr s" "db_inv s" "control_move s w'"
      by (auto simp: db_good_def db_control_def split: sum.splits)
    obtain t where t: "w' = Inr t" "db_inv t" using db_move_inv [OF control_move_db [OF s(3)] s(2)] by blast
    with s control_move_lines [of s t] show ?thesis by (simp add: db_good_def db_lines_def)
  qed
qed simp



end
