(* ===== verification/QueuePipelines.thy ===== *)
theory QueuePipelines
  imports LogStatements QueueLogging LogFiles
begin

text \<open>
  Log statements (\<open>LogStatements\<close>) in front of the queue variants of the asynchronous log: either
  queue and either kind of message. The world of the logger's globals is the state of the log, a
  fault, or nothing while the output function blocks in \<open>Put\<close>; a statement that would block waits.
\<close>

section \<open>The output function and the log's own moves\<close>

definition queueOutput ::
    "(string \<Rightarrow> 'q \<Rightarrow> 'q option) \<Rightarrow> (string \<Rightarrow> string res) \<Rightarrow> string \<Rightarrow> 'q async_logging res option \<Rightarrow>
     'q async_logging res option" where
  "queueOutput put mk pStrMsg pLog =
     (case pLog of Some (Inr s) \<Rightarrow> AsyncLogging_Append put mk pStrMsg s | _ \<Rightarrow> pLog)"

text \<open>\<open>Start\<close>, the two parts of \<open>Stop\<close>, and a round of the logging thread.\<close>

inductive queue_control ::
    "(string \<Rightarrow> 'q \<Rightarrow> 'q option) \<Rightarrow> ('q \<Rightarrow> (string \<times> 'q) option) \<Rightarrow> 'q async_logging res option \<Rightarrow>
     'q async_logging res option \<Rightarrow> bool"
  for put :: "string \<Rightarrow> 'q \<Rightarrow> 'q option" and get :: "'q \<Rightarrow> (string \<times> 'q) option" where
  queue_starts: "a_pc s = Idle \<Longrightarrow> queue_control put get (Some (Inr s)) (Some (Inr (AsyncLogging_Start s)))"
| queue_flag: "m_bRunning s \<Longrightarrow> queue_control put get (Some (Inr s)) (Some (Inr (AsyncLogging_Stop_flag s)))"
| queue_stops: "a_pc s \<noteq> Idle \<Longrightarrow> \<not> m_bRunning s \<Longrightarrow> AsyncLogging_Stop_put put s = Some t \<Longrightarrow>
    queue_control put get (Some (Inr s)) (Some (Inr t))"
| queue_thread: "a_pc s = Taking \<Longrightarrow> AsyncLogging_threadFunc get s = Some r \<Longrightarrow>
    queue_control put get (Some (Inr s)) (Some r)"

inductive_cases queue_controlE: "queue_control put get w w'"

definition queue_blocked :: "'q async_logging res option \<Rightarrow> bool" where
  "queue_blocked w \<longleftrightarrow> w = None"

text \<open>An empty message is queued only by \<open>Stop\<close>, after it has cleared the flag.\<close>

definition queue_inv :: "('q \<Rightarrow> string list) \<Rightarrow> 'q async_logging \<Rightarrow> bool" where
  "queue_inv items s \<longleftrightarrow>
     al_inv items s \<and> (m_bRunning s \<longrightarrow> a_pc s = Taking \<and> [] \<notin> set (items (a_Queue s))) \<and>
     (a_pc s = Idle \<longrightarrow> [] \<notin> set (items (a_Queue s)))"

definition queue_good :: "('q \<Rightarrow> string list) \<Rightarrow> 'q async_logging res option \<Rightarrow> bool" where
  "queue_good items w \<longleftrightarrow> (case w of Some (Inr s) \<Rightarrow> queue_inv items s | _ \<Rightarrow> False)"

definition queue_lines :: "'q async_logging res option \<Rightarrow> string list" where
  "queue_lines w = (case w of Some (Inr s) \<Rightarrow> filter (\<lambda>l. l \<noteq> []) (g_Put s) | _ \<Rightarrow> [])"

lemma queue_good_simps [simp]:
  "queue_good items (Some (Inr s)) = queue_inv items s" "\<not> queue_good items None"
  "\<not> queue_good items (Some (Inl e))" "queue_lines (Some (Inr s)) = filter (\<lambda>l. l \<noteq> []) (g_Put s)"
  by (simp_all add: queue_good_def queue_lines_def)

section \<open>A log behind a queue is a log\<close>

locale queue_pipeline = queue_logging put get items q0
  for put :: "string \<Rightarrow> 'q \<Rightarrow> 'q option" and get :: "'q \<Rightarrow> (string \<times> 'q) option"
    and items :: "'q \<Rightarrow> string list" and q0 :: 'q +
  fixes mk :: "string \<Rightarrow> string res"
  assumes mk_line: "length line \<le> 4000 \<Longrightarrow> mk line = Inr line"
begin

lemma put_message_queue:
  assumes "put_message put msg s = Some t"
  shows "items (a_Queue t) = items (a_Queue s) @ [msg]" and "g_Put t = g_Put s @ [msg]"
    and "m_bRunning t = m_bRunning s" and "a_pc t = a_pc s" and "a_Output t = a_Output s"
  using assms by (auto simp: put_message_def dest: put_items)

lemma put_message_keeps:
  assumes "put_message put msg s = Some t" and "queue_inv items s" and "msg \<noteq> [] \<or> a_pc s \<noteq> Idle \<and> \<not> m_bRunning s"
  shows "queue_inv items t"
  using assms put_message_queue [OF assms(1)] put_message_inv [OF assms(1)] by (auto simp: queue_inv_def)

lemma thread_ok:
  assumes inv: "queue_inv items s" and pc: "a_pc s = Taking" and r: "AsyncLogging_threadFunc get s = Some r"
  shows "\<exists>t. r = Inr t \<and> queue_inv items t \<and> g_Put t = g_Put s"
proof -
  from r obtain msg q where g: "get (a_Queue s) = Some (msg, q)"
    by (auto simp: AsyncLogging_threadFunc_def split: option.splits)
  note q = get_items [OF g]
  show ?thesis
  proof (cases "msg = []")
    case True
    then have "\<not> m_bRunning s" using inv q by (auto simp: queue_inv_def)
    with True r g have "r = Inr (s\<lparr>a_Queue := q, a_pc := Ended\<rparr>)" by (simp add: AsyncLogging_threadFunc_def)
    moreover have "queue_inv items (s\<lparr>a_Queue := q, a_pc := Ended\<rparr>)"
      using True q inv pc \<open>\<not> m_bRunning s\<close> by (simp add: queue_inv_def al_inv_def)
    ultimately show ?thesis by simp
  next
    case False
    with r g have "r = Inr (s\<lparr>a_Queue := q, a_Output := a_Output s @ [msg]\<rparr>)"
      by (simp add: AsyncLogging_threadFunc_def)
    moreover have "queue_inv items (s\<lparr>a_Queue := q, a_Output := a_Output s @ [msg]\<rparr>)"
      using False q inv pc by (auto simp: queue_inv_def al_inv_def)
    ultimately show ?thesis by simp
  qed
qed

lemma queue_control_keeps:
  assumes "queue_control put get w w'" and "queue_good items w"
  shows "queue_good items w' \<and> queue_lines w' = queue_lines w"
  using assms(1)
proof cases
  case (queue_starts s)
  with assms(2) show ?thesis by (auto simp: queue_inv_def al_inv_def AsyncLogging_Start_def)
next
  case (queue_flag s)
  with assms(2) show ?thesis by (auto simp: queue_inv_def al_inv_def AsyncLogging_Stop_flag_def)
next
  case (queue_stops s t)
  then have t: "put_message put [] s = Some t" by (simp add: AsyncLogging_Stop_put_def)
  from put_message_keeps [OF t] put_message_queue(2) [OF t] queue_stops assms(2) show ?thesis by simp
next
  case (queue_thread s r)
  with thread_ok [of s r] assms(2) show ?thesis by auto
qed

lemma output_queues:
  assumes "queue_good items w" and "line \<noteq> []" and "length line \<le> 4000"
    and "\<not> queue_blocked (queueOutput put mk line w)"
  shows "queue_good items (queueOutput put mk line w) \<and>
    queue_lines (queueOutput put mk line w) = queue_lines w @ [line]"
proof -
  obtain s where s: "w = Some (Inr s)" "queue_inv items s"
    using assms(1) by (auto simp: queue_good_def split: option.splits sum.splits)
  obtain t where t: "put_message put line s = Some t" "queueOutput put mk line w = Some (Inr t)"
    using assms(4) s(1) mk_line [OF assms(3)]
    by (auto simp: queueOutput_def AsyncLogging_Append_def queue_blocked_def)
  from put_message_keeps [OF t(1) s(2)] put_message_queue(2) [OF t(1)] assms(2) s(1) t(2) show ?thesis
    by simp
qed

lemma start_good: "queue_inv items (AsyncLogging_new q0) \<and> g_Put (AsyncLogging_new q0) = []"
  by (simp add: AsyncLogging_new_def queue_inv_def al_inv_def starts_empty)

end

sublocale queue_pipeline \<subseteq> async_log "queueOutput put mk" "Some (Inr (AsyncLogging_new q0))"
    "queue_control put get" queue_blocked "queue_good items" queue_lines
proof unfold_locales
  show "\<not> queue_blocked w" if "queue_good items w" for w
    using that by (cases w) (simp_all add: queue_blocked_def)
qed (simp_all add: start_good output_queues queue_control_keeps)

context queue_pipeline
begin

lemmas queue_pipe_lines = pipe_lines

end

text \<open>The four logs of the header file.\<close>

interpretation unbounded_pipeline: queue_pipeline unbounded_put unbounded_get m_Queue BlockingQueue_new string_message
  by unfold_locales (simp add: string_message_def)

interpretation unbounded_pipeline_L: queue_pipeline unbounded_put unbounded_get m_Queue BlockingQueue_new LogMessage_new
  by unfold_locales (simp add: LogMessage_new_def)

interpretation bounded_pipeline: queue_pipeline bounded_put bounded_get b_Queue "BoundedBlockingQueue_new n" string_message
  for n :: nat
  by unfold_locales (simp add: string_message_def)

interpretation bounded_pipeline_L: queue_pipeline bounded_put bounded_get b_Queue "BoundedBlockingQueue_new n" LogMessage_new
  for n :: nat
  by unfold_locales (simp add: LogMessage_new_def)

abbreviation queue_reach ::
    "(string \<Rightarrow> 'q \<Rightarrow> 'q option) \<Rightarrow> ('q \<Rightarrow> (string \<times> 'q) option) \<Rightarrow> 'q \<Rightarrow> (string \<Rightarrow> string res) \<Rightarrow>
     (int \<Rightarrow> tm) \<Rightarrow> (int \<Rightarrow> string) \<Rightarrow> 'q async_logging res option pipeline \<Rightarrow> bool" where
  "queue_reach put get q0 mk gmtime StrError_tl \<equiv>
     reach (pipe_start (queueOutput put mk) (Some (Inr (AsyncLogging_new q0))))
       (pipe_step gmtime StrError_tl queue_blocked (queue_control put get))"

text \<open>What has been written and what waits in the queue are the lines executed.\<close>

lemma queue_inv_lines:
  "queue_inv items s \<Longrightarrow>
   a_Output s @ filter (\<lambda>l. l \<noteq> []) (items (a_Queue s)) = filter (\<lambda>l. l \<noteq> []) (g_Put s)"
proof -
  assume "queue_inv items s"
  then have o: "\<forall>l \<in> set (a_Output s). l \<noteq> []"
    and p: "g_Put s = a_Output s @ (if a_pc s = Ended then [[]] else []) @ items (a_Queue s)"
    by (simp_all add: queue_inv_def al_inv_def)
  from o have "filter (\<lambda>l. l \<noteq> []) (a_Output s) = a_Output s" by (simp add: filter_id_conv)
  then show ?thesis by (simp add: p)
qed

lemma concat_filter_nonempty: "concat (filter (\<lambda>l. l \<noteq> []) ls) = concat ls"
  by (induction ls) simp_all

section \<open>Properties\<close>



end
