(* ===== verification/ThreadPools.thy ===== *)
theory ThreadPools
  imports Monitors
begin

text \<open>
  \<open>thread/ThreadPool.h\<close> and \<open>thread/ThreadPool.cpp\<close>, one step of one thread at a time: a worker
  is at one place of \<open>runInThread\<close> and \<open>take\<close>, and the mutex has an owner, since \<open>Stop\<close>
  changes \<open>m_bRunning\<close> and notifies without it. Tasks are of any type; what running one does is
  an argument: it returns, or throws, which ends the program.
\<close>

datatype task_end = TaskReturns | TaskThrows

datatype 'task worker_pc =
    AtLoop                      \<comment> \<open>at \<open>while (m_bRunning)\<close>\<close>
  | EnterTake                   \<comment> \<open>at the guard of \<open>take\<close>\<close>
  | TestQueue                   \<comment> \<open>at \<open>while (m_Queue.empty() && m_bRunning)\<close>, holding the mutex\<close>
  | BeforeWait                  \<comment> \<open>about to call \<open>m_Cond.Wait()\<close>, holding the mutex\<close>
  | InWait                      \<comment> \<open>inside \<open>pthread_cond_wait\<close>\<close>
  | HasTask "'task option"      \<comment> \<open>back from \<open>take\<close>\<close>
  | Exited

datatype stop_pc = NotStopping | StopFlagged | Joining

record 'task pool =
  p_Mutex :: "nat option"
  p_Cond :: condition
  p_Queue :: "'task list"
  p_bRunning :: bool
  p_Workers :: "nat \<Rightarrow> 'task worker_pc"
  p_nThreads :: nat
  p_Stop :: stop_pc
  g_Run :: "'task list"      \<comment> \<open>every task handed to \<open>Run\<close>\<close>
  g_Popped :: "'task list"   \<comment> \<open>every task a worker took\<close>

definition ThreadPool_new :: "'task pool" where
  "ThreadPool_new =
     \<lparr>p_Mutex = None, p_Cond = Condition_new, p_Queue = [], p_bRunning = False,
      p_Workers = (\<lambda>_. Exited), p_nThreads = 0, p_Stop = NotStopping, g_Run = [], g_Popped = []\<rparr>"

text \<open>\<open>Start\<close> asserts its argument and that it is the first call; every thread begins at the loop.\<close>

definition ThreadPool_Start :: "int \<Rightarrow> 'task pool \<Rightarrow> 'task pool res" where
  "ThreadPool_Start nNumThreads s =
     check (\<not> (nNumThreads \<le> 0 \<or> p_nThreads s \<noteq> 0))
       (Inr (s\<lparr>p_bRunning := True, p_nThreads := nat nNumThreads,
               p_Workers := (\<lambda>n. if n < nat nNumThreads then AtLoop else p_Workers s n)\<rparr>))"

text \<open>\<open>Run\<close>: in the caller when there are no threads, otherwise queued under the mutex.\<close>

definition ThreadPool_Run :: "('task \<Rightarrow> task_end) \<Rightarrow> nat \<Rightarrow> 'task \<Rightarrow> 'task pool \<Rightarrow> 'task pool res" where
  "ThreadPool_Run exec k task s =
     (if p_nThreads s = 0
      then (case exec task of TaskReturns \<Rightarrow> Inr s | TaskThrows \<Rightarrow> Inl Aborted)
      else Inr (s\<lparr>p_Queue := p_Queue s @ [task], p_Cond := Condition_Notify k (p_Cond s),
                  g_Run := g_Run s @ [task]\<rparr>))"

text \<open>\<open>Stop\<close>: first the flag, then the notification, then the joins.\<close>

definition Stop_flag :: "'task pool \<Rightarrow> 'task pool" where
  "Stop_flag s = s\<lparr>p_bRunning := False, p_Stop := StopFlagged\<rparr>"

definition Stop_notify :: "'task pool \<Rightarrow> 'task pool" where
  "Stop_notify s = s\<lparr>p_Cond := Condition_NotifyAll (p_Cond s), p_Stop := Joining\<rparr>"

text \<open>The destructor begins a \<open>Stop\<close>, unless one has already been called.\<close>

definition ThreadPool_delete :: "'task pool \<Rightarrow> 'task pool" where
  "ThreadPool_delete s = (if p_bRunning s then Stop_flag s else s)"

definition Stop_joined :: "'task pool \<Rightarrow> bool" where
  "Stop_joined s \<longleftrightarrow> p_Stop s = Joining \<and> (\<forall>n < p_nThreads s. p_Workers s n = Exited)"

text \<open>One step of worker \<open>n\<close>, or nothing while it blocks.\<close>

definition at_pc :: "nat \<Rightarrow> 'task worker_pc \<Rightarrow> 'task pool \<Rightarrow> 'task pool" where
  "at_pc n pc s = s\<lparr>p_Workers := (p_Workers s)(n := pc)\<rparr>"

definition take_leave :: "nat \<Rightarrow> 'task pool \<Rightarrow> 'task pool" where
  "take_leave n s =
     (case p_Queue s of
        [] \<Rightarrow> at_pc n (HasTask None) (s\<lparr>p_Mutex := None\<rparr>)
      | front # rest \<Rightarrow>
          at_pc n (HasTask (Some front))
            (s\<lparr>p_Mutex := None, p_Queue := rest, g_Popped := g_Popped s @ [front]\<rparr>))"

fun worker_step :: "('task \<Rightarrow> task_end) \<Rightarrow> nat \<Rightarrow> 'task worker_pc \<Rightarrow> 'task pool \<Rightarrow> 'task pool res option" where
  "worker_step exec n AtLoop s = Some (Inr (at_pc n (if p_bRunning s then EnterTake else Exited) s))"
| "worker_step exec n EnterTake s =
     (if p_Mutex s = None then Some (Inr (at_pc n TestQueue (s\<lparr>p_Mutex := Some n\<rparr>))) else None)"
| "worker_step exec n TestQueue s =
     Some (Inr (if p_Queue s = [] \<and> p_bRunning s then at_pc n BeforeWait s else take_leave n s))"
| "worker_step exec n BeforeWait s =
     Some (Inr (at_pc n InWait (s\<lparr>p_Mutex := None, p_Cond := cv_sleep n (p_Cond s)\<rparr>)))"
| "worker_step exec n InWait s =
     (if n \<in> set (cv_Ready (p_Cond s)) \<and> p_Mutex s = None
      then Some (Inr (at_pc n TestQueue (s\<lparr>p_Mutex := Some n, p_Cond := cv_resume n (p_Cond s)\<rparr>)))
      else None)"
| "worker_step exec n (HasTask None) s = Some (Inr (at_pc n AtLoop s))"
| "worker_step exec n (HasTask (Some t)) s =
     Some (case exec t of TaskReturns \<Rightarrow> Inr (at_pc n AtLoop s) | TaskThrows \<Rightarrow> Inl Aborted)"
| "worker_step exec n Exited s = None"

definition ThreadPool_runInThread ::
    "('task \<Rightarrow> task_end) \<Rightarrow> nat \<Rightarrow> 'task pool \<Rightarrow> 'task pool res option" where
  "ThreadPool_runInThread exec n s = worker_step exec n (p_Workers s n) s"

inductive pool_move :: "('task \<Rightarrow> task_end) \<Rightarrow> 'task pool \<Rightarrow> 'task pool \<Rightarrow> bool"
  for exec :: "'task \<Rightarrow> task_end" where
  m_start: "ThreadPool_Start nNum s = Inr t \<Longrightarrow> p_Stop s = NotStopping \<Longrightarrow> pool_move exec s t"
| m_run: "p_Mutex s = None \<Longrightarrow> ThreadPool_Run exec k task s = Inr t \<Longrightarrow> pool_move exec s t"
| m_worker: "n < p_nThreads s \<Longrightarrow> ThreadPool_runInThread exec n s = Some (Inr t) \<Longrightarrow> pool_move exec s t"
| m_flag: "p_Stop s = NotStopping \<Longrightarrow> pool_move exec s (Stop_flag s)"
| m_notify: "p_Stop s = StopFlagged \<Longrightarrow> pool_move exec s (Stop_notify s)"

section \<open>Invariant\<close>

text \<open>
  At most one worker is in the critical section of \<open>take\<close>, and it is the mutex's owner; a
  worker is known to the condition variable exactly while it is inside \<open>Wait\<close>; the tasks taken
  and those still queued are those handed in, in order.
\<close>

definition critical :: "'task worker_pc \<Rightarrow> bool" where
  "critical pc \<longleftrightarrow> pc = TestQueue \<or> pc = BeforeWait"

definition crit_ok :: "(nat \<Rightarrow> 'task worker_pc) \<Rightarrow> nat option \<Rightarrow> bool" where
  "crit_ok w m \<longleftrightarrow> (\<forall>n. critical (w n) \<longleftrightarrow> m = Some n)"

definition cond_ok :: "(nat \<Rightarrow> 'task worker_pc) \<Rightarrow> condition \<Rightarrow> bool" where
  "cond_ok w c \<longleftrightarrow> (\<forall>n. n \<in> set (cv_Waiting c @ cv_Ready c) \<longleftrightarrow> w n = InWait) \<and>
     distinct (cv_Waiting c @ cv_Ready c)"

definition pool_inv :: "'task pool \<Rightarrow> bool" where
  "pool_inv s \<longleftrightarrow> crit_ok (p_Workers s) (p_Mutex s) \<and> cond_ok (p_Workers s) (p_Cond s) \<and>
     g_Popped s @ p_Queue s = g_Run s \<and>
     (p_nThreads s = 0 \<longrightarrow> (\<forall>n. p_Workers s n = Exited)) \<and>
     (p_Stop s \<noteq> NotStopping \<longrightarrow> \<not> p_bRunning s)"

lemma crit_keep: "crit_ok w m \<Longrightarrow> critical pc = critical (w n) \<Longrightarrow> crit_ok (w(n := pc)) m"
  by (simp add: crit_ok_def)

lemma crit_enter: "crit_ok w None \<Longrightarrow> critical pc \<Longrightarrow> crit_ok (w(n := pc)) (Some n)"
  by (auto simp: crit_ok_def)

lemma crit_leave: "crit_ok w m \<Longrightarrow> critical (w n) \<Longrightarrow> \<not> critical pc \<Longrightarrow> crit_ok (w(n := pc)) None"
  by (auto simp: crit_ok_def)

lemma cond_keep: "cond_ok w c \<Longrightarrow> w n \<noteq> InWait \<Longrightarrow> pc \<noteq> InWait \<Longrightarrow> cond_ok (w(n := pc)) c"
  by (auto simp: cond_ok_def)

lemma cond_sleep: "cond_ok w c \<Longrightarrow> w n \<noteq> InWait \<Longrightarrow> cond_ok (w(n := InWait)) (cv_sleep n c)"
  by (auto simp: cond_ok_def cv_sleep_def)

lemma cond_resume:
  "cond_ok w c \<Longrightarrow> n \<in> set (cv_Ready c) \<Longrightarrow> pc \<noteq> InWait \<Longrightarrow> cond_ok (w(n := pc)) (cv_resume n c)"
  by (auto simp: cond_ok_def cv_resume_def)

lemma cond_notify: "cond_ok w c \<Longrightarrow> cond_ok w (Condition_Notify k c)"
proof (cases "cv_Waiting c = []")
  case False
  define t where "t = cv_Waiting c ! (k mod length (cv_Waiting c))"
  assume "cond_ok w c"
  moreover have "t \<in> set (cv_Waiting c)" using False by (simp add: t_def)
  ultimately show ?thesis
    using False by (auto simp: cond_ok_def Condition_Notify_def cv_unblock_def t_def [symmetric])
qed (simp add: Condition_Notify_def)

lemma cond_notify_all: "cond_ok w c \<Longrightarrow> cond_ok w (Condition_NotifyAll c)"
  by (auto simp: cond_ok_def Condition_NotifyAll_def)

lemma at_pc_fields [simp]:
  "p_Mutex (at_pc n pc s) = p_Mutex s" "p_Cond (at_pc n pc s) = p_Cond s"
  "p_Queue (at_pc n pc s) = p_Queue s" "p_bRunning (at_pc n pc s) = p_bRunning s"
  "p_nThreads (at_pc n pc s) = p_nThreads s" "p_Stop (at_pc n pc s) = p_Stop s"
  "g_Run (at_pc n pc s) = g_Run s" "g_Popped (at_pc n pc s) = g_Popped s"
  "p_Workers (at_pc n pc s) = (p_Workers s)(n := pc)"
  by (simp_all add: at_pc_def)

lemma pool_inv_new: "pool_inv ThreadPool_new"
  by (simp add: pool_inv_def ThreadPool_new_def Condition_new_def critical_def crit_ok_def cond_ok_def)

lemma worker_keeps:
  assumes inv: "pool_inv s" and n: "n < p_nThreads s"
    and step: "worker_step exec n (p_Workers s n) s = Some (Inr t)"
  shows "pool_inv t"
proof -
  have crit: "crit_ok (p_Workers s) (p_Mutex s)" and cond: "cond_ok (p_Workers s) (p_Cond s)"
    using inv by (simp_all add: pool_inv_def)
  show ?thesis
  proof (cases "p_Workers s n")
    case AtLoop
    with step inv n show ?thesis
      by (auto simp: pool_inv_def critical_def intro!: crit_keep cond_keep)
  next
    case EnterTake
    with step inv n crit show ?thesis
      by (auto simp: pool_inv_def critical_def intro!: crit_enter cond_keep split: if_splits)
  next
    case TestQueue
    with step inv n crit_leave [OF crit, of n] show ?thesis
      by (auto simp: pool_inv_def critical_def take_leave_def intro!: crit_keep cond_keep
            split: if_splits list.splits)
  next
    case BeforeWait
    with step inv n crit_leave [OF crit, of n] show ?thesis
      by (auto simp: pool_inv_def critical_def intro!: cond_sleep)
  next
    case InWait
    with step inv n crit cond show ?thesis
      by (auto simp: pool_inv_def critical_def intro!: crit_enter cond_resume split: if_splits)
  next
    case (HasTask t')
    with step inv n show ?thesis
      by (cases t') (auto simp: pool_inv_def critical_def intro!: crit_keep cond_keep
            split: task_end.splits)
  next
    case Exited
    with step show ?thesis by simp
  qed
qed

interpretation pool_system: invariant_system "\<lambda>s. s = ThreadPool_new" "pool_move exec" pool_inv
  for exec :: "'task \<Rightarrow> task_end"
proof unfold_locales
  show "pool_inv s" if "s = ThreadPool_new" for s :: "'task pool"
    using that by (simp add: pool_inv_new)
  show "pool_inv t" if "pool_move exec s t" "pool_inv s" for s t :: "'task pool"
    using that(1)
  proof (cases rule: pool_move.cases)
    case (m_start nNum)
    with that(2) show ?thesis
      by (auto simp: pool_inv_def ThreadPool_Start_def crit_ok_def cond_ok_def critical_def check_def
            split: if_splits)
  next
    case (m_run k task)
    with that(2) show ?thesis
      by (auto simp: pool_inv_def ThreadPool_Run_def cond_notify split: if_splits task_end.splits)
  next
    case (m_worker n)
    with that(2) show ?thesis by (auto simp: ThreadPool_runInThread_def intro: worker_keeps)
  next
    case m_flag
    with that(2) show ?thesis by (simp add: pool_inv_def Stop_flag_def)
  next
    case m_notify
    with that(2) show ?thesis by (auto simp: pool_inv_def Stop_notify_def cond_notify_all)
  qed
qed

section \<open>Properties\<close>


text \<open>The destructor never stops a pool twice, so no thread is joined twice.\<close>

lemma delete_stops_once:
  assumes "reach (\<lambda>s. s = ThreadPool_new) (pool_move exec) s"
  shows "p_Stop s \<noteq> NotStopping \<Longrightarrow> ThreadPool_delete s = s"
    and "p_bRunning s \<Longrightarrow> pool_move exec s (ThreadPool_delete s)"
  using pool_system.reach_keeps [OF assms] m_flag [of s exec]
  by (auto simp: pool_inv_def ThreadPool_delete_def)

text \<open>A pool of one worker, up to the point where the worker is about to wait.\<close>

definition demo_pool :: "nat pool" where
  "demo_pool =
     \<lparr>p_Mutex = Some 0, p_Cond = Condition_new, p_Queue = [], p_bRunning = True,
      p_Workers = (\<lambda>_. Exited)(0 := BeforeWait), p_nThreads = 1, p_Stop = NotStopping,
      g_Run = [], g_Popped = []\<rparr>"

lemma demo_pool_reach: "reach (\<lambda>s. s = ThreadPool_new) (pool_move exec) demo_pool"
proof -
  let ?w = "\<lambda>pc. (\<lambda>_. Exited)(0 := pc)"
  let ?s = "\<lambda>m pc. \<lparr>p_Mutex = m, p_Cond = Condition_new, p_Queue = [], p_bRunning = True,
      p_Workers = ?w pc, p_nThreads = 1, p_Stop = NotStopping, g_Run = [], g_Popped = []\<rparr> :: nat pool"
  have start: "ThreadPool_Start 1 (ThreadPool_new :: nat pool) = Inr (?s None AtLoop)"
    by (auto simp: ThreadPool_Start_def ThreadPool_new_def)
  have 1: "reach (\<lambda>s. s = ThreadPool_new) (pool_move exec) (?s None AtLoop)"
    by (rule reach_once [where s = ThreadPool_new])
       (simp, rule m_start [OF start], simp add: ThreadPool_new_def)
  have 2: "reach (\<lambda>s. s = ThreadPool_new) (pool_move exec) (?s None EnterTake)"
    by (rule reach_step [OF 1], rule m_worker [where n = 0])
       (simp_all add: ThreadPool_runInThread_def at_pc_def)
  have 3: "reach (\<lambda>s. s = ThreadPool_new) (pool_move exec) (?s (Some 0) TestQueue)"
    by (rule reach_step [OF 2], rule m_worker [where n = 0])
       (simp_all add: ThreadPool_runInThread_def at_pc_def)
  show ?thesis
    by (rule reach_step [OF 3], rule m_worker [where n = 0])
       (simp_all add: ThreadPool_runInThread_def at_pc_def demo_pool_def)
qed


text \<open>
  \<open>Stop\<close> can hang: it sets \<open>m_bRunning\<close> and notifies without holding the mutex, so when it
  does both after a worker has tested \<open>m_bRunning\<close> and before that worker is inside \<open>Wait\<close>, the
  notification reaches nobody; from there the worker has no step left and \<open>Join\<close> waits for it
  for ever (until a spurious wake-up).
\<close>

theorem Stop_misses_worker:
  assumes "reach (\<lambda>s. s = ThreadPool_new) (pool_move exec) s"
    and "p_Stop s = NotStopping" and "n < p_nThreads s" and "p_Workers s n = BeforeWait"
  shows "\<exists>t. ThreadPool_runInThread exec n (Stop_notify (Stop_flag s)) = Some (Inr t) \<and>
    reach (\<lambda>s. s = ThreadPool_new) (pool_move exec) t \<and>
    ThreadPool_runInThread exec n t = None \<and> p_Stop t = Joining \<and> \<not> Stop_joined t"
proof -
  let ?s = "Stop_notify (Stop_flag s)"
  let ?t = "at_pc n InWait (?s\<lparr>p_Mutex := None, p_Cond := cv_sleep n (p_Cond ?s)\<rparr>)"
  have inv: "pool_inv s" using pool_system.reach_keeps [OF assms(1)] .
  have pc: "p_Workers ?s n = BeforeWait" using assms(4) by (simp add: Stop_notify_def Stop_flag_def)
  then have step: "ThreadPool_runInThread exec n ?s = Some (Inr ?t)"
    by (simp add: ThreadPool_runInThread_def)
  have "pool_move exec s (Stop_flag s)" by (rule m_flag [OF assms(2)])
  moreover have "pool_move exec (Stop_flag s) ?s" by (rule m_notify) (simp add: Stop_flag_def)
  moreover have "pool_move exec ?s ?t"
    by (rule m_worker [OF _ step]) (simp add: Stop_notify_def Stop_flag_def assms(3))
  ultimately have reach: "reach (\<lambda>s. s = ThreadPool_new) (pool_move exec) ?t"
    using assms(1) by (blast intro: reach_step)
  have "n \<notin> set (cv_Waiting (p_Cond s) @ cv_Ready (p_Cond s))"
    using inv assms(4) by (auto simp: pool_inv_def cond_ok_def)
  then have "n \<notin> set (cv_Ready (p_Cond ?t))"
    by (simp add: Stop_notify_def Stop_flag_def Condition_NotifyAll_def monitor_simps)
  then have "ThreadPool_runInThread exec n ?t = None" by (simp add: ThreadPool_runInThread_def)
  moreover have "p_Stop ?t = Joining" by (simp add: Stop_notify_def)
  moreover have "\<not> Stop_joined ?t"
    using assms(3) by (auto simp: Stop_joined_def Stop_notify_def Stop_flag_def intro!: exI [of _ n])
  ultimately show ?thesis using step reach by blast
qed

theorem Stop_misses_worker_witness:
  "\<exists>t. ThreadPool_runInThread (\<lambda>_. TaskReturns) 0 (Stop_notify (Stop_flag demo_pool)) = Some (Inr t) \<and>
     ThreadPool_runInThread (\<lambda>_. TaskReturns) 0 t = None \<and> \<not> Stop_joined t"
proof -
  have "p_Stop demo_pool = NotStopping" "0 < p_nThreads demo_pool" "p_Workers demo_pool 0 = BeforeWait"
    by (simp_all add: demo_pool_def)
  from Stop_misses_worker [OF demo_pool_reach this] show ?thesis by blast
qed

end
