(* ===== verification/Latches.thy ===== *)
theory Latches
  imports Monitors
begin

text \<open>
  \<open>thread/CountDownLatch.h\<close>: the count and its condition; each stretch under the mutex is one
  step. A thread that calls \<open>Wait\<close> returns once the count has come down to zero.
\<close>

record latch =
  m_Cond :: condition
  m_nCnt :: int

definition CountDownLatch_new :: "int \<Rightarrow> latch" where
  "CountDownLatch_new nCnt = \<lparr>m_Cond = Condition_new, m_nCnt = nCnt\<rparr>"

text \<open>\<open>Wait\<close> with the mutex held: whether it returns, or blocks on the condition.\<close>

definition CountDownLatch_Wait :: "nat \<Rightarrow> latch \<Rightarrow> bool \<times> latch" where
  "CountDownLatch_Wait tid s =
     (if m_nCnt s > 0 then (False, s\<lparr>m_Cond := cv_sleep tid (m_Cond s)\<rparr>) else (True, s))"

definition CountDownLatch_CountDown :: "latch \<Rightarrow> latch" where
  "CountDownLatch_CountDown s =
     (let s1 = s\<lparr>m_nCnt := m_nCnt s - 1\<rparr>
      in if 0 = m_nCnt s1 then s1\<lparr>m_Cond := Condition_NotifyAll (m_Cond s1)\<rparr> else s1)"

definition CountDownLatch_GetCount :: "latch \<Rightarrow> int" where
  "CountDownLatch_GetCount s = m_nCnt s"

record latch_run =
  lr_Latch :: latch
  g_Downs :: nat
  g_Returned :: "nat list"

definition waited :: "nat \<Rightarrow> bool \<times> latch \<Rightarrow> latch_run \<Rightarrow> latch_run" where
  "waited tid r s =
     s\<lparr>lr_Latch := snd r, g_Returned := g_Returned s @ (if fst r then [tid] else [])\<rparr>"

inductive latch_move :: "latch_run \<Rightarrow> latch_run \<Rightarrow> bool" where
  l_wait: "latch_move s (waited tid (CountDownLatch_Wait tid (lr_Latch s)) s)"
| l_resume: "tid \<in> set (cv_Ready (m_Cond (lr_Latch s))) \<Longrightarrow>
     latch_move s (waited tid
       (CountDownLatch_Wait tid (lr_Latch s\<lparr>m_Cond := cv_resume tid (m_Cond (lr_Latch s))\<rparr>)) s)"
| l_down: "latch_move s
     (s\<lparr>lr_Latch := CountDownLatch_CountDown (lr_Latch s), g_Downs := Suc (g_Downs s)\<rparr>)"
| l_wake: "latch_move s
     (s\<lparr>lr_Latch := lr_Latch s\<lparr>m_Cond := cv_unblock tid (m_Cond (lr_Latch s))\<rparr>\<rparr>)"

definition latch_start :: "int \<Rightarrow> latch_run \<Rightarrow> bool" where
  "latch_start n s \<longleftrightarrow> lr_Latch s = CountDownLatch_new n \<and> g_Downs s = 0 \<and> g_Returned s = []"

definition latch_inv :: "int \<Rightarrow> latch_run \<Rightarrow> bool" where
  "latch_inv n s \<longleftrightarrow> m_nCnt (lr_Latch s) = n - int (g_Downs s) \<and>
     (m_nCnt (lr_Latch s) \<le> 0 \<longrightarrow> cv_Waiting (m_Cond (lr_Latch s)) = []) \<and>
     (g_Returned s \<noteq> [] \<longrightarrow> m_nCnt (lr_Latch s) \<le> 0)"

interpretation latch_system: invariant_system "latch_start n" latch_move "latch_inv n"
  for n :: int
proof unfold_locales
  show "latch_inv n s" if "latch_start n s" for s
    using that by (simp add: latch_inv_def latch_start_def CountDownLatch_new_def Condition_new_def)
  show "latch_inv n t" if "latch_move s t" "latch_inv n s" for s t
    using that(1)
  proof (cases rule: latch_move.cases)
    case (l_wait tid)
    with that(2) show ?thesis
      by (auto simp: latch_inv_def waited_def CountDownLatch_Wait_def)
  next
    case (l_resume tid)
    with that(2) show ?thesis
      by (auto simp: latch_inv_def waited_def CountDownLatch_Wait_def monitor_simps)
  next
    case l_down
    with that(2) show ?thesis
      by (auto simp: latch_inv_def CountDownLatch_CountDown_def Condition_NotifyAll_def Let_def)
  next
    case (l_wake tid)
    with that(2) show ?thesis by (auto simp: latch_inv_def cv_unblock_def)
  qed
qed

text \<open>
  A latch of \<open>n\<close> opens with the \<open>n\<close>-th \<open>CountDown\<close>: no \<open>Wait\<close> returns before, and from
  then on no thread stays blocked in it.
\<close>

theorem latch_opens:
  assumes "reach (latch_start n) latch_move s"
  shows "(g_Returned s \<noteq> [] \<longrightarrow> n \<le> int (g_Downs s)) \<and>
    (n \<le> int (g_Downs s) \<longrightarrow> cv_Waiting (m_Cond (lr_Latch s)) = [])"
  using latch_system.reach_keeps [OF assms] by (auto simp: latch_inv_def)

theorem latch_opens_witness:
  "g_Downs \<lparr>lr_Latch = CountDownLatch_CountDown (CountDownLatch_new 1), g_Downs = 1, g_Returned = []\<rparr> = 1 \<and>
   cv_Waiting (m_Cond (CountDownLatch_CountDown (CountDownLatch_new 1))) = []"
proof -
  let ?s = "\<lparr>lr_Latch = CountDownLatch_new 1, g_Downs = 0, g_Returned = []\<rparr>"
  have "latch_move ?s
      (?s\<lparr>lr_Latch := CountDownLatch_CountDown (lr_Latch ?s), g_Downs := Suc (g_Downs ?s)\<rparr>)"
    by (rule l_down)
  then have "reach (latch_start 1) latch_move
      \<lparr>lr_Latch = CountDownLatch_CountDown (CountDownLatch_new 1), g_Downs = 1, g_Returned = []\<rparr>"
    by (intro reach_once [where s = ?s]) (simp_all add: latch_start_def)
  from latch_opens [OF this] show ?thesis by simp
qed

end
