(* ===== verification/BufferBounds.thy ===== *)
theory BufferBounds
  imports NetBuffer
begin

text \<open>
  How much memory a \<open>reactor/Buffer\<close> takes: what one operation does to the writer index and to
  the size of the vector, and from it a bound for every run.
\<close>

section \<open>The writer index\<close>

lemma Retrieve_writer:
  "Buffer_Retrieve n b = Inr b' \<Longrightarrow> m_unWriterIndex b' = m_unWriterIndex b \<and> m_vBuffer b' = m_vBuffer b"
  by (auto simp: Buffer_Retrieve_def res_simps)

text \<open>Both ways \<open>ReadFd\<close> can go, as one \<open>Append\<close> behind a filled vector or as none.\<close>

lemma ReadFd_cases:
  assumes inv: "buffer_inv b" and run: "Buffer_ReadFd (ReadBytes d) b = Inr (r, e, b')"
  obtains (fits) "length d \<le> length (m_vBuffer b) - m_unWriterIndex b"
      "m_unWriterIndex b' = m_unWriterIndex b + length d" "length (m_vBuffer b') = length (m_vBuffer b)"
    | (spills) k b1 where "k = length (m_vBuffer b) - m_unWriterIndex b" "k < length d" "buffer_inv b1"
      "length (m_vBuffer b1) = length (m_vBuffer b)" "m_unWriterIndex b1 = m_unWriterIndex b + k"
      "Buffer_contents b1 = Buffer_contents b @ take k d" "Buffer_Append (drop k d) b1 = Inr b'"
proof -
  let ?w = "m_unWriterIndex b" and ?v = "m_vBuffer b"
  let ?k = "length ?v - ?w"
  have i: "?w \<le> length ?v" "length ?v \<le> vector_max" using inv by (simp_all add: buffer_inv_def)
  let ?t = "take ?k d"
  have fit: "?w + length ?t \<le> length ?v" using i by simp
  obtain v where v: "mem_write ?v ?w ?t = Inr v" using fit by (auto simp: mem_write_def)
  have lv: "length v = length ?v" by (rule mem_write_length [OF v])
  show thesis
  proof (cases "length d \<le> ?k")
    case True
    have "size_plus ?w (length d) = ?w + length d" using True i by (intro size_plus_vector; linarith)
    then show thesis
      using fits True run v lv inv by (auto simp: Buffer_ReadFd_def Buffer_BeginWrite_def Let_def)
  next
    case False
    let ?b1 = "b\<lparr>m_vBuffer := v, m_unWriterIndex := length v\<rparr>"
    have ww: "?w + ?k = length v" using i(1) lv by simp
    have lt: "length ?t = ?k" using False by simp
    have "?w + length ?t = length ?v" using lt i(1) by simp
    then have t: "take ?w ?v @ ?t @ drop (?w + length ?t) ?v = v" using v by (simp add: mem_write_def)
    have sp: "size_plus ?w ?k = length v"
      unfolding ww [symmetric] using i by (intro size_plus_vector; linarith)
    have b1: "?b1 = Buffer_HasWritted (length ?t)
        (b\<lparr>m_vBuffer := take ?w ?v @ ?t @ drop (?w + length ?t) ?v\<rparr>)"
      unfolding t unfolding lt Buffer_HasWritted_def by (simp add: sp)
    note after = write_at_end [OF inv fit, folded b1]
    have "Buffer_Append (drop ?k d) ?b1 = Inr b'"
      using run v False inv by (auto simp: Buffer_ReadFd_def Buffer_BeginWrite_def Let_def res_simps)
    moreover have "?k < length d" "length (take ?k d) = ?k" using False by simp_all
    ultimately show thesis using after lv ww by (intro spills [of ?k ?b1]) simp_all
  qed
qed

lemma ReadFd_writer:
  assumes inv: "buffer_inv b" and room: "Buffer_room (length d) b"
    and run: "Buffer_ReadFd (ReadBytes d) b = Inr (r, e, b')"
  shows "m_unWriterIndex b' \<le> m_unWriterIndex b + length d"
using inv run
proof (cases rule: ReadFd_cases)
  case fits
  then show ?thesis by simp
next
  case (spills k b1)
  then have "Buffer_room (length (drop k d)) b1" using room by (simp add: Buffer_room_def)
  from Append_after [OF spills(3) this] spills show ?thesis by (auto simp: buffer_after_def)
qed

section \<open>The size of the vector\<close>

text \<open>
  The vector grows only when the contents and the new bytes would not fit with a header in front,
  and then to less than twice what they take.
\<close>

lemma grow_bound:
  fixes r w v n :: nat
  shows "r \<le> w \<Longrightarrow> w \<le> v \<Longrightarrow> v - w + r < n + 8 \<Longrightarrow> w + n \<le> 8 + 2 * (w - r + n)"
  by presburger

lemma makeSpace_memory:
  assumes inv: "buffer_inv b" and room: "Buffer_room n b" and run: "Buffer_makeSpace n b = Inr b'"
  shows "length (m_vBuffer b') \<le> max (length (m_vBuffer b)) (8 + 2 * (length (Buffer_contents b) + n))"
proof -
  let ?r = "m_unReaderIndex b" and ?w = "m_unWriterIndex b" and ?v = "m_vBuffer b"
  have i: "?r \<le> ?w" "?w \<le> length ?v" "length ?v \<le> vector_max" and fit: "?w + n \<le> vector_max"
    using inv room by (simp_all add: buffer_inv_def Buffer_room_def)
  have sz: "size_plus (length ?v - ?w) ?r = length ?v - ?w + ?r" "size_plus n 8 = n + 8" "size_plus ?w n = ?w + n"
    using i fit by (simp_all add: size_plus_vector)
  have len: "length (Buffer_contents b) = ?w - ?r" using inv by simp
  show ?thesis
  proof (cases "length ?v - ?w + ?r < n + 8")
    case True
    then have "length (m_vBuffer b') = ?w + n"
      using run sz fit inv by (auto simp: Buffer_makeSpace_def CHEAP_PREPEND_def vector_resize_def res_simps split: if_splits)
    moreover have "?w + n \<le> 8 + 2 * (length (Buffer_contents b) + n)"
      unfolding len by (rule grow_bound [OF i(1,2) True])
    ultimately show ?thesis by simp
  next
    case False
    then have "length (m_vBuffer b') = length ?v"
      using run sz inv
      by (auto simp: Buffer_makeSpace_def CHEAP_PREPEND_def Let_def res_simps dest: mem_write_length split: if_splits)
    then show ?thesis by simp
  qed
qed

lemma Append_memory:
  assumes inv: "buffer_inv b" and room: "Buffer_room (length d) b" and run: "Buffer_Append d b = Inr b'"
  shows "length (m_vBuffer b') \<le> max (length (m_vBuffer b)) (8 + 2 * (length (Buffer_contents b) + length d))"
proof -
  obtain b1 v where b1: "Buffer_EnsureWritableBytes (length d) b = Inr b1"
      "mem_write (m_vBuffer b1) (Buffer_BeginWrite b1) d = Inr v" "m_vBuffer b' = v"
    using run by (auto simp: Buffer_Append_def Buffer_HasWritted_def res_simps)
  then have "b1 = b \<or> Buffer_makeSpace (length d) b = Inr b1"
    by (auto simp: Buffer_EnsureWritableBytes_def res_simps split: if_splits)
  then show ?thesis
    using makeSpace_memory [OF inv room, of b1] mem_write_length [OF b1(2)] b1(3) by auto
qed

lemma ReadFd_memory:
  assumes inv: "buffer_inv b" and room: "Buffer_room (length d) b"
    and run: "Buffer_ReadFd (ReadBytes d) b = Inr (r, e, b')"
  shows "length (m_vBuffer b') \<le> max (length (m_vBuffer b)) (8 + 2 * (length (Buffer_contents b) + length d))"
using inv run
proof (cases rule: ReadFd_cases)
  case fits
  then show ?thesis by simp
next
  case (spills k b1)
  then have r: "Buffer_room (length (drop k d)) b1" using room by (simp add: Buffer_room_def)
  have "length (Buffer_contents b1) + length (drop k d) = length (Buffer_contents b) + length d"
    using spills(2) by (simp add: spills(6))
  then show ?thesis using Append_memory [OF spills(3) r spills(7)] spills(4) by simp
qed

section \<open>Every run\<close>

text \<open>The states of a new buffer after operations that never leave more than \<open>M\<close> readable bytes.\<close>

inductive buffer_run :: "nat \<Rightarrow> buffer \<Rightarrow> bool" for M :: nat where
  run_new: "buffer_run M Buffer_init"
| run_append: "buffer_run M b \<Longrightarrow> length (Buffer_contents b) + length d \<le> M \<Longrightarrow> Buffer_Append d b = Inr b' \<Longrightarrow>
    buffer_run M b'"
| run_read: "buffer_run M b \<Longrightarrow> length (Buffer_contents b) + length d \<le> M \<Longrightarrow>
    Buffer_ReadFd (ReadBytes d) b = Inr (r, e, b') \<Longrightarrow> buffer_run M b'"
| run_retrieve: "buffer_run M b \<Longrightarrow> Buffer_Retrieve n b = Inr b' \<Longrightarrow> buffer_run M b'"
| run_clear: "buffer_run M b \<Longrightarrow> buffer_run M (Buffer_RetrieveAll b)"

lemma buffer_run_bound:
  assumes "buffer_run M b" and "M \<le> 2 ^ 60"
  shows "buffer_inv b \<and> length (m_vBuffer b) \<le> max 1032 (8 + 2 * M)"
  using assms(1)
proof induction
  case run_new
  then show ?case by (simp add: buffer_inv_init) (simp add: Buffer_init_def CHEAP_PREPEND_def INITIAL_SIZE_def)
next
  case (run_append b d b')
  then have i: "buffer_inv b" "m_unWriterIndex b \<le> length (m_vBuffer b)" by (simp_all add: buffer_inv_def)
  have room: "Buffer_room (length d) b"
    using run_append i(2) assms(2) by (auto simp: Buffer_room_def vector_max_def)
  have m: "8 + 2 * (length (Buffer_contents b) + length d) \<le> 8 + 2 * M" using run_append(2) by (intro add_left_mono mult_le_mono2)
  show ?case
    using Append_memory [OF i(1) room run_append(3)] Append_contents [OF i(1) room run_append(3)] run_append.IH m
    by (auto simp del: length_Buffer_contents)
next
  case (run_read b d r e b')
  then have i: "buffer_inv b" "m_unWriterIndex b \<le> length (m_vBuffer b)" by (simp_all add: buffer_inv_def)
  have room: "Buffer_room (length d) b"
    using run_read i(2) assms(2) by (auto simp: Buffer_room_def vector_max_def)
  have m: "8 + 2 * (length (Buffer_contents b) + length d) \<le> 8 + 2 * M" using run_read(2) by (intro add_left_mono mult_le_mono2)
  show ?case
    using ReadFd_memory [OF i(1) room run_read(3)] ReadFd_bytes_ok [OF i(1) room] run_read.IH run_read(3) m
    by (auto simp del: length_Buffer_contents)
next
  case (run_retrieve b n b')
  then show ?case by (auto simp: Buffer_Retrieve_def res_simps buffer_inv_def)
next
  case (run_clear b)
  then show ?case by (auto simp: Buffer_RetrieveAll_def buffer_inv_def)
qed

text \<open>
  C31: A buffer's memory is bounded by what it has to hold: whatever is appended, read from a
  descriptor and retrieved, and in whatever order, as long as at most \<open>M\<close> bytes are readable at a
  time the vector never has more than \<open>8 + 2 * M\<close> bytes (or the 1032 it starts with), although
  \<open>Retrieve\<close> gives nothing back and the free space in front of the contents is used only
  sometimes.
\<close>

theorem buffer_memory_bounded:
  assumes "buffer_run M b" and "M \<le> 2 ^ 60"
  shows "length (m_vBuffer b) \<le> max 1032 (8 + 2 * M)"
  using buffer_run_bound [OF assms] by blast

theorem buffer_memory_bounded_witness:
  "\<exists>b. Buffer_Append (replicate 2000 7) Buffer_init = Inr b \<and> length (m_vBuffer b) \<le> 4008"
proof -
  have "Buffer_room (length (replicate 2000 (7 :: byte))) Buffer_init"
    by (simp add: Buffer_room_def Buffer_init_def CHEAP_PREPEND_def vector_max_def)
  from Append_after [OF buffer_inv_init this] obtain b where b: "Buffer_Append (replicate 2000 7) Buffer_init = Inr b"
    by blast
  have "buffer_run 2000 b"
    by (rule run_append [OF run_new _ b]) (simp add: Buffer_init_def Buffer_contents_def)
  from buffer_memory_bounded [OF this] b show ?thesis by simp
qed

end
