(* ===== verification/ProtobufCodecs.thy ===== *)
theory ProtobufCodecs
  imports TcpConnections BufferBounds
begin

text \<open>
  \<open>protobuf/ProtobufCodec\<close> and \<open>protobuf/ProtobufDispatcher.h\<close>: a message on the wire is its length,
  the length of its type's name, the name with a zero byte, the serialized message and a checksum.
  The protobuf library and zlib's \<open>adler32\<close> are not part of the source: they are the record
  \<open>protobuf\<close> and the argument \<open>adler32\<close>, and what the theorems rely on is written out as a hypothesis.
\<close>

section \<open>The libraries\<close>

record ('m, 'd) protobuf =
  pb_GetTypeName :: "'m \<Rightarrow> byte list"
  pb_IsInitialized :: "'m \<Rightarrow> bool"
  pb_ByteSize :: "'m \<Rightarrow> nat"
  pb_SerializeToArray :: "'m \<Rightarrow> byte list"
  pb_FindMessageTypeByName :: "byte list \<Rightarrow> 'd option"
  pb_GetPrototype :: "'d \<Rightarrow> 'm option"
  pb_New :: "'m \<Rightarrow> 'm"
  pb_ParseFromArray :: "byte list \<Rightarrow> 'm \<Rightarrow> 'm \<times> bool"
  pb_GetDescriptor :: "'m \<Rightarrow> 'd"

type_synonym adler = "32 word \<Rightarrow> byte list \<Rightarrow> 32 word"

section \<open>Encoding and parsing one message\<close>

definition HEADER_LENGTH :: nat where
  "HEADER_LENGTH = 4"

definition MIN_MESSAGE_LENGTH :: nat where
  "MIN_MESSAGE_LENGTH = 2 * HEADER_LENGTH + 2"

definition MAX_MESSAGE_LENGTH :: nat where
  "MAX_MESSAGE_LENGTH = 64 * 1024 * 1024"

datatype eProtobufCodecError =
    ePCE_NoError
  | ePCE_InvalidLength
  | ePCE_CheckSumError
  | ePCE_InvalidNameLen
  | ePCE_UnknownMessageType
  | ePCE_ParseError

fun ErrorCodeToString :: "eProtobufCodecError \<Rightarrow> string" where
  "ErrorCodeToString ePCE_NoError = ''NoError''"
| "ErrorCodeToString ePCE_InvalidLength = ''InvalidLength''"
| "ErrorCodeToString ePCE_CheckSumError = ''CheckSumError''"
| "ErrorCodeToString ePCE_InvalidNameLen = ''InvalidNameLen''"
| "ErrorCodeToString ePCE_UnknownMessageType = ''UnknownMessageType''"
| "ErrorCodeToString ePCE_ParseError = ''ParseError''"

text \<open>\<open>AsInt32\<close> reads four bytes at an address; a negative offset is outside the object.\<close>

definition AsInt32 :: "endian \<Rightarrow> byte list \<Rightarrow> int \<Rightarrow> 32 word res" where
  "AsInt32 e mem pStrBuf =
     (if pStrBuf < 0 then Inl OutOfBounds
      else rbind (mem_read mem (nat pStrBuf) 4) (\<lambda>bs. Inr (NetworkToHost32 e (host_word32 e bs))))"

text \<open>
  Serializing writes into the space reserved behind the contents; a size that is not the one
  announced ends the program in \<open>ByteSizeConsistencyError\<close>.
\<close>

definition write_message :: "('m, 'd) protobuf \<Rightarrow> 'm \<Rightarrow> buffer \<Rightarrow> buffer res" where
  "write_message pb rMessage b =
     (let nByteSize = pb_ByteSize pb rMessage in
      rbind (Buffer_EnsureWritableBytes nByteSize b) (\<lambda>b1.
      rbind (mem_write (m_vBuffer b1) (Buffer_BeginWrite b1) (pb_SerializeToArray pb rMessage)) (\<lambda>v.
        if length (pb_SerializeToArray pb rMessage) \<noteq> nByteSize then Inl Aborted
        else Inr (Buffer_HasWritted nByteSize (b1\<lparr>m_vBuffer := v\<rparr>)))))"

definition append_checksum :: "endian \<Rightarrow> adler \<Rightarrow> buffer \<Rightarrow> buffer res" where
  "append_checksum e adler32 b =
     rbind (mem_read (m_vBuffer b) (Buffer_Peek b) (Buffer_ReadableBytes b)) (\<lambda>bs.
       Buffer_AppendInt32 e (adler32 1 bs) b)"

definition Codec_FillEmptyBuffer ::
    "('m, 'd) protobuf \<Rightarrow> adler \<Rightarrow> endian \<Rightarrow> buffer option \<Rightarrow> 'm \<Rightarrow> buffer res" where
  "Codec_FillEmptyBuffer pb adler32 e pBuf rMessage =
     (case pBuf of
        None \<Rightarrow> Inl AssertFailed
      | Some b \<Rightarrow>
          check (0 = Buffer_ReadableBytes b)
            (let rStrTypeName = pb_GetTypeName pb rMessage;
                 nNameLen = length rStrTypeName + 1 in
             rbind (Buffer_AppendInt32 e (word_of_nat nNameLen) b) (\<lambda>b.
             rbind (Buffer_Append (rStrTypeName @ [0]) b) (\<lambda>b.
             if \<not> pb_IsInitialized pb rMessage then Inl Aborted
             else rbind (write_message pb rMessage b) (\<lambda>b.
             rbind (append_checksum e adler32 b) (\<lambda>b.
             check (Buffer_ReadableBytes b = 4 + nNameLen + pb_ByteSize pb rMessage + 4)
               (let nLen = HostToNetwork32 e (word_of_nat (Buffer_ReadableBytes b))
                in Buffer_Prepend (host_bytes32 e nLen) b)))))))"

definition Codec_CreateMessage :: "('m, 'd) protobuf \<Rightarrow> byte list \<Rightarrow> 'm option" where
  "Codec_CreateMessage pb strTypeName =
     (case pb_FindMessageTypeByName pb strTypeName of
        None \<Rightarrow> None
      | Some pDescriptor \<Rightarrow>
          (case pb_GetPrototype pb pDescriptor of
             None \<Rightarrow> None
           | Some pProtoType \<Rightarrow> Some (pb_New pb pProtoType)))"

text \<open>\<open>mem\<close> is the memory from \<open>buf\<close> on. A message that does not parse is returned all the same.\<close>

definition Codec_Parse ::
    "('m, 'd) protobuf \<Rightarrow> adler \<Rightarrow> endian \<Rightarrow> byte list \<Rightarrow> int \<Rightarrow> ('m option \<times> eProtobufCodecError) res" where
  "Codec_Parse pb adler32 e mem nLength =
     rbind (AsInt32 e mem (nLength - 4)) (\<lambda>nExpectedCheckSum.
     rbind (mem_read mem 0 (nat (nLength - 4))) (\<lambda>checked.
       let nCheckSum = adler32 1 checked in
       if nCheckSum = nExpectedCheckSum
       then rbind (AsInt32 e mem 0) (\<lambda>w.
         let nNameLength = sint w in
         if 2 \<le> nNameLength \<and> nNameLength \<le> nLength - 2 * 4
         then rbind (mem_read mem 4 (nat (nNameLength - 1))) (\<lambda>strTypeName.
           case Codec_CreateMessage pb strTypeName of
             Some pMessage \<Rightarrow>
               (let nDataLen = nLength - nNameLength - 2 * 4 in
                rbind (mem_read mem (nat (4 + nNameLength)) (nat nDataLen)) (\<lambda>pData.
                  let (m, ok) = pb_ParseFromArray pb pData pMessage
                  in Inr (Some m, if ok then ePCE_NoError else ePCE_ParseError)))
           | None \<Rightarrow> Inr (None, ePCE_UnknownMessageType))
         else Inr (None, ePCE_InvalidNameLen))
       else Inr (None, ePCE_CheckSumError)))"

section \<open>Messages from a connection\<close>

text \<open>
  \<open>msgCB\<close> and \<open>errCB\<close> are the codec's callbacks on a state \<open>'s\<close> of the user; the second also gets
  the buffer.
\<close>

record ('m, 's) codec =
  pc_MessageCallBack :: "'m \<Rightarrow> 's \<Rightarrow> 's res"
  pc_ErrorCallBack :: "eProtobufCodecError \<Rightarrow> buffer \<times> 's \<Rightarrow> (buffer \<times> 's) res"

partial_function (option) Codec_OnMessage ::
    "('m, 'd) protobuf \<Rightarrow> adler \<Rightarrow> endian \<Rightarrow> ('m, 's) codec \<Rightarrow> buffer \<times> 's \<Rightarrow> (buffer \<times> 's) res option" where
  "Codec_OnMessage pb adler32 e c bs =
     (case bs of (b, s) \<Rightarrow>
       if MIN_MESSAGE_LENGTH + HEADER_LENGTH \<le> Buffer_ReadableBytes b
       then (case Buffer_PeekInt32 e b of
         Inl f \<Rightarrow> Some (Inl f)
       | Inr w \<Rightarrow>
         (let nLen = sint w in
          if int MAX_MESSAGE_LENGTH < nLen \<or> nLen < int MIN_MESSAGE_LENGTH
          then Some (pc_ErrorCallBack c ePCE_InvalidLength (b, s))
          else if nat nLen + HEADER_LENGTH \<le> Buffer_ReadableBytes b
          then (case Codec_Parse pb adler32 e (drop (Buffer_Peek b + HEADER_LENGTH) (m_vBuffer b)) nLen of
                  Inl f \<Rightarrow> Some (Inl f)
                | Inr (pMessage, eErr) \<Rightarrow>
                    (case (eErr, pMessage) of
                       (ePCE_NoError, Some m) \<Rightarrow>
                         (case rbind (pc_MessageCallBack c m s) (\<lambda>s1.
                                 rbind (Buffer_Retrieve (HEADER_LENGTH + nat nLen) b) (\<lambda>b1. Inr (b1, s1))) of
                            Inl f \<Rightarrow> Some (Inl f)
                          | Inr bs1 \<Rightarrow> Codec_OnMessage pb adler32 e c bs1)
                     | _ \<Rightarrow> Some (pc_ErrorCallBack c eErr (b, s))))
          else Some (Inr (b, s))))
       else Some (Inr (b, s)))"

definition Codec_Send ::
    "('m, 'd) protobuf \<Rightarrow> adler \<Rightarrow> endian \<Rightarrow> 'k epoll_ctl \<Rightarrow> nat \<Rightarrow> io_write \<Rightarrow> 'm \<Rightarrow> 'k conn \<Rightarrow> 'k conn res" where
  "Codec_Send pb adler32 e ctl tid w rMessage s =
     rbind (Codec_FillEmptyBuffer pb adler32 e (Some Buffer_init) rMessage) (\<lambda>buf.
     rbind (Connection_SendBuffer ctl tid w (Some buf) s) (\<lambda>(_, s1). Inr s1))"

definition Codec_defaultErrorCallBack :: "nat \<Rightarrow> 'k conn option \<Rightarrow> 'k conn option res" where
  "Codec_defaultErrorCallBack tid pTcpCon =
     (case pTcpCon of
        None \<Rightarrow> Inr None
      | Some s \<Rightarrow>
          (if Connection_IsConnected s then rbind (Connection_ShutDown tid s) (\<lambda>s1. Inr (Some s1))
           else Inr (Some s)))"

section \<open>Dispatching by type\<close>

text \<open>
  A callback registered for a type is kept under the type's descriptor. \<open>is_a d m\<close> says whether a
  \<open>dynamic_cast\<close> of the message to the type of \<open>d\<close> succeeds.
\<close>

record ('m, 'd, 's) dispatcher =
  pd_mpCallBack :: "'d \<rightharpoonup> ('d \<times> ('m \<Rightarrow> 's \<Rightarrow> 's res))"
  pd_DefaultCallBack :: "'m \<Rightarrow> 's \<Rightarrow> 's res"

definition Dispatcher_new :: "('m \<Rightarrow> 's \<Rightarrow> 's res) \<Rightarrow> ('m, 'd, 's) dispatcher" where
  "Dispatcher_new rDefaultCB = \<lparr>pd_mpCallBack = Map.empty, pd_DefaultCallBack = rDefaultCB\<rparr>"

definition Dispatcher_RegisterMessageCallBack ::
    "'d \<Rightarrow> ('m \<Rightarrow> 's \<Rightarrow> 's res) \<Rightarrow> ('m, 'd, 's) dispatcher \<Rightarrow> ('m, 'd, 's) dispatcher" where
  "Dispatcher_RegisterMessageCallBack descriptor rCallBack p =
     p\<lparr>pd_mpCallBack := (pd_mpCallBack p)(descriptor \<mapsto> (descriptor, rCallBack))\<rparr>"

text \<open>\<open>CallBackT::OnMessage\<close> and \<open>down_pointer_cast\<close>, which asserts that the cast succeeds.\<close>

definition CallBackT_OnMessage ::
    "('d \<Rightarrow> 'm \<Rightarrow> bool) \<Rightarrow> 'd \<times> ('m \<Rightarrow> 's \<Rightarrow> 's res) \<Rightarrow> 'm \<Rightarrow> 's \<Rightarrow> 's res" where
  "CallBackT_OnMessage is_a cb pMessage s =
     (case cb of (d, f) \<Rightarrow> check (is_a d pMessage) (f pMessage s))"

definition Dispatcher_OnProtobufMessage ::
    "('m, 'd2) protobuf \<Rightarrow> ('d2 \<Rightarrow> 'm \<Rightarrow> bool) \<Rightarrow> ('m, 'd2, 's) dispatcher \<Rightarrow> 'm \<Rightarrow> 's \<Rightarrow> 's res" where
  "Dispatcher_OnProtobufMessage pb is_a p pMessage s =
     (case pd_mpCallBack p (pb_GetDescriptor pb pMessage) of
        Some cb \<Rightarrow> CallBackT_OnMessage is_a cb pMessage s
      | None \<Rightarrow> pd_DefaultCallBack p pMessage s)"

text \<open>A message reaches the callback registered last for its descriptor, else the default.\<close>

lemma dispatch_registered:
  assumes "\<And>m. is_a (pb_GetDescriptor pb m) m"
  shows "Dispatcher_OnProtobufMessage pb is_a (Dispatcher_RegisterMessageCallBack d f p) m s =
    (if pb_GetDescriptor pb m = d then f m s else Dispatcher_OnProtobufMessage pb is_a p m s)"
  using assms [of m]
  by (auto simp: Dispatcher_OnProtobufMessage_def Dispatcher_RegisterMessageCallBack_def
      CallBackT_OnMessage_def split: option.splits)

lemma dispatch_default: "Dispatcher_OnProtobufMessage pb is_a (Dispatcher_new f) m s = f m s"
  by (simp add: Dispatcher_OnProtobufMessage_def Dispatcher_new_def)

section \<open>The wire format\<close>

text \<open>What stands on the wire for one message, without and with its length.\<close>

definition payload :: "('m, 'd) protobuf \<Rightarrow> adler \<Rightarrow> 'm \<Rightarrow> byte list" where
  "payload pb adler32 m =
     (let body = be_bytes32 (word_of_nat (length (pb_GetTypeName pb m) + 1)) @ pb_GetTypeName pb m @ [0] @
            pb_SerializeToArray pb m
      in body @ be_bytes32 (adler32 1 body))"

definition frame :: "('m, 'd) protobuf \<Rightarrow> adler \<Rightarrow> 'm \<Rightarrow> byte list" where
  "frame pb adler32 m =
     be_bytes32 (word_of_nat (length (payload pb adler32 m))) @ payload pb adler32 m"

text \<open>
  What is asked of the protobuf library for a message: it is initialized and named, its size is
  the number of bytes it serializes to, its type is found by its name, and parsing those bytes
  into a new message of the type gives it back. The message must also fit the codec's limit.
\<close>

definition message_ok :: "('m, 'd) protobuf \<Rightarrow> 'm \<Rightarrow> bool" where
  "message_ok pb m \<longleftrightarrow>
     pb_IsInitialized pb m \<and> pb_GetTypeName pb m \<noteq> [] \<and>
     pb_ByteSize pb m = length (pb_SerializeToArray pb m) \<and>
     (\<exists>d p. pb_FindMessageTypeByName pb (pb_GetTypeName pb m) = Some d \<and> pb_GetPrototype pb d = Some p \<and>
        pb_ParseFromArray pb (pb_SerializeToArray pb m) (pb_New pb p) = (m, True)) \<and>
     length (pb_GetTypeName pb m) + length (pb_SerializeToArray pb m) + 9 \<le> MAX_MESSAGE_LENGTH"

lemma length_payload:
  "length (payload pb adler32 m) = length (pb_GetTypeName pb m) + length (pb_SerializeToArray pb m) + 9"
  by (simp add: payload_def Let_def)

lemma length_frame: "length (frame pb adler32 m) = length (payload pb adler32 m) + 4"
  by (simp add: frame_def)

lemma sint_word_of_nat: "n < 2 ^ 31 \<Longrightarrow> sint (word_of_nat n :: 32 word) = int n"
  by (simp add: signed_of_nat signed_take_bit_int_eq_self_iff)

lemma after_room: "buffer_after b c n b' \<Longrightarrow> Buffer_room (n + k) b \<Longrightarrow> Buffer_room k b'"
  by (auto simp: buffer_after_def Buffer_room_def)

lemma room_mono: "Buffer_room n b \<Longrightarrow> k \<le> n \<Longrightarrow> Buffer_room k b"
  by (simp add: Buffer_room_def)

lemma write_message_append:
  assumes "pb_ByteSize pb m = length (pb_SerializeToArray pb m)"
  shows "write_message pb m b = Buffer_Append (pb_SerializeToArray pb m) b"
  using assms by (simp add: write_message_def Buffer_Append_def Let_def)

lemma append_checksum_append:
  assumes "buffer_inv b"
  shows "append_checksum e adler32 b = Buffer_Append (be_bytes32 (adler32 1 (Buffer_contents b))) b"
  using read_contents [OF assms] assms
  by (simp add: append_checksum_def Buffer_Peek_def Buffer_AppendInt32_def)

lemma FillEmptyBuffer_frame:
  assumes ok: "message_ok pb m" and inv: "buffer_inv b" and empty: "Buffer_contents b = []"
    and head: "8 \<le> m_unReaderIndex b" and room: "Buffer_room (length (payload pb adler32 m)) b"
  shows "\<exists>b'. Codec_FillEmptyBuffer pb adler32 e (Some b) m = Inr b' \<and> buffer_inv b' \<and>
    Buffer_contents b' = frame pb adler32 m"
proof -
  let ?name = "pb_GetTypeName pb m" and ?ser = "pb_SerializeToArray pb m"
  let ?h = "be_bytes32 (word_of_nat (length ?name + 1))"
  let ?body = "?h @ ?name @ [0] @ ?ser"
  have room: "Buffer_room (4 + (length ?name + 1 + (length ?ser + 4))) b"
    using room by (rule room_mono) (simp add: length_payload)
  obtain b1 where b1: "Buffer_Append ?h b = Inr b1" "buffer_after b ?h 4 b1"
    using Append_after [OF inv room_mono [OF room], of ?h] by (auto simp: empty)
  have r1: "Buffer_room (length ?name + 1 + (length ?ser + 4)) b1" by (rule after_room [OF b1(2) room])
  have i1: "buffer_inv b1" "Buffer_contents b1 = ?h" using b1(2) by (simp_all add: buffer_after_def)
  obtain b2 where b2: "Buffer_Append (?name @ [0]) b1 = Inr b2" "buffer_after b1 (?h @ ?name @ [0]) (length ?name + 1) b2"
    using Append_after [OF i1(1) room_mono [OF r1], of "?name @ [0]"] by (auto simp: i1)
  have r2: "Buffer_room (length ?ser + 4) b2" by (rule after_room [OF b2(2) r1])
  have i2: "buffer_inv b2" "Buffer_contents b2 = ?h @ ?name @ [0]" using b2(2) by (simp_all add: buffer_after_def)
  obtain b3 where b3: "Buffer_Append ?ser b2 = Inr b3" "buffer_after b2 ?body (length ?ser) b3"
    using Append_after [OF i2(1) room_mono [OF r2], of ?ser] by (auto simp: i2)
  have r3: "Buffer_room 4 b3" by (rule after_room [OF b3(2) r2])
  have i3: "buffer_inv b3" "Buffer_contents b3 = ?body" using b3(2) by (simp_all add: buffer_after_def)
  let ?sum = "be_bytes32 (adler32 1 ?body)"
  obtain b4 where b4: "Buffer_Append ?sum b3 = Inr b4" "buffer_after b3 (?body @ ?sum) 4 b4"
    using Append_after [OF i3(1), of ?sum] r3 by (auto simp: i3)
  have i4: "buffer_inv b4" "Buffer_contents b4 = payload pb adler32 m"
    using b4(2) by (simp_all add: buffer_after_def payload_def)
  have "8 \<le> m_unReaderIndex b4"
    using head b1(2) b2(2) b3(2) b4(2) by (simp add: buffer_after_def)
  then obtain b5 where b5: "Buffer_Prepend (be_bytes32 (word_of_nat (length (payload pb adler32 m)))) b4 = Inr b5"
    "buffer_inv b5" "Buffer_contents b5 = frame pb adler32 m"
    using Prepend_ok [OF i4(1), of "be_bytes32 (word_of_nat (length (payload pb adler32 m)))"]
    by (auto simp: i4 frame_def)
  have sizes: "Buffer_ReadableBytes b = 0" "Buffer_ReadableBytes b4 = length (payload pb adler32 m)"
    using Buffer_ReadableBytes_contents [OF inv] Buffer_ReadableBytes_contents [OF i4(1)] empty i4(2)
    by simp_all
  have "Codec_FillEmptyBuffer pb adler32 e (Some b) m = Inr b5"
    using ok sizes b1(1) b2(1) b3(1) b4(1) b5(1) i3
    by (simp add: Codec_FillEmptyBuffer_def message_ok_def Buffer_AppendInt32_def write_message_append
        append_checksum_append length_payload Let_def add.assoc del: buffer_sizes)
  with b5 show ?thesis by blast
qed

section \<open>Parsing\<close>

lemma mem_read_middle: "i = length xs \<Longrightarrow> n = length ys \<Longrightarrow> mem_read (xs @ ys @ zs) i n = Inr ys"
  by (simp add: mem_read_def)

lemma AsInt32_middle:
  assumes "p = int (length xs)"
  shows "AsInt32 e (xs @ be_bytes32 v @ ys) p = Inr v"
  using assms mem_read_middle [of "length xs" xs 4 "be_bytes32 v" ys]
  by (simp add: AsInt32_def)

lemma Parse_payload:
  assumes ok: "message_ok pb m"
  shows "Codec_Parse pb adler32 e (payload pb adler32 m @ rest) (int (length (payload pb adler32 m))) =
    Inr (Some m, ePCE_NoError)"
proof -
  let ?name = "pb_GetTypeName pb m" and ?ser = "pb_SerializeToArray pb m"
  let ?w = "word_of_nat (length ?name + 1) :: 32 word"
  let ?body = "be_bytes32 ?w @ ?name @ [0] @ ?ser"
  let ?sum = "be_bytes32 (adler32 1 ?body)"
  let ?mem = "payload pb adler32 m @ rest" and ?n = "length ?name + length ?ser + 9"
  have mem: "?mem = ?body @ ?sum @ rest" by (simp add: payload_def Let_def)
  have len: "length ?body = ?n - 4" by simp
  have small: "length ?name + 1 < 2 ^ 31" using ok by (simp add: message_ok_def MAX_MESSAGE_LENGTH_def)
  have w: "sint ?w = int (length ?name) + 1" using sint_word_of_nat [OF small] by simp
  have sum: "AsInt32 e ?mem (int ?n - 4) = Inr (adler32 1 ?body)"
    unfolding mem by (rule AsInt32_middle) (simp add: len)
  have body: "mem_read ?mem 0 (nat (int ?n - 4)) = Inr ?body"
  proof -
    have "nat (int ?n - 4) = length ?name + length ?ser + 5" by linarith
    moreover have "length ?body = length ?name + length ?ser + 5" by simp
    ultimately show ?thesis
      unfolding mem using mem_read_middle [of 0 "[]" "nat (int ?n - 4)" ?body "?sum @ rest"] by auto
  qed
  have name_len: "AsInt32 e ?mem 0 = Inr ?w"
    using AsInt32_middle [of 0 "[]" e ?w] by (simp add: mem)
  have name: "mem_read ?mem 4 (nat (int (length ?name) + 1 - 1)) = Inr ?name"
    using mem_read_middle [of 4 "be_bytes32 ?w" "length ?name" ?name] by (simp add: mem)
  have data: "mem_read ?mem (nat (4 + (int (length ?name) + 1))) (nat (int ?n - (int (length ?name) + 1) - 2 * 4)) = Inr ?ser"
    using mem_read_middle [of "nat (4 + (int (length ?name) + 1))" "be_bytes32 ?w @ ?name @ [0]"
        "nat (int ?n - (int (length ?name) + 1) - 2 * 4)" ?ser "?sum @ rest"]
    by (simp add: mem nat_add_distrib)
  obtain d p where d: "pb_FindMessageTypeByName pb ?name = Some d" "pb_GetPrototype pb d = Some p"
    "pb_ParseFromArray pb ?ser (pb_New pb p) = (m, True)"
    using ok by (auto simp: message_ok_def)
  have ne: "1 \<le> int (length ?name)"
    using ok by (cases ?name) (simp_all add: message_ok_def)
  show ?thesis
    unfolding Codec_Parse_def length_payload sum body rbind.simps name_len w Let_def
    using ne name data d by (simp add: Codec_CreateMessage_def)
qed

text \<open>Parsing reads nothing outside the announced length, whatever the bytes are.\<close>

lemma AsInt32_total: "0 \<le> p \<Longrightarrow> p + 4 \<le> int (length mem) \<Longrightarrow> \<exists>w. AsInt32 e mem p = Inr w"
  by (simp add: AsInt32_def mem_read_def)

lemma mem_read_total: "i + n \<le> length mem \<Longrightarrow> \<exists>bs. mem_read mem i n = Inr bs"
  by simp

lemma Parse_total:
  assumes "8 \<le> n" and "n \<le> int (length mem)"
  shows "\<exists>r. Codec_Parse pb adler32 e mem n = Inr r"
proof -
  obtain sum where sum: "AsInt32 e mem (n - 4) = Inr sum"
    using AsInt32_total [of "n - 4" mem e] assms by auto
  obtain body where body: "mem_read mem 0 (nat (n - 4)) = Inr body"
    using mem_read_total [of 0 "nat (n - 4)" mem] assms by auto
  obtain w where w: "AsInt32 e mem 0 = Inr w"
    using AsInt32_total [of 0 mem e] assms by auto
  show ?thesis
  proof (cases "2 \<le> sint w \<and> sint w \<le> n - 2 * 4")
    case False
    then show ?thesis by (auto simp: Codec_Parse_def sum body w Let_def)
  next
    case True
    then have lens: "4 + nat (sint w - 1) \<le> length mem"
      "nat (4 + sint w) + nat (n - sint w - 2 * 4) \<le> length mem" using assms by linarith+
    obtain name where name: "mem_read mem 4 (nat (sint w - 1)) = Inr name"
      using mem_read_total [OF lens(1)] by blast
    obtain data where data: "mem_read mem (nat (4 + sint w)) (nat (n - sint w - 2 * 4)) = Inr data"
      using mem_read_total [OF lens(2)] by blast
    show ?thesis
      unfolding Codec_Parse_def sum body w rbind.simps Let_def name
      using True data by (auto split: option.splits prod.splits)
  qed
qed

section \<open>The stream of messages\<close>

text \<open>The memory behind the length field begins with what the buffer still holds.\<close>

lemma memory_after:
  assumes "buffer_inv b" and "Buffer_contents b = xs @ ys"
  shows "\<exists>zs. drop (Buffer_Peek b + length xs) (m_vBuffer b) = ys @ zs"
proof -
  let ?k = "m_unWriterIndex b - m_unReaderIndex b" and ?v = "drop (m_unReaderIndex b) (m_vBuffer b)"
  have "take ?k ?v = xs @ ys" using assms(2) by (simp add: Buffer_contents_def)
  then have "?v = xs @ ys @ drop ?k ?v" by (metis append_assoc append_take_drop_id)
  then have "drop (length xs) ?v = ys @ drop ?k ?v" by (metis append_eq_conv_conj)
  then show ?thesis by (auto simp: Buffer_Peek_def add.commute)
qed

lemma peek_word:
  assumes "buffer_inv b" and "4 \<le> length (Buffer_contents b)"
  shows "\<exists>w. Buffer_PeekInt32 e b = Inr w"
  using assms read_prefix [OF assms]
  by (simp add: Buffer_PeekInt32_def Buffer_Peek_def del: length_Buffer_contents)
     (simp add: length_Buffer_contents)

lemma OnMessage_short:
  assumes "buffer_inv b" and "length (Buffer_contents b) < 14"
  shows "Codec_OnMessage pb adler32 e c (b, s) = Some (Inr (b, s))"
  using assms Buffer_ReadableBytes_contents [OF assms(1)]
  by (subst Codec_OnMessage.simps)
     (simp add: MIN_MESSAGE_LENGTH_def HEADER_LENGTH_def del: buffer_sizes length_Buffer_contents)

lemma payload_range:
  assumes "message_ok pb m"
  shows "sint (word_of_nat (length (payload pb adler32 m)) :: 32 word) = int (length (payload pb adler32 m))"
    and "10 \<le> length (payload pb adler32 m)" and "length (payload pb adler32 m) \<le> MAX_MESSAGE_LENGTH"
proof -
  have ne: "1 \<le> length (pb_GetTypeName pb m)"
    using assms by (cases "pb_GetTypeName pb m") (simp_all add: message_ok_def)
  show m: "length (payload pb adler32 m) \<le> MAX_MESSAGE_LENGTH"
    using assms by (simp add: message_ok_def length_payload)
  show "10 \<le> length (payload pb adler32 m)" using ne by (simp add: length_payload)
  show "sint (word_of_nat (length (payload pb adler32 m)) :: 32 word) = int (length (payload pb adler32 m))"
    using m by (intro sint_word_of_nat) (simp add: MAX_MESSAGE_LENGTH_def)
qed

lemma OnMessage_waits:
  assumes inv: "buffer_inv b" and ok: "message_ok pb m"
    and part: "frame pb adler32 m = Buffer_contents b @ r" "r \<noteq> []"
  shows "Codec_OnMessage pb adler32 e c (b, s) = Some (Inr (b, s))"
proof (cases "length (Buffer_contents b) < 14")
  case True
  with inv show ?thesis by (rule OnMessage_short)
next
  case False
  let ?w = "word_of_nat (length (payload pb adler32 m)) :: 32 word"
  have "take 4 (Buffer_contents b) = take 4 (frame pb adler32 m)" using False part(1) by simp
  also have "\<dots> = be_bytes32 ?w" by (simp add: frame_def)
  finally have c: "Buffer_contents b = be_bytes32 ?w @ drop 4 (Buffer_contents b)"
    by (metis append_take_drop_id)
  have peek: "Buffer_PeekInt32 e b = Inr ?w" by (rule PeekInt32_ok [OF inv c])
  have "length (Buffer_contents b) < length (payload pb adler32 m) + 4"
    using part length_frame [of pb adler32 m] by (cases r) auto
  with False Buffer_ReadableBytes_contents [OF inv] payload_range [OF ok, of adler32] peek show ?thesis
    by (subst Codec_OnMessage.simps)
       (simp add: MIN_MESSAGE_LENGTH_def HEADER_LENGTH_def Let_def del: buffer_sizes length_Buffer_contents)
qed

lemma OnMessage_delivers:
  assumes inv: "buffer_inv b" and ok: "message_ok pb m"
    and c: "Buffer_contents b = frame pb adler32 m @ rest" and cb: "pc_MessageCallBack c m s = Inr s1"
  shows "\<exists>b1. Codec_OnMessage pb adler32 e c (b, s) = Codec_OnMessage pb adler32 e c (b1, s1) \<and>
    buffer_inv b1 \<and> Buffer_contents b1 = rest \<and> m_unWriterIndex b1 = m_unWriterIndex b"
proof -
  let ?n = "length (payload pb adler32 m)"
  let ?w = "word_of_nat ?n :: 32 word"
  have c': "Buffer_contents b = be_bytes32 ?w @ payload pb adler32 m @ rest" using c by (simp add: frame_def)
  have peek: "Buffer_PeekInt32 e b = Inr ?w" by (rule PeekInt32_ok [OF inv c'])
  obtain zs where zs: "drop (Buffer_Peek b + 4) (m_vBuffer b) = payload pb adler32 m @ rest @ zs"
    using memory_after [OF inv c'] by auto
  have parse: "Codec_Parse pb adler32 e (drop (Buffer_Peek b + 4) (m_vBuffer b)) (int ?n) = Inr (Some m, ePCE_NoError)"
    unfolding zs by (rule Parse_payload [OF ok])
  have readable: "Buffer_ReadableBytes b = 4 + ?n + length rest"
    using Buffer_ReadableBytes_contents [OF inv] c' by simp
  have "length (frame pb adler32 m) = 4 + ?n" by (simp add: length_frame)
  then obtain b1 where b1: "Buffer_Retrieve (4 + ?n) b = Inr b1" "buffer_inv b1" "Buffer_contents b1 = rest"
    using RetrieveInt_ok [OF inv c] by auto
  have "Codec_OnMessage pb adler32 e c (b, s) = Codec_OnMessage pb adler32 e c (b1, s1)"
    using payload_range [OF ok, of adler32] peek parse readable cb b1(1)
    by (subst Codec_OnMessage.simps)
       (simp add: MIN_MESSAGE_LENGTH_def HEADER_LENGTH_def Let_def add.commute del: buffer_sizes length_Buffer_contents)
  with b1 Retrieve_writer [OF b1(1)] show ?thesis by blast
qed

text \<open>A library whose messages are their own bytes, and a checksum that adds them up.\<close>

definition demo_pb :: "(byte list, unit) protobuf" where
  "demo_pb =
     \<lparr>pb_GetTypeName = (\<lambda>_. [84]), pb_IsInitialized = (\<lambda>_. True), pb_ByteSize = length,
      pb_SerializeToArray = (\<lambda>m. m),
      pb_FindMessageTypeByName = (\<lambda>n. if n = [84] then Some () else None),
      pb_GetPrototype = (\<lambda>_. Some []), pb_New = (\<lambda>m. m), pb_ParseFromArray = (\<lambda>d _. (d, True)),
      pb_GetDescriptor = (\<lambda>_. ())\<rparr>"

definition demo_adler :: adler where
  "demo_adler a bs = foldl (\<lambda>s b. s + ucast b) a bs"

definition demo_codec :: "(byte list, byte list list) codec" where
  "demo_codec = \<lparr>pc_MessageCallBack = (\<lambda>m s. Inr (s @ [m])), pc_ErrorCallBack = (\<lambda>_. Inr)\<rparr>"

lemma demo_pb_ok: "length m \<le> 100 \<Longrightarrow> message_ok demo_pb m"
  by (simp add: message_ok_def demo_pb_def MAX_MESSAGE_LENGTH_def)

lemma demo_init: "8 \<le> m_unReaderIndex Buffer_init" "Buffer_room 13 Buffer_init"
  by (simp_all add: Buffer_init_def Buffer_room_def CHEAP_PREPEND_def vector_max_def)

lemma demo_payload: "length (payload demo_pb demo_adler [1, 2, 3]) = 13"
  by (simp add: length_payload demo_pb_def)

text \<open>
  C20: What \<open>FillEmptyBuffer\<close> encodes, \<open>Parse\<close> decodes: an empty buffer with room becomes the
  message's frame, whose first four bytes are the length of the rest, and parsing that rest,
  whatever follows it in memory, gives the message back without an error, on either byte order
  and for every checksum function.
\<close>

theorem codec_roundtrip:
  assumes "message_ok pb m" and "buffer_inv b" and "Buffer_contents b = []" and "8 \<le> m_unReaderIndex b"
    and "Buffer_room (length (payload pb adler32 m)) b"
  shows "\<exists>b' wire. Codec_FillEmptyBuffer pb adler32 e (Some b) m = Inr b' \<and> buffer_inv b' \<and>
    Buffer_contents b' = be_bytes32 (word_of_nat (length wire)) @ wire \<and>
    Codec_Parse pb adler32 e (wire @ behind) (int (length wire)) = Inr (Some m, ePCE_NoError)"
  using FillEmptyBuffer_frame [OF assms, of e] Parse_payload [OF assms(1), of adler32 e behind]
  by (auto simp: frame_def)

theorem codec_roundtrip_witness:
  "\<exists>b' wire. Codec_FillEmptyBuffer demo_pb demo_adler LittleEndian (Some Buffer_init) [1, 2, 3] = Inr b' \<and>
     Codec_Parse demo_pb demo_adler LittleEndian wire (int (length wire)) = Inr (Some [1, 2, 3], ePCE_NoError)"
  using codec_roundtrip [of demo_pb "[1, 2, 3]" Buffer_init demo_adler LittleEndian "[]"] demo_init
  by (auto simp: demo_pb_ok demo_payload)

text \<open>
  The codec recovers the messages from the byte stream wherever it is cut: when the buffer
  holds the frames of some messages followed by an incomplete frame, \<open>OnMessage\<close> hands exactly
  those messages to the callback, in order, and leaves exactly the incomplete frame for the
  bytes to come.
\<close>

lemma codec_stream:
  assumes "buffer_inv b" and "\<forall>m \<in> set ms. message_ok pb m"
    and "Buffer_contents b = concat (map (frame pb adler32) ms) @ rest"
    and "message_ok pb m" and "frame pb adler32 m = rest @ missing" and "missing \<noteq> []"
    and "rfold (pc_MessageCallBack c) ms s = Inr t"
  shows "\<exists>b'. Codec_OnMessage pb adler32 e c (b, s) = Some (Inr (b', t)) \<and> buffer_inv b' \<and>
    Buffer_contents b' = rest \<and> m_unWriterIndex b' = m_unWriterIndex b"
  using assms
proof (induction ms arbitrary: b s)
  case Nil
  then show ?case using OnMessage_waits [of b pb m adler32 missing e c s] by auto
next
  case (Cons m1 ms)
  then obtain s1 where s1: "pc_MessageCallBack c m1 s = Inr s1" "rfold (pc_MessageCallBack c) ms s1 = Inr t"
    by (auto simp: rbind_Inr)
  have "Buffer_contents b = frame pb adler32 m1 @ concat (map (frame pb adler32) ms) @ rest"
    using Cons.prems(3) by simp
  from OnMessage_delivers [OF Cons.prems(1) _ this s1(1), of e] Cons.prems(2)
  obtain b1 where b1: "Codec_OnMessage pb adler32 e c (b, s) = Codec_OnMessage pb adler32 e c (b1, s1)"
    "buffer_inv b1" "Buffer_contents b1 = concat (map (frame pb adler32) ms) @ rest"
    "m_unWriterIndex b1 = m_unWriterIndex b" by auto
  from Cons.IH [OF b1(2) _ b1(3) Cons.prems(4-6) s1(2)] Cons.prems(2) b1(1,4) show ?case by simp
qed

lemma parse_in_buffer:
  assumes inv: "buffer_inv b" and w: "10 \<le> n" "nat n + 4 \<le> length (Buffer_contents b)"
  shows "\<exists>pm er. Codec_Parse pb adler32 e (drop (Buffer_Peek b + HEADER_LENGTH) (m_vBuffer b)) n = Inr (pm, er)"
proof -
  let ?mem = "drop (Buffer_Peek b + HEADER_LENGTH) (m_vBuffer b)"
  have "length (Buffer_contents b) \<le> length (drop (m_unReaderIndex b) (m_vBuffer b))"
    by (simp add: Buffer_contents_def)
  then have mem: "n \<le> int (length ?mem)"
    using w unfolding Buffer_Peek_def HEADER_LENGTH_def length_drop by linarith
  have "8 \<le> n" using w(1) by simp
  from Parse_total [OF this mem] obtain r where r: "Codec_Parse pb adler32 e ?mem n = Inr r" by blast
  obtain pm er where "r = (pm, er)" by (cases r)
  with r show ?thesis by blast
qed

text \<open>One turn of the loop: it ends, or goes on with fewer bytes.\<close>

lemma OnMessage_turn:
  assumes inv: "buffer_inv b" and cb: "\<And>m s. returns (pc_MessageCallBack c m s)"
    and ecb: "\<And>er bs. returns (pc_ErrorCallBack c er bs)"
  shows "(\<exists>r. Codec_OnMessage pb adler32 e c (b, s) = Some (Inr r)) \<or>
    (\<exists>b1 s1. Codec_OnMessage pb adler32 e c (b, s) = Codec_OnMessage pb adler32 e c (b1, s1) \<and>
       buffer_inv b1 \<and> length (Buffer_contents b1) < length (Buffer_contents b))"
proof (cases "length (Buffer_contents b) < 14")
  case True
  then show ?thesis using OnMessage_short [OF inv True, of pb adler32 e c s] by blast
next
  case False
  have rd: "Buffer_ReadableBytes b = length (Buffer_contents b)" by (rule Buffer_ReadableBytes_contents [OF inv])
  obtain w where w: "Buffer_PeekInt32 e b = Inr w" using peek_word [OF inv, of e] False by auto
  have err: "\<exists>r. pc_ErrorCallBack c er bs = Inr r" for er bs using ecb [of er bs] by (simp add: returns_iff)
  note step = Codec_OnMessage.simps [of pb adler32 e c "(b, s)"]
  have enough: "MIN_MESSAGE_LENGTH + HEADER_LENGTH \<le> Buffer_ReadableBytes b"
    using False rd by (simp add: MIN_MESSAGE_LENGTH_def HEADER_LENGTH_def)
  show ?thesis
  proof (cases "int MAX_MESSAGE_LENGTH < sint w \<or> sint w < int MIN_MESSAGE_LENGTH \<or>
      length (Buffer_contents b) < nat (sint w) + HEADER_LENGTH")
    case True
    then show ?thesis
      using err w enough rd by (subst step) (auto simp: Let_def simp del: buffer_sizes length_Buffer_contents)
  next
    case len: False
    then have guard: "\<not> (int MAX_MESSAGE_LENGTH < sint w \<or> sint w < int MIN_MESSAGE_LENGTH)"
      "nat (sint w) + HEADER_LENGTH \<le> Buffer_ReadableBytes b" using rd by simp_all
    obtain pm er where pm: "Codec_Parse pb adler32 e (drop (Buffer_Peek b + HEADER_LENGTH) (m_vBuffer b)) (sint w) = Inr (pm, er)"
      using parse_in_buffer [OF inv, of "sint w" pb adler32 e] len
      by (auto simp: MIN_MESSAGE_LENGTH_def HEADER_LENGTH_def)
    show ?thesis
    proof (cases "er = ePCE_NoError \<and> pm \<noteq> None")
      case True
      then obtain m where m1: "pm = Some m" by auto
      obtain s1 where "pc_MessageCallBack c m s = Inr s1" using cb [of m s] by (auto simp: returns_iff)
      note m = m1 this
      have k: "HEADER_LENGTH + nat (sint w) \<le> length (Buffer_contents b)"
        using guard(2) rd by (simp add: add.commute)
      from Retrieve_ok [OF inv k] obtain b1 where b1: "Buffer_Retrieve (HEADER_LENGTH + nat (sint w)) b = Inr b1"
        "buffer_inv b1" "Buffer_contents b1 = drop (HEADER_LENGTH + nat (sint w)) (Buffer_contents b)"
        by blast
      have "Codec_OnMessage pb adler32 e c (b, s) = Codec_OnMessage pb adler32 e c (b1, s1)"
        using True guard w pm m enough b1(1) by (subst step) (simp add: Let_def del: buffer_sizes)
      moreover have "length (Buffer_contents b1) < length (Buffer_contents b)"
        unfolding b1(3) length_drop using False by (simp add: HEADER_LENGTH_def)
      ultimately show ?thesis using b1(2) by blast
    next
      case no: False
      have "Codec_OnMessage pb adler32 e c (b, s) = Some (pc_ErrorCallBack c er (b, s))"
        using no guard w pm enough
        by (subst step) (auto simp: Let_def simp del: buffer_sizes split: option.splits eProtobufCodecError.splits)
      then show ?thesis using err [of er "(b, s)"] by auto
    qed
  qed
qed

lemma OnMessage_total:
  assumes "buffer_inv b" and cb: "\<And>m s. returns (pc_MessageCallBack c m s)"
    and ecb: "\<And>er bs. returns (pc_ErrorCallBack c er bs)"
  shows "\<exists>r. Codec_OnMessage pb adler32 e c (b, s) = Some (Inr r)"
  using assms(1)
proof (induction "length (Buffer_contents b)" arbitrary: b s rule: less_induct)
  case less
  from OnMessage_turn [OF less.prems cb ecb, of pb adler32 e s] less.hyps show ?case by auto
qed

text \<open>
  C22: The codec is safe against any bytes: whatever a well-formed buffer holds, and whatever the
  protobuf library and the checksum make of it, \<open>OnMessage\<close> terminates, reads nothing outside the
  buffer and fails no assertion, given callbacks that return.
\<close>

theorem codec_total:
  assumes "buffer_inv b" and "\<forall>m s. returns (pc_MessageCallBack c m s)"
    and "\<forall>er bs. returns (pc_ErrorCallBack c er bs)"
  shows "\<exists>r. Codec_OnMessage pb adler32 e c (b, s) = Some (Inr r)"
  by (rule OnMessage_total) (use assms in auto)

theorem codec_total_witness:
  "\<exists>r. Codec_OnMessage demo_pb demo_adler BigEndian demo_codec (Buffer_init, []) = Some (Inr r)"
  by (rule codec_total) (simp_all add: demo_codec_def)

text \<open>A message whose checksum is wrong, and one whose length is out of range, reach the error callback.\<close>

lemma OnMessage_invalid_length:
  assumes "buffer_inv b" and "Buffer_contents b = be_bytes32 w @ rest" and "10 \<le> length rest"
    and "int MAX_MESSAGE_LENGTH < sint w \<or> sint w < int MIN_MESSAGE_LENGTH"
  shows "Codec_OnMessage pb adler32 e c (b, s) = Some (pc_ErrorCallBack c ePCE_InvalidLength (b, s))"
  using assms PeekInt32_ok [OF assms(1,2), of e] Buffer_ReadableBytes_contents [OF assms(1)]
  by (subst Codec_OnMessage.simps)
     (auto simp: MIN_MESSAGE_LENGTH_def HEADER_LENGTH_def Let_def simp del: buffer_sizes length_Buffer_contents)

lemma Parse_checksum:
  assumes "AsInt32 e mem (n - 4) = Inr expected" and "mem_read mem 0 (nat (n - 4)) = Inr body"
    and "adler32 1 body \<noteq> expected"
  shows "Codec_Parse pb adler32 e mem n = Inr (None, ePCE_CheckSumError)"
  using assms by (simp add: Codec_Parse_def Let_def)

text \<open>
  What \<open>Parse\<close> makes of a message, stated on the bytes alone: \<open>w\<close> is the length of the name with
  its terminating zero, \<open>inside\<close> the name and the data, \<open>c\<close> the checksum.
\<close>

definition decode_message ::
    "('m, 'd) protobuf \<Rightarrow> adler \<Rightarrow> 32 word \<Rightarrow> byte list \<Rightarrow> 32 word \<Rightarrow> 'm option \<times> eProtobufCodecError" where
  "decode_message pb adler32 w inside c =
     (if adler32 1 (be_bytes32 w @ inside) \<noteq> c then (None, ePCE_CheckSumError)
      else if sint w < 2 \<or> int (length inside) < sint w then (None, ePCE_InvalidNameLen)
      else case Codec_CreateMessage pb (take (nat (sint w) - 1) inside) of
        None \<Rightarrow> (None, ePCE_UnknownMessageType)
      | Some m0 \<Rightarrow>
          (case pb_ParseFromArray pb (drop (nat (sint w)) inside) m0 of
             (m, ok) \<Rightarrow> (Some m, if ok then ePCE_NoError else ePCE_ParseError)))"

lemma mem_read_prefix:
  "n \<le> length ys \<Longrightarrow> mem_read (ys @ zs) 0 n = Inr (take n ys)"
  by (simp add: mem_read_def)

lemma mem_read_inside:
  "i = length xs + j \<Longrightarrow> j + n \<le> length ys \<Longrightarrow> mem_read (xs @ ys @ zs) i n = Inr (take n (drop j ys))"
  by (simp add: mem_read_def)

text \<open>
  C21: \<open>Parse\<close> decides every message the way the format says, on either kind of host: from the
  memory of a message (name length, name and data, checksum, followed by anything) it gives what
  \<open>decode_message\<close> gives from the bytes. The checksum is tested first, then the length of the name,
  then whether the type is known, then whether the data parse; each test has its own error, and
  nothing behind the checksum is looked at.
\<close>

theorem Parse_decodes:
  "Codec_Parse pb adler32 e (be_bytes32 w @ inside @ be_bytes32 c @ rest) (int (length inside) + 8) =
   Inr (decode_message pb adler32 w inside c)"
proof -
  let ?body = "be_bytes32 w @ inside" and ?n = "int (length inside) + 8"
  let ?mem = "be_bytes32 w @ inside @ be_bytes32 c @ rest"
  have sum: "AsInt32 e ?mem (?n - 4) = Inr c"
    using AsInt32_middle [of "?n - 4" ?body e c rest] by simp
  have "nat (?n - 4) = length ?body" by simp
  then have body: "mem_read ?mem 0 (nat (?n - 4)) = Inr ?body"
    using mem_read_prefix [of "length ?body" ?body "be_bytes32 c @ rest"] by simp
  have head: "AsInt32 e ?mem 0 = Inr w" using AsInt32_middle [of 0 "[]" e w] by simp
  show ?thesis
  proof (cases "2 \<le> sint w \<and> sint w \<le> int (length inside)")
    case False
    then show ?thesis
      unfolding Codec_Parse_def sum body head rbind.simps Let_def by (auto simp: decode_message_def)
  next
    case True
    define k where "k = nat (sint w)"
    then have k: "sint w = int k" "2 \<le> k" "k \<le> length inside" using True by auto
    have name: "mem_read ?mem 4 (nat (sint w - 1)) = Inr (take (k - 1) inside)"
      using mem_read_inside [of 4 "be_bytes32 w" 0 "k - 1" inside "be_bytes32 c @ rest"] k
      by (simp add: nat_diff_distrib)
    have data: "mem_read ?mem (nat (4 + sint w)) (nat (?n - sint w - 2 * 4)) = Inr (drop k inside)"
      using mem_read_inside [of "nat (4 + sint w)" "be_bytes32 w" k "nat (?n - sint w - 2 * 4)" inside
          "be_bytes32 c @ rest"] k
      by (simp add: nat_add_distrib)
    have k': "nat (sint w) = k" using k(1) by simp
    show ?thesis
      unfolding Codec_Parse_def sum body head rbind.simps Let_def name data
      using True by (auto simp: decode_message_def k' split: option.split prod.split)
  qed
qed

text \<open>The damaged buffers of \<open>ProtobufCodec_test.cpp\<close>, for any message: each has its error.\<close>

lemma damaged_messages:
  "adler32 1 (be_bytes32 w @ inside) \<noteq> c \<Longrightarrow>
     decode_message pb adler32 w inside c = (None, ePCE_CheckSumError)"
  "sint w < 2 \<or> int (length inside) < sint w \<Longrightarrow>
     decode_message pb adler32 w inside (adler32 1 (be_bytes32 w @ inside)) = (None, ePCE_InvalidNameLen)"
  "2 \<le> sint w \<Longrightarrow> sint w \<le> int (length inside) \<Longrightarrow> pb_FindMessageTypeByName pb (take (nat (sint w) - 1) inside) = None \<Longrightarrow>
     decode_message pb adler32 w inside (adler32 1 (be_bytes32 w @ inside)) = (None, ePCE_UnknownMessageType)"
  by (auto simp: decode_message_def Codec_CreateMessage_def)

section \<open>Types of messages\<close>

lemma dispatch_fold:
  assumes "\<And>m. is_a (pb_GetDescriptor pb m) m"
  shows "Dispatcher_OnProtobufMessage pb is_a
      (fold (\<lambda>(d, f). Dispatcher_RegisterMessageCallBack d f) regs (Dispatcher_new g)) m s =
    (case map_of (rev regs) (pb_GetDescriptor pb m) of Some f \<Rightarrow> f m s | None \<Rightarrow> g m s)"
  by (induction regs rule: rev_induct)
     (auto simp: dispatch_default dispatch_registered [where is_a = is_a, OF assms])

text \<open>
  C26: Whatever callbacks were registered, and in whatever order, a message goes to the callback
  registered last for its own type, or to the default one when there is none: a callback is only
  ever given a message of the type it was registered for, and the cast in \<open>OnMessage\<close> never fails.
\<close>

theorem dispatcher_typed:
  assumes "\<And>m. is_a (pb_GetDescriptor pb m) m"
    and "\<forall>(d, f) \<in> set regs. \<forall>m s. is_a d m \<longrightarrow> (\<exists>t. f m s = Inr t)" and "\<forall>m s. \<exists>t. g m s = Inr t"
  shows "\<exists>t. Dispatcher_OnProtobufMessage pb is_a
      (fold (\<lambda>(d, f). Dispatcher_RegisterMessageCallBack d f) regs (Dispatcher_new g)) m s = Inr t \<and>
    Inr t = (case map_of (rev regs) (pb_GetDescriptor pb m) of Some f \<Rightarrow> f m s | None \<Rightarrow> g m s)"
proof (cases "map_of (rev regs) (pb_GetDescriptor pb m)")
  case None
  then show ?thesis using assms(3) by (simp add: dispatch_fold [where is_a = is_a, OF assms(1)]) metis
next
  case (Some f)
  then have "(pb_GetDescriptor pb m, f) \<in> set regs" using map_of_SomeD by fastforce
  then have "\<exists>t. f m s = Inr t" using assms(1,2) by blast
  then show ?thesis using Some by (simp add: dispatch_fold [where is_a = is_a, OF assms(1)]) metis
qed

theorem dispatcher_typed_witness:
  "\<exists>t. Dispatcher_OnProtobufMessage demo_pb (\<lambda>d m. d = ()) (fold (\<lambda>(d, f). Dispatcher_RegisterMessageCallBack d f)
      [((), \<lambda>m s. Inr (m # s))] (Dispatcher_new (\<lambda>m s. Inr s))) [7] [] = Inr t \<and> t = [[7]]"
  using dispatcher_typed [of "\<lambda>d m. d = ()" demo_pb "[((), \<lambda>m s. Inr (m # s))]" "\<lambda>m s. Inr s" "[7]" "[]"]
  by simp

end
