(* ===== verification/CodecStreams.thy ===== *)
theory CodecStreams
  imports ProtobufCodecs
begin

text \<open>
  The protobuf codec over two connections: messages sent on one through \<open>ProtobufCodec::Send\<close>,
  cut into pieces on the way, and read on the other by \<open>TcpConnection::handleRead\<close> with
  \<open>ProtobufCodec::OnMessage\<close> as the message callback.
\<close>

section \<open>The sending side\<close>

lemma send_rest_accepted:
  assumes "chan_ok interest s" and "epoll_ok ctl interest" and "buffer_inv (c_OutputBuffer s)"
    and "Buffer_room (length rest) (c_OutputBuffer s)" and "send_rest ctl (s_ThreadId s) rest s = Inr t"
  shows "g_Accepted t = g_Accepted s"
  using send_rest_ok [OF assms(1-4)] assms(5) by (simp add: keeps_rest_def)

lemma sendInLoop_accepts:
  assumes inv: "conn_inv interest s" and ctl: "epoll_ok ctl interest"
    and room: "Buffer_room (length pData) (c_OutputBuffer s)" and st: "c_eConnectState s \<noteq> eTCS_Disconnected"
    and run: "Connection_sendInLoop ctl (s_ThreadId s) w pData s = Inr t"
  shows "g_Accepted t = g_Accepted s @ pData"
proof -
  have c: "chan_ok interest s" "buffer_inv (c_OutputBuffer s)" using inv by (simp_all add: conn_inv_def)
  obtain ch where ch: "s_Channels s (c_pChannel s) = Some ch" using chan_ok_live [OF c(1)] by blast
  have sub: "Buffer_room (length (drop n pData)) (c_OutputBuffer s)" for n
    using room by (simp add: Buffer_room_def)
  have all: "g_Accepted t = g_Accepted u"
    if "send_rest ctl (s_ThreadId s) (drop n pData) u = Inr t" "chan_ok interest u"
      "s_ThreadId u = s_ThreadId s" "c_OutputBuffer u = c_OutputBuffer s" for n u
    by (rule send_rest_accepted [OF that(2) ctl, of "drop n pData"]) (use that c sub in auto)
  show ?thesis
  proof (cases "\<not> Channel_IsWriting ch \<and> Buffer_ReadableBytes (c_OutputBuffer s) = 0")
    case False
    then have "send_rest ctl (s_ThreadId s) (drop 0 pData) (s\<lparr>g_Accepted := g_Accepted s @ pData\<rparr>) = Inr t"
      using run st ch by (auto simp: Connection_sendInLoop_def Let_def)
    then show ?thesis using all [of 0 "s\<lparr>g_Accepted := g_Accepted s @ pData\<rparr>"] c by simp
  next
    case True
    show ?thesis
    proof (cases w)
      case (Wrote n)
      let ?s1 = "s\<lparr>g_Accepted := g_Accepted s @ pData, w_Wire := w_Wire s @ take n pData\<rparr>"
      let ?s2 = "if size_minus (length pData) n = 0 then queue_write_complete (s_ThreadId s) ?s1 else ?s1"
      have "send_rest ctl (s_ThreadId s) (drop n pData) ?s2 = Inr t"
        using run st ch True Wrote by (simp add: Connection_sendInLoop_def Let_def res_simps)
      then show ?thesis using all [of n ?s2] c by (simp split: if_splits)
    next
      case WriteFails
      then have "send_rest ctl (s_ThreadId s) (drop 0 pData) (s\<lparr>g_Accepted := g_Accepted s @ pData\<rparr>) = Inr t"
        using run st ch True by (simp add: Connection_sendInLoop_def Let_def)
      then show ?thesis using all [of 0 "s\<lparr>g_Accepted := g_Accepted s @ pData\<rparr>"] c by simp
    qed
  qed
qed

text \<open>On a connected connection \<open>Send\<close> in the loop's thread hands over exactly the message's frame.\<close>

lemma Codec_Send_accepts:
  assumes inv: "conn_inv interest s" and ctl: "epoll_ok ctl interest" and ok: "message_ok pb m"
    and room: "Buffer_room (length (frame pb adler32 m)) (c_OutputBuffer s)"
    and st: "c_eConnectState s = eTCS_Connected"
    and run: "Codec_Send pb adler32 e ctl (s_ThreadId s) w m s = Inr t"
  shows "g_Accepted t = g_Accepted s @ frame pb adler32 m"
proof -
  have r: "Buffer_room (length (payload pb adler32 m)) Buffer_init"
    using ok by (simp add: Buffer_room_def Buffer_init_def CHEAP_PREPEND_def vector_max_def message_ok_def
        MAX_MESSAGE_LENGTH_def length_payload)
  have empty: "Buffer_contents Buffer_init = []" "8 \<le> m_unReaderIndex Buffer_init"
    by (simp_all add: Buffer_init_def Buffer_contents_def CHEAP_PREPEND_def)
  obtain b where b: "Codec_FillEmptyBuffer pb adler32 e (Some Buffer_init) m = Inr b" "buffer_inv b"
      "Buffer_contents b = frame pb adler32 m"
    using FillEmptyBuffer_frame [OF ok buffer_inv_init empty r] by blast
  have "Connection_sendInLoop ctl (s_ThreadId s) w (frame pb adler32 m) s = Inr t"
    using run st b RetrieveAsString_ok [OF b(2)]
    by (auto simp: Codec_Send_def Connection_SendBuffer_def Connection_IsConnected_def
        EventLoop_IsInLoopThread_def res_simps)
  then show ?thesis by (rule sendInLoop_accepts [OF inv ctl room, rotated]) (simp add: st)
qed

section \<open>The receiving side\<close>

text \<open>
  What \<open>handleRead\<close> does with \<open>d\<close> bytes when \<open>OnMessage\<close> of the codec is the message callback; the
  user's part of the state is \<open>u\<close>.
\<close>

definition codec_read ::
    "('m, 'd) protobuf \<Rightarrow> adler \<Rightarrow> endian \<Rightarrow> ('m, 's) codec \<Rightarrow> byte list \<Rightarrow> buffer \<times> 's \<Rightarrow> (buffer \<times> 's) res option" where
  "codec_read pb adler32 e c d bu =
     (case Buffer_ReadFd (ReadBytes d) (fst bu) of
        Inl f \<Rightarrow> Some (Inl f)
      | Inr (_, _, b) \<Rightarrow> Codec_OnMessage pb adler32 e c (b, snd bu))"

primrec codec_reads ::
    "('m, 'd) protobuf \<Rightarrow> adler \<Rightarrow> endian \<Rightarrow> ('m, 's) codec \<Rightarrow> byte list list \<Rightarrow> buffer \<times> 's \<Rightarrow> (buffer \<times> 's) res option" where
  "codec_reads pb adler32 e c [] bu = Some (Inr bu)"
| "codec_reads pb adler32 e c (d # ds) bu =
     (case codec_read pb adler32 e c d bu of
        Some (Inr bu1) \<Rightarrow> codec_reads pb adler32 e c ds bu1
      | r \<Rightarrow> r)"

lemma handleRead_is_codec_read:
  assumes user: "\<And>s. user (OnMessage time) s =
      (case Codec_OnMessage pb adler32 e c (c_InputBuffer s, u) of
         Some (Inr (b, _)) \<Rightarrow> Inr (s\<lparr>c_InputBuffer := b\<rparr>) | Some (Inl f) \<Rightarrow> Inl f | None \<Rightarrow> Inl Aborted)"
    and inv: "buffer_inv (c_InputBuffer s)" "Buffer_room (length d) (c_InputBuffer s)"
    and d: "d \<noteq> []" "c_MsgCallBack s"
    and run: "codec_read pb adler32 e c d (c_InputBuffer s, u) = Some (Inr (b, v))"
  shows "Connection_handleRead ctl user tid (ReadBytes d) time s = Inr (s\<lparr>c_InputBuffer := b\<rparr>)"
proof -
  obtain b1 where b1: "Buffer_ReadFd (ReadBytes d) (c_InputBuffer s) = Inr (int (length d), None, b1)"
    using ReadFd_bytes_ok [OF inv] by blast
  then show ?thesis using run d by (simp add: Connection_handleRead_def codec_read_def user Let_def)
qed

text \<open>A prefix of a sequence of frames is some whole frames and the beginning of the next.\<close>

lemma frames_prefix:
  assumes "xs @ ys = concat (map f ms)" and "\<forall>m\<in>set ms. f m \<noteq> []"
  shows "\<exists>got todo rest. ms = got @ todo \<and> xs = concat (map f got) @ rest \<and> (todo = [] \<longrightarrow> rest = []) \<and>
    (\<forall>m t. todo = m # t \<longrightarrow> (\<exists>missing. f m = rest @ missing \<and> missing \<noteq> []))"
  using assms
proof (induction ms arbitrary: xs)
  case Nil
  then show ?case by simp
next
  case (Cons m ms)
  show ?case
  proof (cases "length xs < length (f m)")
    case True
    have "f m = xs @ drop (length xs) (f m)"
      using arg_cong [OF Cons.prems(1), of "take (length xs)"] True
      by simp (metis append_take_drop_id)
    then show ?thesis using True
      by (intro exI [of _ "[]"] exI [of _ "m # ms"] exI [of _ xs]) (auto intro!: exI [of _ "drop (length xs) (f m)"])
  next
    case False
    have "xs @ ys = f m @ concat (map f ms)" using Cons.prems(1) by simp
    then obtain us where "xs @ us = f m \<and> ys = us @ concat (map f ms) \<or> xs = f m @ us \<and> us @ ys = concat (map f ms)"
      by (auto simp: append_eq_append_conv2)
    moreover have "us = []" if "xs @ us = f m" using False that [symmetric] by (cases us) simp_all
    ultimately obtain xs' where xs': "xs = f m @ xs'" "xs' @ ys = concat (map f ms)" by auto
    from Cons.IH [OF xs'(2)] Cons.prems(2) obtain got todo rest where "ms = got @ todo"
        "xs' = concat (map f got) @ rest" "todo = [] \<longrightarrow> rest = []"
        "\<forall>m t. todo = m # t \<longrightarrow> (\<exists>missing. f m = rest @ missing \<and> missing \<noteq> [])" by auto
    then show ?thesis using xs'(1) by (intro exI [of _ "m # got"] exI [of _ todo] exI [of _ rest]) simp
  qed
qed

lemma rfold_prefix: "rfold f (xs @ ys) s = Inr t \<Longrightarrow> \<exists>u. rfold f xs s = Inr u \<and> rfold f ys u = Inr t"
  by (simp add: rfold_append res_simps)

text \<open>One read: the messages completed by it are delivered, the beginning of the next is kept.\<close>

lemma codec_read_step:
  assumes inv: "buffer_inv b" and room: "Buffer_room (length d) b"
    and ok: "\<forall>m\<in>set ms. message_ok pb m" "ms \<noteq> []"
    and stream: "Buffer_contents b @ d @ rest = concat (map (frame pb adler32) ms)"
    and cb: "rfold (pc_MessageCallBack c) ms s = Inr t"
  shows "\<exists>got todo b' v. ms = got @ todo \<and> codec_read pb adler32 e c d (b, s) = Some (Inr (b', v)) \<and>
    rfold (pc_MessageCallBack c) got s = Inr v \<and> rfold (pc_MessageCallBack c) todo v = Inr t \<and> buffer_inv b' \<and>
    Buffer_contents b' @ rest = concat (map (frame pb adler32) todo) \<and>
    (\<forall>m u. todo = m # u \<longrightarrow> length (Buffer_contents b') < length (frame pb adler32 m)) \<and>
    m_unWriterIndex b' \<le> m_unWriterIndex b + length d"
proof -
  let ?f = "frame pb adler32"
  have ne: "\<forall>m\<in>set ms. ?f m \<noteq> []" by (simp add: frame_def be_bytes32_def)
  obtain b1 where b1: "Buffer_ReadFd (ReadBytes d) b = Inr (int (length d), None, b1)" "buffer_inv b1"
      "Buffer_contents b1 = Buffer_contents b @ d"
    using ReadFd_bytes_ok [OF inv room] by blast
  have "Buffer_contents b1 @ rest = concat (map ?f ms)" using stream b1(3) by simp
  from frames_prefix [OF this ne] obtain got todo part where split: "ms = got @ todo"
      "Buffer_contents b1 = concat (map ?f got) @ part" "todo = [] \<longrightarrow> part = []"
      "\<forall>m t. todo = m # t \<longrightarrow> (\<exists>missing. ?f m = part @ missing \<and> missing \<noteq> [])" by blast
  obtain m missing where m: "message_ok pb m" "?f m = part @ missing" "missing \<noteq> []"
  proof (cases todo)
    case Nil
    then show thesis using that [of "hd ms" "?f (hd ms)"] split(3) ok ne by simp
  next
    case (Cons m t)
    then show thesis using that [of m] split(1,4) ok by auto
  qed
  obtain v where v: "rfold (pc_MessageCallBack c) got s = Inr v" "rfold (pc_MessageCallBack c) todo v = Inr t"
    using rfold_prefix [of "pc_MessageCallBack c" got todo s t] cb split(1) by blast
  have got_ok: "\<forall>m\<in>set got. message_ok pb m" using ok split(1) by simp
  from codec_stream [OF b1(2) got_ok split(2) m v(1)]
  obtain b' where b': "Codec_OnMessage pb adler32 e c (b1, s) = Some (Inr (b', v))" "buffer_inv b'"
      "Buffer_contents b' = part" "m_unWriterIndex b' = m_unWriterIndex b1" by blast
  have "part @ rest = concat (map ?f todo)"
    using stream split(1,2) b1(3) by (metis append.assoc concat_append map_append same_append_eq)
  moreover have "length part < length (?f m')" if "todo = m' # u" for m' u
    using split(4) that by (metis length_append length_greater_0_conv less_add_same_cancel1)
  ultimately show ?thesis
    using split(1) b1(1) b' v ReadFd_writer [OF inv room b1(1)]
    by (intro exI [of _ got] exI [of _ todo] exI [of _ b'] exI [of _ v])
       (auto simp: codec_read_def simp del: length_Buffer_contents)
qed

lemma codec_reads_deliver:
  assumes "buffer_inv b" and "Buffer_room (length (concat chunks)) b" and "\<forall>d\<in>set chunks. d \<noteq> []"
    and "\<forall>m\<in>set ms. message_ok pb m"
    and "Buffer_contents b @ concat chunks @ rest = concat (map (frame pb adler32) ms)"
    and "\<forall>m u. ms = m # u \<longrightarrow> length (Buffer_contents b) < length (frame pb adler32 m)"
    and "rfold (pc_MessageCallBack c) ms s = Inr t"
  shows "\<exists>got todo b' v. ms = got @ todo \<and> codec_reads pb adler32 e c chunks (b, s) = Some (Inr (b', v)) \<and>
    rfold (pc_MessageCallBack c) got s = Inr v \<and> Buffer_contents b' @ rest = concat (map (frame pb adler32) todo) \<and>
    (\<forall>m u. todo = m # u \<longrightarrow> length (Buffer_contents b') < length (frame pb adler32 m))"
  using assms
proof (induction chunks arbitrary: b s ms)
  case Nil
  then show ?case by (intro exI [of _ "[]"] exI [of _ ms] exI [of _ b] exI [of _ s]) simp
next
  case (Cons d ds)
  have ms: "ms \<noteq> []" using Cons.prems(3,5) by auto
  have room: "Buffer_room (length d) b" using Cons.prems(2) by (simp add: Buffer_room_def)
  have stream: "Buffer_contents b @ d @ concat ds @ rest = concat (map (frame pb adler32) ms)"
    using Cons.prems(5) by simp
  from codec_read_step [OF Cons.prems(1) room Cons.prems(4) ms stream Cons.prems(7)]
  obtain got todo b1 v where 1: "ms = got @ todo" "codec_read pb adler32 e c d (b, s) = Some (Inr (b1, v))"
      "rfold (pc_MessageCallBack c) got s = Inr v" "rfold (pc_MessageCallBack c) todo v = Inr t" "buffer_inv b1"
      "Buffer_contents b1 @ concat ds @ rest = concat (map (frame pb adler32) todo)"
      "\<forall>m u. todo = m # u \<longrightarrow> length (Buffer_contents b1) < length (frame pb adler32 m)"
      "m_unWriterIndex b1 \<le> m_unWriterIndex b + length d" by blast
  have "Buffer_room (length (concat ds)) b1" using Cons.prems(2) 1(8) by (simp add: Buffer_room_def)
  from Cons.IH [OF 1(5) this _ _ 1(6,7,4)] Cons.prems(3,4) 1(1)
  obtain got' todo' b' v' where 2: "todo = got' @ todo'" "codec_reads pb adler32 e c ds (b1, v) = Some (Inr (b', v'))"
      "rfold (pc_MessageCallBack c) got' v = Inr v'" "Buffer_contents b' @ rest = concat (map (frame pb adler32) todo')"
      "\<forall>m u. todo' = m # u \<longrightarrow> length (Buffer_contents b') < length (frame pb adler32 m)" by auto
  then show ?case using 1
    by (intro exI [of _ "got @ got'"] exI [of _ todo'] exI [of _ b'] exI [of _ v']) (simp add: rfold_append)
qed

text \<open>
  C16: Messages go from connection to connection whole, once and in order. Take any state of a
  sending connection all of whose data are the frames of \<open>ms\<close> (as \<open>Codec_Send\<close> hands them over),
  and let any part of what it has written arrive, cut into any non-empty pieces. Then the receiving
  codec, run by \<open>handleRead\<close> on each piece, never fails and has handed to its callback exactly the
  messages whose frames have arrived completely, keeping the beginning of the next; when everything
  has been written and has arrived these are all of \<open>ms\<close>.
\<close>

theorem messages_end_to_end:
  assumes sender: "reach (conn_start interest) (conn_move ctl user) s" "connection_user interest user"
      "epoll_ok ctl interest" "c_bAlive s"
    and sent: "g_Accepted s = concat (map (frame pb adler32) ms)" "\<forall>m\<in>set ms. message_ok pb m"
    and arrived: "w_Wire s = concat chunks @ inflight" "\<forall>d\<in>set chunks. d \<noteq> []"
      "length (concat chunks) + 8 \<le> vector_max"
    and cb: "rfold (pc_MessageCallBack c) ms u = Inr t"
  shows "\<exists>got todo b v. ms = got @ todo \<and> codec_reads pb adler32 e c chunks (Buffer_init, u) = Some (Inr (b, v)) \<and>
    rfold (pc_MessageCallBack c) got u = Inr v \<and>
    concat (map (frame pb adler32) got) @ Buffer_contents b = concat chunks \<and>
    (\<forall>m ms'. todo = m # ms' \<longrightarrow> length (Buffer_contents b) < length (frame pb adler32 m)) \<and>
    (inflight = [] \<and> Buffer_contents (c_OutputBuffer s) = [] \<longrightarrow> got = ms)"
proof -
  let ?f = "frame pb adler32" and ?rest = "inflight @ Buffer_contents (c_OutputBuffer s)"
  have empty: "Buffer_contents Buffer_init = []" by (simp add: Buffer_init_def Buffer_contents_def)
  have room: "Buffer_room (length (concat chunks)) Buffer_init"
    using arrived(3) by (simp add: Buffer_room_def Buffer_init_def CHEAP_PREPEND_def)
  have "w_Wire s @ Buffer_contents (c_OutputBuffer s) = g_Accepted s"
    using conn_reach_inv [OF sender] by (simp add: conn_inv_def)
  then have stream: "Buffer_contents Buffer_init @ concat chunks @ ?rest = concat (map ?f ms)"
    using arrived(1) sent(1) empty by simp
  have pos: "?f m \<noteq> []" for m by (simp add: frame_def be_bytes32_def)
  from codec_reads_deliver [where e = e, OF buffer_inv_init room arrived(2) sent(2) stream _ cb] pos empty
  obtain got todo b v where r: "ms = got @ todo" "codec_reads pb adler32 e c chunks (Buffer_init, u) = Some (Inr (b, v))"
      "rfold (pc_MessageCallBack c) got u = Inr v" "Buffer_contents b @ ?rest = concat (map ?f todo)"
      "\<forall>m ms'. todo = m # ms' \<longrightarrow> length (Buffer_contents b) < length (?f m)" by auto
  have all: "concat (map ?f got) @ Buffer_contents b = concat chunks"
  proof -
    have "(concat (map ?f got) @ Buffer_contents b) @ ?rest = concat chunks @ ?rest"
      using stream r(1,4) empty by simp
    then show ?thesis by (rule iffD1 [OF append_same_eq])
  qed
  have "todo = []" if "?rest = []"
  proof (rule ccontr)
    assume "todo \<noteq> []"
    then obtain m ms' where m: "todo = m # ms'" by (cases todo) auto
    then have "length (?f m) \<le> length (Buffer_contents b)" using r(4) that by simp
    moreover have "length (Buffer_contents b) < length (?f m)" using r(5) m by blast
    ultimately show False by (rule leD [THEN notE])
  qed
  then show ?thesis using r all
    by (intro exI [of _ got] exI [of _ todo] exI [of _ b] exI [of _ v]) (simp del: length_Buffer_contents)
qed

text \<open>One message, written at once and read in two pieces.\<close>

lemma demo_frame_sent:
  defines "F \<equiv> frame demo_pb demo_adler [1, 2, 3]"
  obtains s where "reach (conn_start demo_interest) (conn_move demo_ctl default_user) s" and "c_bAlive s"
    and "g_Accepted s = F" and "w_Wire s = F" and "Buffer_contents (c_OutputBuffer s) = []"
proof -
  let ?s = "demo_up\<lparr>w_Wire := F, g_Accepted := F\<rparr>"
  have len: "length F = 17" by (simp add: F_def length_frame demo_payload)
  have r: "Buffer_ReadableBytes Buffer_init = 0" using buffer_inv_init by (simp add: Buffer_init_def)
  have z: "size_minus 17 17 = 0" by (simp add: size_minus_exact)
  have send: "conn_exec demo_ctl default_user (InSend 1 (Wrote 17) F) demo_up = Inr ?s"
    using r len z by (simp add: Connection_Send_def Connection_sendInLoop_def send_rest_def conn_eval demo_up_def
        demo_conn_def Connection_IsConnected_def Channel_IsWriting_def queue_write_complete_def)
  have a: "conn_allowed (InSend 1 (Wrote 17) F) demo_up"
    using len by (simp add: demo_up_def demo_conn_def send_fits_def Buffer_room_def Buffer_init_def
        CHEAP_PREPEND_def vector_max_def)
  have "reach (conn_start demo_interest) (conn_move demo_ctl default_user) ?s"
    by (rule reach_step [OF demo_up_reach]) (rule conn_input [OF a send])
  then show thesis
    by (rule that) (simp_all add: demo_up_def demo_conn_def Buffer_init_def Buffer_contents_def)
qed

theorem messages_end_to_end_witness:
  "\<exists>b. codec_reads demo_pb demo_adler LittleEndian demo_codec
      [take 5 (frame demo_pb demo_adler [1, 2, 3]), drop 5 (frame demo_pb demo_adler [1, 2, 3])] (Buffer_init, []) =
    Some (Inr (b, [[1, 2, 3]])) \<and> Buffer_contents b = []"
proof -
  let ?F = "frame demo_pb demo_adler [1, 2, 3]"
  obtain s where s: "reach (conn_start demo_interest) (conn_move demo_ctl default_user) s" "c_bAlive s"
      "g_Accepted s = ?F" "w_Wire s = ?F" "Buffer_contents (c_OutputBuffer s) = []" by (rule demo_frame_sent)
  have len: "length ?F = 17" by (simp add: length_frame demo_payload)
  have "\<exists>got todo b v. [[1, 2, 3]] = got @ todo \<and>
      codec_reads demo_pb demo_adler LittleEndian demo_codec [take 5 ?F, drop 5 ?F] (Buffer_init, []) = Some (Inr (b, v)) \<and>
      rfold (pc_MessageCallBack demo_codec) got [] = Inr v \<and>
      concat (map (frame demo_pb demo_adler) got) @ Buffer_contents b = concat [take 5 ?F, drop 5 ?F] \<and>
      (\<forall>m ms'. todo = m # ms' \<longrightarrow> length (Buffer_contents b) < length (frame demo_pb demo_adler m)) \<and>
      (([] :: byte list) = [] \<and> Buffer_contents (c_OutputBuffer s) = [] \<longrightarrow> got = [[1, 2, 3]])"
    by (rule messages_end_to_end [OF s(1) default_callbacks.connection_user_axioms demo_epoll_ok s(2),
          where t = "[[1, 2, 3]]"])
       (use s len in \<open>auto simp: demo_pb_ok demo_codec_def vector_max_def\<close>)
  then obtain b v where "codec_reads demo_pb demo_adler LittleEndian demo_codec [take 5 ?F, drop 5 ?F] (Buffer_init, []) =
      Some (Inr (b, v))" "rfold (pc_MessageCallBack demo_codec) [[1, 2, 3]] [] = Inr v" "?F @ Buffer_contents b = ?F"
    using s(5) by auto
  then show ?thesis by (auto simp: demo_codec_def)
qed

end
