(* ===== verification/DBConnections.thy ===== *)
theory DBConnections
  imports Prelude
begin

text \<open>
  \<open>db/DBConnection\<close>, \<open>db/DBRecordSet\<close> and \<open>db/DBRecord\<close>: a MySQL connection, the rows of a result
  and the columns of a row by index and by name. The client library is not part of the source:
  it is the record \<open>mysql\<close> of functions on a world \<open>'w\<close>, with handles \<open>'h\<close> and results \<open>'r\<close>. A row
  is the list of its cells, each a text or \<open>NULL\<close>.
\<close>

section \<open>The client library\<close>

record DBConnectParam =
  strIp :: string
  usPort :: "16 word"
  strUserName :: string
  strPassWord :: string
  strDBName :: string

definition DBConnectParam_new :: "string \<Rightarrow> 16 word \<Rightarrow> string \<Rightarrow> string \<Rightarrow> string \<Rightarrow> DBConnectParam" where
  "DBConnectParam_new ip port userName passWord dbName =
     \<lparr>strIp = ip, usPort = port, strUserName = userName, strPassWord = passWord, strDBName = dbName\<rparr>"

type_synonym db_row = "string option list"

record ('h, 'r, 'w) mysql =
  my_init :: "'w \<Rightarrow> 'h option \<times> 'w"
  my_real_connect :: "'h \<Rightarrow> DBConnectParam \<Rightarrow> 'w \<Rightarrow> bool \<times> 'w"
  my_close :: "'h \<Rightarrow> 'w \<Rightarrow> 'w"
  my_query :: "'h \<Rightarrow> string \<Rightarrow> 'w \<Rightarrow> int \<times> 'w"
  my_store_result :: "'h \<Rightarrow> 'w \<Rightarrow> 'r option \<times> 'w"
  my_autocommit :: "'h \<Rightarrow> bool \<Rightarrow> 'w \<Rightarrow> 'w"
  my_commit :: "'h \<Rightarrow> 'w \<Rightarrow> 'w"
  my_rollback :: "'h \<Rightarrow> 'w \<Rightarrow> 'w"
  my_free_result :: "'r \<Rightarrow> 'w \<Rightarrow> 'w"
  my_num_rows :: "'r \<Rightarrow> 'w \<Rightarrow> nat"
  my_num_fields :: "'r \<Rightarrow> 'w \<Rightarrow> nat"
  my_fetch_row :: "'r \<Rightarrow> 'w \<Rightarrow> db_row option \<times> 'w"
  my_fetch_lengths :: "'r \<Rightarrow> 'w \<Rightarrow> nat list option"
  my_field_seek :: "'r \<Rightarrow> nat \<Rightarrow> 'w \<Rightarrow> 'w"
  my_fetch_field :: "'r \<Rightarrow> 'w \<Rightarrow> string option \<times> 'w"

section \<open>Result sets\<close>

record 'r DBRecordSet =
  rs_pRes :: "'r option"
  rs_Row :: "db_row option"

definition DBRecordSet_new :: "'r option \<Rightarrow> 'r DBRecordSet res" where
  "DBRecordSet_new pRes = check (pRes \<noteq> None) (Inr \<lparr>rs_pRes = pRes, rs_Row = None\<rparr>)"

definition DBRecordSet_delete :: "('h, 'r, 'w) mysql \<Rightarrow> 'r DBRecordSet \<Rightarrow> 'w \<Rightarrow> 'w" where
  "DBRecordSet_delete my s w = (case rs_pRes s of None \<Rightarrow> w | Some r \<Rightarrow> my_free_result my r w)"

definition DBRecordSet_GetRecordNum :: "('h, 'r, 'w) mysql \<Rightarrow> 'r DBRecordSet \<Rightarrow> 'w \<Rightarrow> nat" where
  "DBRecordSet_GetRecordNum my s w =
     (case rs_pRes s of None \<Rightarrow> 0 | Some r \<Rightarrow> my_num_rows my r w mod 2 ^ 32)"

definition DBRecordSet_GetFieldCount :: "('h, 'r, 'w) mysql \<Rightarrow> 'r DBRecordSet \<Rightarrow> 'w \<Rightarrow> nat" where
  "DBRecordSet_GetFieldCount my s w = (case rs_pRes s of None \<Rightarrow> 0 | Some r \<Rightarrow> my_num_fields my r w)"

section \<open>Records\<close>

record 'r DBRecord =
  rc_pRecordSet :: "'r DBRecordSet"
  rc_pRes :: 'r
  rc_Row :: db_row
  rc_pFieldsLength :: "nat list"
  rc_mpNameIdx :: "string \<rightharpoonup> nat"

text \<open>
  \<open>fillFieldsNameIndxMap\<close>: the loop goes on until the library has no more fields; that it does is
  the library's doing.
\<close>

partial_function (option) fill_loop ::
    "('h, 'r, 'w) mysql \<Rightarrow> 'r \<Rightarrow> nat \<Rightarrow> (string \<rightharpoonup> nat) \<Rightarrow> 'w \<Rightarrow> ((string \<rightharpoonup> nat) \<times> 'w) option" where
  "fill_loop my pRes unIdx mp w =
     (case my_fetch_field my pRes w of
        (None, w1) \<Rightarrow> Some (mp, w1)
      | (Some name, w1) \<Rightarrow> fill_loop my pRes (unIdx + 1) (mp(name \<mapsto> unIdx)) w1)"

definition DBRecord_fillFieldsNameIndxMap ::
    "('h, 'r, 'w) mysql \<Rightarrow> 'r \<Rightarrow> 'w \<Rightarrow> ((string \<rightharpoonup> nat) \<times> 'w) option" where
  "DBRecord_fillFieldsNameIndxMap my pRes w = fill_loop my pRes 0 Map.empty (my_field_seek my pRes 0 w)"

text \<open>The constructor asserts that its result, its row and the row's lengths are there.\<close>

definition DBRecord_new ::
    "('h, 'r, 'w) mysql \<Rightarrow> 'r DBRecordSet \<Rightarrow> 'r option \<Rightarrow> db_row option \<Rightarrow> 'w \<Rightarrow> ('r DBRecord \<times> 'w) res option" where
  "DBRecord_new my pRecordSet pRes row w =
     (case (pRes, row) of
        (Some r, Some cells) \<Rightarrow>
          (case my_fetch_lengths my r w of
             None \<Rightarrow> Some (Inl AssertFailed)
           | Some lens \<Rightarrow>
               map_option (\<lambda>(mp, w1). Inr (\<lparr>rc_pRecordSet = pRecordSet, rc_pRes = r, rc_Row = cells,
                   rc_pFieldsLength = lens, rc_mpNameIdx = mp\<rparr>, w1))
                 (DBRecord_fillFieldsNameIndxMap my r w))
      | _ \<Rightarrow> Some (Inl AssertFailed))"

definition DBRecord_GetFieldValueByIdx ::
    "('h, 'r, 'w) mysql \<Rightarrow> nat \<Rightarrow> 'r DBRecord \<Rightarrow> 'w \<Rightarrow> string option res" where
  "DBRecord_GetFieldValueByIdx my unIndex rc w =
     (if DBRecordSet_GetFieldCount my (rc_pRecordSet rc) w \<le> unIndex then Inr None
      else if unIndex < length (rc_Row rc) then Inr (rc_Row rc ! unIndex) else Inl OutOfBounds)"

definition DBRecord_GetFiledValueByName ::
    "('h, 'r, 'w) mysql \<Rightarrow> string option \<Rightarrow> 'r DBRecord \<Rightarrow> 'w \<Rightarrow> string option res" where
  "DBRecord_GetFiledValueByName my pFiledName rc w =
     (case pFiledName of
        None \<Rightarrow> Inl AssertFailed
      | Some name \<Rightarrow>
          (case rc_mpNameIdx rc name of
             Some i \<Rightarrow> DBRecord_GetFieldValueByIdx my i rc w
           | None \<Rightarrow> Inr None))"

text \<open>The lengths are \<open>unsigned long\<close>, returned as \<open>int\<close>.\<close>

definition DBRecord_GetFieldLengthByIdx ::
    "('h, 'r, 'w) mysql \<Rightarrow> nat \<Rightarrow> 'r DBRecord \<Rightarrow> 'w \<Rightarrow> int res" where
  "DBRecord_GetFieldLengthByIdx my unIndex rc w =
     (if DBRecordSet_GetFieldCount my (rc_pRecordSet rc) w \<le> unIndex then Inr 0
      else if unIndex < length (rc_pFieldsLength rc)
      then Inr (sint (word_of_nat (rc_pFieldsLength rc ! unIndex) :: 32 word)) else Inl OutOfBounds)"

definition DBRecord_GetFiledLengthByName ::
    "('h, 'r, 'w) mysql \<Rightarrow> string option \<Rightarrow> 'r DBRecord \<Rightarrow> 'w \<Rightarrow> int res" where
  "DBRecord_GetFiledLengthByName my pFiledName rc w =
     (case pFiledName of
        None \<Rightarrow> Inl AssertFailed
      | Some name \<Rightarrow>
          (case rc_mpNameIdx rc name of
             Some i \<Rightarrow> DBRecord_GetFieldLengthByIdx my i rc w
           | None \<Rightarrow> Inr 0))"

definition DBRecordSet_GetNextRecord ::
    "('h, 'r, 'w) mysql \<Rightarrow> 'r DBRecordSet \<Rightarrow> 'w \<Rightarrow> ('r DBRecord option \<times> 'r DBRecordSet \<times> 'w) res option" where
  "DBRecordSet_GetNextRecord my s w =
     (case rs_pRes s of
        None \<Rightarrow> Some (Inr (None, s, w))
      | Some r \<Rightarrow>
          (let (row, w1) = my_fetch_row my r w; s1 = s\<lparr>rs_Row := row\<rparr>
           in if row = None then Some (Inr (None, s1, w1))
              else map_option (\<lambda>q. rbind q (\<lambda>(rc, w2). Inr (Some rc, s1, w2)))
                     (DBRecord_new my s1 (Some r) row w1)))"

section \<open>Connections\<close>

record 'h DBConnection =
  m_pMysqlConn :: "'h option"
  m_ConnParam :: DBConnectParam
  m_bIsUsed :: bool

definition DBConnection_new :: "'h DBConnection" where
  "DBConnection_new =
     \<lparr>m_pMysqlConn = None, m_ConnParam = DBConnectParam_new [] 0 [] [] [], m_bIsUsed = False\<rparr>"

definition DBConnection_Connect ::
    "('h, 'r, 'w) mysql \<Rightarrow> DBConnectParam \<Rightarrow> 'h DBConnection \<Rightarrow> 'w \<Rightarrow> (bool \<times> 'h DBConnection \<times> 'w) res" where
  "DBConnection_Connect my rConnParam c w =
     (if m_pMysqlConn c \<noteq> None then Inl AssertFailed
      else case my_init my w of
        (None, w1) \<Rightarrow> Inl AssertFailed
      | (Some h, w1) \<Rightarrow>
          (let c1 = c\<lparr>m_pMysqlConn := Some h, m_ConnParam := rConnParam\<rparr>;
               (bConnected, w2) = my_real_connect my h rConnParam w1
           in if \<not> bConnected then Inl AssertFailed else Inr (True, c1, w2)))"

definition DBConnection_Release :: "('h, 'r, 'w) mysql \<Rightarrow> 'h DBConnection \<Rightarrow> 'w \<Rightarrow> 'h DBConnection \<times> 'w" where
  "DBConnection_Release my c w =
     (case m_pMysqlConn c of
        None \<Rightarrow> (c, w)
      | Some h \<Rightarrow> (c\<lparr>m_pMysqlConn := None\<rparr>, my_close my h w))"

definition DBConnection_delete :: "('h, 'r, 'w) mysql \<Rightarrow> 'h DBConnection \<Rightarrow> 'w \<Rightarrow> 'w" where
  "DBConnection_delete my c w = snd (DBConnection_Release my c w)"

definition DBConnection_ReConnect ::
    "('h, 'r, 'w) mysql \<Rightarrow> 'h DBConnection \<Rightarrow> 'w \<Rightarrow> (bool \<times> 'h DBConnection \<times> 'w) res" where
  "DBConnection_ReConnect my c w =
     (let (c1, w1) = DBConnection_Release my c w in DBConnection_Connect my (m_ConnParam c1) c1 w1)"

definition DBConnection_IsConnected :: "'h DBConnection \<Rightarrow> bool" where
  "DBConnection_IsConnected c \<longleftrightarrow> m_pMysqlConn c \<noteq> None"

definition DBConnection_ExecuteSql ::
    "('h, 'r, 'w) mysql \<Rightarrow> string option \<Rightarrow> 'h DBConnection \<Rightarrow> 'w \<Rightarrow> ('r DBRecordSet option \<times> 'w) res" where
  "DBConnection_ExecuteSql my pStrSql c w =
     (case (pStrSql, m_pMysqlConn c) of
        (Some sql, Some h) \<Rightarrow>
          (let (nRet, w1) = my_query my h sql w
           in if 0 \<noteq> nRet then Inl AssertFailed
              else (let (pRes, w2) = my_store_result my h w1
                    in if pRes = None then Inr (None, w2)
                       else rbind (DBRecordSet_new pRes) (\<lambda>rs. Inr (Some rs, w2))))
      | _ \<Rightarrow> Inl AssertFailed)"

definition on_handle :: "('h \<Rightarrow> 'w \<Rightarrow> 'w) \<Rightarrow> 'h DBConnection \<Rightarrow> 'w \<Rightarrow> 'w" where
  "on_handle f c w = (case m_pMysqlConn c of None \<Rightarrow> w | Some h \<Rightarrow> f h w)"

definition DBConnection_BeginTransaction :: "('h, 'r, 'w) mysql \<Rightarrow> 'h DBConnection \<Rightarrow> 'w \<Rightarrow> 'w" where
  "DBConnection_BeginTransaction my = on_handle (\<lambda>h. my_autocommit my h False)"

definition DBConnection_CommitTransaction :: "('h, 'r, 'w) mysql \<Rightarrow> 'h DBConnection \<Rightarrow> 'w \<Rightarrow> 'w" where
  "DBConnection_CommitTransaction my = on_handle (\<lambda>h w. my_autocommit my h True (my_commit my h w))"

definition DBConnection_RollBackTransaction :: "('h, 'r, 'w) mysql \<Rightarrow> 'h DBConnection \<Rightarrow> 'w \<Rightarrow> 'w" where
  "DBConnection_RollBackTransaction my = on_handle (\<lambda>h w. my_autocommit my h True (my_rollback my h w))"

definition DBConnection_IsUsed :: "'h DBConnection \<Rightarrow> bool" where
  "DBConnection_IsUsed c \<longleftrightarrow> m_bIsUsed c"

definition DBConnection_SetUsed :: "bool \<Rightarrow> 'h DBConnection \<Rightarrow> 'h DBConnection" where
  "DBConnection_SetUsed bIsUsed c = c\<lparr>m_bIsUsed := bIsUsed\<rparr>"

section \<open>Columns by name\<close>

text \<open>
  A library that, after \<open>mysql_field_seek\<close> to the first field, gives the names \<open>ns\<close> one by one and
  then no more, as its manual says of \<open>mysql_fetch_field\<close>.
\<close>

fun gives_fields :: "('h, 'r, 'w) mysql \<Rightarrow> 'r \<Rightarrow> string list \<Rightarrow> 'w \<Rightarrow> bool" where
  "gives_fields my r [] w \<longleftrightarrow> fst (my_fetch_field my r w) = None"
| "gives_fields my r (n # ns) w \<longleftrightarrow>
     fst (my_fetch_field my r w) = Some n \<and> gives_fields my r ns (snd (my_fetch_field my r w))"

lemma fill_loop_fields:
  assumes "gives_fields my r ns w"
  shows "\<exists>w1. fill_loop my r i mp w = Some (mp ++ map_of (rev (zip ns [i..<i + length ns])), w1)"
  using assms
proof (induction ns arbitrary: i mp w)
  case Nil
  then show ?case by (subst fill_loop.simps) (auto split: prod.splits)
next
  case (Cons n ns)
  then obtain w1 where w1: "my_fetch_field my r w = (Some n, w1)" "gives_fields my r ns w1"
    by (cases "my_fetch_field my r w") auto
  have "[i..<i + length (n # ns)] = i # [Suc i..<Suc i + length ns]" by (simp add: upt_rec)
  moreover obtain w2 where "fill_loop my r (Suc i) (mp(n \<mapsto> i)) w1 =
      Some (mp(n \<mapsto> i) ++ map_of (rev (zip ns [Suc i..<Suc i + length ns])), w2)"
    using Cons.IH [OF w1(2)] by blast
  ultimately show ?case using w1(1) by (subst fill_loop.simps) simp
qed

lemma record_columns:
  assumes "gives_fields my r ns (my_field_seek my r 0 w)" and "my_fetch_lengths my r w = Some lens"
  shows "\<exists>w1. DBRecord_new my rs (Some r) (Some cells) w =
    Some (Inr (\<lparr>rc_pRecordSet = rs, rc_pRes = r, rc_Row = cells, rc_pFieldsLength = lens,
      rc_mpNameIdx = map_of (rev (zip ns [0..<length ns]))\<rparr>, w1))"
  using fill_loop_fields [OF assms(1), of 0 Map.empty] assms(2)
  by (auto simp: DBRecord_new_def DBRecord_fillFieldsNameIndxMap_def)

text \<open>With distinct column names the cell of column \<open>i\<close> is found by its name.\<close>

lemma map_of_rev_zip:
  assumes "distinct ns" and "i < length ns"
  shows "map_of (rev (zip ns [0..<length ns])) (ns ! i) = Some i"
proof -
  let ?z = "zip ns [0..<length ns]"
  have "distinct (map fst (rev ?z))" using assms(1) by (simp add: rev_map [symmetric])
  moreover have "(ns ! i, i) \<in> set (rev ?z)" using assms(2) by (auto simp: set_zip intro: exI [of _ i])
  ultimately show ?thesis by simp
qed

theorem value_by_name:
  assumes "gives_fields my r ns (my_field_seek my r 0 w)" and "my_fetch_lengths my r w = Some lens"
    and "distinct ns" and "i < length ns" and "length cells = length ns"
    and "rs_pRes rs = Some r" and "\<And>w. my_num_fields my r w = length ns"
  shows "\<exists>rc w1. DBRecord_new my rs (Some r) (Some cells) w = Some (Inr (rc, w1)) \<and>
    DBRecord_GetFiledValueByName my (Some (ns ! i)) rc w1 = Inr (cells ! i)"
  using record_columns [OF assms(1,2), of rs cells] assms(3-7) map_of_rev_zip [OF assms(3,4)]
  by (auto simp: DBRecord_GetFiledValueByName_def DBRecord_GetFieldValueByIdx_def DBRecordSet_GetFieldCount_def)

text \<open>A database that cannot be reached ends the program: \<open>Connect\<close> asserts before it returns false.\<close>

theorem Connect_failure_asserts:
  assumes "m_pMysqlConn c = None" and "my_init my w = (Some h, w1)" and "my_real_connect my h p w1 = (False, w2)"
  shows "DBConnection_Connect my p c w = Inl AssertFailed"
  using assms by (simp add: DBConnection_Connect_def)

end
