(* ===== verification/DBPools.thy ===== *)
theory DBPools
  imports DBConnections ThreadPools Latches "HOL-Library.Multiset"
begin

text \<open>
  \<open>db/DBConnectionPool\<close>: a queue of statements, a deque of connections and a thread pool whose
  workers run \<open>runInThread\<close>, one stretch under a mutex at a time. The connections are objects
  \<open>d_Objs\<close>, the deque holds their indices, and the thread pool is the one of \<open>ThreadPools\<close>, its
  tasks being the two the source binds.
\<close>

datatype db_task = RunInThread | LatchCountDown

text \<open>How far a worker has come in \<open>runInThread\<close>.\<close>

datatype activation =
    AtTask                 \<comment> \<open>before \<open>task()\<close>, or not in \<open>runInThread\<close> at all\<close>
  | HasSql string          \<comment> \<open>about to take a connection\<close>
  | HasConn string nat     \<comment> \<open>about to run the statement\<close>
  | RanSql nat             \<comment> \<open>about to give the connection back\<close>

datatype db_stop = StopIdle | StopUnset | StopQueued | StopWaited

record ('h, 'w) dbpool =
  d_ConnParam :: DBConnectParam
  d_ThreadPool :: "db_task pool"
  d_SqlQueue :: "string list"
  d_vDBConn :: "nat list"
  d_bRunning :: bool
  d_Objs :: "'h DBConnection list"
  d_World :: 'w
  d_Act :: "nat \<Rightarrow> activation"
  d_Latch :: latch
  d_Stop :: db_stop
  d_Callers :: nat         \<comment> \<open>calls of \<open>ExecuteSql\<close> that have queued the statement and not yet called \<open>Run\<close>\<close>
  g_Sql :: "string list"   \<comment> \<open>every statement queued\<close>
  g_Taken :: "string list" \<comment> \<open>every statement a worker took\<close>
  g_Ran :: "string list"   \<comment> \<open>every statement run\<close>
  g_Mark :: nat            \<comment> \<open>the calls of \<open>Run\<close> made when \<open>Stop\<close> queued the latch\<close>

definition DBConnectionPool_new :: "'w \<Rightarrow> ('h, 'w) dbpool" where
  "DBConnectionPool_new w =
     \<lparr>d_ConnParam = DBConnectParam_new [] 0 [] [] [], d_ThreadPool = ThreadPool_new, d_SqlQueue = [],
      d_vDBConn = [], d_bRunning = False, d_Objs = [], d_World = w, d_Act = (\<lambda>_. AtTask),
      d_Latch = CountDownLatch_new 1, d_Stop = StopIdle, d_Callers = 0, g_Sql = [], g_Taken = [],
      g_Ran = [], g_Mark = 0\<rparr>"

definition DBConnectionPool_delete :: "('h, 'w) dbpool \<Rightarrow> unit res" where
  "DBConnectionPool_delete s = check (\<not> d_bRunning s) (Inr ())"

section \<open>Operations\<close>

primrec connect_all ::
    "('h, 'r, 'w) mysql \<Rightarrow> DBConnectParam \<Rightarrow> nat \<Rightarrow> ('h, 'w) dbpool \<Rightarrow> ('h, 'w) dbpool res" where
  "connect_all my param 0 s = Inr s"
| "connect_all my param (Suc n) s =
     rbind (DBConnection_Connect my param DBConnection_new (d_World s)) (\<lambda>(bConnected, c, w).
       connect_all my param n
         (s\<lparr>d_Objs := d_Objs s @ [c], d_vDBConn := d_vDBConn s @ [length (d_Objs s)], d_World := w\<rparr>))"

definition DBConnectionPool_Init ::
    "('h, 'r, 'w) mysql \<Rightarrow> DBConnectParam \<Rightarrow> int \<Rightarrow> ('h, 'w) dbpool \<Rightarrow> (bool \<times> ('h, 'w) dbpool) res" where
  "DBConnectionPool_Init my rConnParam nPoolSize s =
     (if nPoolSize < 0 then Inl AssertFailed
      else if d_bRunning s then Inr (False, s)
      else rbind (connect_all my rConnParam (nat nPoolSize) (s\<lparr>d_ConnParam := rConnParam\<rparr>)) (\<lambda>s1.
           rbind (ThreadPool_Start nPoolSize (d_ThreadPool s1)) (\<lambda>tp.
             Inr (True, s1\<lparr>d_bRunning := True, d_ThreadPool := tp\<rparr>))))"

definition DBConnectionPool_task :: "('h, 'w) dbpool \<Rightarrow> string \<times> ('h, 'w) dbpool" where
  "DBConnectionPool_task s =
     (case d_SqlQueue s of
        [] \<Rightarrow> ([], s)
      | front # rest \<Rightarrow> (front, s\<lparr>d_SqlQueue := rest, g_Taken := g_Taken s @ [front]\<rparr>))"

text \<open>The stretches of \<open>runInThread\<close>: the statement, the connection, the query, the return.\<close>

definition take_sql :: "('h, 'w) dbpool \<Rightarrow> (string \<times> ('h, 'w) dbpool) res" where
  "take_sql s = (let (strSql, s1) = DBConnectionPool_task s in check (strSql \<noteq> []) (Inr (strSql, s1)))"

definition take_conn :: "('h, 'w) dbpool \<Rightarrow> (nat \<times> ('h, 'w) dbpool) res" where
  "take_conn s =
     (case d_vDBConn s of [] \<Rightarrow> Inl AssertFailed | c # cs \<Rightarrow> Inr (c, s\<lparr>d_vDBConn := cs\<rparr>))"

text \<open>The result of the query, if there is one, is freed at the end of the statement.\<close>

definition run_sql ::
    "('h, 'r, 'w) mysql \<Rightarrow> string \<Rightarrow> nat \<Rightarrow> ('h, 'w) dbpool \<Rightarrow> ('h, 'w) dbpool res" where
  "run_sql my strSql c s =
     rbind (DBConnection_ExecuteSql my (Some strSql) (d_Objs s ! c) (d_World s)) (\<lambda>(pRecordSet, w).
       Inr (s\<lparr>d_World := (case pRecordSet of None \<Rightarrow> w | Some rs \<Rightarrow> DBRecordSet_delete my rs w),
              g_Ran := g_Ran s @ [strSql]\<rparr>))"

definition give_back :: "nat \<Rightarrow> ('h, 'w) dbpool \<Rightarrow> ('h, 'w) dbpool" where
  "give_back c s = s\<lparr>d_vDBConn := d_vDBConn s @ [c]\<rparr>"

definition DBConnectionPool_runInThread ::
    "('h, 'r, 'w) mysql \<Rightarrow> ('h, 'w) dbpool \<Rightarrow> ('h, 'w) dbpool res" where
  "DBConnectionPool_runInThread my s =
     rbind (take_sql s) (\<lambda>(strSql, s1).
     rbind (take_conn s1) (\<lambda>(c, s2).
     rbind (run_sql my strSql c s2) (\<lambda>s3. Inr (give_back c s3))))"

text \<open>\<open>ExecuteSql\<close>: the statement under its mutex, then \<open>Run\<close>, which runs the task in the caller
  when the pool has no threads.\<close>

definition ExecuteSql_push :: "string option \<Rightarrow> ('h, 'w) dbpool \<Rightarrow> ('h, 'w) dbpool" where
  "ExecuteSql_push pStrSql s =
     (case pStrSql of
        None \<Rightarrow> s
      | Some sql \<Rightarrow> s\<lparr>d_SqlQueue := d_SqlQueue s @ [sql], d_Callers := Suc (d_Callers s), g_Sql := g_Sql s @ [sql]\<rparr>)"

definition ExecuteSql_run ::
    "('h, 'r, 'w) mysql \<Rightarrow> nat \<Rightarrow> ('h, 'w) dbpool \<Rightarrow> ('h, 'w) dbpool res" where
  "ExecuteSql_run my k s =
     (if p_nThreads (d_ThreadPool s) = 0
      then rbind (DBConnectionPool_runInThread my s) (\<lambda>s1. Inr (s1\<lparr>d_Callers := d_Callers s1 - 1\<rparr>))
      else rbind (ThreadPool_Run (\<lambda>_. TaskReturns) k RunInThread (d_ThreadPool s)) (\<lambda>tp.
             Inr (s\<lparr>d_ThreadPool := tp, d_Callers := d_Callers s - 1\<rparr>)))"

text \<open>\<open>Stop\<close>: the flag and the latch, the latch's task behind all others, the wait, the pool's \<open>Stop\<close>.\<close>

definition Stop_unset :: "('h, 'w) dbpool \<Rightarrow> ('h, 'w) dbpool" where
  "Stop_unset s =
     (if d_bRunning s then s\<lparr>d_bRunning := False, d_Latch := CountDownLatch_new 1, d_Stop := StopUnset\<rparr> else s)"

definition Stop_queue :: "nat \<Rightarrow> ('h, 'w) dbpool \<Rightarrow> ('h, 'w) dbpool res" where
  "Stop_queue k s =
     rbind (ThreadPool_Run (\<lambda>_. TaskReturns) k LatchCountDown (d_ThreadPool s)) (\<lambda>tp.
       Inr (s\<lparr>d_ThreadPool := tp, d_Stop := StopQueued,
              g_Mark := count_list (g_Run (d_ThreadPool s)) RunInThread\<rparr>))"

definition Stop_wait :: "nat \<Rightarrow> ('h, 'w) dbpool \<Rightarrow> ('h, 'w) dbpool option" where
  "Stop_wait tid s =
     (if fst (CountDownLatch_Wait tid (d_Latch s))
      then Some (s\<lparr>d_ThreadPool := Stop_flag (d_ThreadPool s), d_Stop := StopWaited\<rparr>) else None)"

definition Stop_rest :: "('h, 'w) dbpool \<Rightarrow> ('h, 'w) dbpool" where
  "Stop_rest s = s\<lparr>d_ThreadPool := Stop_notify (d_ThreadPool s)\<rparr>"

text \<open>One step of worker \<open>n\<close>: of the task it runs, or of the thread pool's own code.\<close>

definition set_act :: "nat \<Rightarrow> activation \<Rightarrow> ('h, 'w) dbpool \<Rightarrow> ('h, 'w) dbpool" where
  "set_act n a s = s\<lparr>d_Act := (d_Act s)(n := a)\<rparr>"

definition back_in_pool :: "nat \<Rightarrow> ('h, 'w) dbpool \<Rightarrow> ('h, 'w) dbpool res option" where
  "back_in_pool n s =
     map_option (\<lambda>r. rbind r (\<lambda>tp. Inr (s\<lparr>d_ThreadPool := tp\<rparr>)))
       (ThreadPool_runInThread (\<lambda>_. TaskReturns) n (d_ThreadPool s))"

fun act_step ::
    "('h, 'r, 'w) mysql \<Rightarrow> nat \<Rightarrow> activation \<Rightarrow> ('h, 'w) dbpool \<Rightarrow> ('h, 'w) dbpool res option" where
  "act_step my n AtTask s = Some (rbind (take_sql s) (\<lambda>(sql, s1). Inr (set_act n (HasSql sql) s1)))"
| "act_step my n (HasSql sql) s =
     Some (rbind (take_conn s) (\<lambda>(c, s1). Inr (set_act n (HasConn sql c) s1)))"
| "act_step my n (HasConn sql c) s =
     Some (rbind (run_sql my sql c s) (\<lambda>s1. Inr (set_act n (RanSql c) s1)))"
| "act_step my n (RanSql c) s = back_in_pool n (set_act n AtTask (give_back c s))"

definition db_worker ::
    "('h, 'r, 'w) mysql \<Rightarrow> nat \<Rightarrow> ('h, 'w) dbpool \<Rightarrow> ('h, 'w) dbpool res option" where
  "db_worker my n s =
     (case p_Workers (d_ThreadPool s) n of
        HasTask (Some RunInThread) \<Rightarrow> act_step my n (d_Act s n) s
      | HasTask (Some LatchCountDown) \<Rightarrow>
          back_in_pool n (s\<lparr>d_Latch := CountDownLatch_CountDown (d_Latch s)\<rparr>)
      | _ \<Rightarrow> back_in_pool n s)"

inductive db_move :: "('h, 'r, 'w) mysql \<Rightarrow> ('h, 'w) dbpool \<Rightarrow> ('h, 'w) dbpool \<Rightarrow> bool"
  for my :: "('h, 'r, 'w) mysql" where
  d_init: "DBConnectionPool_Init my param n s = Inr (b, t) \<Longrightarrow> db_move my s t"
| d_push: "pStrSql \<noteq> Some [] \<Longrightarrow> db_move my s (ExecuteSql_push pStrSql s)"
| d_run: "0 < d_Callers s \<Longrightarrow> p_Mutex (d_ThreadPool s) = None \<Longrightarrow> ExecuteSql_run my k s = Inr t \<Longrightarrow>
     db_move my s t"
| d_worker: "n < p_nThreads (d_ThreadPool s) \<Longrightarrow> db_worker my n s = Some (Inr t) \<Longrightarrow> db_move my s t"
| d_unset: "db_move my s (Stop_unset s)"
| d_queue: "d_Stop s = StopUnset \<Longrightarrow> p_Mutex (d_ThreadPool s) = None \<Longrightarrow> Stop_queue k s = Inr t \<Longrightarrow>
     db_move my s t"
| d_wait: "d_Stop s = StopQueued \<Longrightarrow> Stop_wait tid s = Some t \<Longrightarrow> db_move my s t"
| d_rest: "d_Stop s = StopWaited \<Longrightarrow> p_Stop (d_ThreadPool s) = StopFlagged \<Longrightarrow> db_move my s (Stop_rest s)"

section \<open>Invariant\<close>

text \<open>What a worker accounts for: a task whose statement it has not taken, a statement, a connection.\<close>

definition waiting :: "db_task worker_pc \<Rightarrow> activation \<Rightarrow> nat" where
  "waiting pc a = (if pc = HasTask (Some RunInThread) \<and> a = AtTask then 1 else 0)"

fun inflight :: "activation \<Rightarrow> string multiset" where
  "inflight (HasSql sql) = {#sql#}"
| "inflight (HasConn sql c) = {#sql#}"
| "inflight a = {#}"

fun held :: "activation \<Rightarrow> nat multiset" where
  "held (HasConn sql c) = {#c#}"
| "held (RanSql c) = {#c#}"
| "held a = {#}"

definition thr_ok :: "db_task pool \<Rightarrow> (nat \<Rightarrow> activation) \<Rightarrow> bool" where
  "thr_ok p act \<longleftrightarrow>
     (\<forall>n. act n \<noteq> AtTask \<longrightarrow> p_Workers p n = HasTask (Some RunInThread)) \<and>
     (\<forall>n x. p_Workers p n = HasTask (Some x) \<longrightarrow> x \<in> set (g_Popped p) \<and> n < p_nThreads p)"

definition sql_ok :: "('h, 'w) dbpool \<Rightarrow> bool" where
  "sql_ok s \<longleftrightarrow> (let p = d_ThreadPool s in
     g_Taken s @ d_SqlQueue s = g_Sql s \<and> [] \<notin> set (g_Sql s) \<and>
     count_list (g_Run p) RunInThread + d_Callers s = length (g_Sql s) \<and>
     count_list (g_Popped p) RunInThread =
       length (g_Taken s) + (\<Sum>n<p_nThreads p. waiting (p_Workers p n) (d_Act s n)) \<and>
     mset (g_Taken s) = mset (g_Ran s) + (\<Sum>n<p_nThreads p. inflight (d_Act s n)))"

definition conn_ok :: "('h, 'w) dbpool \<Rightarrow> bool" where
  "conn_ok s \<longleftrightarrow>
     mset (d_vDBConn s) + (\<Sum>n<p_nThreads (d_ThreadPool s). held (d_Act s n)) =
       mset [0..<p_nThreads (d_ThreadPool s)] \<and>
     length (d_Objs s) = p_nThreads (d_ThreadPool s) \<and> (\<forall>c\<in>set (d_Objs s). DBConnection_IsConnected c)"

definition marked :: "nat \<Rightarrow> db_task list \<Rightarrow> bool" where
  "marked m xs \<longleftrightarrow> (\<exists>before after. xs = before @ LatchCountDown # after \<and>
     LatchCountDown \<notin> set before \<and> count_list before RunInThread = m)"

definition stop_ok :: "('h, 'w) dbpool \<Rightarrow> bool" where
  "stop_ok s \<longleftrightarrow> (let p = d_ThreadPool s in
     (d_bRunning s \<longrightarrow> 0 < p_nThreads p \<and> d_Stop s = StopIdle) \<and>
     (p_nThreads p = 0 \<longrightarrow> d_Stop s = StopIdle) \<and>
     (d_Stop s \<noteq> StopWaited \<longrightarrow> p_Stop p = NotStopping) \<and>
     (d_Stop s \<in> {StopIdle, StopUnset} \<longrightarrow> LatchCountDown \<notin> set (g_Run p) \<and> m_nCnt (d_Latch s) = 1) \<and>
     (d_Stop s \<in> {StopQueued, StopWaited} \<longrightarrow> marked (g_Mark s) (g_Run p)) \<and>
     (d_Stop s = StopWaited \<or> m_nCnt (d_Latch s) \<le> 0 \<longrightarrow> LatchCountDown \<in> set (g_Popped p)))"

definition db_inv :: "('h, 'w) dbpool \<Rightarrow> bool" where
  "db_inv s \<longleftrightarrow> pool_inv (d_ThreadPool s) \<and> thr_ok (d_ThreadPool s) (d_Act s) \<and> sql_ok s \<and> conn_ok s \<and> stop_ok s"

lemma sum_change:
  fixes f g :: "nat \<Rightarrow> 'a :: cancel_comm_monoid_add"
  assumes "n < N" and "\<And>i. i \<noteq> n \<Longrightarrow> g i = f i"
  shows "(\<Sum>i<N. g i) + f n = (\<Sum>i<N. f i) + g n"
proof -
  have "(\<Sum>i\<in>{..<N} - {n}. g i) = (\<Sum>i\<in>{..<N} - {n}. f i)" by (rule sum.cong) (auto simp: assms(2))
  then show ?thesis using assms(1) by (simp add: sum.remove [of "{..<N}" n] ac_simps)
qed

lemma sum_same:
  fixes f g :: "nat \<Rightarrow> 'a :: cancel_comm_monoid_add"
  assumes "n < N" and "\<And>i. i \<noteq> n \<Longrightarrow> g i = f i" and "g n = f n"
  shows "(\<Sum>i<N. g i) = (\<Sum>i<N. f i)"
  using sum_change [where f = f and g = g, OF assms(1,2)] assms(3) by simp

text \<open>A step of the thread pool's code leaves a task it took, if any, as the last one popped.\<close>

lemma worker_effect:
  assumes "ThreadPool_runInThread (\<lambda>_. TaskReturns) n p = Some (Inr q)"
  shows "\<exists>pc. p_Workers q = (p_Workers p)(n := pc) \<and> p_nThreads q = p_nThreads p \<and> p_Stop q = p_Stop p \<and>
    g_Run q = g_Run p \<and> (\<forall>x. p_Workers p n = HasTask x \<longrightarrow> pc = AtLoop) \<and>
    g_Popped q = g_Popped p @ (case pc of HasTask (Some x) \<Rightarrow> [x] | _ \<Rightarrow> [])"
proof (cases "p_Workers p n")
  case (HasTask x)
  with assms show ?thesis by (cases x) (auto simp: ThreadPool_runInThread_def)
qed (use assms in \<open>auto simp: ThreadPool_runInThread_def take_leave_def split: if_splits list.splits\<close>)

lemma pool_keeps: "pool_move (\<lambda>_. TaskReturns) p q \<Longrightarrow> pool_inv p \<Longrightarrow> pool_inv q"
  by (rule pool_system.move_keeps)

lemma ThreadPool_Run_queues:
  assumes "p_nThreads p \<noteq> 0" and "ThreadPool_Run exec k x p = Inr q"
  shows "p_Workers q = p_Workers p \<and> p_nThreads q = p_nThreads p \<and> p_Stop q = p_Stop p \<and>
    g_Run q = g_Run p @ [x] \<and> g_Popped q = g_Popped p"
  using assms by (auto simp: ThreadPool_Run_def)

text \<open>
  A worker that has no statement to take comes back to the thread pool's code: it gives back the
  connection it holds, if any, and takes one step there.
\<close>

lemma back_keeps:
  fixes s :: "('h, 'w) dbpool"
  defines "p \<equiv> d_ThreadPool s"
  assumes inv: "db_inv s" and n: "n < p_nThreads p"
    and step: "ThreadPool_runInThread (\<lambda>_. TaskReturns) n p = Some (Inr q)"
    and idle: "waiting (p_Workers p n) (d_Act s n) = 0" "inflight (d_Act s n) = {#}"
    and v: "mset v = mset (d_vDBConn s) + held (d_Act s n)"
    and l: "l = d_Latch s \<or> LatchCountDown \<in> set (g_Popped p)"
  shows "db_inv (s\<lparr>d_ThreadPool := q, d_Act := (d_Act s)(n := AtTask), d_vDBConn := v, d_Latch := l\<rparr>)"
proof -
  obtain pc where q: "p_Workers q = (p_Workers p)(n := pc)" "p_nThreads q = p_nThreads p"
      "p_Stop q = p_Stop p" "g_Run q = g_Run p" "\<And>x. p_Workers p n = HasTask x \<Longrightarrow> pc = AtLoop"
      "g_Popped q = g_Popped p @ (case pc of HasTask (Some x) \<Rightarrow> [x] | _ \<Rightarrow> [])"
    using worker_effect [OF step] by blast
  let ?act = "(d_Act s)(n := AtTask)"
  have pinv: "pool_inv p" using inv by (simp add: db_inv_def p_def)
  have "pool_inv q" by (rule pool_keeps [OF m_worker [OF n step] pinv])
  moreover have "thr_ok q ?act"
    using inv n q by (auto simp: db_inv_def thr_ok_def p_def split: worker_pc.splits option.splits)
  moreover have "sql_ok (s\<lparr>d_ThreadPool := q, d_Act := ?act, d_vDBConn := v, d_Latch := l\<rparr>)"
  proof -
    have "(\<Sum>i<p_nThreads p. waiting (p_Workers q i) (?act i)) + 0 =
        (\<Sum>i<p_nThreads p. waiting (p_Workers p i) (d_Act s i)) + waiting pc AtTask"
      using sum_change [OF n, of "\<lambda>i. waiting (p_Workers q i) (?act i)"
          "\<lambda>i. waiting (p_Workers p i) (d_Act s i)"] q(1) idle(1) by simp
    moreover have "count_list (g_Popped q) RunInThread = count_list (g_Popped p) RunInThread + waiting pc AtTask"
      by (auto simp: q(6) waiting_def split: worker_pc.splits option.splits)
    moreover have "(\<Sum>i<p_nThreads p. inflight (?act i)) = (\<Sum>i<p_nThreads p. inflight (d_Act s i))"
      using idle(2) by (intro sum_same [OF n]) auto
    ultimately show ?thesis
      using inv q(2,4) by (simp add: db_inv_def sql_ok_def p_def [symmetric] Let_def)
  qed
  moreover have "conn_ok (s\<lparr>d_ThreadPool := q, d_Act := ?act, d_vDBConn := v, d_Latch := l\<rparr>)"
  proof -
    have "(\<Sum>i<p_nThreads p. held (?act i)) + held (d_Act s n) = (\<Sum>i<p_nThreads p. held (d_Act s i)) + {#}"
      using sum_change [OF n, of "\<lambda>i. held (?act i)" "\<lambda>i. held (d_Act s i)"] by simp
    then have "mset v + (\<Sum>i<p_nThreads p. held (?act i)) =
        mset (d_vDBConn s) + (\<Sum>i<p_nThreads p. held (d_Act s i))"
      by (simp add: v ac_simps)
    then show ?thesis using inv q(2) by (simp add: db_inv_def conn_ok_def p_def [symmetric])
  qed
  moreover have "stop_ok (s\<lparr>d_ThreadPool := q, d_Act := ?act, d_vDBConn := v, d_Latch := l\<rparr>)"
  proof -
    have "set (g_Popped p) \<subseteq> set (g_Run p)" using pinv by (auto simp: pool_inv_def dest: sym)
    then show ?thesis
      using inv l q(2,3,4,6) by (auto simp: db_inv_def stop_ok_def p_def [symmetric] Let_def)
  qed
  ultimately show ?thesis by (simp add: db_inv_def)
qed

lemma take_sql_Inr:
  "take_sql s = Inr (sql, t) \<Longrightarrow> sql \<noteq> [] \<and>
   (\<exists>rest. d_SqlQueue s = sql # rest \<and> t = s\<lparr>d_SqlQueue := rest, g_Taken := g_Taken s @ [sql]\<rparr>)"
  by (auto simp: take_sql_def DBConnectionPool_task_def check_def split: list.splits if_splits)

lemma take_conn_Inr:
  "take_conn s = Inr (c, t) \<Longrightarrow> \<exists>cs. d_vDBConn s = c # cs \<and> t = s\<lparr>d_vDBConn := cs\<rparr>"
  by (auto simp: take_conn_def split: list.splits)

lemma run_sql_Inr: "run_sql my sql c s = Inr t \<Longrightarrow> \<exists>w. t = s\<lparr>d_World := w, g_Ran := g_Ran s @ [sql]\<rparr>"
  by (cases "DBConnection_ExecuteSql my (Some sql) (d_Objs s ! c) (d_World s)") (auto simp: run_sql_def)

text \<open>A worker that runs the task moves a statement or a connection and stays in \<open>runInThread\<close>.\<close>

lemma act_moves:
  fixes s :: "('h, 'w) dbpool"
  defines "p \<equiv> d_ThreadPool s"
  assumes inv: "db_inv s" and n: "n < p_nThreads p"
    and w: "p_Workers p n = HasTask (Some RunInThread)"
    and sql: "tk @ sq = g_Sql s"
    and cnt: "length tk + waiting (p_Workers p n) a = length (g_Taken s) + waiting (p_Workers p n) (d_Act s n)"
    and ran: "mset tk + mset (g_Ran s) + inflight (d_Act s n) = mset (g_Taken s) + mset rn + inflight a"
    and conn: "mset v + held a = mset (d_vDBConn s) + held (d_Act s n)"
  shows "db_inv (s\<lparr>d_Act := (d_Act s)(n := a), d_SqlQueue := sq, g_Taken := tk, g_Ran := rn,
    d_vDBConn := v, d_World := wd\<rparr>)" (is "db_inv ?t")
proof -
  let ?act = "(d_Act s)(n := a)"
  have "thr_ok p ?act" using inv w by (simp add: db_inv_def thr_ok_def p_def)
  moreover have "sql_ok ?t"
  proof -
    have "(\<Sum>i<p_nThreads p. waiting (p_Workers p i) (?act i)) + waiting (p_Workers p n) (d_Act s n) =
        (\<Sum>i<p_nThreads p. waiting (p_Workers p i) (d_Act s i)) + waiting (p_Workers p n) a"
      using sum_change [OF n, of "\<lambda>i. waiting (p_Workers p i) (?act i)"
          "\<lambda>i. waiting (p_Workers p i) (d_Act s i)"] by simp
    then have 1: "count_list (g_Popped p) RunInThread =
        length tk + (\<Sum>i<p_nThreads p. waiting (p_Workers p i) (?act i))"
      using inv cnt by (simp add: db_inv_def sql_ok_def p_def Let_def)
    have "(\<Sum>i<p_nThreads p. inflight (?act i)) + inflight (d_Act s n) =
        (\<Sum>i<p_nThreads p. inflight (d_Act s i)) + inflight a"
      using sum_change [OF n, of "\<lambda>i. inflight (?act i)" "\<lambda>i. inflight (d_Act s i)"] by simp
    moreover have "mset (g_Taken s) = mset (g_Ran s) + (\<Sum>i<p_nThreads p. inflight (d_Act s i))"
      using inv by (simp add: db_inv_def sql_ok_def p_def Let_def)
    ultimately have "mset tk + (mset (g_Ran s) + inflight (d_Act s n)) =
        (mset rn + (\<Sum>i<p_nThreads p. inflight (?act i))) + (mset (g_Ran s) + inflight (d_Act s n))"
      using ran by (simp add: ac_simps)
    then have "mset tk = mset rn + (\<Sum>i<p_nThreads p. inflight (?act i))"
      by (rule add_right_imp_eq)
    then show ?thesis
      using inv 1 sql by (simp add: db_inv_def sql_ok_def p_def Let_def)
  qed
  moreover have "conn_ok ?t"
  proof -
    have "(\<Sum>i<p_nThreads p. held (?act i)) + held (d_Act s n) = (\<Sum>i<p_nThreads p. held (d_Act s i)) + held a"
      using sum_change [OF n, of "\<lambda>i. held (?act i)" "\<lambda>i. held (d_Act s i)"] by simp
    then have "(mset v + (\<Sum>i<p_nThreads p. held (?act i))) + held (d_Act s n) =
        (mset (d_vDBConn s) + (\<Sum>i<p_nThreads p. held (d_Act s i))) + held (d_Act s n)"
      using conn by (metis (no_types, lifting) add.assoc add.commute)
    then have "mset v + (\<Sum>i<p_nThreads p. held (?act i)) =
        mset (d_vDBConn s) + (\<Sum>i<p_nThreads p. held (d_Act s i))" by (rule add_right_imp_eq)
    then show ?thesis using inv by (simp add: db_inv_def conn_ok_def p_def)
  qed
  ultimately show ?thesis using inv by (simp add: db_inv_def stop_ok_def p_def)
qed

lemma act_keeps:
  assumes inv: "db_inv s" and n: "n < p_nThreads (d_ThreadPool s)"
    and w: "p_Workers (d_ThreadPool s) n = HasTask (Some RunInThread)"
    and step: "act_step my n (d_Act s n) s = Some (Inr t)"
  shows "db_inv t"
proof (cases "d_Act s n")
  case AtTask
  with step obtain sql u where u: "take_sql s = Inr (sql, u)" "t = set_act n (HasSql sql) u"
    by (cases "take_sql s") auto
  then obtain rest where t: "d_SqlQueue s = sql # rest"
      "t = s\<lparr>d_Act := (d_Act s)(n := HasSql sql), d_SqlQueue := rest, g_Taken := g_Taken s @ [sql],
             g_Ran := g_Ran s, d_vDBConn := d_vDBConn s, d_World := d_World s\<rparr>"
    using take_sql_Inr [OF u(1)] by (auto simp: set_act_def)
  have "g_Taken s @ d_SqlQueue s = g_Sql s" using inv by (simp add: db_inv_def sql_ok_def Let_def)
  then show ?thesis
    unfolding t(2) by (intro act_moves [OF inv n w]) (simp_all add: AtTask t(1) w waiting_def)
next
  case (HasSql sql)
  with step obtain c u where u: "take_conn s = Inr (c, u)" "t = set_act n (HasConn sql c) u"
    by (cases "take_conn s") auto
  then obtain cs where t: "d_vDBConn s = c # cs"
      "t = s\<lparr>d_Act := (d_Act s)(n := HasConn sql c), d_SqlQueue := d_SqlQueue s, g_Taken := g_Taken s,
             g_Ran := g_Ran s, d_vDBConn := cs, d_World := d_World s\<rparr>"
    using take_conn_Inr [OF u(1)] by (auto simp: set_act_def)
  have "g_Taken s @ d_SqlQueue s = g_Sql s" using inv by (simp add: db_inv_def sql_ok_def Let_def)
  then show ?thesis
    unfolding t(2) by (intro act_moves [OF inv n w]) (simp_all add: HasSql t(1) w waiting_def)
next
  case (HasConn sql c)
  with step obtain u where u: "run_sql my sql c s = Inr u" "t = set_act n (RanSql c) u"
    by (cases "run_sql my sql c s") auto
  then obtain wd where "u = s\<lparr>d_World := wd, g_Ran := g_Ran s @ [sql]\<rparr>" using run_sql_Inr by blast
  then have t: "t = s\<lparr>d_Act := (d_Act s)(n := RanSql c), d_SqlQueue := d_SqlQueue s,
      g_Taken := g_Taken s, g_Ran := g_Ran s @ [sql], d_vDBConn := d_vDBConn s, d_World := wd\<rparr>"
    using u(2) by (auto simp: set_act_def intro: dbpool.equality)
  have "g_Taken s @ d_SqlQueue s = g_Sql s" using inv by (simp add: db_inv_def sql_ok_def Let_def)
  then show ?thesis
    unfolding t by (intro act_moves [OF inv n w]) (simp_all add: HasConn w waiting_def)
next
  case (RanSql c)
  with step obtain q where q: "ThreadPool_runInThread (\<lambda>_. TaskReturns) n (d_ThreadPool s) = Some (Inr q)"
      "t = s\<lparr>d_ThreadPool := q, d_Act := (d_Act s)(n := AtTask), d_vDBConn := d_vDBConn s @ [c],
             d_Latch := d_Latch s\<rparr>"
    by (auto simp: back_in_pool_def set_act_def give_back_def res_simps)
  show ?thesis unfolding q(2)
    by (rule back_keeps [OF inv n q(1)]) (simp_all add: RanSql waiting_def)
qed

lemma worker_keeps_db:
  assumes inv: "db_inv s" and n: "n < p_nThreads (d_ThreadPool s)" and step: "db_worker my n s = Some (Inr t)"
  shows "db_inv t"
proof (cases "p_Workers (d_ThreadPool s) n = HasTask (Some RunInThread)")
  case True
  then show ?thesis using act_keeps [OF inv n] step by (simp add: db_worker_def)
next
  case False
  then have at: "d_Act s n = AtTask" using inv by (auto simp: db_inv_def thr_ok_def)
  have latched: "LatchCountDown \<in> set (g_Popped (d_ThreadPool s))"
    if "p_Workers (d_ThreadPool s) n = HasTask (Some LatchCountDown)"
    using that inv by (auto simp: db_inv_def thr_ok_def)
  define l where "l = (if p_Workers (d_ThreadPool s) n = HasTask (Some LatchCountDown)
    then CountDownLatch_CountDown (d_Latch s) else d_Latch s)"
  have "Some (Inr t) = back_in_pool n (s\<lparr>d_Latch := l\<rparr>)"
    using step False
    by (auto simp: db_worker_def l_def split: worker_pc.splits option.splits db_task.splits)
  then obtain q where q: "ThreadPool_runInThread (\<lambda>_. TaskReturns) n (d_ThreadPool s) = Some (Inr q)"
      "t = s\<lparr>d_Latch := l, d_ThreadPool := q\<rparr>"
    by (auto simp: back_in_pool_def dest!: sym [of "Some _"] iffD1 [OF rbind_Inr])
  have t: "t = s\<lparr>d_ThreadPool := q, d_Act := (d_Act s)(n := AtTask), d_vDBConn := d_vDBConn s, d_Latch := l\<rparr>"
    using at by (auto simp: q(2) intro!: dbpool.equality)
  have l: "l = d_Latch s \<or> LatchCountDown \<in> set (g_Popped (d_ThreadPool s))"
    using latched by (simp add: l_def)
  show ?thesis unfolding t
    by (rule back_keeps [OF inv n q(1) _ _ _ l]) (simp_all add: False waiting_def at)
qed

lemma Connect_Inr:
  "DBConnection_Connect my param c w = Inr (b, c', w') \<Longrightarrow> DBConnection_IsConnected c'"
  by (auto simp: DBConnection_Connect_def DBConnection_IsConnected_def Let_def split: if_splits option.splits prod.splits)

lemma connect_all_Inr:
  assumes "connect_all my param k s = Inr t"
  shows "\<exists>cs w. length cs = k \<and> (\<forall>c\<in>set cs. DBConnection_IsConnected c) \<and>
    t = s\<lparr>d_Objs := d_Objs s @ cs, d_vDBConn := d_vDBConn s @ [length (d_Objs s)..<length (d_Objs s) + k],
          d_World := w\<rparr>"
  using assms
proof (induction k arbitrary: s)
  case 0
  then show ?case by (intro exI [of _ "[]"] exI [of _ "d_World s"]) simp
next
  case (Suc k)
  then obtain b c w where c: "DBConnection_Connect my param DBConnection_new (d_World s) = Inr (b, c, w)"
      "connect_all my param k
         (s\<lparr>d_Objs := d_Objs s @ [c], d_vDBConn := d_vDBConn s @ [length (d_Objs s)], d_World := w\<rparr>) = Inr t"
    by (auto simp: res_simps)
  from Suc.IH [OF c(2)] obtain cs w' where "length cs = k" "\<forall>c\<in>set cs. DBConnection_IsConnected c"
      "t = s\<lparr>d_Objs := d_Objs s @ c # cs,
             d_vDBConn := d_vDBConn s @ length (d_Objs s) # [Suc (length (d_Objs s))..<Suc (length (d_Objs s) + k)],
             d_World := w'\<rparr>"
    by auto
  with Connect_Inr [OF c(1)] show ?case
    by (intro exI [of _ "c # cs"] exI [of _ w']) (simp add: upt_rec [of "length (d_Objs s)"])
qed

lemma no_threads_idle:
  assumes "db_inv s" and "p_nThreads (d_ThreadPool s) = 0"
  shows "p_Workers (d_ThreadPool s) n = Exited" and "d_Act s n = AtTask"
  using assms by (auto simp: db_inv_def pool_inv_def thr_ok_def)

lemma init_keeps_db:
  assumes inv: "db_inv s" and step: "DBConnectionPool_Init my param n s = Inr (b, t)"
  shows "db_inv t"
proof (cases "d_bRunning s")
  case True
  then show ?thesis using inv step by (auto simp: DBConnectionPool_Init_def split: if_splits)
next
  case False
  let ?p = "d_ThreadPool s"
  from False step obtain s1 q where 1: "connect_all my param (nat n) (s\<lparr>d_ConnParam := param\<rparr>) = Inr s1"
      "ThreadPool_Start n (d_ThreadPool s1) = Inr q" "t = s1\<lparr>d_bRunning := True, d_ThreadPool := q\<rparr>"
    by (auto simp: DBConnectionPool_Init_def res_simps split: if_splits)
  obtain cs w where cs: "length cs = nat n" "\<forall>c\<in>set cs. DBConnection_IsConnected c"
      "s1 = s\<lparr>d_ConnParam := param, d_Objs := d_Objs s @ cs,
              d_vDBConn := d_vDBConn s @ [length (d_Objs s)..<length (d_Objs s) + nat n], d_World := w\<rparr>"
    using connect_all_Inr [OF 1(1)] by auto
  have start: "ThreadPool_Start n ?p = Inr q" using 1(2) cs(3) by simp
  then have z: "p_nThreads ?p = 0" "0 < n" and q: "q = ?p\<lparr>p_bRunning := True, p_nThreads := nat n,
      p_Workers := (\<lambda>i. if i < nat n then AtLoop else p_Workers ?p i)\<rparr>"
    by (auto simp: ThreadPool_Start_def check_def split: if_splits)
  have idle: "p_Workers ?p i = Exited" "d_Act s i = AtTask" for i using no_threads_idle [OF inv z(1)] by auto
  have stop: "d_Stop s = StopIdle" "p_Stop ?p = NotStopping"
    using inv z(1) by (auto simp: db_inv_def stop_ok_def Let_def)
  have "pool_inv q"
    by (rule pool_keeps [OF m_start [OF start stop(2)]]) (use inv in \<open>simp add: db_inv_def\<close>)
  moreover have "thr_ok q (d_Act s)" by (auto simp: q thr_ok_def idle)
  moreover have "sql_ok t"
    using inv z(1) by (simp add: db_inv_def sql_ok_def 1(3) cs(3) q waiting_def idle Let_def)
  moreover have "conn_ok t"
    using inv z cs(1,2) by (auto simp: db_inv_def conn_ok_def 1(3) cs(3) q idle)
  moreover have "stop_ok t"
    using inv z stop by (auto simp: db_inv_def stop_ok_def 1(3) cs(3) q Let_def)
  ultimately show ?thesis by (simp add: db_inv_def 1(3) cs(3))
qed

lemma marked_append: "marked m xs \<Longrightarrow> marked m (xs @ ys)"
  unfolding marked_def by (metis append.assoc append_Cons)

lemma run_keeps_db:
  assumes inv: "db_inv s" and c: "0 < d_Callers s" and m: "p_Mutex (d_ThreadPool s) = None"
    and step: "ExecuteSql_run my k s = Inr t"
  shows "db_inv t"
proof (cases "p_nThreads (d_ThreadPool s) = 0")
  case True
  then have "d_vDBConn s = []" using inv by (simp add: db_inv_def conn_ok_def)
  moreover have "d_vDBConn s1 = d_vDBConn s" if "take_sql s = Inr (sql, s1)" for sql s1
    using take_sql_Inr [OF that] by auto
  ultimately have "\<exists>e. DBConnectionPool_runInThread my s = Inl e"
    by (cases "take_sql s") (auto simp: DBConnectionPool_runInThread_def take_conn_def)
  then show ?thesis using step True by (auto simp: ExecuteSql_run_def)
next
  case False
  then obtain q where q: "ThreadPool_Run (\<lambda>_. TaskReturns) k RunInThread (d_ThreadPool s) = Inr q"
      "t = s\<lparr>d_ThreadPool := q, d_Callers := d_Callers s - 1\<rparr>"
    using step by (auto simp: ExecuteSql_run_def res_simps)
  note queues = ThreadPool_Run_queues [OF False q(1)]
  have "pool_inv q" by (rule pool_keeps [OF m_run [OF m q(1)]]) (use inv in \<open>simp add: db_inv_def\<close>)
  moreover have "thr_ok q (d_Act s)" using inv queues by (simp add: db_inv_def thr_ok_def)
  moreover have "sql_ok t" using inv c queues by (simp add: db_inv_def sql_ok_def q(2) Let_def)
  moreover have "conn_ok t" using inv queues by (simp add: db_inv_def conn_ok_def q(2))
  moreover have "stop_ok t"
    using inv queues by (auto simp: db_inv_def stop_ok_def q(2) Let_def marked_append)
  ultimately show ?thesis by (simp add: db_inv_def q(2))
qed

lemma queue_keeps_db:
  assumes inv: "db_inv s" and d: "d_Stop s = StopUnset" and m: "p_Mutex (d_ThreadPool s) = None"
    and step: "Stop_queue k s = Inr t"
  shows "db_inv t"
proof -
  have z: "p_nThreads (d_ThreadPool s) \<noteq> 0" using inv d by (auto simp: db_inv_def stop_ok_def Let_def)
  obtain q where q: "ThreadPool_Run (\<lambda>_. TaskReturns) k LatchCountDown (d_ThreadPool s) = Inr q"
      "t = s\<lparr>d_ThreadPool := q, d_Stop := StopQueued,
             g_Mark := count_list (g_Run (d_ThreadPool s)) RunInThread\<rparr>"
    using step by (auto simp: Stop_queue_def res_simps)
  note queues = ThreadPool_Run_queues [OF z q(1)]
  have "pool_inv q" by (rule pool_keeps [OF m_run [OF m q(1)]]) (use inv in \<open>simp add: db_inv_def\<close>)
  moreover have "thr_ok q (d_Act s)" using inv queues by (simp add: db_inv_def thr_ok_def)
  moreover have "sql_ok t" using inv queues by (simp add: db_inv_def sql_ok_def q(2) Let_def)
  moreover have "conn_ok t" using inv queues by (simp add: db_inv_def conn_ok_def q(2))
  moreover have "stop_ok t"
    using inv d queues z by (auto simp: db_inv_def stop_ok_def q(2) Let_def marked_def)
  ultimately show ?thesis by (simp add: db_inv_def q(2))
qed

lemma wait_keeps_db:
  assumes inv: "db_inv s" and d: "d_Stop s = StopQueued" and step: "Stop_wait tid s = Some t"
  shows "db_inv t"
proof -
  have t: "t = s\<lparr>d_ThreadPool := Stop_flag (d_ThreadPool s), d_Stop := StopWaited\<rparr>" "m_nCnt (d_Latch s) \<le> 0"
    using step by (auto simp: Stop_wait_def CountDownLatch_Wait_def split: if_splits)
  have "p_Stop (d_ThreadPool s) = NotStopping" using inv d by (simp add: db_inv_def stop_ok_def Let_def)
  then have "pool_inv (Stop_flag (d_ThreadPool s))"
    using inv by (intro pool_keeps [OF m_flag]) (simp_all add: db_inv_def)
  moreover have "thr_ok (Stop_flag (d_ThreadPool s)) (d_Act s)"
    using inv by (simp add: db_inv_def thr_ok_def Stop_flag_def)
  moreover have "sql_ok t" using inv by (simp add: db_inv_def sql_ok_def t(1) Stop_flag_def Let_def)
  moreover have "conn_ok t" using inv by (simp add: db_inv_def conn_ok_def t(1) Stop_flag_def)
  moreover have "stop_ok t"
    using inv d t(2) by (auto simp: db_inv_def stop_ok_def t(1) Stop_flag_def Let_def)
  ultimately show ?thesis by (simp add: db_inv_def t(1))
qed

lemma rest_keeps_db:
  assumes inv: "db_inv s" and d: "d_Stop s = StopWaited" and f: "p_Stop (d_ThreadPool s) = StopFlagged"
  shows "db_inv (Stop_rest s)"
proof -
  have "pool_inv (Stop_notify (d_ThreadPool s))"
    using inv by (intro pool_keeps [OF m_notify [OF f]]) (simp add: db_inv_def)
  then show ?thesis
    using inv d
    by (simp add: db_inv_def thr_ok_def sql_ok_def conn_ok_def stop_ok_def Stop_rest_def Stop_notify_def Let_def)
qed

lemma push_keeps_db: "db_inv s \<Longrightarrow> pStrSql \<noteq> Some [] \<Longrightarrow> db_inv (ExecuteSql_push pStrSql s)"
  by (cases pStrSql)
     (simp_all add: db_inv_def sql_ok_def conn_ok_def stop_ok_def ExecuteSql_push_def Let_def)

lemma unset_keeps_db: "db_inv s \<Longrightarrow> db_inv (Stop_unset s)"
  by (auto simp: db_inv_def sql_ok_def conn_ok_def stop_ok_def Stop_unset_def CountDownLatch_new_def Let_def)

definition db_start :: "('h, 'w) dbpool \<Rightarrow> bool" where
  "db_start s \<longleftrightarrow> s = DBConnectionPool_new (d_World s)"

lemma db_inv_new: "db_inv (DBConnectionPool_new w)"
  using pool_inv_new [where 'a = db_task]
  by (simp add: db_inv_def thr_ok_def sql_ok_def conn_ok_def stop_ok_def DBConnectionPool_new_def
        ThreadPool_new_def CountDownLatch_new_def Let_def)

interpretation db_system: invariant_system db_start "db_move my" db_inv
  for my :: "('h, 'r, 'w) mysql"
proof unfold_locales
  show "db_inv s" if "db_start s" for s :: "('h, 'w) dbpool"
    using that db_inv_new by (metis db_start_def)
  show "db_inv t" if "db_move my s t" "db_inv s" for s t :: "('h, 'w) dbpool"
    using that(1)
  proof (cases rule: db_move.cases)
    case (d_init param n b)
    with that(2) show ?thesis by (auto intro: init_keeps_db)
  next
    case (d_push pStrSql)
    with that(2) show ?thesis by (auto intro: push_keeps_db)
  next
    case (d_run k)
    with that(2) show ?thesis by (auto intro: run_keeps_db)
  next
    case (d_worker n)
    with that(2) show ?thesis by (auto intro: worker_keeps_db)
  next
    case d_unset
    with that(2) show ?thesis by (simp add: unset_keeps_db)
  next
    case (d_queue k)
    with that(2) show ?thesis by (auto intro: queue_keeps_db)
  next
    case (d_wait tid)
    with that(2) show ?thesis by (auto intro: wait_keeps_db)
  next
    case d_rest
    with that(2) show ?thesis by (simp add: rest_keeps_db)
  qed
qed

section \<open>Properties\<close>

lemma held_once:
  assumes "db_inv s" and "c \<in># held (d_Act s i)"
  shows "c \<notin> set (d_vDBConn s)" and "c \<in># held (d_Act s j) \<Longrightarrow> i = j" and "c < length (d_Objs s)"
proof -
  let ?N = "p_nThreads (d_ThreadPool s)"
  have bound: "k < ?N" if "c \<in># held (d_Act s k)" for k
    using that assms(1) by (cases "d_Act s k") (auto simp: db_inv_def thr_ok_def)
  have all: "mset (d_vDBConn s) + (\<Sum>n<?N. held (d_Act s n)) = mset [0..<?N]" "length (d_Objs s) = ?N"
    using assms(1) by (simp_all add: db_inv_def conn_ok_def)
  have part: "(\<Sum>n<?N. held (d_Act s n)) =
      held (d_Act s i) + (\<Sum>n\<in>{..<?N} - {i}. held (d_Act s n))"
    using bound [OF assms(2)] by (simp add: sum.remove [of "{..<?N}" i])
  have "count (mset [0..<?N]) c = (if c \<in> set [0..<?N] then 1 else 0)"
    using distinct_count_atmost_1 [of "[0..<?N]"] distinct_upt by blast
  then have "count (mset [0..<?N]) c \<le> 1" by (simp del: mset_upt)
  then have one: "count (mset (d_vDBConn s)) c + (count (held (d_Act s i)) c +
      count (\<Sum>n\<in>{..<?N} - {i}. held (d_Act s n)) c) \<le> 1"
    unfolding all(1) [symmetric] part by simp
  have pos: "0 < count (held (d_Act s i)) c" using assms(2) by simp
  then have "count (mset (d_vDBConn s)) c = 0" using one by linarith
  then show "c \<notin> set (d_vDBConn s)" using count_eq_zero_iff by fastforce
  show "c < length (d_Objs s)"
    using all part assms(2) by (metis add.commute atLeastLessThan_iff mset_subset_eq_add_left mset_subset_eqD set_mset_mset set_upt subset_mset.add_increasing2 zero_le)
  show "i = j" if "c \<in># held (d_Act s j)"
  proof (rule ccontr)
    assume "i \<noteq> j"
    then have rest: "(\<Sum>n\<in>{..<?N} - {i}. held (d_Act s n)) =
        held (d_Act s j) + (\<Sum>n\<in>{..<?N} - {i} - {j}. held (d_Act s n))"
      using bound [OF that] by (simp add: sum.remove [of "{..<?N} - {i}" j])
    have "0 < count (held (d_Act s j)) c" using that by simp
    then show False using one pos unfolding rest count_union by linarith
  qed
qed

lemma worker_has_sql:
  assumes inv: "db_inv s" and n: "n < p_nThreads (d_ThreadPool s)"
    and w: "p_Workers (d_ThreadPool s) n = HasTask (Some RunInThread)" and a: "d_Act s n = AtTask"
  shows "\<exists>sql t. take_sql s = Inr (sql, t)"
proof -
  let ?p = "d_ThreadPool s"
  have sql: "g_Taken s @ d_SqlQueue s = g_Sql s" "[] \<notin> set (g_Sql s)"
      "count_list (g_Run ?p) RunInThread + d_Callers s = length (g_Sql s)"
      "count_list (g_Popped ?p) RunInThread =
        length (g_Taken s) + (\<Sum>n<p_nThreads ?p. waiting (p_Workers ?p n) (d_Act s n))"
    using inv by (auto simp: db_inv_def sql_ok_def Let_def)
  have run: "g_Popped ?p @ p_Queue ?p = g_Run ?p" using inv by (simp add: db_inv_def pool_inv_def)
  have "1 \<le> (\<Sum>n<p_nThreads ?p. waiting (p_Workers ?p n) (d_Act s n))"
    using n w a member_le_sum [of n "{..<p_nThreads ?p}" "\<lambda>n. waiting (p_Workers ?p n) (d_Act s n)"]
    by (simp add: waiting_def)
  moreover have "count_list (g_Popped ?p) RunInThread \<le> length (g_Sql s)"
    using sql(3) by (simp add: run [symmetric])
  ultimately have "length (g_Taken s) < length (g_Sql s)" using sql(4) by linarith
  then obtain q rest where q: "d_SqlQueue s = q # rest" using sql(1) by (cases "d_SqlQueue s") auto
  moreover have "q \<noteq> []" using sql(2) by (auto simp: sql(1) [symmetric] q)
  ultimately show ?thesis by (simp add: take_sql_def DBConnectionPool_task_def check_def)
qed

lemma worker_has_conn:
  assumes inv: "db_inv s" and n: "n < p_nThreads (d_ThreadPool s)" and a: "d_Act s n = HasSql sql"
  shows "\<exists>c t. take_conn s = Inr (c, t)"
proof (cases "d_vDBConn s")
  case Nil
  let ?N = "p_nThreads (d_ThreadPool s)"
  have le: "size (held x) \<le> 1" for x by (cases x) auto
  have "?N = (\<Sum>n<?N. size (held (d_Act s n)))"
    using inv Nil by (simp add: db_inv_def conn_ok_def size_multiset_sum [symmetric])
  also have "\<dots> = (\<Sum>n\<in>{..<?N} - {n}. size (held (d_Act s n)))"
    using n a by (simp add: sum.remove [of "{..<?N}" n])
  also have "\<dots> \<le> (\<Sum>n\<in>{..<?N} - {n}. 1)" by (intro sum_mono le)
  also have "\<dots> = ?N - 1" using n by simp
  finally show ?thesis using n by simp
qed (simp add: take_conn_def)

lemma query_fails:
  assumes "DBConnection_IsConnected c" and "DBConnection_ExecuteSql my (Some sql) c w = Inl e"
  shows "\<exists>h. m_pMysqlConn c = Some h \<and> fst (my_query my h sql w) \<noteq> 0"
  using assms
  by (auto simp: DBConnection_IsConnected_def DBConnection_ExecuteSql_def DBRecordSet_new_def check_def Let_def
        split: prod.splits if_splits)

lemma pool_runs: "back_in_pool n u \<noteq> Some (Inl e)"
proof -
  have "ThreadPool_runInThread (\<lambda>_. TaskReturns) n p \<noteq> Some (Inl e')" for p :: "db_task pool" and e'
  proof (cases "p_Workers p n")
    case (HasTask x)
    then show ?thesis by (cases x) (simp_all add: ThreadPool_runInThread_def)
  qed (simp_all add: ThreadPool_runInThread_def)
  then show ?thesis
    by (cases "ThreadPool_runInThread (\<lambda>_. TaskReturns) n (d_ThreadPool u)")
       (auto simp: back_in_pool_def res_simps split: sum.splits elim: rbind.elims)
qed


text \<open>A library whose server accepts the connections and answers queries with \<open>code\<close>.\<close>

definition demo_mysql :: "int \<Rightarrow> (nat, nat, nat) mysql" where
  "demo_mysql code =
     \<lparr>my_init = (\<lambda>w. (Some w, w + 1)), my_real_connect = (\<lambda>h param w. (True, w)), my_close = (\<lambda>h w. w),
      my_query = (\<lambda>h sql w. (code, w)), my_store_result = (\<lambda>h w. (None, w)),
      my_autocommit = (\<lambda>h b w. w), my_commit = (\<lambda>h w. w), my_rollback = (\<lambda>h w. w),
      my_free_result = (\<lambda>r w. w), my_num_rows = (\<lambda>r w. 0), my_num_fields = (\<lambda>r w. 0),
      my_fetch_row = (\<lambda>r w. (None, w)), my_fetch_lengths = (\<lambda>r w. None),
      my_field_seek = (\<lambda>r n w. w), my_fetch_field = (\<lambda>r w. (None, w))\<rparr>"

text \<open>Some steps of one worker.\<close>

fun worker_run :: "('h, 'r, 'w) mysql \<Rightarrow> nat \<Rightarrow> nat \<Rightarrow> ('h, 'w) dbpool \<Rightarrow> ('h, 'w) dbpool option" where
  "worker_run my n 0 s = Some s"
| "worker_run my n (Suc k) s =
     (if n < p_nThreads (d_ThreadPool s)
      then (case db_worker my n s of Some (Inr t) \<Rightarrow> worker_run my n k t | _ \<Rightarrow> None) else None)"

lemma worker_run_moves: "worker_run my n k s = Some t \<Longrightarrow> (db_move my)\<^sup>*\<^sup>* s t"
proof (induction k arbitrary: s)
  case (Suc k)
  then obtain u where "n < p_nThreads (d_ThreadPool s)" "db_worker my n s = Some (Inr u)" "worker_run my n k u = Some t"
    by (auto split: if_splits option.splits sum.splits)
  then show ?case using Suc.IH by (meson converse_rtranclp_into_rtranclp d_worker)
qed simp

lemma moves_reach: "(db_move my)\<^sup>*\<^sup>* s t \<Longrightarrow> reach db_start (db_move my) s \<Longrightarrow> reach db_start (db_move my) t"
  by (induction rule: rtranclp_induct) (auto intro: reach_step)

definition demo_pushed :: "int \<Rightarrow> (nat, nat) dbpool" where
  "demo_pushed code =
     (case DBConnectionPool_Init (demo_mysql code) (DBConnectParam_new [] 0 [] [] []) 1 (DBConnectionPool_new 0) of
        Inr (b, s) \<Rightarrow>
          (case ExecuteSql_run (demo_mysql code) 0 (ExecuteSql_push (Some ''q'') s) of Inr t \<Rightarrow> t | Inl e \<Rightarrow> s)
      | Inl e \<Rightarrow> DBConnectionPool_new 0)"

lemma demo_Init: "DBConnectionPool_Init (demo_mysql code) (DBConnectParam_new [] 0 [] [] []) 1 (DBConnectionPool_new 0) =
    Inr (True, (DBConnectionPool_new 0)\<lparr>d_Objs := [\<lparr>m_pMysqlConn = Some 0,
        m_ConnParam = DBConnectParam_new [] 0 [] [] [], m_bIsUsed = False\<rparr>], d_vDBConn := [0], d_World := 1,
      d_bRunning := True, d_ThreadPool := ThreadPool_new\<lparr>p_bRunning := True, p_nThreads := 1,
        p_Workers := (\<lambda>i. if i < 1 then AtLoop else Exited)\<rparr>\<rparr>)"
  by (simp add: DBConnectionPool_Init_def demo_mysql_def DBConnection_Connect_def DBConnection_new_def
      DBConnectionPool_new_def ThreadPool_Start_def ThreadPool_new_def check_def fun_eq_iff)

lemma demo_pushed_reach: "reach db_start (db_move (demo_mysql code)) (demo_pushed code)"
proof -
  let ?my = "demo_mysql code"
  let ?R = "reach db_start (db_move ?my)"
  obtain b s where s: "DBConnectionPool_Init ?my (DBConnectParam_new [] 0 [] [] []) 1 (DBConnectionPool_new 0) = Inr (b, s)"
    using demo_Init by blast
  have "?R s"
    by (rule reach_once [where s = "DBConnectionPool_new 0"])
       (simp add: db_start_def DBConnectionPool_new_def, rule d_init [OF s])
  then have 1: "?R (ExecuteSql_push (Some ''q'') s)" by (rule reach_step) (simp add: d_push)
  have m: "0 < d_Callers (ExecuteSql_push (Some ''q'') s)"
      "p_Mutex (d_ThreadPool (ExecuteSql_push (Some ''q'') s)) = None"
    using s unfolding demo_Init
    by (auto simp: ExecuteSql_push_def DBConnectionPool_new_def ThreadPool_new_def)
  obtain t where t: "ExecuteSql_run ?my 0 (ExecuteSql_push (Some ''q'') s) = Inr t"
    using s unfolding demo_Init by (auto simp: ExecuteSql_run_def ThreadPool_Run_def ExecuteSql_push_def)
  have "?R t" by (rule reach_step [OF 1]) (rule d_run [OF m t])
  then show ?thesis using s t by (simp add: demo_pushed_def)
qed


lemma pool_grows:
  "back_in_pool n s = Some (Inr t) \<Longrightarrow> g_Sql t = g_Sql s \<and> g_Mark t = g_Mark s \<and> d_Stop t = d_Stop s"
  by (auto simp: back_in_pool_def res_simps)

lemma worker_grows:
  assumes "db_worker my n s = Some (Inr t)"
  shows "g_Sql t = g_Sql s \<and> g_Mark t = g_Mark s \<and> d_Stop t = d_Stop s"
proof -
  have act: "g_Sql t = g_Sql s \<and> g_Mark t = g_Mark s \<and> d_Stop t = d_Stop s"
    if "act_step my n (d_Act s n) s = Some (Inr t)"
  proof (cases "d_Act s n")
    case AtTask
    with that show ?thesis by (auto simp: res_simps set_act_def dest!: take_sql_Inr)
  next
    case (HasSql sql)
    with that show ?thesis by (auto simp: res_simps set_act_def dest!: take_conn_Inr)
  next
    case (HasConn sql c)
    with that show ?thesis by (auto simp: res_simps set_act_def dest!: run_sql_Inr)
  next
    case (RanSql c)
    with that show ?thesis by (auto simp: set_act_def give_back_def dest: pool_grows)
  qed
  from assms act show ?thesis
    by (auto simp: db_worker_def dest!: pool_grows split: worker_pc.splits option.splits db_task.splits)
qed

lemma stopping_grows:
  assumes inv: "db_inv s" and step: "db_move my s t" and d: "d_Stop s \<in> {StopQueued, StopWaited}"
  shows "(\<exists>rest. g_Sql t = g_Sql s @ rest) \<and> g_Mark t = g_Mark s \<and> d_Stop t \<in> {StopQueued, StopWaited}"
proof -
  have run: "\<not> d_bRunning s" and thr: "p_nThreads (d_ThreadPool s) \<noteq> 0"
    using inv d by (auto simp: db_inv_def stop_ok_def Let_def)
  from step show ?thesis
  proof (cases rule: db_move.cases)
    case (d_init param n b)
    then obtain s1 where "connect_all my param (nat n) (s\<lparr>d_ConnParam := param\<rparr>) = Inr s1"
        "\<exists>q. ThreadPool_Start n (d_ThreadPool s1) = Inr q"
      using run by (auto simp: DBConnectionPool_Init_def res_simps split: if_splits)
    then show ?thesis
      using thr by (auto dest!: connect_all_Inr simp: ThreadPool_Start_def check_def)
  next
    case (d_push pStrSql)
    then show ?thesis using d by (cases pStrSql) (auto simp: ExecuteSql_push_def)
  next
    case (d_run k)
    then show ?thesis using d thr by (auto simp: ExecuteSql_run_def res_simps)
  next
    case (d_worker n)
    then show ?thesis using d worker_grows by fastforce
  next
    case d_unset
    then show ?thesis using d run by (simp add: Stop_unset_def)
  next
    case (d_wait tid)
    then show ?thesis by (auto simp: Stop_wait_def split: if_splits)
  next
    case d_rest
    then show ?thesis by (simp add: Stop_rest_def)
  qed (use d in auto)
qed

lemma stopping_run:
  assumes "(db_move my)\<^sup>*\<^sup>* s t" and "db_inv s" and "d_Stop s \<in> {StopQueued, StopWaited}"
  shows "db_inv t \<and> (\<exists>rest. g_Sql t = g_Sql s @ rest) \<and> g_Mark t = g_Mark s \<and> d_Stop t \<in> {StopQueued, StopWaited}"
  using assms
proof (induction rule: rtranclp_induct)
  case (step t u)
  with stopping_grows [OF _ step(2)] db_system.move_keeps [OF step(2)] show ?case
    by (metis append.assoc)
qed auto

text \<open>When \<open>Stop\<close> has joined the workers, every task before the latch's has been run.\<close>

lemma joined_ran:
  assumes inv: "db_inv u" and d: "d_Stop u = StopWaited" and joined: "Stop_joined (d_ThreadPool u)"
  shows "mset (take (g_Mark u) (g_Sql u)) \<subseteq># mset (g_Ran u)"
proof -
  let ?p = "d_ThreadPool u"
  have exited: "p_Workers ?p n = Exited" if "n < p_nThreads ?p" for n
    using that joined by (simp add: Stop_joined_def)
  have idle: "d_Act u n = AtTask" if "n < p_nThreads ?p" for n
    using inv exited [OF that] by (auto simp: db_inv_def thr_ok_def)
  have "(\<Sum>n<p_nThreads ?p. waiting (p_Workers ?p n) (d_Act u n)) = 0"
    by (intro sum.neutral) (simp add: waiting_def exited)
  moreover have "(\<Sum>n<p_nThreads ?p. inflight (d_Act u n)) = {#}"
    by (intro sum.neutral) (simp add: idle)
  ultimately have taken: "g_Taken u @ d_SqlQueue u = g_Sql u" "count_list (g_Popped ?p) RunInThread = length (g_Taken u)"
      "mset (g_Taken u) = mset (g_Ran u)"
    using inv by (simp_all add: db_inv_def sql_ok_def Let_def)
  obtain pre post where m: "g_Run ?p = pre @ LatchCountDown # post" "LatchCountDown \<notin> set pre"
      "count_list pre RunInThread = g_Mark u" "LatchCountDown \<in> set (g_Popped ?p)"
    using inv d by (auto simp: db_inv_def stop_ok_def marked_def Let_def)
  have "g_Popped ?p @ p_Queue ?p = pre @ LatchCountDown # post"
    using inv m(1) by (simp add: db_inv_def pool_inv_def)
  then obtain us where "g_Popped ?p = pre @ us"
    using m(2,4) by (auto simp: append_eq_append_conv2)
  then have "g_Mark u \<le> length (g_Taken u)" using m(3) taken(2) by simp
  then have "take (g_Mark u) (g_Sql u) = take (g_Mark u) (g_Taken u)" by (simp add: taken(1) [symmetric])
  moreover have "mset (take k xs) \<subseteq># mset xs" for k :: nat and xs :: "string list"
    by (metis append_take_drop_id mset_append mset_subset_eq_add_left)
  ultimately show ?thesis using taken(3) by metis
qed

text \<open>
  C24: \<open>Stop\<close> loses no statement: when no call of \<open>ExecuteSql\<close> is under way as it queues the
  latch, every statement handed in up to then has been run by the time it has joined the
  workers, whatever is handed in meanwhile.
\<close>

theorem Stop_runs_every_statement:
  assumes "reach db_start (db_move my) s" and "d_Stop s = StopUnset" and "d_Callers s = 0"
    and "p_Mutex (d_ThreadPool s) = None" and "Stop_queue k s = Inr t" and "(db_move my)\<^sup>*\<^sup>* t u"
    and "d_Stop u = StopWaited" and "Stop_joined (d_ThreadPool u)"
  shows "mset (g_Sql s) \<subseteq># mset (g_Ran u)"
proof -
  have inv: "db_inv s" by (rule db_system.reach_keeps [OF assms(1)])
  have t: "db_inv t" by (rule queue_keeps_db [OF inv assms(2,4,5)])
  have q: "g_Sql t = g_Sql s" "d_Stop t = StopQueued" "g_Mark t = length (g_Sql s)"
    using assms(3,5) inv by (auto simp: Stop_queue_def res_simps db_inv_def sql_ok_def Let_def)
  obtain rest where u: "db_inv u" "g_Sql u = g_Sql s @ rest" "g_Mark u = length (g_Sql s)"
    using stopping_run [OF assms(6) t] q by auto
  show ?thesis using joined_ran [OF u(1) assms(7,8)] u(2,3) by simp
qed

text \<open>The run of the witness: its states, written out, with worker 0 at \<open>pc\<close>.\<close>

definition demo_state ::
    "bool \<Rightarrow> bool \<Rightarrow> db_stop \<Rightarrow> stop_pc \<Rightarrow> db_task worker_pc \<Rightarrow> db_task list \<Rightarrow> db_task list \<Rightarrow> db_task list \<Rightarrow>
     nat \<Rightarrow> int \<Rightarrow> string list \<Rightarrow> string list \<Rightarrow> nat \<Rightarrow> (nat, nat) dbpool" where
  "demo_state running alive phase stopping pc queue handed popped callers cnt sqls did mark =
     \<lparr>d_ConnParam = DBConnectParam_new [] 0 [] [] [],
      d_ThreadPool = \<lparr>p_Mutex = None, p_Cond = Condition_new, p_Queue = queue, p_bRunning = alive,
        p_Workers = (\<lambda>_. Exited)(0 := pc), p_nThreads = 1, p_Stop = stopping, g_Run = handed, g_Popped = popped\<rparr>,
      d_SqlQueue = sqls, d_vDBConn = [0], d_bRunning = running,
      d_Objs = [\<lparr>m_pMysqlConn = Some 0, m_ConnParam = DBConnectParam_new [] 0 [] [] [], m_bIsUsed = False\<rparr>],
      d_World = 1, d_Act = (\<lambda>_. AtTask), d_Latch = \<lparr>m_Cond = Condition_new, m_nCnt = cnt\<rparr>, d_Stop = phase,
      d_Callers = callers, g_Sql = [''q''], g_Taken = did, g_Ran = did, g_Mark = mark\<rparr>"

lemma const_upd: "(\<lambda>_. c)(n := c) = (\<lambda>_. c)"
  by auto

lemmas demo_simps = const_upd db_worker_def back_in_pool_def ThreadPool_runInThread_def take_leave_def at_pc_def
  set_act_def take_sql_def DBConnectionPool_task_def check_def take_conn_def run_sql_def
  DBConnection_ExecuteSql_def give_back_def demo_mysql_def CountDownLatch_CountDown_def
  Condition_NotifyAll_def Condition_new_def

lemma demo_pushed_state: "demo_pushed code =
    demo_state True True StopIdle NotStopping AtLoop [RunInThread] [RunInThread] [] 0 1 [''q''] [] 0"
  unfolding demo_pushed_def demo_Init
  by (auto simp: demo_state_def ExecuteSql_push_def ExecuteSql_run_def ThreadPool_Run_def DBConnectionPool_new_def
      ThreadPool_new_def CountDownLatch_new_def Condition_new_def Condition_Notify_def fun_eq_iff)

lemma demo_statement: "worker_run (demo_mysql 0) 0 7
    (demo_state False True StopQueued NotStopping AtLoop [RunInThread, LatchCountDown] h [] 0 1 [''q''] [] m) =
  Some (demo_state False True StopQueued NotStopping AtLoop [LatchCountDown] h [RunInThread] 0 1 [] [''q''] m)"
  by (simp add: demo_state_def eval_nat_numeral demo_simps)

lemma demo_latch: "worker_run (demo_mysql 0) 0 4
    (demo_state False True StopQueued NotStopping AtLoop [LatchCountDown] h [RunInThread] 0 1 [] [''q''] m) =
  Some (demo_state False True StopQueued NotStopping AtLoop [] h [RunInThread, LatchCountDown] 0 0 [] [''q''] m)"
  by (simp add: demo_state_def eval_nat_numeral demo_simps)

lemma demo_exit: "worker_run (demo_mysql 0) 0 1
    (demo_state False False StopWaited Joining AtLoop q h p 0 0 [] [''q''] m) =
  Some (demo_state False False StopWaited Joining Exited q h p 0 0 [] [''q''] m)"
  by (simp add: demo_state_def demo_simps)

theorem Stop_runs_every_statement_witness:
  "\<exists>u. reach db_start (db_move (demo_mysql 0)) u \<and> Stop_joined (d_ThreadPool u) \<and> g_Sql u = [''q''] \<and>
     {#''q''#} \<subseteq># mset (g_Ran u)"
proof -
  let ?my = "demo_mysql 0" and ?h = "[RunInThread, LatchCountDown]"
  let ?s = "demo_state False True StopUnset NotStopping AtLoop [RunInThread] [RunInThread] [] 0 1 [''q''] [] 0"
  let ?t = "demo_state False True StopQueued NotStopping AtLoop ?h ?h [] 0 1 [''q''] [] 1"
  let ?v = "demo_state False True StopQueued NotStopping AtLoop [] ?h ?h 0 0 [] [''q''] 1"
  let ?w = "demo_state False False StopWaited StopFlagged AtLoop [] ?h ?h 0 0 [] [''q''] 1"
  let ?x = "demo_state False False StopWaited Joining AtLoop [] ?h ?h 0 0 [] [''q''] 1"
  let ?u = "demo_state False False StopWaited Joining Exited [] ?h ?h 0 0 [] [''q''] 1"
  have "Stop_unset (demo_pushed 0) = ?s"
    by (simp add: demo_pushed_state Stop_unset_def demo_state_def CountDownLatch_new_def)
  then have r: "reach db_start (db_move ?my) ?s" using reach_step [OF demo_pushed_reach [of 0], of "Stop_unset (demo_pushed 0)"] d_unset [of ?my "demo_pushed 0"] by simp
  have s: "d_Stop ?s = StopUnset" "d_Callers ?s = 0" "p_Mutex (d_ThreadPool ?s) = None"
    by (simp_all add: demo_state_def)
  have q: "Stop_queue 0 ?s = Inr ?t"
    by (simp add: Stop_queue_def ThreadPool_Run_def demo_state_def Condition_Notify_def Condition_new_def)
  have v: "db_move ?my ?v ?w"
    by (rule d_wait [where tid = 9])
       (simp_all add: demo_state_def Stop_wait_def CountDownLatch_Wait_def Stop_flag_def)
  have "Stop_rest ?w = ?x"
    by (simp add: Stop_rest_def Stop_notify_def demo_state_def Condition_NotifyAll_def Condition_new_def)
  moreover have "db_move ?my ?w (Stop_rest ?w)" by (rule d_rest) (simp_all add: demo_state_def)
  ultimately have w: "db_move ?my ?w ?x" by simp
  have run: "(db_move ?my)\<^sup>*\<^sup>* ?t ?u"
    by (rule rtranclp_trans [OF worker_run_moves [OF demo_statement [of ?h 1]]
          rtranclp_trans [OF worker_run_moves [OF demo_latch [of ?h 1]]
          converse_rtranclp_into_rtranclp [where r = "db_move ?my", OF v
          converse_rtranclp_into_rtranclp [where r = "db_move ?my", OF w
          worker_run_moves [OF demo_exit [of "[]" ?h ?h 1]]]]]])
  have t: "reach db_start (db_move ?my) ?t" by (rule reach_step [OF r]) (rule d_queue [OF s(1,3) q])
  have u: "d_Stop ?u = StopWaited" "Stop_joined (d_ThreadPool ?u)" "g_Sql ?u = [''q'']" "g_Sql ?s = [''q'']"
    by (simp_all add: demo_state_def Stop_joined_def)
  show ?thesis
    using Stop_runs_every_statement [OF r s q run u(1,2)] moves_reach [OF run t] u by fastforce
qed

text \<open>A pool of no connections cannot be started, although \<open>Init\<close> lets the number zero pass.\<close>

lemma Init_zero_asserts:
  "\<not> d_bRunning s \<Longrightarrow> DBConnectionPool_Init my param 0 s = Inl AssertFailed"
  by (simp add: DBConnectionPool_Init_def ThreadPool_Start_def check_def)

text \<open>After \<open>Stop\<close> the pool cannot be started again: the thread pool still has its threads.\<close>

lemma Init_after_Stop_asserts:
  assumes "reach db_start (db_move my) s" and "d_Stop s \<noteq> StopIdle" and "\<not> d_bRunning s"
  shows "\<exists>e. DBConnectionPool_Init my param n s = Inl e"
proof -
  have "p_nThreads (d_ThreadPool s) \<noteq> 0"
    using db_system.reach_keeps [OF assms(1)] assms(2) by (auto simp: db_inv_def stop_ok_def Let_def)
  moreover have "d_ThreadPool s1 = d_ThreadPool s"
    if "connect_all my param (nat n) (s\<lparr>d_ConnParam := param\<rparr>) = Inr s1" for s1
    using connect_all_Inr [OF that] by auto
  ultimately show ?thesis
    using assms(3)
    by (cases "connect_all my param (nat n) (s\<lparr>d_ConnParam := param\<rparr>)")
       (auto simp: DBConnectionPool_Init_def ThreadPool_Start_def check_def)
qed

text \<open>An empty statement ends the program once a worker comes to it.\<close>

lemma empty_statement_asserts:
  "d_SqlQueue s = [] # rest \<Longrightarrow> take_sql s = Inl AssertFailed"
  by (simp add: take_sql_def DBConnectionPool_task_def check_def)

end
