(* ===== verification/TcpStreams.thy ===== *)
theory TcpStreams
  imports SocketAddrs
begin

text \<open>
  \<open>tcp/Socket\<close>, \<open>tcp/TcpStream\<close>, \<open>tcp/Acceptor\<close> and the program \<open>tcp/Tcp_Test.cpp\<close>: blocking TCP.
  Addresses are those of \<open>SocketAddrs\<close>, to which \<open>TcpAddresses\<close> proves \<open>tcp/InetAddress\<close> equal. The
  system calls
  are the record \<open>kernel\<close> of functions on a world \<open>'w\<close>; what they do on a descriptor that is not
  open is written out: they return -1. A \<open>Socket\<close> owns its descriptor by its destructor alone: it
  declares no copy or move constructor, so \<open>std::move\<close> copies it. An object returned by value
  (\<open>CreateTcp\<close>) is built in place.
\<close>

section \<open>The system\<close>

record 'w kernel =
  k_socket :: "'w \<Rightarrow> int \<times> 'w"
  k_close :: "int \<Rightarrow> 'w \<Rightarrow> int \<times> 'w"
  k_bind :: "int \<Rightarrow> sockaddr_in \<Rightarrow> 'w \<Rightarrow> int \<times> 'w"
  k_listen :: "int \<Rightarrow> 'w \<Rightarrow> int \<times> 'w"
  k_accept :: "int \<Rightarrow> 'w \<Rightarrow> int \<times> 'w"
  k_connect :: "int \<Rightarrow> sockaddr_in \<Rightarrow> 'w \<Rightarrow> int \<times> 'w"
  k_shutdown :: "int \<Rightarrow> 'w \<Rightarrow> int \<times> 'w"
  k_setsockopt :: "int \<Rightarrow> sock_option \<Rightarrow> int \<Rightarrow> nat \<Rightarrow> 'w \<Rightarrow> int \<times> 'w"
  k_recv :: "int \<Rightarrow> nat \<Rightarrow> 'w \<Rightarrow> (int \<times> byte list) \<times> 'w"
  k_read :: "int \<Rightarrow> nat \<Rightarrow> 'w \<Rightarrow> (int \<times> byte list) \<times> 'w"
  k_write :: "int \<Rightarrow> byte list \<Rightarrow> 'w \<Rightarrow> int \<times> 'w"

record 'w os =
  o_Fds :: "int set"
  o_World :: 'w
  o_Out :: "string list"    \<comment> \<open>what \<open>perror\<close> and \<open>printf\<close> wrote\<close>

definition print :: "string \<Rightarrow> 'w os \<Rightarrow> 'w os" where
  "print msg os = os\<lparr>o_Out := o_Out os @ [msg]\<rparr>"

definition on_fd :: "int \<Rightarrow> 'a \<Rightarrow> ('w \<Rightarrow> 'a \<times> 'w) \<Rightarrow> 'w os \<Rightarrow> 'a \<times> 'w os" where
  "on_fd fd bad call os =
     (if fd \<in> o_Fds os then (let (r, w) = call (o_World os) in (r, os\<lparr>o_World := w\<rparr>)) else (bad, os))"

definition opened :: "int \<Rightarrow> 'w os \<Rightarrow> 'w os" where
  "opened fd os = (if 0 \<le> fd then os\<lparr>o_Fds := insert fd (o_Fds os)\<rparr> else os)"

definition sys_socket :: "'w kernel \<Rightarrow> 'w os \<Rightarrow> int \<times> 'w os" where
  "sys_socket k os = (let (fd, w) = k_socket k (o_World os) in (fd, opened fd (os\<lparr>o_World := w\<rparr>)))"

definition sys_accept :: "'w kernel \<Rightarrow> int \<Rightarrow> 'w os \<Rightarrow> int \<times> 'w os" where
  "sys_accept k fd os = (let (r, os1) = on_fd fd (- 1) (k_accept k fd) os in (r, opened r os1))"

definition sys_close :: "'w kernel \<Rightarrow> int \<Rightarrow> 'w os \<Rightarrow> int \<times> 'w os" where
  "sys_close k fd os =
     (let (r, os1) = on_fd fd (- 1) (k_close k fd) os in (r, os1\<lparr>o_Fds := o_Fds os1 - {fd}\<rparr>))"

section \<open>Socket\<close>

record TcpSocket =
  ts_nSockFd :: int

definition TcpSocket_new :: "int \<Rightarrow> TcpSocket res" where
  "TcpSocket_new nSockFd = check (0 \<le> nSockFd) (Inr \<lparr>ts_nSockFd = nSockFd\<rparr>)"

definition TcpSocket_delete :: "'w kernel \<Rightarrow> TcpSocket \<Rightarrow> 'w os \<Rightarrow> (TcpSocket \<times> 'w os) res" where
  "TcpSocket_delete k s os =
     (if 0 \<le> ts_nSockFd s
      then (let (nRet, os1) = sys_close k (ts_nSockFd s) os
            in check (0 = nRet) (Inr (s\<lparr>ts_nSockFd := 0\<rparr>, os1)))
      else Inr (s, os))"

definition TcpSocket_GetFd :: "TcpSocket \<Rightarrow> int" where
  "TcpSocket_GetFd s = ts_nSockFd s"

definition TcpSocket_Bind :: "'w kernel \<Rightarrow> InetAddress \<Rightarrow> TcpSocket \<Rightarrow> 'w os \<Rightarrow> 'w os res" where
  "TcpSocket_Bind k rAddr s os =
     (let (nRet, os1) = on_fd (ts_nSockFd s) (- 1) (k_bind k (ts_nSockFd s) rAddr) os
      in if nRet \<noteq> 0 then Inl Aborted else Inr os1)"

definition TcpSocket_Listen :: "'w kernel \<Rightarrow> TcpSocket \<Rightarrow> 'w os \<Rightarrow> 'w os res" where
  "TcpSocket_Listen k s os =
     (let (nRet, os1) = on_fd (ts_nSockFd s) (- 1) (k_listen k (ts_nSockFd s)) os
      in if nRet \<noteq> 0 then Inl Aborted else Inr os1)"

definition TcpSocket_Connet :: "'w kernel \<Rightarrow> InetAddress \<Rightarrow> TcpSocket \<Rightarrow> 'w os \<Rightarrow> int \<times> 'w os" where
  "TcpSocket_Connet k rAddr s os = on_fd (ts_nSockFd s) (- 1) (k_connect k (ts_nSockFd s) rAddr) os"

definition TcpSocket_ShutdownWrite :: "'w kernel \<Rightarrow> TcpSocket \<Rightarrow> 'w os \<Rightarrow> 'w os" where
  "TcpSocket_ShutdownWrite k s os =
     (let (nRet, os1) = on_fd (ts_nSockFd s) (- 1) (k_shutdown k (ts_nSockFd s)) os
      in if nRet < 0 then print ''Socket::ShutdownWrite'' os1 else os1)"

text \<open>The comparison stands inside the argument: the length given is that of \<open>sizeof(nOptVal) < 0\<close>.\<close>

definition option_length :: nat where
  "option_length = (if (4 :: nat) < 0 then 1 else 0)"

definition TcpSocket_SetTcpNoDelay :: "'w kernel \<Rightarrow> bool \<Rightarrow> TcpSocket \<Rightarrow> 'w os \<Rightarrow> 'w os" where
  "TcpSocket_SetTcpNoDelay k bOn s os =
     (let nOptVal = (if bOn then 1 else 0);
          (nRet, os1) = on_fd (ts_nSockFd s) (- 1) (k_setsockopt k (ts_nSockFd s) TCP_NODELAY nOptVal option_length) os
      in if nRet \<noteq> 0 then print ''Socket::SetTcpNoDelay()'' os1 else os1)"

definition TcpSocket_SetReuseAddr :: "'w kernel \<Rightarrow> bool \<Rightarrow> TcpSocket \<Rightarrow> 'w os \<Rightarrow> 'w os" where
  "TcpSocket_SetReuseAddr k bOn s os =
     (let nOptVal = (if bOn then 1 else 0);
          (nRet, os1) = on_fd (ts_nSockFd s) (- 1) (k_setsockopt k (ts_nSockFd s) SO_REUSEADDR nOptVal option_length) os
      in if nRet \<noteq> 0 then print ''Socket::SetReuseAddr()'' os1 else os1)"

definition TcpSocket_CreateTcp :: "'w kernel \<Rightarrow> 'w os \<Rightarrow> (TcpSocket \<times> 'w os) res" where
  "TcpSocket_CreateTcp k os =
     (let (nSockFd, os1) = sys_socket k os
      in check (0 \<le> nSockFd) (rbind (TcpSocket_new nSockFd) (\<lambda>s. Inr (s, os1))))"

section \<open>TcpStream\<close>

record TcpStream =
  st_Socket :: TcpSocket

definition TcpStream_new :: "TcpSocket \<Rightarrow> TcpStream" where
  "TcpStream_new rSocket = \<lparr>st_Socket = rSocket\<rparr>"

definition TcpStream_delete :: "'w kernel \<Rightarrow> TcpStream \<Rightarrow> 'w os \<Rightarrow> 'w os res" where
  "TcpStream_delete k st os = rbind (TcpSocket_delete k (st_Socket st) os) (\<lambda>(_, os1). Inr os1)"

text \<open>The local \<open>socket\<close> is destroyed when the function returns.\<close>

definition TcpStream_Connect :: "'w kernel \<Rightarrow> InetAddress \<Rightarrow> 'w os \<Rightarrow> (TcpStream option \<times> 'w os) res" where
  "TcpStream_Connect k rServerAddr os =
     rbind (TcpSocket_CreateTcp k os) (\<lambda>(socket, os1).
       let (nRet, os2) = TcpSocket_Connet k rServerAddr socket os1;
           tcpStreamPtr = (if 0 = nRet then Some (TcpStream_new socket) else None)
       in rbind (TcpSocket_delete k socket os2) (\<lambda>(_, os3). Inr (tcpStreamPtr, os3)))"

definition TcpStream_Connect_from ::
    "'w kernel \<Rightarrow> InetAddress \<Rightarrow> InetAddress \<Rightarrow> 'w os \<Rightarrow> (TcpStream option \<times> 'w os) res" where
  "TcpStream_Connect_from k rServerAddr rLocalAddr os =
     rbind (TcpSocket_CreateTcp k os) (\<lambda>(socket, os1).
     rbind (TcpSocket_Bind k rLocalAddr socket os1) (\<lambda>os2.
       let (nRet, os3) = TcpSocket_Connet k rServerAddr socket os2;
           tcpStreamPtr = (if 0 = nRet then Some (TcpStream_new socket) else None)
       in rbind (TcpSocket_delete k socket os3) (\<lambda>(_, os4). Inr (tcpStreamPtr, os4))))"

definition stream_fd :: "TcpStream \<Rightarrow> int" where
  "stream_fd st = TcpSocket_GetFd (st_Socket st)"

text \<open>An \<open>int\<close> length becomes a \<open>size_t\<close>.\<close>

definition size_of_int :: "int \<Rightarrow> nat" where
  "size_of_int n = unat (word_of_int n :: 64 word)"

definition TcpStream_ReadAll :: "'w kernel \<Rightarrow> int \<Rightarrow> TcpStream \<Rightarrow> 'w os \<Rightarrow> (int \<times> byte list) \<times> 'w os" where
  "TcpStream_ReadAll k nLength st os =
     on_fd (stream_fd st) (- 1, []) (k_recv k (stream_fd st) (size_of_int nLength)) os"

definition TcpStream_ReadSome :: "'w kernel \<Rightarrow> int \<Rightarrow> TcpStream \<Rightarrow> 'w os \<Rightarrow> (int \<times> byte list) \<times> 'w os" where
  "TcpStream_ReadSome k nLength st os =
     on_fd (stream_fd st) (- 1, []) (k_read k (stream_fd st) (size_of_int nLength)) os"

definition sys_write :: "'w kernel \<Rightarrow> byte list \<Rightarrow> TcpStream \<Rightarrow> 'w os \<Rightarrow> int \<times> 'w os" where
  "sys_write k buf st os = on_fd (stream_fd st) (- 1) (k_write k (stream_fd st) buf) os"

text \<open>\<open>pBuf\<close> is the \<open>nLength\<close> bytes at the pointer. The constant is Linux's \<open>EINTR\<close>.\<close>

function SendAll_loop :: "'w kernel \<Rightarrow> byte list \<Rightarrow> TcpStream \<Rightarrow> int \<Rightarrow> 'w os \<Rightarrow> int \<times> 'w os" where
  "SendAll_loop k buf st nWrite os =
     (if nWrite < int (length buf)
      then (let (nRet, os1) = sys_write k buf st os
            in if nRet > 0 then SendAll_loop k buf st (nWrite + nRet) os1
               else if 4 \<noteq> nRet \<or> 0 = nRet then (nWrite, os1)
               else SendAll_loop k buf st nWrite os1)
      else (nWrite, os))"
  by auto
termination
  by (relation "measure (\<lambda>(k, buf, st, nWrite, os). nat (int (length buf) - nWrite))") auto

declare SendAll_loop.simps [simp del]

definition TcpStream_SendAll :: "'w kernel \<Rightarrow> byte list \<Rightarrow> TcpStream \<Rightarrow> 'w os \<Rightarrow> int \<times> 'w os" where
  "TcpStream_SendAll k buf st os = SendAll_loop k buf st 0 os"

definition TcpStream_SendSome :: "'w kernel \<Rightarrow> byte list \<Rightarrow> TcpStream \<Rightarrow> 'w os \<Rightarrow> int \<times> 'w os" where
  "TcpStream_SendSome k buf st os = sys_write k buf st os"

definition TcpStream_SetNoDelay :: "'w kernel \<Rightarrow> bool \<Rightarrow> TcpStream \<Rightarrow> 'w os \<Rightarrow> 'w os" where
  "TcpStream_SetNoDelay k bOn st = TcpSocket_SetTcpNoDelay k bOn (st_Socket st)"

definition TcpStream_ShutDownWrite :: "'w kernel \<Rightarrow> TcpStream \<Rightarrow> 'w os \<Rightarrow> 'w os" where
  "TcpStream_ShutDownWrite k st = TcpSocket_ShutdownWrite k (st_Socket st)"

section \<open>Acceptor\<close>

record TcpAcceptor =
  ta_ListenSocket :: TcpSocket

definition TcpAcceptor_new :: "'w kernel \<Rightarrow> InetAddress \<Rightarrow> 'w os \<Rightarrow> (TcpAcceptor \<times> 'w os) res" where
  "TcpAcceptor_new k rListenAddr os =
     rbind (TcpSocket_CreateTcp k os) (\<lambda>(s, os1).
     rbind (TcpSocket_Bind k rListenAddr s (TcpSocket_SetReuseAddr k True s os1)) (\<lambda>os2.
     rbind (TcpSocket_Listen k s os2) (\<lambda>os3. Inr (\<lparr>ta_ListenSocket = s\<rparr>, os3))))"

definition TcpAcceptor_delete :: "'w kernel \<Rightarrow> TcpAcceptor \<Rightarrow> 'w os \<Rightarrow> 'w os res" where
  "TcpAcceptor_delete k a os = rbind (TcpSocket_delete k (ta_ListenSocket a) os) (\<lambda>(_, os1). Inr os1)"

text \<open>The temporary \<open>Socket(nSockFd)\<close> is destroyed at the end of the statement.\<close>

definition TcpAcceptor_Accept :: "'w kernel \<Rightarrow> TcpAcceptor \<Rightarrow> 'w os \<Rightarrow> (TcpStream option \<times> 'w os) res" where
  "TcpAcceptor_Accept k a os =
     (let (nSockFd, os1) = sys_accept k (TcpSocket_GetFd (ta_ListenSocket a)) os
      in if 0 \<le> nSockFd
         then rbind (TcpSocket_new nSockFd) (\<lambda>temporary.
              rbind (TcpSocket_delete k temporary os1) (\<lambda>(_, os2). Inr (Some (TcpStream_new temporary), os2)))
         else Inr (None, os1))"

section \<open>The test program\<close>

record Options =
  op_port :: "16 word"
  op_length :: int
  op_number :: int
  op_transmit :: bool
  op_receive :: bool
  op_nodelay :: bool
  op_host :: string

definition Options_new :: Options where
  "Options_new = \<lparr>op_port = 0, op_length = 0, op_number = 0, op_transmit = False, op_receive = False,
     op_nodelay = False, op_host = []\<rparr>"

text \<open>
  The command line is parsed by \<open>boost::program_options\<close>: how often an option was given is
  \<open>count\<close>, and \<open>notify\<close> stores the values through the pointers it was given.
\<close>

definition parseCommandLine ::
    "(string \<Rightarrow> nat) \<Rightarrow> (Options \<Rightarrow> Options) \<Rightarrow> Options option \<Rightarrow> 'w os \<Rightarrow> (bool \<times> Options option \<times> 'w os) res" where
  "parseCommandLine count notify pOpt os =
     (case pOpt of
        None \<Rightarrow> Inl AssertFailed
      | Some opt0 \<Rightarrow>
          (let opt = (notify opt0)\<lparr>op_transmit := count ''trans'' \<noteq> 0, op_receive := count ''recv'' \<noteq> 0,
                 op_nodelay := count ''nodelay'' \<noteq> 0\<rparr>
           in if count ''help'' \<noteq> 0 then Inr (False, Some opt, print ''Allowed Options'' os)
              else if op_transmit opt = op_receive opt
              then Inr (False, Some opt, print ''either -t or -r must be specified.'' os)
              else Inr (True, Some opt,
                     if op_transmit opt then print ''number of buffers'' (print ''buffer length'' os)
                     else print ''accepting...'' os)))"

text \<open>The bytes of the two messages as they stand in memory once converted.\<close>

definition session_message :: "endian \<Rightarrow> Options \<Rightarrow> byte list" where
  "session_message e opt =
     host_bytes32 e (HostToNetwork32 e (word_of_int (op_number opt))) @
     host_bytes32 e (HostToNetwork32 e (word_of_int (op_length opt)))"

definition hex_digits :: string where
  "hex_digits = ''0123456789ABCDEF''"

definition payload_message :: "endian \<Rightarrow> Options \<Rightarrow> byte list res" where
  "payload_message e opt =
     (if 4 + op_length opt < 4 then Inl OutOfBounds
      else Inr (host_bytes32 e (HostToNetwork32 e (word_of_int (op_length opt))) @
             map (\<lambda>n. of_char (hex_digits ! (n mod 16))) [0..<nat (op_length opt)]))"

primrec transmit_rounds ::
    "'w kernel \<Rightarrow> endian \<Rightarrow> Options \<Rightarrow> byte list \<Rightarrow> TcpStream \<Rightarrow> nat \<Rightarrow> 'w os \<Rightarrow> 'w os res" where
  "transmit_rounds k e opt payload st 0 os = Inr os"
| "transmit_rounds k e opt payload st (Suc n) os =
     (let (nWriteNum, os1) = TcpStream_SendAll k payload st os
      in check (nWriteNum = int (length payload))
           (let ((nReadNum, bytes), os2) = TcpStream_ReadAll k 4 st os1
            in check (nReadNum = 4)
                 (check (sint (NetworkToHost32 e (host_word32 e bytes)) = op_length opt)
                   (transmit_rounds k e opt payload st n os2))))"

definition transmit_stream :: "'w kernel \<Rightarrow> endian \<Rightarrow> Options \<Rightarrow> TcpStream \<Rightarrow> 'w os \<Rightarrow> 'w os res" where
  "transmit_stream k e opt st os =
     (let os1 = print ''connected'' (if op_nodelay opt then TcpStream_SetNoDelay k True st os else os);
          (nSent, os2) = TcpStream_SendAll k (session_message e opt) st os1
      in if nSent \<noteq> 8 then Inr (print ''write SessionMessage error'' os2)
         else rbind (payload_message e opt) (\<lambda>payload.
                transmit_rounds k e opt payload st (nat (op_number opt)) os2))"

definition transmit ::
    "'w kernel \<Rightarrow> endian \<Rightarrow> lookup \<Rightarrow> Options \<Rightarrow> 'w os \<Rightarrow> 'w os res option" where
  "transmit k e gethostbyname_r opt os =
     map_option (\<lambda>(resolved, _).
         rbind resolved (\<lambda>(bResolved, addr).
           if \<not> bResolved then Inr (print (''unable to resolve '' @ op_host opt) os)
           else rbind (TcpStream_Connect k addr (print (''conneting to '' @ InetAddress_ToIpPort e addr) os))
                  (\<lambda>(pTcpStream, os1).
                    case pTcpStream of
                      None \<Rightarrow> Inr (print (''unable to connect '' @ InetAddress_ToIpPort e addr) os1)
                    | Some st \<Rightarrow> rbind (transmit_stream k e opt st os1) (TcpStream_delete k st))))
       (InetAddress_Resolve gethostbyname_r (Some (op_host opt)) (Some (InetAddress_of_port e (op_port opt) False)))"

text \<open>
  \<open>receive\<close> returns when a connection was accepted and goes on when none was: the first use of
  \<open>pTcpStream\<close> is then through a null pointer.
\<close>

definition receive :: "'w kernel \<Rightarrow> endian \<Rightarrow> Options \<Rightarrow> 'w os \<Rightarrow> 'w os res" where
  "receive k e opt os =
     rbind (TcpAcceptor_new k (InetAddress_of_port e (op_port opt) False) os) (\<lambda>(acceptor, os1).
     rbind (TcpAcceptor_Accept k acceptor os1) (\<lambda>(pTcpStream, os2).
       case pTcpStream of
         Some st \<Rightarrow> rbind (TcpStream_delete k st os2) (TcpAcceptor_delete k acceptor)
       | None \<Rightarrow> Inl BadPointer))"

definition tcp_main ::
    "'w kernel \<Rightarrow> endian \<Rightarrow> lookup \<Rightarrow> (string \<Rightarrow> nat) \<Rightarrow> (Options \<Rightarrow> Options) \<Rightarrow> 'w os \<Rightarrow> 'w os res option" where
  "tcp_main k e gethostbyname_r count notify os =
     (case parseCommandLine count notify (Some Options_new) os of
        Inl f \<Rightarrow> Some (Inl f)
      | Inr (bGo, pOpt, os1) \<Rightarrow>
          (case pOpt of
             None \<Rightarrow> Some (Inr os1)
           | Some opt \<Rightarrow>
               if \<not> bGo then Some (Inr os1)
               else if op_transmit opt then transmit k e gethostbyname_r opt os1
               else if op_receive opt then Some (receive k e opt os1)
               else Some (Inl AssertFailed)))"

section \<open>The descriptor of a stream\<close>

lemma close_closes:
  "TcpSocket_delete k s os = Inr (s', os') \<Longrightarrow> 0 \<le> ts_nSockFd s \<Longrightarrow> ts_nSockFd s \<notin> o_Fds os'"
  by (auto simp: TcpSocket_delete_def sys_close_def on_fd_def check_def split: prod.splits if_splits)

text \<open>A stream whose descriptor is closed reads and writes nothing, and its destructor asserts.\<close>

definition stream_dead :: "TcpStream \<Rightarrow> 'w os \<Rightarrow> bool" where
  "stream_dead st os \<longleftrightarrow> 0 \<le> stream_fd st \<and> stream_fd st \<notin> o_Fds os"

lemma dead_stream:
  assumes "stream_dead st os"
  shows "TcpStream_delete k st os = Inl AssertFailed"
    and "TcpStream_SendAll k buf st os = (0, os)"
    and "TcpStream_ReadAll k n st os = ((- 1, []), os)"
    and "TcpStream_ReadSome k n st os = ((- 1, []), os)"
    and "TcpStream_SendSome k buf st os = (- 1, os)"
  using assms
  by (simp_all add: stream_dead_def TcpStream_delete_def TcpSocket_delete_def sys_close_def on_fd_def
      stream_fd_def TcpSocket_GetFd_def TcpStream_SendAll_def SendAll_loop.simps [of k buf st 0] sys_write_def
      TcpStream_ReadAll_def TcpStream_ReadSome_def TcpStream_SendSome_def)

lemma connect_tail:
  assumes "(let (nRet, os2) = TcpSocket_Connet k addr sk os1;
        p = (if 0 = nRet then Some (TcpStream_new sk) else None)
      in rbind (TcpSocket_delete k sk os2) (\<lambda>(_, os3). Inr (p, os3))) = Inr (Some st, os')"
    and "0 \<le> ts_nSockFd sk"
  shows "stream_dead st os'"
  using assms
  by (cases "TcpSocket_Connet k addr sk os1")
     (auto simp: stream_dead_def stream_fd_def TcpSocket_GetFd_def TcpStream_new_def res_simps
       dest: close_closes split: if_splits)

lemma CreateTcp_fd: "TcpSocket_CreateTcp k os = Inr (sk, os1) \<Longrightarrow> 0 \<le> ts_nSockFd sk"
  by (auto simp: TcpSocket_CreateTcp_def TcpSocket_new_def res_simps split: prod.splits)

lemma Connect_dead:
  assumes "TcpStream_Connect k addr os = Inr (Some st, os')"
  shows "stream_dead st os'"
proof -
  obtain sk os1 where sk: "TcpSocket_CreateTcp k os = Inr (sk, os1)"
    using assms by (cases "TcpSocket_CreateTcp k os") (auto simp: TcpStream_Connect_def)
  show ?thesis
    by (rule connect_tail [OF _ CreateTcp_fd [OF sk]]) (use assms sk in \<open>simp add: TcpStream_Connect_def\<close>)
qed

lemma Connect_from_dead:
  assumes "TcpStream_Connect_from k addr localAddr os = Inr (Some st, os')"
  shows "stream_dead st os'"
proof -
  obtain sk os1 where sk: "TcpSocket_CreateTcp k os = Inr (sk, os1)"
    using assms by (cases "TcpSocket_CreateTcp k os") (auto simp: TcpStream_Connect_from_def)
  obtain os2 where os2: "TcpSocket_Bind k localAddr sk os1 = Inr os2"
    using assms sk by (cases "TcpSocket_Bind k localAddr sk os1") (auto simp: TcpStream_Connect_from_def)
  show ?thesis
    by (rule connect_tail [OF _ CreateTcp_fd [OF sk]]) (use assms sk os2 in \<open>simp add: TcpStream_Connect_from_def\<close>)
qed

lemma Accept_dead:
  "TcpAcceptor_Accept k a os = Inr (Some st, os') \<Longrightarrow> stream_dead st os'"
  by (auto simp: TcpAcceptor_Accept_def TcpStream_new_def TcpSocket_new_def
      stream_dead_def stream_fd_def TcpSocket_GetFd_def res_simps Let_def dest: close_closes
      split: prod.splits if_splits)

lemma delete_dead: "stream_dead st os \<Longrightarrow> rbind (TcpStream_delete k st os) f = Inl AssertFailed"
  by (simp add: dead_stream(1))

lemma receive_ends: "\<exists>f. receive k e opt os = Inl f"
proof (cases "TcpAcceptor_new k (InetAddress_of_port e (op_port opt) False) os")
  case (Inr r)
  then obtain a os1 where a: "r = (a, os1)" by (cases r) auto
  show ?thesis
  proof (cases "TcpAcceptor_Accept k a os1")
    case acc: (Inr q)
    then obtain st os2 where q: "q = (st, os2)" by (cases q) auto
    show ?thesis
    proof (cases st)
      case None
      then show ?thesis using Inr acc a q by (simp add: receive_def)
    next
      case (Some s)
      then have "stream_dead s os2" using acc q Accept_dead [of k a os1 s os2] by simp
      then show ?thesis using Inr acc a q Some by (simp add: receive_def delete_dead)
    qed
  qed (use Inr a in \<open>simp add: receive_def\<close>)
qed (simp add: receive_def)

lemma print_dead [simp]: "stream_dead st (print msg os) = stream_dead st os"
  by (simp add: stream_dead_def print_def)

lemma SetNoDelay_dead:
  "stream_dead st os \<Longrightarrow> TcpStream_SetNoDelay k b st os = print ''Socket::SetTcpNoDelay()'' os"
  by (simp add: stream_dead_def stream_fd_def TcpSocket_GetFd_def TcpStream_SetNoDelay_def
      TcpSocket_SetTcpNoDelay_def on_fd_def Let_def)

lemma transmit_stream_dead:
  assumes "stream_dead st os"
  shows "rbind (transmit_stream k e opt st os) (TcpStream_delete k st) = Inl AssertFailed"
  using assms by (simp add: transmit_stream_def SetNoDelay_dead dead_stream Let_def)

definition transmit_gave_up :: "'w os \<Rightarrow> bool" where
  "transmit_gave_up os \<longleftrightarrow> (\<exists>out name. o_Out os = out @ [''unable to resolve '' @ name] \<or>
     o_Out os = out @ [''unable to connect '' @ name])"

lemma transmit_gives_up:
  assumes "transmit k e lookup opt os = Some (Inr os')"
  shows "transmit_gave_up os'"
proof -
  obtain ok addr sizes where r: "InetAddress_Resolve lookup (Some (op_host opt))
      (Some (InetAddress_of_port e (op_port opt) False)) = Some (Inr (ok, addr), sizes)"
    using assms by (auto simp: transmit_def res_simps)
  let ?os = "print (''conneting to '' @ InetAddress_ToIpPort e addr) os"
  show ?thesis
  proof (cases ok)
    case False
    then show ?thesis using assms r by (auto simp: transmit_def transmit_gave_up_def print_def)
  next
    case True
    then obtain p os1 where c: "TcpStream_Connect k addr ?os = Inr (p, os1)"
      using assms r by (cases "TcpStream_Connect k addr ?os") (auto simp: transmit_def)
    show ?thesis
    proof (cases p)
      case None
      then show ?thesis using assms r c True by (auto simp: transmit_def transmit_gave_up_def print_def)
    next
      case (Some st)
      then have "stream_dead st os1" using c Connect_dead [of k addr ?os st os1] by simp
      then show ?thesis using assms r c True Some by (simp add: transmit_def transmit_stream_dead)
    qed
  qed
qed

text \<open>
  C27: Every stream that \<open>TcpStream::Connect\<close> and \<open>Acceptor::Accept\<close> hand out has its descriptor
  closed already: the socket it was moved from was copied and closed it when it was destroyed. Nothing
  can be sent or read, and destroying the stream fails the assertion on \<open>close\<close>. So \<open>receive\<close> of the
  test program never returns, and \<open>transmit\<close> returns only when it could not connect.
\<close>

theorem tcp_streams_are_closed:
  "(TcpStream_Connect k addr os = Inr (Some st, os') \<or> TcpStream_Connect_from k addr localAddr os = Inr (Some st, os') \<or>
      TcpAcceptor_Accept k acceptor os = Inr (Some st, os') \<longrightarrow>
      TcpStream_SendAll k buf st os' = (0, os') \<and> TcpStream_ReadAll k n st os' = ((- 1, []), os') \<and>
      TcpStream_delete k st os' = Inl AssertFailed) \<and>
   (\<exists>f. receive k e opt os = Inl f) \<and>
   (\<forall>os'. transmit k e lookup opt os = Some (Inr os') \<longrightarrow> transmit_gave_up os')"
proof (intro conjI impI allI)
  assume "TcpStream_Connect k addr os = Inr (Some st, os') \<or> TcpStream_Connect_from k addr localAddr os = Inr (Some st, os') \<or>
      TcpAcceptor_Accept k acceptor os = Inr (Some st, os')"
  then have dead: "stream_dead st os'"
    using Connect_dead [of k addr os st os'] Connect_from_dead [of k addr localAddr os st os']
      Accept_dead [of k acceptor os st os'] by blast
  show "TcpStream_SendAll k buf st os' = (0, os')" by (rule dead_stream(2) [OF dead])
  show "TcpStream_ReadAll k n st os' = ((- 1, []), os')" by (rule dead_stream(3) [OF dead])
  show "TcpStream_delete k st os' = Inl AssertFailed" by (rule dead_stream(1) [OF dead])
qed (use receive_ends transmit_gives_up in blast)+

text \<open>A system that grants everything.\<close>

definition demo_kernel :: "nat kernel" where
  "demo_kernel =
     \<lparr>k_socket = (\<lambda>w. (int w, w + 1)), k_close = (\<lambda>fd w. (0, w)), k_bind = (\<lambda>fd a w. (0, w)),
      k_listen = (\<lambda>fd w. (0, w)), k_accept = (\<lambda>fd w. (int w, w + 1)), k_connect = (\<lambda>fd a w. (0, w)),
      k_shutdown = (\<lambda>fd w. (0, w)), k_setsockopt = (\<lambda>fd opt val len w. (if len < 4 then - 1 else 0, w)),
      k_recv = (\<lambda>fd n w. ((int n, replicate n 0), w)), k_read = (\<lambda>fd n w. ((int n, replicate n 0), w)),
      k_write = (\<lambda>fd bs w. (int (length bs), w))\<rparr>"

definition demo_os :: "nat os" where
  "demo_os = \<lparr>o_Fds = {0, 1, 2}, o_World = 3, o_Out = []\<rparr>"

theorem tcp_streams_are_closed_witness:
  "\<exists>st os'. TcpStream_Connect demo_kernel zero_addr demo_os = Inr (Some st, os') \<and>
     TcpStream_SendAll demo_kernel [1, 2] st os' = (0, os') \<and> TcpStream_delete demo_kernel st os' = Inl AssertFailed"
proof -
  let ?st = "\<lparr>st_Socket = \<lparr>ts_nSockFd = 3\<rparr>\<rparr>"
  let ?os = "\<lparr>o_Fds = {0, 1, 2}, o_World = 4, o_Out = []\<rparr>"
  have "TcpStream_Connect demo_kernel zero_addr demo_os = Inr (Some ?st, ?os)"
    by (auto simp: TcpStream_Connect_def TcpSocket_CreateTcp_def TcpSocket_new_def sys_socket_def opened_def
        demo_kernel_def demo_os_def TcpSocket_Connet_def on_fd_def TcpSocket_delete_def sys_close_def TcpStream_new_def
        check_def)
  then show ?thesis
    using tcp_streams_are_closed [of demo_kernel zero_addr demo_os ?st ?os _ _ "[1, 2]"] by blast
qed

section \<open>\<open>SendAll\<close>\<close>

text \<open>
  A stream that is open would not be sent properly either: after a write of part of the buffer,
  \<open>SendAll\<close> begins at the start of the buffer again and offers all of it. \<open>wire\<close> is what the
  peer is sent; a write adds the part it took.
\<close>

lemma SendAll_loop_restarts:
  assumes "stream_fd st \<in> o_Fds os"
    and wire: "\<And>w. wire (snd (k_write k (stream_fd st) buf w)) =
      wire w @ take (nat (fst (k_write k (stream_fd st) buf w))) buf"
  shows "\<exists>rs. (\<forall>r\<in>set rs. 0 < r) \<and> fst (SendAll_loop k buf st n os) = n + sum_list rs \<and>
    wire (o_World (snd (SendAll_loop k buf st n os))) = wire (o_World os) @ concat (map (\<lambda>r. take (nat r) buf) rs)"
  using assms(1)
proof (induction "nat (int (length buf) - n)" arbitrary: n os rule: less_induct)
  case less
  obtain r w where rw: "k_write k (stream_fd st) buf (o_World os) = (r, w)" by fastforce
  then have ww: "wire w = wire (o_World os) @ take (nat r) buf" using wire [of "o_World os"] by simp
  have sys: "sys_write k buf st os = (r, os\<lparr>o_World := w\<rparr>)"
    using less.prems rw by (simp add: sys_write_def on_fd_def)
  show ?case
  proof (cases "n < int (length buf) \<and> 0 < r")
    case True
    then have loop: "SendAll_loop k buf st n os = SendAll_loop k buf st (n + r) (os\<lparr>o_World := w\<rparr>)"
      using sys by (simp add: SendAll_loop.simps [of k buf st n])
    have "nat (int (length buf) - (n + r)) < nat (int (length buf) - n)" using True by linarith
    moreover have "stream_fd st \<in> o_Fds (os\<lparr>o_World := w\<rparr>)" using less.prems by simp
    ultimately obtain rs where "\<forall>r\<in>set rs. 0 < r" "fst (SendAll_loop k buf st n os) = n + r + sum_list rs"
        "wire (o_World (snd (SendAll_loop k buf st n os))) = wire w @ concat (map (\<lambda>r. take (nat r) buf) rs)"
      using less.hyps [of "n + r" "os\<lparr>o_World := w\<rparr>"] unfolding loop by auto
    then show ?thesis using True ww by (intro exI [of _ "r # rs"]) auto
  next
    case False
    then have "fst (SendAll_loop k buf st n os) = n \<and> wire (o_World (snd (SendAll_loop k buf st n os))) = wire (o_World os)"
      using sys ww by (subst (1 2) SendAll_loop.simps) auto
    then show ?thesis by (intro exI [of _ "[]"]) simp
  qed
qed

theorem SendAll_restarts:
  assumes "stream_fd st \<in> o_Fds os"
    and "\<And>w. wire (snd (k_write k (stream_fd st) buf w)) =
      wire w @ take (nat (fst (k_write k (stream_fd st) buf w))) buf"
  shows "\<exists>rs. (\<forall>r\<in>set rs. 0 < r) \<and> fst (TcpStream_SendAll k buf st os) = sum_list rs \<and>
    wire (o_World (snd (TcpStream_SendAll k buf st os))) = wire (o_World os) @ concat (map (\<lambda>r. take (nat r) buf) rs)"
  using SendAll_loop_restarts [of st os wire k buf 0, OF assms] by (simp add: TcpStream_SendAll_def)

text \<open>The options are set with a length of zero, which the system refuses.\<close>

lemma SetTcpNoDelay_refused:
  assumes "\<And>fd opt val w. fst (k_setsockopt k fd opt val 0 w) = - 1"
  shows "\<exists>os'. TcpSocket_SetTcpNoDelay k b s os = print ''Socket::SetTcpNoDelay()'' os'"
proof -
  let ?r = "on_fd (ts_nSockFd s) (- 1) (k_setsockopt k (ts_nSockFd s) TCP_NODELAY (if b then 1 else 0) 0) os"
  have "fst ?r = - 1"
    using assms [of "ts_nSockFd s" TCP_NODELAY "if b then 1 else 0" "o_World os"]
    by (auto simp: on_fd_def Let_def split: prod.splits)
  then have "TcpSocket_SetTcpNoDelay k b s os = print ''Socket::SetTcpNoDelay()'' (snd ?r)"
    by (simp add: TcpSocket_SetTcpNoDelay_def option_length_def Let_def split_beta)
  then show ?thesis by blast
qed

end
