(* ===== verification/TcpAddresses.thy ===== *)
theory TcpAddresses
  imports SocketAddrs
begin

text \<open>
  \<open>tcp/InetAddress\<close>, the address class of the blocking streams. It converts with the C library's
  \<open>htons\<close>, \<open>htonl\<close>, \<open>ntohs\<close> and \<open>ntohl\<close> where \<open>reactor/InetAddress\<close> goes through \<open>SocketOps\<close>, has
  no constructor from a text and no \<open>ToHostPort\<close>. The lemmas show that the two classes agree
  on what both have, so that the theorems of \<open>SocketAddrs\<close> hold for this one too.
\<close>

section \<open>Byte order of the C library\<close>

text \<open>A value whose bytes in memory are those of the argument in network order, and back.\<close>

definition htons :: "endian \<Rightarrow> 16 word \<Rightarrow> 16 word" where
  "htons e w = host_word16 e (be_bytes16 w)"

definition htonl :: "endian \<Rightarrow> 32 word \<Rightarrow> 32 word" where
  "htonl e w = host_word32 e (be_bytes32 w)"

definition ntohs :: "endian \<Rightarrow> 16 word \<Rightarrow> 16 word" where
  "ntohs e w = be_word16 (host_bytes16 e w)"

definition ntohl :: "endian \<Rightarrow> 32 word \<Rightarrow> 32 word" where
  "ntohl e w = be_word32 (host_bytes32 e w)"

section \<open>The address\<close>

record TcpInetAddress =
  m_SockAddr :: sockaddr_in

definition TcpInet_of_port :: "endian \<Rightarrow> 16 word \<Rightarrow> bool \<Rightarrow> TcpInetAddress" where
  "TcpInet_of_port e usPort bLoopBackOnly =
     \<lparr>m_SockAddr = zero_addr\<lparr>sin_family := AF_INET, sin_port := htons e usPort,
        sin_addr := htonl e (if bLoopBackOnly then INADDR_LOOPBACK else INADDR_ANY)\<rparr>\<rparr>"

definition TcpInet_of_sockaddr :: "sockaddr_in \<Rightarrow> TcpInetAddress" where
  "TcpInet_of_sockaddr sockAddr = \<lparr>m_SockAddr = sockAddr\<rparr>"

definition TcpInet_GetSockAddrInet :: "TcpInetAddress \<Rightarrow> sockaddr_in" where
  "TcpInet_GetSockAddrInet a = m_SockAddr a"

definition TcpInet_SetSockAddrInet :: "sockaddr_in \<Rightarrow> TcpInetAddress \<Rightarrow> TcpInetAddress" where
  "TcpInet_SetSockAddrInet rSockAddr a = a\<lparr>m_SockAddr := rSockAddr\<rparr>"

definition TcpInet_SetPort :: "endian \<Rightarrow> 16 word \<Rightarrow> TcpInetAddress \<Rightarrow> TcpInetAddress" where
  "TcpInet_SetPort e usPort a = a\<lparr>m_SockAddr := (m_SockAddr a)\<lparr>sin_port := htons e usPort\<rparr>\<rparr>"

definition TcpInet_GetIpNetEndian :: "TcpInetAddress \<Rightarrow> 32 word" where
  "TcpInet_GetIpNetEndian a = sin_addr (m_SockAddr a)"

definition TcpInet_GetPortNetEndian :: "TcpInetAddress \<Rightarrow> 16 word" where
  "TcpInet_GetPortNetEndian a = sin_port (m_SockAddr a)"

definition TcpInet_GetIpHostEndian :: "endian \<Rightarrow> TcpInetAddress \<Rightarrow> 32 word" where
  "TcpInet_GetIpHostEndian e a = ntohl e (sin_addr (m_SockAddr a))"

definition TcpInet_GetPortHostEndian :: "endian \<Rightarrow> TcpInetAddress \<Rightarrow> 16 word" where
  "TcpInet_GetPortHostEndian e a = ntohs e (sin_port (m_SockAddr a))"

text \<open>The buffer of 32 bytes stays empty when \<open>inet_ntop\<close> fails.\<close>

definition TcpInet_ntop :: "endian \<Rightarrow> TcpInetAddress \<Rightarrow> string" where
  "TcpInet_ntop e a =
     (case inet_ntop e (sin_addr (m_SockAddr a)) 32 of None \<Rightarrow> [] | Some s \<Rightarrow> s)"

definition TcpInet_ToIp :: "endian \<Rightarrow> TcpInetAddress \<Rightarrow> string" where
  "TcpInet_ToIp e a = TcpInet_ntop e a"

definition TcpInet_ToIpPort :: "endian \<Rightarrow> TcpInetAddress \<Rightarrow> string" where
  "TcpInet_ToIpPort e a =
     (let buf = TcpInet_ntop e a;
          nEnd = length buf;
          usPort = TcpInet_GetPortHostEndian e a
      in buf @ fst (snprintf (32 - nEnd) ('':'' @ dec_nat (unat usPort))))"

section \<open>Host names\<close>

definition tcp_host_entry :: "hostent \<Rightarrow> TcpInetAddress \<Rightarrow> (bool \<times> TcpInetAddress) res" where
  "tcp_host_entry ent a =
     check (h_addrtype ent = unat AF_INET \<and> h_length ent = 4)
       (Inr (True, a\<lparr>m_SockAddr := (m_SockAddr a)\<lparr>sin_addr := h_addr ent\<rparr>\<rparr>))"

partial_function (option) TcpInet_ResolveSlow_loop ::
    "lookup \<Rightarrow> string \<Rightarrow> nat \<Rightarrow> TcpInetAddress \<Rightarrow> (bool \<times> TcpInetAddress) res option" where
  "TcpInet_ResolveSlow_loop gethostbyname_r pStrHostName unSize a =
     (if unSize \<le> 16 * RESOLVE_BUF_SIZE
      then (case gethostbyname_r pStrHostName unSize of
              (None, Some ent) \<Rightarrow> Some (tcp_host_entry ent a)
            | (Some ERANGE, _) \<Rightarrow> TcpInet_ResolveSlow_loop gethostbyname_r pStrHostName (2 * unSize) a
            | _ \<Rightarrow> Some (Inr (False, a)))
      else Some (Inr (True, a)))"

definition TcpInet_ResolveSlow ::
    "lookup \<Rightarrow> string option \<Rightarrow> TcpInetAddress option \<Rightarrow> (bool \<times> TcpInetAddress) res option" where
  "TcpInet_ResolveSlow gethostbyname_r pStrHostName pOutAddr =
     (case (pStrHostName, pOutAddr) of
        (Some name, Some a) \<Rightarrow> TcpInet_ResolveSlow_loop gethostbyname_r name (2 * RESOLVE_BUF_SIZE) a
      | _ \<Rightarrow> Some (Inl AssertFailed))"

definition TcpInet_Resolve ::
    "lookup \<Rightarrow> string option \<Rightarrow> TcpInetAddress option \<Rightarrow> (bool \<times> TcpInetAddress) res option" where
  "TcpInet_Resolve gethostbyname_r pStrHostName pOutAddr =
     (case (pStrHostName, pOutAddr) of
        (Some name, Some a) \<Rightarrow>
          (case gethostbyname_r name RESOLVE_BUF_SIZE of
             (None, Some ent) \<Rightarrow> Some (tcp_host_entry ent a)
           | (Some ERANGE, _) \<Rightarrow> TcpInet_ResolveSlow gethostbyname_r pStrHostName pOutAddr
           | _ \<Rightarrow> Some (Inr (False, a)))
      | _ \<Rightarrow> Some (Inl AssertFailed))"

section \<open>The two classes agree\<close>

named_theorems tcp_inet \<open>the operations of the two address classes\<close>

lemma host_bytes_swap:
  "host_bytes16 e v = be_bytes16 (HostToNetwork16 e v)" "host_bytes32 e w = be_bytes32 (HostToNetwork32 e w)"
  by (simp_all add: host_bytes16_def host_bytes32_def HostToNetwork16_def HostToNetwork32_def
      be_bytes16_swap be_bytes32_swap split: endian.splits)

lemma byte_order_agrees [tcp_inet]:
  "htons e v = HostToNetwork16 e v" "htonl e w = HostToNetwork32 e w"
  "ntohs e v = NetworkToHost16 e v" "ntohl e w = NetworkToHost32 e w"
  by (simp_all add: htons_def htonl_def ntohs_def ntohl_def host_word16_def host_word32_def
      host_bytes_swap HostToNetwork16_def HostToNetwork32_def NetworkToHost16_def NetworkToHost32_def
      byte_swap16_def byte_swap32_def split: endian.splits)

lemma TcpInet_agrees [tcp_inet]:
  "m_SockAddr (TcpInet_of_port e p b) = InetAddress_of_port e p b"
  "TcpInet_GetIpNetEndian a = InetAddress_GetIpNetEndian (m_SockAddr a)"
  "TcpInet_GetPortNetEndian a = InetAddress_GetPortNetEndian (m_SockAddr a)"
  "TcpInet_GetIpHostEndian e a = InetAddress_GetIpHostEndian e (m_SockAddr a)"
  "TcpInet_GetPortHostEndian e a = InetAddress_GetPortHostEndian e (m_SockAddr a)"
  "m_SockAddr (TcpInet_SetPort e p a) = InetAddress_SetPort e p (m_SockAddr a)"
  "m_SockAddr (TcpInet_SetSockAddrInet s a) = InetAddress_SetSockAddrInet s (m_SockAddr a)"
  "TcpInet_ToIp e a = InetAddress_ToIp e (m_SockAddr a)"
  by (simp_all add: byte_order_agrees TcpInet_of_port_def InetAddress_of_port_def
      TcpInet_GetIpNetEndian_def InetAddress_GetIpNetEndian_def TcpInet_GetPortNetEndian_def
      InetAddress_GetPortNetEndian_def TcpInet_GetIpHostEndian_def InetAddress_GetIpHostEndian_def
      TcpInet_GetPortHostEndian_def InetAddress_GetPortHostEndian_def TcpInet_SetPort_def
      InetAddress_SetPort_def TcpInet_SetSockAddrInet_def InetAddress_SetSockAddrInet_def
      TcpInet_ToIp_def TcpInet_ntop_def InetAddress_ToIp_def)

lemma TcpInet_ToIpPort_agrees [tcp_inet]:
  "TcpInet_ToIpPort e a = InetAddress_ToIpPort e (m_SockAddr a)"
  by (simp add: TcpInet_ToIpPort_def InetAddress_ToIpPort_def TcpInet_ntop_def TcpInet_agrees Let_def)

text \<open>A result of one class as a result of the other; the sizes tried are not part of it here.\<close>

definition as_tcp :: "((bool \<times> InetAddress) res \<times> nat list) option \<Rightarrow> (bool \<times> TcpInetAddress) res option" where
  "as_tcp r = map_option (\<lambda>(x, _). map_sum id (map_prod id TcpInet_of_sockaddr) x) r"

lemma host_entry_agrees:
  "map_sum id (map_prod id TcpInet_of_sockaddr) (host_entry ent (m_SockAddr a)) = tcp_host_entry ent a"
  by (simp add: host_entry_def tcp_host_entry_def TcpInet_of_sockaddr_def check_def)

lemma resolve_reply_agrees:
  "as_tcp (Some (resolve_reply r (m_SockAddr a), ns)) =
    Some (case r of (None, Some ent) \<Rightarrow> tcp_host_entry ent a | _ \<Rightarrow> Inr (False, a))"
  by (auto simp: as_tcp_def resolve_reply_def host_entry_agrees TcpInet_of_sockaddr_def
      split: prod.splits option.splits)

lemma tcp_loop_step:
  assumes "n \<le> 65536"
  shows "TcpInet_ResolveSlow_loop gh name n a =
    (if too_small (gh name n) then TcpInet_ResolveSlow_loop gh name (2 * n) a
     else as_tcp (Some (resolve_reply (gh name n) (m_SockAddr a), ns)))"
  unfolding resolve_reply_agrees using assms
  by (subst TcpInet_ResolveSlow_loop.simps, cases "gh name n")
    (auto simp: RESOLVE_BUF_SIZE_def too_small_def split: option.splits errno.splits)

lemma tcp_loop_agrees:
  "0 < n \<Longrightarrow> TcpInet_ResolveSlow_loop gh name n a = as_tcp (ResolveSlow_loop gh name n ns (m_SockAddr a))"
proof (induction "65537 - n" arbitrary: n ns rule: less_induct)
  case less
  show ?case
  proof (cases "n \<le> 65536")
    case True
    then have "65537 - 2 * n < 65537 - n" using less.prems by linarith
    then have "TcpInet_ResolveSlow_loop gh name (2 * n) a =
        as_tcp (ResolveSlow_loop gh name (2 * n) (ns @ [n]) (m_SockAddr a))"
      using less.prems by (intro less.hyps) simp_all
    then show ?thesis
      using tcp_loop_step [OF True, of gh name a "ns @ [n]"] ResolveSlow_loop_step [OF True, of gh name ns]
      by simp
  next
    case False
    then show ?thesis
      by (simp add: ResolveSlow_loop_stop as_tcp_def TcpInet_of_sockaddr_def
          TcpInet_ResolveSlow_loop.simps [of gh name n] RESOLVE_BUF_SIZE_def)
  qed
qed

lemma Resolve_agrees:
  "TcpInet_Resolve gh (Some name) (Some a) =
    as_tcp (InetAddress_Resolve gh (Some name) (Some (m_SockAddr a)))"
proof (cases "too_small (gh name 4096)")
  case True
  then have "TcpInet_Resolve gh (Some name) (Some a) = TcpInet_ResolveSlow_loop gh name 8192 a"
    by (cases "gh name 4096")
      (auto simp: TcpInet_Resolve_def TcpInet_ResolveSlow_def RESOLVE_BUF_SIZE_def too_small_def
        split: option.splits errno.splits)
  with True show ?thesis using tcp_loop_agrees [of 8192 gh name a "[4096]"] by (simp add: Resolve_first)
next
  case False
  then have "TcpInet_Resolve gh (Some name) (Some a) =
      Some (case gh name 4096 of (None, Some ent) \<Rightarrow> tcp_host_entry ent a | _ \<Rightarrow> Inr (False, a))"
    by (cases "gh name 4096")
      (auto simp: TcpInet_Resolve_def TcpInet_ResolveSlow_def RESOLVE_BUF_SIZE_def too_small_def
        split: option.splits errno.splits)
  with False show ?thesis by (simp add: Resolve_first resolve_reply_agrees)
qed

text \<open>So it always returns, and when every buffer was too small it reports success for an address it did not set.\<close>

lemma TcpInet_Resolve_returns:
  "\<exists>r. TcpInet_Resolve gh (Some name) (Some a) = Some r"
  unfolding Resolve_agrees by (simp add: Resolve_first ResolveSlow_loop_step ResolveSlow_loop_stop as_tcp_def)

end
