(* ===== verification/CopyOnWrite.thy ===== *)
theory CopyOnWrite
  imports Prelude
begin

text \<open>
  \<open>thread/test/CopyAndWrite_UnitTest.cpp\<close>: a list shared by its readers and writers. A writer
  copies the list when somebody else holds it, a reader takes a reference under the mutex and
  walks the list without it. A control block of \<open>boost::shared_ptr\<close> is a position in
  \<open>cw_lists\<close>; its count is the number of pointers that hold it. Every stretch under the mutex is
  one step, and so is every visit of an element. \<open>Foo\<close> has no data of its own: its values
  are a type parameter and \<open>f\<close> is what its constructor makes.
\<close>

section \<open>The list and its holders\<close>

text \<open>A reader that took the pointer and has not asserted yet, or that is at an element.\<close>

datatype reading = Taken | At nat

record 'a cow =
  pFooList :: "nat option"
  cw_lists :: "'a list list"
  cw_readers :: "(nat \<times> nat \<times> reading) list"

definition cow_start :: "'a cow" where
  "cow_start = \<lparr>pFooList = None, cw_lists = [], cw_readers = []\<rparr>"

definition holders :: "nat \<Rightarrow> 'a cow \<Rightarrow> nat" where
  "holders i s = length (filter (\<lambda>r. fst (snd r) = i) (cw_readers s))"

definition use_count :: "nat \<Rightarrow> 'a cow \<Rightarrow> nat" where
  "use_count i s = (if pFooList s = Some i then 1 else 0) + holders i s"

fun ptr_unique :: "nat option \<Rightarrow> 'a cow \<Rightarrow> bool" where
  "ptr_unique None s \<longleftrightarrow> False"
| "ptr_unique (Some i) s \<longleftrightarrow> use_count i s = 1"

text \<open>\<open>reset(new FooList(xs))\<close>, and \<open>operator*\<close>, which asserts that the pointer is not null.\<close>

definition reset_list :: "'a list \<Rightarrow> 'a cow \<Rightarrow> 'a cow" where
  "reset_list xs s = s\<lparr>pFooList := Some (length (cw_lists s)), cw_lists := cw_lists s @ [xs]\<rparr>"

fun deref :: "nat option \<Rightarrow> 'a cow \<Rightarrow> 'a list res" where
  "deref None s = Inl AssertFailed"
| "deref (Some i) s = Inr (cw_lists s ! i)"

fun push_back :: "nat option \<Rightarrow> 'a \<Rightarrow> 'a cow \<Rightarrow> 'a cow res" where
  "push_back None x s = Inl AssertFailed"
| "push_back (Some i) x s = Inr (s\<lparr>cw_lists := (cw_lists s)[i := cw_lists s ! i @ [x]]\<rparr>)"

definition cow_post :: "'a \<Rightarrow> 'a cow \<Rightarrow> 'a cow res" where
  "cow_post rFoo s =
     rbind (if ptr_unique (pFooList s) s then Inr s
            else rbind (deref (pFooList s) s) (\<lambda>xs. Inr (reset_list xs s))) (\<lambda>s.
     check (ptr_unique (pFooList s) s) (push_back (pFooList s) rFoo s))"

section \<open>Traversing\<close>

definition reader_of :: "nat \<Rightarrow> 'a cow \<Rightarrow> (nat \<times> reading) option" where
  "reader_of tid s = map_of (cw_readers s) tid"

definition move_reader :: "nat \<Rightarrow> reading \<Rightarrow> 'a cow \<Rightarrow> 'a cow" where
  "move_reader tid r s =
     s\<lparr>cw_readers := map (\<lambda>(t, i, r0). (t, i, if t = tid then r else r0)) (cw_readers s)\<rparr>"

text \<open>Copying the pointer and the first assertion, under the mutex.\<close>

definition traverse_take :: "nat \<Rightarrow> 'a cow \<Rightarrow> 'a cow res" where
  "traverse_take tid s =
     (case pFooList s of
        None \<Rightarrow> Inl AssertFailed
      | Some i \<Rightarrow>
          (let s = s\<lparr>cw_readers := cw_readers s @ [(tid, i, Taken)]\<rparr>
           in check (\<not> ptr_unique (pFooList s) s) (Inr s)))"

text \<open>The second assertion is made without the mutex.\<close>

definition traverse_assert :: "nat \<Rightarrow> nat \<Rightarrow> 'a cow \<Rightarrow> 'a cow res" where
  "traverse_assert tid i s = check (\<not> ptr_unique (Some i) s) (Inr (move_reader tid (At 0) s))"

text \<open>\<open>Foo::doIt\<close> posts a new element to the list.\<close>

definition Foo_doIt :: "'a \<Rightarrow> 'a cow \<Rightarrow> 'a cow res" where
  "Foo_doIt f s = cow_post f s"

definition traverse_visit :: "'a \<Rightarrow> nat \<Rightarrow> nat \<Rightarrow> 'a cow \<Rightarrow> 'a cow res" where
  "traverse_visit f tid n s = rbind (Foo_doIt f s) (\<lambda>s. Inr (move_reader tid (At (Suc n)) s))"

text \<open>Leaving the function releases the pointer.\<close>

definition traverse_leave :: "nat \<Rightarrow> 'a cow \<Rightarrow> 'a cow" where
  "traverse_leave tid s = s\<lparr>cw_readers := filter (\<lambda>r. fst r \<noteq> tid) (cw_readers s)\<rparr>"

text \<open>
  The loop of one thread that is not disturbed: it compares the iterator with the end of the
  list it holds, which it looks up again at every turn.
\<close>

partial_function (option) traverse_loop ::
    "'a \<Rightarrow> nat \<Rightarrow> nat \<Rightarrow> nat \<Rightarrow> 'a cow \<Rightarrow> 'a cow res option" where
  "traverse_loop f tid i n s =
     (if n = length (cw_lists s ! i) then Some (Inr (traverse_leave tid s))
      else (case traverse_visit f tid n s of
              Inl e \<Rightarrow> Some (Inl e)
            | Inr s \<Rightarrow> traverse_loop f tid i (Suc n) s))"

definition cow_traverse :: "'a \<Rightarrow> nat \<Rightarrow> 'a cow \<Rightarrow> 'a cow res option" where
  "cow_traverse f tid s =
     (case rbind (traverse_take tid s) (\<lambda>s1. traverse_assert tid (the (pFooList s)) s1) of
        Inl e \<Rightarrow> Some (Inl e)
      | Inr s1 \<Rightarrow> traverse_loop f tid (the (pFooList s)) 0 s1)"

definition cow_main :: "'a \<Rightarrow> nat \<Rightarrow> 'a cow res option" where
  "cow_main f tid =
     (case cow_post f (reset_list [] cow_start) of
        Inl e \<Rightarrow> Some (Inl e)
      | Inr s \<Rightarrow> cow_traverse f tid s)"

section \<open>Any number of threads\<close>

inductive cow_step :: "'a \<Rightarrow> 'a cow \<Rightarrow> 'a cow \<Rightarrow> bool"
  for f :: 'a where
  cow_posts: "cow_post x s = Inr t \<Longrightarrow> cow_step f s t"
| cow_takes: "reader_of tid s = None \<Longrightarrow> traverse_take tid s = Inr t \<Longrightarrow> cow_step f s t"
| cow_asserts: "reader_of tid s = Some (i, Taken) \<Longrightarrow> traverse_assert tid i s = Inr t \<Longrightarrow> cow_step f s t"
| cow_visits: "reader_of tid s = Some (i, At n) \<Longrightarrow> n \<noteq> length (cw_lists s ! i) \<Longrightarrow>
    traverse_visit f tid n s = Inr t \<Longrightarrow> cow_step f s t"
| cow_leaves: "reader_of tid s = Some (i, At (length (cw_lists s ! i))) \<Longrightarrow>
    cow_step f s (traverse_leave tid s)"

definition cow_init :: "'a cow \<Rightarrow> bool" where
  "cow_init s \<longleftrightarrow> s = reset_list [] cow_start"

abbreviation cow_reach :: "'a \<Rightarrow> 'a cow \<Rightarrow> bool" where
  "cow_reach f \<equiv> reach cow_init (cow_step f)"

text \<open>What the shared pointer points at, and the lists the readers hold.\<close>

definition shared_list :: "'a cow \<Rightarrow> 'a list" where
  "shared_list s = cw_lists s ! the (pFooList s)"

definition held :: "'a cow \<Rightarrow> nat set" where
  "held s = (\<lambda>r. fst (snd r)) ` set (cw_readers s)"

definition cow_ok :: "'a cow \<Rightarrow> bool" where
  "cow_ok s \<longleftrightarrow>
     (\<exists>p < length (cw_lists s). pFooList s = Some p) \<and>
     (\<forall>i \<in> held s. i < length (cw_lists s)) \<and>
     distinct (map fst (cw_readers s))"

lemma holders_0 [simp]: "holders i s = 0 \<longleftrightarrow> i \<notin> held s"
  by (auto simp: holders_def held_def filter_empty_conv)

lemma cow_ok_start: "cow_ok (reset_list [] cow_start)"
  by (simp add: cow_ok_def reset_list_def cow_start_def held_def)

lemma held_move [simp]: "held (move_reader tid r s) = held s"
  by (force simp: held_def move_reader_def)

lemma move_reader_fields [simp]:
  "pFooList (move_reader tid r s) = pFooList s"
  "cw_lists (move_reader tid r s) = cw_lists s"
  "map fst (cw_readers (move_reader tid r s)) = map fst (cw_readers s)"
  "shared_list (move_reader tid r s) = shared_list s"
  by (simp_all add: move_reader_def shared_list_def comp_def case_prod_beta)

lemma unique_reset: "cow_ok s \<Longrightarrow> ptr_unique (pFooList (reset_list xs s)) (reset_list xs s)"
  using holders_0 [of "length (cw_lists s)" "reset_list xs s"]
  by (auto simp: use_count_def cow_ok_def held_def reset_list_def)

text \<open>Posting never fails; it appends to the list and leaves those that are held alone.\<close>

lemma cow_post_ok:
  assumes "cow_ok s"
  obtains t where "cow_post x s = Inr t" and "cow_ok t" and "shared_list t = shared_list s @ [x]"
    and "cw_readers t = cw_readers s" and "\<And>i. i \<in> held s \<Longrightarrow> cw_lists t ! i = cw_lists s ! i"
proof -
  obtain p where p: "pFooList s = Some p" "p < length (cw_lists s)"
    using assms by (auto simp: cow_ok_def)
  show ?thesis
  proof (cases "p \<in> held s")
    case True
    then have "\<not> use_count p s = 1" using p by (simp add: use_count_def)
    then have "cow_post x s = Inr (reset_list (cw_lists s ! p @ [x]) s)"
      using p unique_reset [OF assms] by (simp add: cow_post_def) (simp add: reset_list_def)
    then show ?thesis
      using assms p by (intro that [of "reset_list (cw_lists s ! p @ [x]) s"])
        (auto simp: reset_list_def cow_ok_def shared_list_def held_def nth_append)
  next
    case False
    then have "use_count p s = 1" using p by (simp add: use_count_def)
    let ?t = "s\<lparr>cw_lists := (cw_lists s)[p := cw_lists s ! p @ [x]]\<rparr>"
    have "cow_post x s = Inr ?t" using p \<open>use_count p s = 1\<close> by (simp add: cow_post_def)
    then show ?thesis
      using assms p False by (intro that [of ?t])
        (auto simp: cow_ok_def shared_list_def held_def nth_list_update)
  qed
qed

lemma cow_post_post:
  assumes "cow_post x s = Inr t" and "cow_ok s"
  shows "cow_ok t" and "shared_list t = shared_list s @ [x]" and "cw_readers t = cw_readers s"
    and "\<forall>i \<in> held s. cw_lists t ! i = cw_lists s ! i"
  by (rule cow_post_ok [OF assms(2), of x]; simp add: assms(1))+

lemma cow_take_ok:
  assumes "cow_ok s" and "reader_of tid s = None"
  shows "traverse_take tid s = Inr (s\<lparr>cw_readers := cw_readers s @ [(tid, the (pFooList s), Taken)]\<rparr>)"
    and "cow_ok (s\<lparr>cw_readers := cw_readers s @ [(tid, the (pFooList s), Taken)]\<rparr>)"
proof -
  obtain p where p: "pFooList s = Some p" "p < length (cw_lists s)"
    using assms(1) by (auto simp: cow_ok_def)
  let ?t = "s\<lparr>cw_readers := cw_readers s @ [(tid, p, Taken)]\<rparr>"
  have "use_count p ?t \<noteq> 1" using p by (simp add: use_count_def holders_def)
  then show "traverse_take tid s = Inr (s\<lparr>cw_readers := cw_readers s @ [(tid, the (pFooList s), Taken)]\<rparr>)"
    using p by (simp add: traverse_take_def)
  show "cow_ok (s\<lparr>cw_readers := cw_readers s @ [(tid, the (pFooList s), Taken)]\<rparr>)"
    using assms p by (auto simp: cow_ok_def held_def reader_of_def map_of_eq_None_iff)
qed

lemma cow_ok_move [simp]: "cow_ok (move_reader tid r s) \<longleftrightarrow> cow_ok s"
  by (simp add: cow_ok_def)

lemma leave_fields [simp]:
  "pFooList (traverse_leave tid s) = pFooList s" "cw_lists (traverse_leave tid s) = cw_lists s"
  "shared_list (traverse_leave tid s) = shared_list s"
  by (simp_all add: traverse_leave_def shared_list_def)

lemma cow_ok_leave: "cow_ok s \<Longrightarrow> cow_ok (traverse_leave tid s)"
  by (auto simp: cow_ok_def held_def traverse_leave_def distinct_map_filter)

text \<open>
  One step of any thread: the shared list stays or grows at its end, and no list that a reader
  holds changes.
\<close>

lemma cow_step_lists:
  assumes "cow_step f s t" and "cow_ok s"
  shows "cow_ok t \<and> (shared_list t = shared_list s \<or> (\<exists>x. shared_list t = shared_list s @ [x])) \<and>
    (\<forall>i \<in> held s. cw_lists t ! i = cw_lists s ! i)"
  using assms
proof cases
  case (cow_posts x)
  then show ?thesis using cow_post_post [OF _ assms(2)] by blast
next
  case (cow_takes tid)
  then show ?thesis using cow_take_ok [OF assms(2), of tid] by (auto simp: shared_list_def)
next
  case (cow_asserts tid i)
  then show ?thesis using assms(2) by (auto simp: traverse_assert_def check_Inr)
next
  case (cow_visits tid i n)
  then obtain u where u: "cow_post f s = Inr u" "t = move_reader tid (At (Suc n)) u"
    by (auto simp: traverse_visit_def Foo_doIt_def rbind_Inr)
  then show ?thesis using cow_post_post [OF u(1) assms(2)] by simp
next
  case (cow_leaves tid i)
  then show ?thesis using cow_ok_leave [OF assms(2)] by simp
qed

interpretation cow: invariant_system cow_init "cow_step f" cow_ok for f
  by unfold_locales (auto simp: cow_init_def cow_ok_start dest: cow_step_lists)

text \<open>
  C40: Copy on write: whatever the threads that post and traverse do, in any order, the shared
  list only ever grows at its end, one element at a time; a list that a traversal holds is never
  changed under it (the iterators of the loop stay valid without the mutex); and \<open>post\<close> always
  returns: its assertion that the list is unique after the copy holds.
\<close>

theorem copy_on_write_sound:
  assumes "cow_reach f s"
  shows "(\<forall>t. cow_step f s t \<longrightarrow>
      (shared_list t = shared_list s \<or> (\<exists>x. shared_list t = shared_list s @ [x])) \<and>
      (\<forall>i \<in> held s. cw_lists t ! i = cw_lists s ! i)) \<and>
    (\<forall>x. \<exists>t. cow_post x s = Inr t \<and> shared_list t = shared_list s @ [x])"
proof -
  have ok: "cow_ok s" by (rule cow.reach_keeps [OF assms])
  have "\<exists>t. cow_post x s = Inr t \<and> shared_list t = shared_list s @ [x]" for x
    by (rule cow_post_ok [OF ok, of x]) blast
  with ok show ?thesis by (blast dest: cow_step_lists)
qed

text \<open>A reader has taken the empty list.\<close>

abbreviation demo_taken :: "'a cow" where
  "demo_taken \<equiv> (reset_list [] cow_start)\<lparr>cw_readers := [(1, 0, Taken)]\<rparr>"

lemma demo_taken_reach: "cow_reach f demo_taken"
proof (rule reach_once)
  show "cow_init (reset_list [] cow_start)" by (simp add: cow_init_def)
  show "cow_step f (reset_list [] cow_start) demo_taken"
    by (rule cow_takes [of 1])
      (simp_all add: reader_of_def traverse_take_def reset_list_def cow_start_def use_count_def holders_def)
qed

theorem copy_on_write_sound_witness:
  "\<exists>t. cow_post (7 :: nat) demo_taken = Inr t \<and> shared_list t = [7]"
  using copy_on_write_sound [OF demo_taken_reach, of "7 :: nat"]
  by (simp add: shared_list_def reset_list_def cow_start_def)

text \<open>
  The assertion a traversal makes after it has released the mutex can fail: a thread that posts
  in between copies the list, and the traversal is then its only holder.
\<close>

lemma traverse_assert_races:
  fixes f :: 'a
  shows "\<exists>s. cow_reach f s \<and> reader_of 1 s = Some (0, Taken) \<and>
    traverse_assert 1 0 s = Inl AssertFailed"
proof -
  let ?s2 = "demo_taken\<lparr>pFooList := Some 1, cw_lists := [[], [f]]\<rparr> :: 'a cow"
  have "cow_step f demo_taken ?s2"
    by (rule cow_posts [of f])
      (simp add: cow_post_def reset_list_def cow_start_def use_count_def holders_def)
  then have "cow_reach f ?s2" by (rule reach_step [OF demo_taken_reach])
  then show ?thesis
    by (intro exI [of _ ?s2])
      (simp add: traverse_assert_def use_count_def holders_def reader_of_def)
qed

section \<open>One thread\<close>

text \<open>The list being walked is not the one the visits append to.\<close>

lemma traverse_loop_returns:
  assumes "cow_ok s" and "reader_of tid s = Some (i, At n)" and "map fst (cw_readers s) = [tid]"
    and "n \<le> length (cw_lists s ! i)"
  shows "\<exists>t. traverse_loop f tid i n s = Some (Inr t) \<and> cw_readers t = [] \<and>
    shared_list t = shared_list s @ replicate (length (cw_lists s ! i) - n) f"
  using assms
proof (induction "length (cw_lists s ! i) - n" arbitrary: n s)
  case 0
  then have "n = length (cw_lists s ! i)" by simp
  moreover have "cw_readers (traverse_leave tid s) = []"
    using "0.prems"(3) by (auto simp: traverse_leave_def filter_empty_conv)
  ultimately show ?case by (simp add: traverse_loop.simps)
next
  case (Suc k)
  have i: "i \<in> held s" using Suc.prems(2) by (force simp: reader_of_def held_def dest!: map_of_SomeD)
  obtain u where u: "cow_post f s = Inr u" "cow_ok u" "shared_list u = shared_list s @ [f]"
      "cw_readers u = cw_readers s" "cw_lists u ! i = cw_lists s ! i"
    using cow_post_ok [OF Suc.prems(1), of f] i by metis
  let ?v = "move_reader tid (At (Suc n)) u"
  have "traverse_visit f tid n s = Inr ?v" using u(1) by (simp add: traverse_visit_def Foo_doIt_def)
  moreover have "reader_of tid ?v = Some (i, At (Suc n))"
    using Suc.prems(2,3) u(4) by (auto simp: reader_of_def move_reader_def split: if_splits)
  moreover have "shared_list s @ f # replicate (length (cw_lists s ! i) - Suc n) f =
      shared_list s @ replicate (length (cw_lists s ! i) - n) f"
    using Suc.hyps(2) by (simp flip: replicate_Suc add: Suc_diff_Suc)
  moreover have "n \<noteq> length (cw_lists s ! i)" using Suc.hyps(2) by linarith
  ultimately show ?case
    using Suc.hyps(1) [of ?v "Suc n"] Suc.hyps(2) Suc.prems u
    by (simp add: traverse_loop.simps [of f tid i n s])
qed

lemma traverse_alone:
  assumes "cow_ok s" and "cw_readers s = []"
  shows "\<exists>t. cow_traverse f tid s = Some (Inr t) \<and> cw_readers t = [] \<and>
    shared_list t = shared_list s @ replicate (length (shared_list s)) f"
proof -
  obtain p where p: "pFooList s = Some p" using assms(1) by (auto simp: cow_ok_def)
  obtain u where u: "traverse_take tid s = Inr u" "cow_ok u" "u = s\<lparr>cw_readers := [(tid, p, Taken)]\<rparr>"
    using cow_take_ok [OF assms(1), of tid] assms(2) p by (auto simp: reader_of_def)
  let ?v = "move_reader tid (At 0) u"
  have "traverse_assert tid p u = Inr ?v"
    using p u(3) by (simp add: traverse_assert_def use_count_def holders_def)
  then have "cow_traverse f tid s = traverse_loop f tid p 0 ?v"
    using p u(1) by (simp add: cow_traverse_def)
  moreover have "\<exists>t. traverse_loop f tid p 0 ?v = Some (Inr t) \<and> cw_readers t = [] \<and>
      shared_list t = shared_list ?v @ replicate (length (cw_lists ?v ! p) - 0) f"
  proof (rule traverse_loop_returns)
    show "cow_ok ?v" using u(2) by (simp only: cow_ok_move)
  qed (simp_all add: u(3) reader_of_def move_reader_def)
  ultimately show ?thesis using p u(3) by (simp add: shared_list_def)
qed

lemma cow_main_two: "\<exists>t. cow_main f tid = Some (Inr t) \<and> shared_list t = [f, f]"
proof -
  obtain s where s: "cow_post f (reset_list [] cow_start) = Inr s" "cow_ok s" "shared_list s = [f]"
      "cw_readers s = []"
    using cow_post_ok [OF cow_ok_start, of f] by (auto simp: reset_list_def cow_start_def shared_list_def)
  then show ?thesis using traverse_alone [of s f tid] by (auto simp: cow_main_def)
qed

end
