(* ===== verification/StockFactories.thy ===== *)
theory StockFactories
  imports Prelude
begin

text \<open>
  \<open>thread/test/Factory.cpp\<close>: five factories of shared objects. A \<open>Stock\<close> made for a
  \<open>boost::shared_ptr\<close> is a position in \<open>fs_stocks\<close>, with the count of its control block and the
  deleter bound to it; a \<open>weak_ptr\<close> or \<open>shared_ptr\<close> is that position or null. What is done under
  the factory's mutex is one step. The release of the last pointer, the work of the deleter under
  the mutex and the deletion are three steps of one thread, and other threads run in between.
\<close>

section \<open>Stocks and pointers\<close>

datatype deleter = PlainDelete | DeleteStock | DeleteStockShared | WeakDeleteCallBack

record stock =
  m_StrName :: string
  st_uses :: nat
  st_alive :: bool
  st_deleter :: deleter

datatype dying = Erasing | Deleting

record stock_factory =
  m_mpStock :: "string \<rightharpoonup> nat option"
  fs_stocks :: "stock list"
  fs_alive :: bool
  fs_held :: "nat list"
  fs_dying :: "(nat \<times> dying) list"

definition StockFactory_new :: stock_factory where
  "StockFactory_new =
     \<lparr>m_mpStock = Map.empty, fs_stocks = [], fs_alive = True, fs_held = [], fs_dying = []\<rparr>"

definition Stock_new :: "string \<Rightarrow> deleter \<Rightarrow> stock" where
  "Stock_new name d = \<lparr>m_StrName = name, st_uses = 1, st_alive = True, st_deleter = d\<rparr>"

definition stock_at :: "nat \<Rightarrow> stock_factory \<Rightarrow> stock" where
  "stock_at i s = fs_stocks s ! i"

definition Stock_key :: "nat \<Rightarrow> stock_factory \<Rightarrow> string" where
  "Stock_key i s = m_StrName (stock_at i s)"

definition set_uses :: "nat \<Rightarrow> nat \<Rightarrow> stock_factory \<Rightarrow> stock_factory" where
  "set_uses i n s = s\<lparr>fs_stocks := (fs_stocks s)[i := (stock_at i s)\<lparr>st_uses := n\<rparr>]\<rparr>"

text \<open>\<open>operator[]\<close> inserts a null pointer for a key it does not have.\<close>

definition map_at :: "string \<Rightarrow> stock_factory \<Rightarrow> nat option \<times> stock_factory" where
  "map_at k s =
     (case m_mpStock s k of
        None \<Rightarrow> (None, s\<lparr>m_mpStock := (m_mpStock s)(k \<mapsto> None)\<rparr>)
      | Some p \<Rightarrow> (p, s))"

definition add_use :: "nat \<Rightarrow> stock_factory \<Rightarrow> stock_factory" where
  "add_use i s = set_uses i (Suc (st_uses (stock_at i s))) s"

definition weak_lock :: "nat option \<Rightarrow> stock_factory \<Rightarrow> nat option \<times> stock_factory" where
  "weak_lock w s =
     (case w of
        None \<Rightarrow> (None, s)
      | Some i \<Rightarrow> if 0 < st_uses (stock_at i s) then (Some i, add_use i s) else (None, s))"

definition reset_new :: "string \<Rightarrow> deleter \<Rightarrow> stock_factory \<Rightarrow> nat \<times> stock_factory" where
  "reset_new k d s = (length (fs_stocks s), s\<lparr>fs_stocks := fs_stocks s @ [Stock_new k d]\<rparr>)"

definition map_set :: "string \<Rightarrow> nat \<Rightarrow> stock_factory \<Rightarrow> stock_factory" where
  "map_set k i s = s\<lparr>m_mpStock := (m_mpStock s)(k \<mapsto> Some i)\<rparr>"

section \<open>The five factories\<close>

text \<open>Version 1: the map shares the ownership; the pointer returned is one more.\<close>

definition get1 :: "string \<Rightarrow> stock_factory \<Rightarrow> nat option \<times> stock_factory" where
  "get1 strKey s =
     (let (pStock, s) = map_at strKey s in
      case pStock of
        None \<Rightarrow>
          (let (i, s) = reset_new strKey PlainDelete s; s = map_set strKey i s
           in (Some i, add_use i s))
      | Some i \<Rightarrow> (Some i, add_use i s))"

definition get2 :: "string \<Rightarrow> stock_factory \<Rightarrow> nat option \<times> stock_factory" where
  "get2 strKey s =
     (let (wkStock, s) = map_at strKey s; (pStock, s) = weak_lock wkStock s in
      case pStock of
        None \<Rightarrow> (let (i, s) = reset_new strKey PlainDelete s in (Some i, map_set strKey i s))
      | Some i \<Rightarrow> (Some i, s))"

definition get3 :: "string \<Rightarrow> stock_factory \<Rightarrow> nat option \<times> stock_factory" where
  "get3 strKey s =
     (let (wkStock, s) = map_at strKey s; (pStock, s) = weak_lock wkStock s in
      case pStock of
        None \<Rightarrow> (let (i, s) = reset_new strKey DeleteStock s in (Some i, map_set strKey i s))
      | Some i \<Rightarrow> (Some i, s))"

text \<open>
  Versions 4 and the last one test for a pointer that is not null. When there is one, the new
  object replaces it, and the reference just locked is released (another one is left).
\<close>

definition get4 :: "string \<Rightarrow> stock_factory \<Rightarrow> nat option \<times> stock_factory" where
  "get4 strName s =
     (let (wkStock, s) = map_at strName s; (pStock, s) = weak_lock wkStock s in
      case pStock of
        Some j \<Rightarrow>
          (let (i, s) = reset_new strName DeleteStockShared s;
               s = set_uses j (st_uses (stock_at j s) - 1) s
           in (Some i, map_set strName i s))
      | None \<Rightarrow> (None, s))"

definition get5 :: "string \<Rightarrow> stock_factory \<Rightarrow> nat option \<times> stock_factory" where
  "get5 rStrName s =
     (let (wkStock, s) = map_at rStrName s; (pStock, s) = weak_lock wkStock s in
      case pStock of
        Some j \<Rightarrow>
          (let (i, s) = reset_new rStrName WeakDeleteCallBack s;
               s = set_uses j (st_uses (stock_at j s) - 1) s
           in (Some i, map_set rStrName i s))
      | None \<Rightarrow> (None, s))"

datatype version = Version1 | Version2 | Version3 | Version4 | Version5

fun factory_get :: "version \<Rightarrow> string \<Rightarrow> stock_factory \<Rightarrow> nat option \<times> stock_factory" where
  "factory_get Version1 = get1"
| "factory_get Version2 = get2"
| "factory_get Version3 = get3"
| "factory_get Version4 = get4"
| "factory_get Version5 = get5"

text \<open>A caller keeps the pointer it gets, unless it is null.\<close>

definition take_stock :: "version \<Rightarrow> string \<Rightarrow> stock_factory \<Rightarrow> stock_factory" where
  "take_stock v k s =
     (case factory_get v k s of
        (None, s) \<Rightarrow> s
      | (Some i, s) \<Rightarrow> s\<lparr>fs_held := i # fs_held s\<rparr>)"

section \<open>Releasing\<close>

fun first_phase :: "deleter \<Rightarrow> dying" where
  "first_phase PlainDelete = Deleting"
| "first_phase _ = Erasing"

definition release_stock :: "nat \<Rightarrow> stock_factory \<Rightarrow> stock_factory" where
  "release_stock i s =
     (let n = st_uses (stock_at i s) - 1;
          s = set_uses i n (s\<lparr>fs_held := remove1 i (fs_held s)\<rparr>)
      in if n = 0 then s\<lparr>fs_dying := (i, first_phase (st_deleter (stock_at i s))) # fs_dying s\<rparr> else s)"

definition map_erase :: "string \<Rightarrow> stock_factory \<Rightarrow> stock_factory" where
  "map_erase k s = s\<lparr>m_mpStock := (m_mpStock s)(k := None)\<rparr>"

text \<open>\<open>deleteStock\<close> uses the factory through the pointer bound to it.\<close>

definition deleteStock :: "nat \<Rightarrow> stock_factory \<Rightarrow> stock_factory res" where
  "deleteStock i s = (if fs_alive s then Inr (map_erase (Stock_key i s) s) else Inl BadPointer)"

definition removeStock :: "nat \<Rightarrow> stock_factory \<Rightarrow> stock_factory" where
  "removeStock i s = map_erase (Stock_key i s) s"

definition weakDeleteCallBack :: "nat \<Rightarrow> stock_factory \<Rightarrow> stock_factory" where
  "weakDeleteCallBack i s = (if fs_alive s then removeStock i s else s)"

definition deleter_erase :: "nat \<Rightarrow> stock_factory \<Rightarrow> stock_factory res" where
  "deleter_erase i s =
     rbind (case st_deleter (stock_at i s) of
              PlainDelete \<Rightarrow> Inr s
            | DeleteStock \<Rightarrow> deleteStock i s
            | DeleteStockShared \<Rightarrow> deleteStock i s
            | WeakDeleteCallBack \<Rightarrow> Inr (weakDeleteCallBack i s)) (\<lambda>s.
     Inr (s\<lparr>fs_dying := (i, Deleting) # remove1 (i, Erasing) (fs_dying s)\<rparr>))"

definition deleter_delete :: "nat \<Rightarrow> stock_factory \<Rightarrow> stock_factory" where
  "deleter_delete i s =
     s\<lparr>fs_stocks := (fs_stocks s)[i := (stock_at i s)\<lparr>st_alive := False\<rparr>],
       fs_dying := remove1 (i, Deleting) (fs_dying s)\<rparr>"

text \<open>The end of a factory whose map holds weak pointers.\<close>

definition StockFactory_delete :: "stock_factory \<Rightarrow> stock_factory" where
  "StockFactory_delete s = s\<lparr>fs_alive := False, m_mpStock := Map.empty\<rparr>"

inductive stock_step :: "version \<Rightarrow> stock_factory \<Rightarrow> stock_factory \<Rightarrow> bool"
  for v :: version where
  stock_gets: "stock_step v s (take_stock v k s)"
| stock_releases: "i \<in> set (fs_held s) \<Longrightarrow> stock_step v s (release_stock i s)"
| stock_erases: "(i, Erasing) \<in> set (fs_dying s) \<Longrightarrow> deleter_erase i s = Inr t \<Longrightarrow> stock_step v s t"
| stock_deletes: "(i, Deleting) \<in> set (fs_dying s) \<Longrightarrow> stock_step v s (deleter_delete i s)"

definition stock_init :: "stock_factory \<Rightarrow> bool" where
  "stock_init s \<longleftrightarrow> s = StockFactory_new"

abbreviation stock_reach :: "version \<Rightarrow> stock_factory \<Rightarrow> bool" where
  "stock_reach v \<equiv> reach stock_init (stock_step v)"

lemma first_take_reach: "stock_reach v (take_stock v k StockFactory_new)"
  by (rule reach_once [where s = StockFactory_new]) (simp_all add: stock_init_def stock_gets)

section \<open>Sharing in versions 1 and 2\<close>

text \<open>The reference the map itself owns.\<close>

definition map_holds :: "version \<Rightarrow> nat \<Rightarrow> stock_factory \<Rightarrow> nat" where
  "map_holds v i s =
     (if v = Version1 \<and> m_mpStock s (m_StrName (fs_stocks s ! i)) = Some (Some i) then 1 else 0)"

definition stock_counted :: "version \<Rightarrow> stock_factory \<Rightarrow> nat \<Rightarrow> bool" where
  "stock_counted v s i \<longleftrightarrow>
     st_uses (fs_stocks s ! i) = count_list (fs_held s) i + map_holds v i s \<and>
     (0 < st_uses (fs_stocks s ! i) \<longrightarrow>
        st_alive (fs_stocks s ! i) \<and> m_mpStock s (m_StrName (fs_stocks s ! i)) = Some (Some i))"

definition factory_ok :: "version \<Rightarrow> stock_factory \<Rightarrow> bool" where
  "factory_ok v s \<longleftrightarrow>
     (\<forall>i \<in> set (fs_held s). i < length (fs_stocks s)) \<and>
     (\<forall>i < length (fs_stocks s). stock_counted v s i) \<and>
     (\<forall>k i. m_mpStock s k = Some (Some i) \<longrightarrow>
        i < length (fs_stocks s) \<and> m_StrName (fs_stocks s ! i) = k) \<and>
     (\<forall>i < length (fs_stocks s). st_deleter (fs_stocks s ! i) = PlainDelete) \<and>
     (\<forall>x \<in> set (fs_dying s). fst x < length (fs_stocks s) \<and> st_uses (fs_stocks s ! fst x) = 0)"

lemmas stock_defs = stock_at_def set_uses_def add_use_def map_set_def reset_new_def Stock_new_def

lemma stock_counted_cong:
  assumes "fs_stocks t ! i = fs_stocks s ! i" and "count_list (fs_held t) i = count_list (fs_held s) i"
    and "m_mpStock t (m_StrName (fs_stocks s ! i)) = m_mpStock s (m_StrName (fs_stocks s ! i))"
  shows "stock_counted v t i = stock_counted v s i"
  unfolding stock_counted_def map_holds_def assms ..

lemma stock_counted_dying [simp]: "stock_counted v (s\<lparr>fs_dying := d\<rparr>) i = stock_counted v s i"
  by (rule stock_counted_cong) simp_all

lemma factory_ok_dying:
  "factory_ok v s \<Longrightarrow> \<forall>x \<in> set d. fst x < length (fs_stocks s) \<and> st_uses (fs_stocks s ! fst x) = 0 \<Longrightarrow>
    factory_ok v (s\<lparr>fs_dying := d\<rparr>)"
  by (simp add: factory_ok_def)

lemma counted_mapped:
  "stock_counted v s i \<Longrightarrow> 0 < st_uses (fs_stocks s ! i) \<Longrightarrow>
    m_mpStock s (m_StrName (fs_stocks s ! i)) = Some (Some i)"
  unfolding stock_counted_def by blast

lemma held_used:
  assumes "factory_ok v s" and "i \<in> set (fs_held s)"
  shows "i < length (fs_stocks s)" and "0 < st_uses (fs_stocks s ! i)"
    and "st_alive (fs_stocks s ! i)" and "m_mpStock s (m_StrName (fs_stocks s ! i)) = Some (Some i)"
proof -
  show i: "i < length (fs_stocks s)" using assms by (simp add: factory_ok_def)
  then have c: "stock_counted v s i" using assms(1) by (simp add: factory_ok_def)
  moreover have "count_list (fs_held s) i \<noteq> 0" using assms(2) by (simp add: count_list_0_iff)
  ultimately show "0 < st_uses (fs_stocks s ! i)" by (simp add: stock_counted_def)
  with c show "st_alive (fs_stocks s ! i)" "m_mpStock s (m_StrName (fs_stocks s ! i)) = Some (Some i)"
    by (simp_all add: stock_counted_def)
qed

lemma factory_okD:
  assumes "factory_ok v s"
  shows "i \<in> set (fs_held s) \<Longrightarrow> i < length (fs_stocks s)"
    and "i < length (fs_stocks s) \<Longrightarrow> stock_counted v s i"
    and "m_mpStock s k = Some (Some i) \<Longrightarrow> i < length (fs_stocks s)"
    and "m_mpStock s k = Some (Some i) \<Longrightarrow> m_StrName (fs_stocks s ! i) = k"
    and "i < length (fs_stocks s) \<Longrightarrow> st_deleter (fs_stocks s ! i) = PlainDelete"
    and "(i, d) \<in> set (fs_dying s) \<Longrightarrow> i < length (fs_stocks s) \<and> st_uses (fs_stocks s ! i) = 0"
  using assms by (auto simp: factory_ok_def)

lemma factory_okI:
  assumes "\<And>i. i \<in> set (fs_held s) \<Longrightarrow> i < length (fs_stocks s)"
    and "\<And>i. i < length (fs_stocks s) \<Longrightarrow> stock_counted v s i"
    and "\<And>k i. m_mpStock s k = Some (Some i) \<Longrightarrow>
      i < length (fs_stocks s) \<and> m_StrName (fs_stocks s ! i) = k"
    and "\<And>i. i < length (fs_stocks s) \<Longrightarrow> st_deleter (fs_stocks s ! i) = PlainDelete"
    and "\<And>i d. (i, d) \<in> set (fs_dying s) \<Longrightarrow>
      i < length (fs_stocks s) \<and> st_uses (fs_stocks s ! i) = 0"
  shows "factory_ok v s"
  using assms by (auto simp: factory_ok_def)

text \<open>The count of one stock changes with the references held to it.\<close>

lemma factory_ok_recount:
  assumes ok: "factory_ok v s" and i: "i < length (fs_stocks s)" and used: "0 < st_uses (fs_stocks s ! i)"
    and h: "set h \<subseteq> insert i (set (fs_held s))"
    and n: "n + count_list (fs_held s) i = st_uses (fs_stocks s ! i) + count_list h i"
    and others: "\<And>j. j \<noteq> i \<Longrightarrow> count_list h j = count_list (fs_held s) j"
  shows "factory_ok v (set_uses i n s\<lparr>fs_held := h\<rparr>)" (is "factory_ok v ?t")
proof (rule factory_okI)
  fix j
  assume "j < length (fs_stocks ?t)"
  then have j: "j < length (fs_stocks s)" by (simp add: set_uses_def)
  note c = factory_okD(2) [OF ok j]
  show "stock_counted v ?t j"
  proof (cases "j = i")
    case True
    have "n = count_list h i + map_holds v i s" using c n True by (simp add: stock_counted_def)
    then show ?thesis
      using c used i True by (simp add: stock_counted_def map_holds_def set_uses_def stock_at_def)
  next
    case False
    then have "stock_counted v ?t j = stock_counted v s j"
      using others [OF False] by (intro stock_counted_cong) (simp_all add: set_uses_def)
    with c show ?thesis by simp
  qed
next
  fix j d
  assume "(j, d) \<in> set (fs_dying ?t)"
  then have "j < length (fs_stocks s) \<and> st_uses (fs_stocks s ! j) = 0"
    using factory_okD(6) [OF ok] by (simp add: set_uses_def)
  then show "j < length (fs_stocks ?t) \<and> st_uses (fs_stocks ?t ! j) = 0"
    using used by (cases "j = i") (auto simp: set_uses_def)
next
  fix j
  assume "j \<in> set (fs_held ?t)"
  then show "j < length (fs_stocks ?t)" using h i factory_okD(1) [OF ok] by (auto simp: set_uses_def)
next
  fix k j
  assume "m_mpStock ?t k = Some (Some j)"
  then have "j < length (fs_stocks s)" "m_StrName (fs_stocks s ! j) = k"
    using factory_okD(3,4) [OF ok] by (simp_all add: set_uses_def)
  then show "j < length (fs_stocks ?t) \<and> m_StrName (fs_stocks ?t ! j) = k"
    by (cases "j = i") (auto simp: set_uses_def stock_at_def)
next
  fix j
  assume "j < length (fs_stocks ?t)"
  then show "st_deleter (fs_stocks ?t ! j) = PlainDelete"
    using factory_okD(5) [OF ok, of j] i by (cases "j = i") (auto simp: set_uses_def stock_at_def)
qed

lemma factory_ok_fresh:
  assumes ok: "factory_ok v s"
    and free: "\<And>j. m_mpStock s k = Some (Some j) \<Longrightarrow> v \<noteq> Version1 \<and> st_uses (fs_stocks s ! j) = 0"
    and n: "n = (if v = Version1 then 2 else 1)"
  shows "factory_ok v (s\<lparr>m_mpStock := (m_mpStock s)(k \<mapsto> Some (length (fs_stocks s))),
    fs_stocks := fs_stocks s @ [(Stock_new k PlainDelete)\<lparr>st_uses := n\<rparr>],
    fs_held := length (fs_stocks s) # fs_held s\<rparr>)" (is "factory_ok v ?t")
proof (rule factory_okI)
  let ?n = "length (fs_stocks s)"
  fix j
  assume j: "j < length (fs_stocks ?t)"
  have "?n \<notin> set (fs_held s)" using factory_okD(1) [OF ok] by auto
  then have c: "count_list (fs_held s) ?n = 0" by (simp add: count_list_0_iff)
  show "stock_counted v ?t j"
  proof (cases "j = ?n")
    case True
    then show ?thesis using n c by (simp add: stock_counted_def map_holds_def Stock_new_def nth_append)
  next
    case False
    with j have j: "j < ?n" by simp
    note c = factory_okD(2) [OF ok j]
    show ?thesis
    proof (cases "m_StrName (fs_stocks s ! j) = k")
      case True
      have u: "st_uses (fs_stocks s ! j) = 0"
      proof (rule ccontr)
        assume used: "st_uses (fs_stocks s ! j) \<noteq> 0"
        then have "m_mpStock s k = Some (Some j)" using counted_mapped [OF c] True by simp
        with used free [of j] show False by simp
      qed
      then have "count_list (fs_held s) j = 0" using c by (simp add: stock_counted_def)
      with u True j show ?thesis by (simp add: stock_counted_def map_holds_def nth_append)
    next
      case False
      then have "stock_counted v ?t j = stock_counted v s j"
        using j by (intro stock_counted_cong) (simp_all add: nth_append)
      with c show ?thesis by simp
    qed
  qed
next
  fix j d
  assume "(j, d) \<in> set (fs_dying ?t)"
  then show "j < length (fs_stocks ?t) \<and> st_uses (fs_stocks ?t ! j) = 0"
    using factory_okD(6) [OF ok, of j d] by (auto simp: nth_append)
next
  fix k' j
  assume "m_mpStock ?t k' = Some (Some j)"
  then show "j < length (fs_stocks ?t) \<and> m_StrName (fs_stocks ?t ! j) = k'"
    using factory_okD(3,4) [OF ok, of k' j]
    by (cases "k' = k") (auto simp: nth_append Stock_new_def split: if_splits)
next
  fix j
  assume "j < length (fs_stocks ?t)"
  then show "st_deleter (fs_stocks ?t ! j) = PlainDelete"
    using factory_okD(5) [OF ok, of j] by (auto simp: nth_append Stock_new_def)
qed (use factory_okD(1) [OF ok] in \<open>auto intro: less_SucI\<close>)

lemma factory_ok_share:
  assumes "factory_ok v s" and "i < length (fs_stocks s)" and "0 < st_uses (fs_stocks s ! i)"
  shows "factory_ok v (add_use i s\<lparr>fs_held := i # fs_held s\<rparr>)"
  unfolding add_use_def using assms by (intro factory_ok_recount) (auto simp: stock_at_def)

text \<open>The outcome of a call: the stock of the key is shared, or a new one is made.\<close>

definition fresh_stock :: "string \<Rightarrow> nat \<Rightarrow> deleter \<Rightarrow> stock_factory \<Rightarrow> stock_factory" where
  "fresh_stock k n d s = s\<lparr>m_mpStock := (m_mpStock s)(k \<mapsto> Some (length (fs_stocks s))),
    fs_stocks := fs_stocks s @ [(Stock_new k d)\<lparr>st_uses := n\<rparr>]\<rparr>"

lemma get1_shares: "m_mpStock s k = Some (Some i) \<Longrightarrow> get1 k s = (Some i, add_use i s)"
  by (simp add: get1_def map_at_def)

lemma get2_shares:
  "m_mpStock s k = Some (Some i) \<Longrightarrow> 0 < st_uses (fs_stocks s ! i) \<Longrightarrow>
    get2 k s = (Some i, add_use i s)"
  by (simp add: get2_def map_at_def weak_lock_def stock_at_def)

lemma get1_makes:
  "\<forall>i. m_mpStock s k \<noteq> Some (Some i) \<Longrightarrow>
    get1 k s = (Some (length (fs_stocks s)), fresh_stock k 2 PlainDelete s)"
  by (cases "m_mpStock s k")
    (auto simp: get1_def map_at_def fresh_stock_def stock_defs split: option.splits)

lemma get2_makes:
  "\<forall>i. m_mpStock s k = Some (Some i) \<longrightarrow> st_uses (fs_stocks s ! i) = 0 \<Longrightarrow>
    get2 k s = (Some (length (fs_stocks s)), fresh_stock k 1 PlainDelete s)"
  by (cases "m_mpStock s k")
    (auto simp: get2_def map_at_def weak_lock_def fresh_stock_def stock_defs split: option.splits)

lemma get_cases:
  assumes ok: "factory_ok v s" and v: "v = Version1 \<or> v = Version2"
  obtains (shares) i where "factory_get v k s = (Some i, add_use i s)" and "m_mpStock s k = Some (Some i)"
      and "i < length (fs_stocks s)" and "0 < st_uses (fs_stocks s ! i)"
    | (makes) "factory_get v k s =
        (Some (length (fs_stocks s)), fresh_stock k (if v = Version1 then 2 else 1) PlainDelete s)"
      and "\<And>j. m_mpStock s k = Some (Some j) \<Longrightarrow> v \<noteq> Version1 \<and> st_uses (fs_stocks s ! j) = 0"
proof (cases "\<exists>i. m_mpStock s k = Some (Some i) \<and> 0 < st_uses (fs_stocks s ! i)")
  case True
  then obtain i where "m_mpStock s k = Some (Some i)" "0 < st_uses (fs_stocks s ! i)" by blast
  then show ?thesis using shares factory_okD(3) [OF ok] v by (auto simp: get1_shares get2_shares)
next
  case False
  have free: "v \<noteq> Version1" if "m_mpStock s k = Some (Some j)" for j
    using factory_okD(2,3,4) [OF ok] that False by (fastforce simp: stock_counted_def map_holds_def)
  then have "factory_get v k s =
      (Some (length (fs_stocks s)), fresh_stock k (if v = Version1 then 2 else 1) PlainDelete s)"
  proof (cases "v = Version1")
    case v: True
    with free have "\<forall>j. m_mpStock s k \<noteq> Some (Some j)" by blast
    with v show ?thesis by (simp add: get1_makes)
  next
    case v2: False
    with v have "v = Version2" by simp
    with False show ?thesis by (simp add: get2_makes)
  qed
  then show ?thesis using makes free False by auto
qed

lemma factory_ok_take:
  assumes ok: "factory_ok v s" and v: "v = Version1 \<or> v = Version2"
  shows "factory_ok v (take_stock v k s)"
  using ok v
proof (cases rule: get_cases [where k = k])
  case (shares i)
  have "fs_held (add_use i s) = fs_held s" by (simp add: add_use_def set_uses_def)
  then show ?thesis using factory_ok_share [OF ok shares(3,4)] shares(1) by (simp add: take_stock_def)
next
  case makes
  show ?thesis
    using factory_ok_fresh [OF ok makes(2) refl] makes(1) by (simp add: take_stock_def fresh_stock_def)
qed

lemma factory_ok_release:
  assumes ok: "factory_ok v s" and i: "i \<in> set (fs_held s)"
  shows "factory_ok v (release_stock i s)"
proof -
  let ?n = "st_uses (fs_stocks s ! i) - 1"
  let ?t = "set_uses i ?n s\<lparr>fs_held := remove1 i (fs_held s)\<rparr>"
  have c: "count_list (remove1 i xs) j = count_list xs j - (if j = i \<and> i \<in> set xs then 1 else 0)" for j xs
    by (induction xs) (auto simp: count_list_0_iff)
  have "count_list (fs_held s) i \<noteq> 0" using i by (simp add: count_list_0_iff)
  then have ok': "factory_ok v ?t"
    using held_used [OF ok i] ok i
    by (intro factory_ok_recount) (auto simp: c dest: subsetD [OF set_remove1_subset])
  have t: "set_uses i ?n (s\<lparr>fs_held := remove1 i (fs_held s)\<rparr>) = ?t"
    by (simp add: set_uses_def stock_at_def)
  show ?thesis
  proof (cases "?n = 0")
    case True
    have "factory_ok v (?t\<lparr>fs_dying := (i, d) # fs_dying ?t\<rparr>)" for d
    proof (rule factory_ok_dying [OF ok'])
      have "st_uses (fs_stocks ?t ! i) = 0"
        using held_used(1) [OF ok i] True by (simp add: set_uses_def)
      then show "\<forall>x \<in> set ((i, d) # fs_dying ?t). fst x < length (fs_stocks ?t) \<and> st_uses (fs_stocks ?t ! fst x) = 0"
        using held_used(1) [OF ok i] factory_okD(6) [OF ok'] by (auto simp: set_uses_def)
    qed
    then show ?thesis using True t by (simp add: release_stock_def stock_at_def Let_def)
  next
    case False
    then show ?thesis using ok' t by (simp add: release_stock_def stock_at_def Let_def)
  qed
qed

lemma factory_ok_delete:
  assumes ok: "factory_ok v s" and i: "(i, Deleting) \<in> set (fs_dying s)"
  shows "factory_ok v (deleter_delete i s)" (is "factory_ok v ?t")
proof -
  have u: "i < length (fs_stocks s)" "st_uses (fs_stocks s ! i) = 0" using factory_okD(6) [OF ok i] by auto
  have eq: "st_uses (fs_stocks ?t ! j) = st_uses (fs_stocks s ! j)"
      "m_StrName (fs_stocks ?t ! j) = m_StrName (fs_stocks s ! j)"
      "st_deleter (fs_stocks ?t ! j) = st_deleter (fs_stocks s ! j)" for j
    using u(1) by (cases "j = i"; simp add: deleter_delete_def stock_at_def)+
  have len: "length (fs_stocks ?t) = length (fs_stocks s)" "m_mpStock ?t = m_mpStock s"
      "fs_held ?t = fs_held s" "set (fs_dying ?t) \<subseteq> set (fs_dying s)"
    by (auto simp: deleter_delete_def dest: subsetD [OF set_remove1_subset])
  show ?thesis
  proof (rule factory_okI)
    fix j
    assume "j < length (fs_stocks ?t)"
    then have c: "stock_counted v s j" using factory_okD(2) [OF ok] len by simp
    have "st_alive (fs_stocks ?t ! j)" if "0 < st_uses (fs_stocks s ! j)"
      using c that u(2) by (cases "j = i") (auto simp: stock_counted_def deleter_delete_def)
    with c show "stock_counted v ?t j"
      unfolding stock_counted_def map_holds_def eq len by blast
  next
    fix k j
    assume "m_mpStock ?t k = Some (Some j)"
    then show "j < length (fs_stocks ?t) \<and> m_StrName (fs_stocks ?t ! j) = k"
      using factory_okD(3,4) [OF ok] len eq by simp
  qed (use factory_okD [OF ok] len eq in auto)
qed

lemma factory_ok_step:
  assumes "stock_step v s t" and "factory_ok v s" and v: "v = Version1 \<or> v = Version2"
  shows "factory_ok v t"
  using assms(1)
proof cases
  case (stock_erases i)
  then have "i < length (fs_stocks s)" using factory_okD(6) [OF assms(2)] by blast
  then have "t = s\<lparr>fs_dying := (i, Deleting) # remove1 (i, Erasing) (fs_dying s)\<rparr>"
    using stock_erases(2) factory_okD(5) [OF assms(2)] by (simp add: deleter_erase_def stock_at_def)
  moreover have "\<forall>x \<in> set (fs_dying s). fst x < length (fs_stocks s) \<and> st_uses (fs_stocks s ! fst x) = 0"
    using assms(2) by (simp add: factory_ok_def)
  then have "factory_ok v (s\<lparr>fs_dying := (i, Deleting) # remove1 (i, Erasing) (fs_dying s)\<rparr>)"
    using stock_erases(1) set_remove1_subset [of "(i, Erasing)" "fs_dying s"]
    by (intro factory_ok_dying [OF assms(2)]) auto
  ultimately show ?thesis by simp
qed (use assms factory_ok_take factory_ok_release factory_ok_delete in auto)

lemma factory_reach_ok:
  assumes "stock_reach v s" and "v = Version1 \<or> v = Version2"
  shows "factory_ok v s"
  using assms(1)
proof (induction rule: reach.induct)
  case (reach_init s)
  then show ?case by (simp add: stock_init_def StockFactory_new_def factory_ok_def)
next
  case (reach_step s t)
  then show ?case using factory_ok_step assms(2) by blast
qed

text \<open>
  In versions 1 and 2 of the factory, whatever the order in which threads get stocks, release
  them and delete them, two references held by the callers to stocks of one name are references to
  one object, and no object that is held has been deleted. A call returns a stock of the name asked
  for, and the stock the callers already hold when there is one.
\<close>

theorem stock_factory_shares:
  assumes "stock_reach v s" and "v = Version1 \<or> v = Version2"
  shows "(\<forall>i \<in> set (fs_held s). st_alive (stock_at i s)) \<and>
    (\<forall>i \<in> set (fs_held s). \<forall>j \<in> set (fs_held s). Stock_key i s = Stock_key j s \<longrightarrow> i = j) \<and>
    (\<forall>k. \<exists>i t. factory_get v k s = (Some i, t) \<and> Stock_key i t = k \<and>
      (\<forall>j \<in> set (fs_held s). Stock_key j s = k \<longrightarrow> i = j))"
proof -
  have ok: "factory_ok v s" by (rule factory_reach_ok [OF assms])
  have mapped: "m_mpStock s (Stock_key i s) = Some (Some i)" "0 < st_uses (fs_stocks s ! i)"
    if "i \<in> set (fs_held s)" for i
    using held_used [OF ok that] by (simp_all add: Stock_key_def stock_at_def)
  have "\<exists>i t. factory_get v k s = (Some i, t) \<and> Stock_key i t = k \<and>
      (\<forall>j \<in> set (fs_held s). Stock_key j s = k \<longrightarrow> i = j)" for k
    using ok assms(2)
  proof (cases rule: get_cases [where k = k])
    case (shares i)
    have "Stock_key i (add_use i s) = k"
      using shares(3) factory_okD(4) [OF ok shares(2)]
      by (simp add: Stock_key_def stock_at_def add_use_def set_uses_def)
    then show ?thesis using shares(1,2) mapped by fastforce
  next
    case makes
    then show ?thesis
      using mapped by (fastforce simp: Stock_key_def stock_at_def fresh_stock_def Stock_new_def)
  qed
  moreover have "\<forall>i \<in> set (fs_held s). st_alive (stock_at i s)"
    using held_used(3) [OF ok] by (simp add: stock_at_def)
  moreover have "\<forall>i \<in> set (fs_held s). \<forall>j \<in> set (fs_held s). Stock_key i s = Stock_key j s \<longrightarrow> i = j"
    using mapped(1) by (metis option.inject)
  ultimately show ?thesis by blast
qed

text \<open>A caller holds a stock and asks for it again.\<close>

theorem stock_factory_shares_witness:
  "fst (factory_get Version2 ''a'' (take_stock Version2 ''a'' StockFactory_new)) = Some 0"
proof -
  let ?s = "take_stock Version2 ''a'' StockFactory_new"
  have s: "?s = fresh_stock ''a'' 1 PlainDelete StockFactory_new\<lparr>fs_held := [0]\<rparr>"
    by (simp add: take_stock_def get2_makes StockFactory_new_def fresh_stock_def)
  from stock_factory_shares [OF first_take_reach [of Version2 "''a''"]] obtain i t
    where "factory_get Version2 ''a'' ?s = (Some i, t)"
      and "\<forall>j \<in> set (fs_held ?s). Stock_key j ?s = ''a'' \<longrightarrow> i = j"
    by blast
  moreover have "0 \<in> set (fs_held ?s)" "Stock_key 0 ?s = ''a''"
    unfolding s by (simp_all add: Stock_key_def stock_at_def fresh_stock_def Stock_new_def StockFactory_new_def)
  ultimately show ?thesis by fastforce
qed

section \<open>The race of version 3\<close>

text \<open>
  Between the release of the last reference and the deleter's \<open>erase\<close> another thread gets a new
  stock of the same name; \<open>erase\<close> then removes its entry, and the next call makes another one.
\<close>

definition race_got :: stock_factory where
  "race_got = take_stock Version3 ''a'' StockFactory_new"

definition race_replaced :: stock_factory where
  "race_replaced = take_stock Version3 ''a'' (release_stock 0 race_got)"

definition race_erased :: stock_factory where
  "race_erased = projr (deleter_erase 0 race_replaced)"

lemmas race_defs = race_got_def race_replaced_def race_erased_def take_stock_def get3_def map_at_def
  weak_lock_def release_stock_def deleter_erase_def deleteStock_def map_erase_def Stock_key_def
  StockFactory_new_def stock_defs

lemma race_erased_reach: "stock_reach Version3 race_erased"
proof -
  have "stock_reach Version3 race_got" unfolding race_got_def by (rule first_take_reach)
  then have "stock_reach Version3 (release_stock 0 race_got)"
    by (rule reach_step) (rule stock_releases, simp add: race_defs)
  then have "stock_reach Version3 race_replaced"
    unfolding race_replaced_def by (rule reach_step) (rule stock_gets)
  then show ?thesis
    by (rule reach_step) (rule stock_erases [of 0]; simp add: race_defs)
qed

text \<open>
  Version 3 can hand out two stocks of one name that are alive at once: its deleter erases the
  entry of the map by name, and that entry may already be that of a newer stock.
\<close>

theorem stock_factory_race:
  "\<exists>s i j. stock_reach Version3 s \<and> i \<in> set (fs_held s) \<and> j \<in> set (fs_held s) \<and> i \<noteq> j \<and>
    st_alive (stock_at i s) \<and> st_alive (stock_at j s) \<and> Stock_key i s = Stock_key j s"
proof -
  let ?s = "take_stock Version3 ''a'' race_erased"
  have "stock_reach Version3 ?s" by (rule reach_step [OF race_erased_reach]) (rule stock_gets)
  moreover have "fs_held ?s = [2, 1] \<and> st_alive (stock_at 2 ?s) \<and> st_alive (stock_at 1 ?s) \<and>
      Stock_key 2 ?s = Stock_key 1 ?s"
    by (simp add: race_defs)
  ultimately show ?thesis by (intro exI [of _ ?s] exI [of _ 2] exI [of _ 1]) simp
qed

text \<open>Its deleter also needs the factory; the last version's looks whether it is still there.\<close>

lemma late_deleters:
  assumes "\<not> fs_alive s" and "(i, Erasing) \<in> set (fs_dying s)"
  shows "st_deleter (stock_at i s) = DeleteStock \<Longrightarrow> deleter_erase i s = Inl BadPointer"
    and "st_deleter (stock_at i s) = WeakDeleteCallBack \<Longrightarrow> returns (deleter_erase i s)"
  using assms(1) by (simp_all add: deleter_erase_def deleteStock_def weakDeleteCallBack_def)

section \<open>The last two versions and the tests\<close>

text \<open>Their \<open>get\<close> always returns null: there is never an object to share.\<close>

definition no_stock :: "stock_factory \<Rightarrow> bool" where
  "no_stock s \<longleftrightarrow> fs_stocks s = [] \<and> fs_held s = [] \<and> fs_dying s = [] \<and>
     (\<forall>k i. m_mpStock s k \<noteq> Some (Some i))"

lemma no_stock_get:
  assumes "no_stock s" and "v = Version4 \<or> v = Version5"
  shows "\<exists>t. factory_get v k s = (None, t) \<and> no_stock t"
  using assms
  by (cases "m_mpStock s k")
    (auto simp: no_stock_def get4_def get5_def map_at_def weak_lock_def split: option.splits)

lemma last_factory_returns_null:
  assumes "stock_reach v s" and v: "v = Version4 \<or> v = Version5"
  shows "fs_stocks s = [] \<and> fst (factory_get v k s) = None"
proof -
  have "no_stock s"
    using assms(1)
  proof (induction rule: reach.induct)
    case (reach_init s)
    then show ?case by (simp add: stock_init_def StockFactory_new_def no_stock_def)
  next
    case (reach_step s t)
    from reach_step.hyps(2) show ?case
    proof cases
      case (stock_gets k)
      then show ?thesis using no_stock_get [OF reach_step.IH v, of k] by (auto simp: take_stock_def)
    qed (use reach_step.IH in \<open>auto simp: no_stock_def\<close>)
  qed
  then show ?thesis using no_stock_get [OF _ v, of s k] by (auto simp: no_stock_def)
qed

text \<open>
  The test functions and the program. Leaving a scope releases its pointers and runs the deleters.
\<close>

fun leave_scope :: "nat option list \<Rightarrow> stock_factory \<Rightarrow> stock_factory res" where
  "leave_scope [] s = Inr s"
| "leave_scope (None # ps) s = leave_scope ps s"
| "leave_scope (Some i # ps) s =
     (let s = release_stock i s in
      rbind (if (i, Erasing) \<in> set (fs_dying s) then deleter_erase i s else Inr s) (\<lambda>s.
      leave_scope ps (if (i, Deleting) \<in> set (fs_dying s) then deleter_delete i s else s)))"

definition get_kept :: "version \<Rightarrow> string \<Rightarrow> stock_factory \<Rightarrow> nat option \<times> stock_factory" where
  "get_kept v k s = (fst (factory_get v k s), take_stock v k s)"

definition testLongLifeFactory :: "version \<Rightarrow> stock_factory res" where
  "testLongLifeFactory v =
     (let (stock, s) = get_kept v ''testLongLifeFactory'' StockFactory_new;
          (stock2, s) = get_kept v ''testLongLifeFactory'' s
      in check (stock = stock2)
           (rbind (leave_scope [stock2, stock] s) (\<lambda>s. Inr (StockFactory_delete s))))"

definition testShortLifeFactory :: "version \<Rightarrow> stock_factory res" where
  "testShortLifeFactory v =
     (let (pStock, s) = get_kept v ''testShortLifeFactory'' StockFactory_new;
          (stock2, s) = get_kept v ''testShortLifeFactory'' s
      in check (pStock = stock2)
           (rbind (leave_scope [stock2] s) (\<lambda>s. leave_scope [pStock] (StockFactory_delete s))))"

definition factory_block :: "version \<Rightarrow> string \<Rightarrow> stock_factory res" where
  "factory_block v name =
     (let (p, s) = get_kept v name StockFactory_new in leave_scope [p] s)"

definition factory_main :: "stock_factory list res" where
  "factory_main =
     rbind (factory_block Version1 ''stock1'') (\<lambda>sf1.
     rbind (factory_block Version2 ''stock2'') (\<lambda>sf2.
     rbind (factory_block Version3 ''stock3'') (\<lambda>sf3.
     rbind (factory_block Version3 ''stock4'') (\<lambda>sf4.
     rbind (factory_block Version5 ''stock5'') (\<lambda>sf5.
     rbind (testLongLifeFactory Version5) (\<lambda>_.
     rbind (testShortLifeFactory Version5) (\<lambda>_.
     Inr [sf1, sf2, sf3, sf4, sf5])))))))"

lemmas factory_run_defs = race_defs factory_block_def get_kept_def get1_def get2_def get5_def
  testLongLifeFactory_def testShortLifeFactory_def StockFactory_delete_def deleter_delete_def

text \<open>
  The program makes one stock in each of the first four factories and none in the last, whose two
  tests compare null with null. The first factory keeps its stock; version 2 keeps the dead entry
  of the map, version 3 erases it.
\<close>

lemma factory_blocks:
  "\<exists>s. factory_block Version1 k = Inr s \<and> map st_alive (fs_stocks s) = [True]"
  "\<exists>s. factory_block Version2 k = Inr s \<and> map st_alive (fs_stocks s) = [False] \<and> m_mpStock s k = Some (Some 0)"
  "\<exists>s. factory_block Version3 k = Inr s \<and> map st_alive (fs_stocks s) = [False] \<and> m_mpStock s k = None"
  "\<exists>s. factory_block Version5 k = Inr s \<and> fs_stocks s = []"
  by (simp_all add: factory_run_defs)

lemma factory_tests:
  "\<exists>s. testLongLifeFactory Version5 = Inr s \<and> fs_stocks s = []"
  "\<exists>s. testShortLifeFactory Version5 = Inr s \<and> fs_stocks s = []"
  by (simp_all add: factory_run_defs)

lemma factory_main_stocks:
  "\<exists>fs. factory_main = Inr fs \<and> map (\<lambda>s. map st_alive (fs_stocks s)) fs = [[True], [False], [False], [False], []]"
  using factory_blocks(1) [of "''stock1''"] factory_blocks(2) [of "''stock2''"]
    factory_blocks(3) [of "''stock3''"] factory_blocks(3) [of "''stock4''"]
    factory_blocks(4) [of "''stock5''"] factory_tests
  by (auto simp: factory_main_def)

end
