(* ===== verification/Observers.thy ===== *)
theory Observers
  imports Prelude "HOL-Library.Multiset"
begin

text \<open>
  \<open>thread/test/Observer.cpp\<close> and \<open>thread/test/ObserverSafe.cpp\<close>: subjects that call the observers
  registered with them. In the first, both sides hold raw pointers; an observer and a subject are
  numbers, and the maps of \<open>obs_world\<close> hold the objects that exist. In the second a subject holds
  weak pointers, and whether the observer still exists is a predicate. What \<open>Foo::update\<close> prints
  is the list of the observers it was called on.
\<close>

section \<open>Raw pointers\<close>

text \<open>The member \<open>m_pSubject\<close> of every observer, and the vector of every subject.\<close>

record obs_world =
  m_pSubject :: "nat \<rightharpoonup> nat option"
  m_vObserver :: "nat \<rightharpoonup> nat list"
  ob_updates :: "nat list"

definition no_objects :: obs_world where
  "no_objects = \<lparr>m_pSubject = Map.empty, m_vObserver = Map.empty, ob_updates = []\<rparr>"

definition Observer_new :: "nat \<Rightarrow> obs_world \<Rightarrow> obs_world" where
  "Observer_new p w = w\<lparr>m_pSubject := (m_pSubject w)(p \<mapsto> None)\<rparr>"

definition Observable_new :: "nat \<Rightarrow> obs_world \<Rightarrow> obs_world" where
  "Observable_new b w = w\<lparr>m_vObserver := (m_vObserver w)(b \<mapsto> [])\<rparr>"

definition Observable_delete :: "nat \<Rightarrow> obs_world \<Rightarrow> obs_world" where
  "Observable_delete b w = w\<lparr>m_vObserver := (m_vObserver w)(b := None)\<rparr>"

text \<open>A method of a subject that exists, on its vector.\<close>

definition on_subject :: "nat \<Rightarrow> (nat list \<Rightarrow> nat list) \<Rightarrow> obs_world \<Rightarrow> obs_world res" where
  "on_subject b f w =
     (case m_vObserver w b of
        None \<Rightarrow> Inl BadPointer
      | Some v \<Rightarrow> Inr (w\<lparr>m_vObserver := (m_vObserver w)(b \<mapsto> f v)\<rparr>))"

definition registerObser :: "nat option \<Rightarrow> nat list \<Rightarrow> nat list" where
  "registerObser pObserver v = (case pObserver of None \<Rightarrow> v | Some p \<Rightarrow> v @ [p])"

text \<open>\<open>std::find\<close> gives the first position, or the end.\<close>

fun vec_find :: "nat \<Rightarrow> nat list \<Rightarrow> nat" where
  "vec_find p [] = 0"
| "vec_find p (x # xs) = (if x = p then 0 else Suc (vec_find p xs))"

definition UnRegisterObser :: "nat option \<Rightarrow> nat list \<Rightarrow> nat list" where
  "UnRegisterObser pObserver v =
     (case pObserver of
        None \<Rightarrow> v
      | Some p \<Rightarrow>
          (let itor = vec_find p v in
           if length v \<noteq> itor
           then butlast (v[itor := List.last v, length v - 1 := v ! itor])
           else v))"

definition Observer_observe :: "nat option \<Rightarrow> nat \<Rightarrow> obs_world \<Rightarrow> obs_world res" where
  "Observer_observe pObservable p w =
     (case pObservable of
        None \<Rightarrow> Inr w
      | Some b \<Rightarrow>
          rbind (on_subject b (registerObser (Some p)) w) (\<lambda>w.
          Inr (w\<lparr>m_pSubject := (m_pSubject w)(p \<mapsto> Some b)\<rparr>)))"

definition Observer_delete :: "nat \<Rightarrow> obs_world \<Rightarrow> obs_world res" where
  "Observer_delete p w =
     (case m_pSubject w p of
        None \<Rightarrow> Inl BadPointer
      | Some pSubject \<Rightarrow>
          rbind (case pSubject of
                   None \<Rightarrow> Inr w
                 | Some b \<Rightarrow> on_subject b (UnRegisterObser (Some p)) w) (\<lambda>w.
          Inr (w\<lparr>m_pSubject := (m_pSubject w)(p := None)\<rparr>)))"

text \<open>
  The loop looks the vector's size up at every turn, and \<open>update\<close> is whatever the class of the
  observer defines; it may change the vector, so the loop may go on for ever. \<open>registerObser\<close>
  lets no null pointer into the vector, so the entries are observers and the loop's own test for
  null always passes.
\<close>

partial_function (option) notify_loop ::
    "(nat \<Rightarrow> obs_world \<Rightarrow> obs_world res) \<Rightarrow> nat \<Rightarrow> nat \<Rightarrow> obs_world \<Rightarrow> obs_world res option" where
  "notify_loop update b n w =
     (case m_vObserver w b of
        None \<Rightarrow> Some (Inl BadPointer)
      | Some v \<Rightarrow>
          if n < length v
          then (case m_pSubject w (v ! n) of
                  None \<Rightarrow> Some (Inl BadPointer)
                | Some _ \<Rightarrow>
                    (case update (v ! n) w of
                       Inl e \<Rightarrow> Some (Inl e)
                     | Inr w \<Rightarrow> notify_loop update b (Suc n) w))
          else Some (Inr w))"

definition notifyObservers ::
    "(nat \<Rightarrow> obs_world \<Rightarrow> obs_world res) \<Rightarrow> nat \<Rightarrow> obs_world \<Rightarrow> obs_world res option" where
  "notifyObservers update b w = notify_loop update b 0 w"

definition Foo_update :: "nat \<Rightarrow> obs_world \<Rightarrow> obs_world res" where
  "Foo_update p w = Inr (w\<lparr>ob_updates := ob_updates w @ [p]\<rparr>)"

definition observer_main :: "obs_world res option" where
  "observer_main =
     (case Observer_observe (Some 1) 0 (Observable_new 1 (Observer_new 0 no_objects)) of
        Inl e \<Rightarrow> Some (Inl e)
      | Inr w \<Rightarrow>
          (case notifyObservers Foo_update 1 w of
             Some (Inr w) \<Rightarrow>
               (case Observer_delete 0 w of
                  Inl e \<Rightarrow> Some (Inl e)
                | Inr w \<Rightarrow> notifyObservers Foo_update 1 w)
           | r \<Rightarrow> r))"

section \<open>What a notification does\<close>

lemma vec_find_less: "vec_find p v < length v \<longleftrightarrow> p \<in> set v"
  by (induction v) auto

lemma vec_find_le: "vec_find p v \<le> length v"
  by (induction v) auto

lemma vec_find_nth: "p \<in> set v \<Longrightarrow> v ! vec_find p v = p"
  by (induction v) auto

text \<open>Swapping with the last element and popping it removes one occurrence.\<close>

lemma mset_UnRegister:
  assumes "p \<in> set v"
  shows "mset (UnRegisterObser (Some p) v) = mset v - {#p#}"
proof -
  let ?i = "vec_find p v" and ?l = "length v - 1"
  have i: "?i < length v" using assms by (simp add: vec_find_less)
  then have l: "?l < length v" by linarith
  let ?w = "v[?i := v ! ?l, ?l := v ! ?i]"
  have p: "v ! ?i = p" using assms by (rule vec_find_nth)
  have "mset ?w = mset v" using i l by (simp add: mset_swap)
  moreover have "?w = butlast ?w @ [p]"
    using i l p by (metis append_butlast_last_id last_conv_nth length_0_conv length_list_update less_nat_zero_code nth_list_update_eq)
  ultimately have "mset (butlast ?w) = mset v - {#p#}"
    by (metis add_diff_cancel_right' mset.simps mset_append)
  moreover have "UnRegisterObser (Some p) v = butlast ?w"
    using i by (cases "v = []") (simp_all add: UnRegisterObser_def Let_def last_conv_nth)
  ultimately show ?thesis by simp
qed

lemma UnRegister_absent: "p \<notin> set v \<Longrightarrow> UnRegisterObser (Some p) v = v"
  using vec_find_le [of p v] vec_find_less [of p v] by (simp add: UnRegisterObser_def)

text \<open>Observers that only print: every one is called once, in the order of the vector.\<close>

lemma notify_loop_Foo:
  assumes "m_vObserver w b = Some v" and "n \<le> length v"
  shows "notify_loop Foo_update b n w =
    (if \<forall>p \<in> set (drop n v). m_pSubject w p \<noteq> None
     then Some (Inr (w\<lparr>ob_updates := ob_updates w @ drop n v\<rparr>)) else Some (Inl BadPointer))"
  using assms
proof (induction "length v - n" arbitrary: n w)
  case 0
  then show ?case by (simp add: notify_loop.simps [of _ _ n])
next
  case (Suc k)
  let ?w = "w\<lparr>ob_updates := ob_updates w @ [v ! n]\<rparr>"
  have n: "n < length v" "k = length v - Suc n" using Suc.hyps(2) by linarith+
  have d: "drop n v = v ! n # drop (Suc n) v" using n(1) by (rule Cons_nth_drop_Suc [symmetric])
  have IH: "notify_loop Foo_update b (Suc n) ?w =
      (if \<forall>p \<in> set (drop (Suc n) v). m_pSubject w p \<noteq> None
       then Some (Inr (w\<lparr>ob_updates := ob_updates w @ drop n v\<rparr>)) else Some (Inl BadPointer))"
    using Suc.hyps(1) [of "Suc n" ?w] n Suc.prems by (simp add: d)
  show ?case
    unfolding notify_loop.simps [of Foo_update b n w]
    using Suc.prems n IH by (auto simp: d Foo_update_def split: option.splits)
qed

lemma notify_Foo:
  "m_vObserver w b = Some v \<Longrightarrow> notifyObservers Foo_update b w =
    (if \<forall>p \<in> set v. m_pSubject w p \<noteq> None
     then Some (Inr (w\<lparr>ob_updates := ob_updates w @ v\<rparr>)) else Some (Inl BadPointer))"
  using notify_loop_Foo [of w b v 0] by (simp add: notifyObservers_def)

section \<open>Observers that observe once\<close>

text \<open>
  The use the classes allow: an observer is made to observe once, and a subject is not deleted
  while an observer still points to it.
\<close>

inductive obs_step :: "obs_world \<Rightarrow> obs_world \<Rightarrow> bool" where
  obs_new: "m_pSubject w p = None \<Longrightarrow> obs_step w (Observer_new p w)"
| obs_new_subject: "m_vObserver w b = None \<Longrightarrow> obs_step w (Observable_new b w)"
| obs_observe: "m_pSubject w p = Some None \<Longrightarrow> m_vObserver w b = Some v \<Longrightarrow>
    Observer_observe (Some b) p w = Inr w1 \<Longrightarrow> obs_step w w1"
| obs_notify: "notifyObservers Foo_update b w = Some (Inr w1) \<Longrightarrow> m_vObserver w b = Some v \<Longrightarrow> obs_step w w1"
| obs_delete: "m_pSubject w p = Some q \<Longrightarrow> Observer_delete p w = Inr w1 \<Longrightarrow> obs_step w w1"
| obs_delete_subject: "\<forall>p. m_pSubject w p \<noteq> Some (Some b) \<Longrightarrow> obs_step w (Observable_delete b w)"

definition obs_init :: "obs_world \<Rightarrow> bool" where
  "obs_init w \<longleftrightarrow> w = no_objects"

abbreviation obs_reach :: "obs_world \<Rightarrow> bool" where
  "obs_reach \<equiv> reach obs_init obs_step"

definition obs_linked :: "obs_world \<Rightarrow> bool" where
  "obs_linked w \<longleftrightarrow>
     (\<forall>b v. m_vObserver w b = Some v \<longrightarrow> distinct v \<and> (\<forall>p. p \<in> set v \<longleftrightarrow> m_pSubject w p = Some (Some b))) \<and>
     (\<forall>p b. m_pSubject w p = Some (Some b) \<longrightarrow> m_vObserver w b \<noteq> None)"

lemma obs_linkedD:
  assumes "obs_linked w" and "m_vObserver w b = Some v"
  shows "distinct v" and "p \<in> set v \<longleftrightarrow> m_pSubject w p = Some (Some b)"
  using assms by (auto simp: obs_linked_def)

lemma UnRegister_set:
  assumes "p \<in> set v" and "distinct v"
  shows "distinct (UnRegisterObser (Some p) v)" and "set (UnRegisterObser (Some p) v) = set v - {p}"
proof -
  have m: "mset (UnRegisterObser (Some p) v) = mset (remove1 p v)"
    using mset_UnRegister [OF assms(1)] by simp
  then show "distinct (UnRegisterObser (Some p) v)"
    using assms(2) by (metis distinct_remove1 mset_eq_imp_distinct_iff)
  show "set (UnRegisterObser (Some p) v) = set v - {p}"
    using m assms(2) by (metis mset_eq_setD set_remove1_eq)
qed

lemma obs_linked_observe:
  assumes "obs_linked w" and "m_pSubject w p = Some None" and "m_vObserver w b = Some v"
  shows "Observer_observe (Some b) p w =
      Inr (w\<lparr>m_vObserver := (m_vObserver w)(b \<mapsto> v @ [p]), m_pSubject := (m_pSubject w)(p \<mapsto> Some b)\<rparr>)"
    and "obs_linked (w\<lparr>m_vObserver := (m_vObserver w)(b \<mapsto> v @ [p]), m_pSubject := (m_pSubject w)(p \<mapsto> Some b)\<rparr>)"
  using assms by (auto simp: Observer_observe_def on_subject_def registerObser_def obs_linked_def)

lemma obs_linked_delete:
  assumes "obs_linked w" and "m_pSubject w p = Some (Some b)"
  obtains v where "m_vObserver w b = Some v"
    and "Observer_delete p w = Inr (w\<lparr>m_vObserver := (m_vObserver w)(b \<mapsto> UnRegisterObser (Some p) v),
      m_pSubject := (m_pSubject w)(p := None)\<rparr>)"
    and "obs_linked (w\<lparr>m_vObserver := (m_vObserver w)(b \<mapsto> UnRegisterObser (Some p) v),
      m_pSubject := (m_pSubject w)(p := None)\<rparr>)"
proof -
  obtain v where v: "m_vObserver w b = Some v" using assms unfolding obs_linked_def by blast
  have p: "p \<in> set v" "distinct v" using obs_linkedD [OF assms(1) v] assms(2) by simp_all
  let ?u = "UnRegisterObser (Some p) v"
  let ?w = "w\<lparr>m_vObserver := (m_vObserver w)(b \<mapsto> ?u), m_pSubject := (m_pSubject w)(p := None)\<rparr>"
  have other: "p \<notin> set v'" if "m_vObserver w b' = Some v'" "b' \<noteq> b" for b' v'
    using obs_linkedD(2) [OF assms(1) that(1), of p] assms(2) that(2) by simp
  have "obs_linked ?w"
    unfolding obs_linked_def
  proof (intro conjI allI impI)
    fix b' v' q
    assume v': "m_vObserver ?w b' = Some v'"
    show "distinct v'"
      using v' UnRegister_set(1) [OF p] obs_linkedD(1) [OF assms(1)] by (auto split: if_splits)
    show "q \<in> set v' \<longleftrightarrow> m_pSubject ?w q = Some (Some b')"
      using v' UnRegister_set(2) [OF p] obs_linkedD(2) [OF assms(1) v] obs_linkedD(2) [OF assms(1)] other
      by (cases "b' = b") auto
  next
    fix q b'
    assume "m_pSubject ?w q = Some (Some b')"
    then show "m_vObserver ?w b' \<noteq> None" using assms(1) by (auto simp: obs_linked_def split: if_splits)
  qed
  moreover have "Observer_delete p w = Inr ?w"
    using v assms(2) by (simp add: Observer_delete_def on_subject_def)
  ultimately show ?thesis using that v by blast
qed

lemma obs_step_linked:
  assumes "obs_step w w1" and ok: "obs_linked w"
  shows "obs_linked w1"
  using assms(1)
proof cases
  case (obs_observe p b v)
  then show ?thesis using obs_linked_observe [OF ok obs_observe(1,2)] by simp
next
  case (obs_notify b v)
  then show ?thesis using ok notify_Foo [of w b v] by (auto simp: obs_linked_def split: if_splits)
next
  case (obs_new_subject b)
  moreover have "m_pSubject w p \<noteq> Some (Some b)" for p
    using ok obs_new_subject(2) unfolding obs_linked_def by blast
  ultimately show ?thesis using ok by (auto simp: obs_linked_def Observable_new_def)
next
  case (obs_delete p q)
  show ?thesis
  proof (cases q)
    case None
    then show ?thesis
      using obs_delete ok by (auto simp: Observer_delete_def obs_linked_def split: if_splits)
  next
    case (Some b)
    then show ?thesis using obs_linked_delete [OF ok, of p b] obs_delete by (metis Inr_inject)
  qed
qed (use ok in \<open>auto simp: obs_linked_def Observer_new_def Observable_delete_def\<close>)

interpretation obs: invariant_system obs_init obs_step obs_linked
  by unfold_locales (auto simp: obs_init_def obs_linked_def no_objects_def dest: obs_step_linked)

text \<open>
  Observers that observe once may be made, registered and deleted in any order, between any
  notifications: a notification of a subject that exists calls every observer that points to it
  exactly once and none that has been deleted, whatever the swaps of earlier removals, and the
  deletion of an observer never uses a dangling pointer.
\<close>

theorem observers_notified:
  assumes "obs_reach w" and "m_vObserver w b = Some v"
  shows "notifyObservers Foo_update b w = Some (Inr (w\<lparr>ob_updates := ob_updates w @ v\<rparr>)) \<and>
    distinct v \<and> set v = {p. m_pSubject w p = Some (Some b)} \<and>
    (\<forall>p. m_pSubject w p \<noteq> None \<longrightarrow> returns (Observer_delete p w))"
proof -
  have ok: "obs_linked w" by (rule obs.reach_keeps [OF assms(1)])
  have "returns (Observer_delete p w)" if "m_pSubject w p = Some q" for p q
  proof (cases q)
    case None
    then show ?thesis using that by (simp add: Observer_delete_def)
  next
    case (Some b)
    with that show ?thesis using obs_linked_delete [OF ok, of p b] by (metis returns_Inr)
  qed
  then show ?thesis
    using obs_linkedD [OF ok assms(2)] notify_Foo [OF assms(2)] by auto
qed

lemma obs_pair_reach:
  "obs_reach (Observable_new 5 (Observer_new 3 no_objects))"
proof (rule reach_step)
  show "obs_reach (Observer_new 3 no_objects)"
    by (rule reach_once [of _ no_objects]) (simp_all add: obs_init_def obs_new no_objects_def)
  show "obs_step (Observer_new 3 no_objects) (Observable_new 5 (Observer_new 3 no_objects))"
    by (rule obs_new_subject) (simp add: Observer_new_def no_objects_def)
qed

definition obs_demo :: obs_world where
  "obs_demo = projr (Observer_observe (Some 5) 3 (Observable_new 5 (Observer_new 3 no_objects)))"

lemmas obs_run_defs = Observer_observe_def on_subject_def registerObser_def Observable_new_def
  Observer_new_def no_objects_def Observer_delete_def UnRegisterObser_def

theorem observers_notified_witness:
  "notifyObservers Foo_update 5 obs_demo = Some (Inr (obs_demo\<lparr>ob_updates := [3]\<rparr>))"
proof -
  have "obs_step (Observable_new 5 (Observer_new 3 no_objects)) obs_demo"
    by (rule obs_observe [of _ 3 5 "[]"]) (simp_all add: obs_demo_def obs_run_defs)
  then have "obs_reach obs_demo" by (rule reach_step [OF obs_pair_reach])
  moreover have "m_vObserver obs_demo 5 = Some [3]" "ob_updates obs_demo = []"
    by (simp_all add: obs_demo_def obs_run_defs)
  ultimately show ?thesis using observers_notified [of obs_demo 5 "[3]"] by simp
qed

lemma observer_main_runs: "\<exists>w. observer_main = Some (Inr w) \<and> ob_updates w = [0]"
  by (simp add: observer_main_def notify_Foo obs_run_defs)

text \<open>
  An observer that observes twice is registered twice, and its destructor removes one of the two:
  the next notification calls an observer that is gone.
\<close>

lemma observing_twice_dangles:
  assumes "m_pSubject w p = Some None" and "m_vObserver w b = Some []"
  shows "\<exists>w1 w2. rbind (Observer_observe (Some b) p w) (Observer_observe (Some b) p) = Inr w1 \<and>
    Observer_delete p w1 = Inr w2 \<and> notifyObservers Foo_update b w2 = Some (Inl BadPointer)"
  using assms by (simp add: obs_run_defs notify_Foo)

text \<open>
  An \<open>update\<close> that takes its own observer off the subject makes the loop skip the last observer,
  which has taken its place.
\<close>

definition unregistering_update :: "nat \<Rightarrow> nat \<Rightarrow> obs_world \<Rightarrow> obs_world res" where
  "unregistering_update b p w = rbind (Foo_update p w) (on_subject b (UnRegisterObser (Some p)))"

lemma unregistering_update_skips:
  assumes "m_vObserver w b = Some [p, q]" and "m_pSubject w p \<noteq> None" and "p \<noteq> q"
  shows "\<exists>w1. notifyObservers (unregistering_update b) b w = Some (Inr w1) \<and>
    ob_updates w1 = ob_updates w @ [p]"
  using assms
  by (auto simp: notifyObservers_def notify_loop.simps [of _ b 0] notify_loop.simps [of _ b "Suc 0"]
      unregistering_update_def Foo_update_def on_subject_def UnRegisterObser_def)

section \<open>Weak pointers\<close>

text \<open>
  The loop of \<open>ObserverSafe.cpp\<close>: iterators are positions, and the end is read once. The result
  is the vector left and the observers called. An expired entry is erased, and the iterator
  that \<open>erase\<close> returns is advanced like any other.
\<close>

function safe_notify_loop ::
    "(nat \<Rightarrow> bool) \<Rightarrow> nat \<Rightarrow> nat \<Rightarrow> nat list \<Rightarrow> nat list \<Rightarrow> (nat list \<times> nat list) res" where
  "safe_notify_loop alive e itor v calls =
     (if e = itor then Inr (v, calls)
      else if length v \<le> itor then Inl OutOfBounds
      else if alive (v ! itor) then safe_notify_loop alive e (Suc itor) v (calls @ [v ! itor])
      else safe_notify_loop alive e (Suc itor) (take itor v @ drop (Suc itor) v) calls)"
  by pat_completeness auto
termination
  by (relation "measure (\<lambda>(_, _, itor, v, _). length v - itor)") auto

declare safe_notify_loop.simps [simp del]

definition safe_regObserver :: "nat \<Rightarrow> nat list \<Rightarrow> nat list" where
  "safe_regObserver pObserver v = v @ [pObserver]"

definition safe_notifyObservers :: "(nat \<Rightarrow> bool) \<Rightarrow> nat list \<Rightarrow> (nat list \<times> nat list) res" where
  "safe_notifyObservers alive v = safe_notify_loop alive (length v) 0 v []"

text \<open>
  \<open>observe\<close> of an observer that a \<open>shared_ptr\<close> owns; its member \<open>m_pSubject\<close>, which nothing reads,
  is left out.
\<close>

definition safe_observe :: "nat list option \<Rightarrow> nat \<Rightarrow> nat list option" where
  "safe_observe pSubject p = map_option (safe_regObserver p) pSubject"

definition safe_main :: "(nat list \<times> nat list) res" where
  "safe_main =
     (let subject = the (safe_observe (Some []) 0) in
      rbind (safe_notifyObservers (\<lambda>_. True) subject) (\<lambda>(subject, _).
      safe_notifyObservers (\<lambda>_. False) subject))"

text \<open>Once an entry has gone, the iterator does not meet the old end without leaving the vector.\<close>

lemma safe_loop_leaves:
  "length v < e \<Longrightarrow> itor < e \<Longrightarrow> safe_notify_loop alive e itor v calls = Inl OutOfBounds"
proof (induction alive e itor v calls rule: safe_notify_loop.induct)
  case (1 alive e itor v calls)
  then show ?case by (subst safe_notify_loop.simps) auto
qed

lemma safe_loop:
  "length v = e \<Longrightarrow> itor \<le> e \<Longrightarrow> safe_notify_loop alive e itor v calls =
    (if \<forall>p \<in> set (butlast (drop itor v)). alive p
     then Inr (take itor v @ filter alive (drop itor v), calls @ filter alive (drop itor v))
     else Inl OutOfBounds)"
proof (induction "e - itor" arbitrary: itor calls)
  case 0
  then show ?case by (simp add: safe_notify_loop.simps)
next
  case (Suc k)
  then have i: "itor < length v" by linarith
  then have d: "drop itor v = v ! itor # drop (Suc itor) v" by (rule Cons_nth_drop_Suc [symmetric])
  show ?case
  proof (cases "alive (v ! itor)")
    case True
    have "safe_notify_loop alive e itor v calls = safe_notify_loop alive e (Suc itor) v (calls @ [v ! itor])"
      using True i Suc.prems(1) by (simp add: safe_notify_loop.simps [of alive e itor])
    also have "\<dots> = (if \<forall>p \<in> set (butlast (drop (Suc itor) v)). alive p
       then Inr (take (Suc itor) v @ filter alive (drop (Suc itor) v),
         (calls @ [v ! itor]) @ filter alive (drop (Suc itor) v))
       else Inl OutOfBounds)"
      using Suc.hyps(2) Suc.prems i by (intro Suc.hyps(1)) auto
    finally show ?thesis using True i by (auto simp: d take_Suc_conv_app_nth)
  next
    case False
    have step: "safe_notify_loop alive e itor v calls =
        safe_notify_loop alive e (Suc itor) (take itor v @ drop (Suc itor) v) calls"
      using False i Suc.prems(1) by (simp add: safe_notify_loop.simps [of alive e itor])
    show ?thesis
    proof (cases "Suc itor = e")
      case True
      then show ?thesis using step False Suc.prems(1) by (simp add: d safe_notify_loop.simps)
    next
      case rest: False
      then have "drop (Suc itor) v \<noteq> []" using i Suc.prems(1) by simp
      then have "\<not> (\<forall>p \<in> set (butlast (drop itor v)). alive p)" using False by (simp add: d)
      moreover have "safe_notify_loop alive e (Suc itor) (take itor v @ drop (Suc itor) v) calls =
          Inl OutOfBounds"
        using rest i Suc.prems by (intro safe_loop_leaves) auto
      ultimately show ?thesis using step by simp
    qed
  qed
qed

text \<open>
  A notification of weakly held observers is right exactly when none but the last of them has
  expired: then every live observer is called once, in order, and the expired entry is erased;
  otherwise the loop reads outside the vector, because it advances the iterator that \<open>erase\<close>
  gave it and compares it with the end of the longer vector.
\<close>

theorem safe_notify_iff:
  "safe_notifyObservers alive v =
    (if list_all alive (butlast v) then Inr (filter alive v, filter alive v) else Inl OutOfBounds)"
  unfolding safe_notifyObservers_def using safe_loop [of v "length v" 0 alive "[]"]
  by (simp add: list_all_iff)

lemma safe_main_runs: "safe_main = Inr ([], [])"
proof -
  have "safe_notifyObservers (\<lambda>_. True) [0] = Inr ([0], [0])"
    "safe_notifyObservers (\<lambda>_. False) [0] = Inr ([], [])"
    by (simp_all add: safe_notifyObservers_def safe_loop)
  then show ?thesis by (simp add: safe_main_def safe_observe_def safe_regObserver_def)
qed

end
