(* ===== verification/QueueTests.thy ===== *)
theory QueueTests
  imports BlockingQueues Latches Threads
begin

text \<open>
  \<open>thread/test/BlockingQueue_UnitTest.cpp\<close> and \<open>thread/test/BoundedBlockingQueue_UnitTest.cpp\<close>: a class \<open>Test\<close>
  whose threads take texts from a queue until they take \<open>stop\<close>. The main thread starts them,
  waits on a latch until each has counted it down, puts \<open>hello\<close> texts and then one \<open>stop\<close> for each
  thread, and joins them. The two programs are the same but for the class of the queue, which
  is the argument \<open>cls\<close>. Threads are numbered in the order of their creation: the main thread is
  \<open>0\<close>, the thread at place \<open>i\<close> of \<open>m_vThread\<close> is \<open>Suc i\<close>. A step with no result is one of a
  thread that is blocked.
\<close>

section \<open>The class of the queue\<close>

record ('m, 'q) queue_class =
  qc_Put :: "nat \<Rightarrow> nat \<Rightarrow> 'm \<Rightarrow> 'q \<Rightarrow> (bool \<times> 'q) res"
  qc_Take :: "nat \<Rightarrow> nat \<Rightarrow> 'q \<Rightarrow> ('m option \<times> 'q) res"
  qc_putters :: "'q \<Rightarrow> condition"
  qc_takers :: "'q \<Rightarrow> condition"
  qc_on_putters :: "(condition \<Rightarrow> condition) \<Rightarrow> 'q \<Rightarrow> 'q"
  qc_on_takers :: "(condition \<Rightarrow> condition) \<Rightarrow> 'q \<Rightarrow> 'q"

text \<open>\<open>Put\<close> of the unbounded queue never blocks, so it has no condition for putters.\<close>

definition unbounded_class :: "('m, 'm blocking_queue) queue_class" where
  "unbounded_class =
     \<lparr>qc_Put = \<lambda>k tid x q. Inr (True, BlockingQueue_Put k x q),
      qc_Take = \<lambda>k. BlockingQueue_Take,
      qc_putters = \<lambda>q. Condition_new, qc_takers = m_NotEmptyCond,
      qc_on_putters = \<lambda>f q. q, qc_on_takers = m_NotEmptyCond_update\<rparr>"

definition bounded_class :: "('m, 'm bounded_queue) queue_class" where
  "bounded_class =
     \<lparr>qc_Put = BoundedBlockingQueue_Put, qc_Take = BoundedBlockingQueue_Take,
      qc_putters = b_NoeFullCond, qc_takers = b_NotEmptyCond,
      qc_on_putters = b_NoeFullCond_update, qc_on_takers = b_NotEmptyCond_update\<rparr>"

section \<open>The program\<close>

text \<open>
  Where a thread is. \<open>MWait\<close> and \<open>MPut\<close> say whether the main thread is inside \<open>Condition::Wait\<close>;
  \<open>MPut j\<close> is at its \<open>j\<close>-th call of \<open>Put\<close>, counted from 0 through \<open>run\<close> and \<open>joinAll\<close>.
\<close>

datatype main_pc = MStart nat | MWait bool | MPut nat bool | MJoin nat | MDone

datatype worker_pc = WStarted | WTaking | WBlocked | WEnded

record 'q queue_test =
  t_Queue :: 'q
  t_Latch :: latch
  t_vThread :: "thread_obj list"
  t_World :: thread_world
  t_main :: main_pc
  t_pc :: "worker_pc list"
  t_Got :: "(nat \<times> string) list"

definition thread_name :: "nat \<Rightarrow> string" where
  "thread_name n = fst (snprintf 32 (''work thread '' @ dec (int n)))"

primrec Test_threads :: "nat \<Rightarrow> thread_world \<Rightarrow> thread_obj list \<times> thread_world" where
  "Test_threads 0 w = ([], w)"
| "Test_threads (Suc n) w =
     (let (ts, w1) = Test_threads n w; (t, w2) = Thread_new 0 (thread_name n) w1 in (ts @ [t], w2))"

text \<open>The constructor: the threads are made here and started one after the other by \<open>Test_startNext\<close>.\<close>

definition Test_new :: "'q \<Rightarrow> nat \<Rightarrow> thread_world \<Rightarrow> 'q queue_test" where
  "Test_new q nNumThreads w =
     (let (ts, w1) = Test_threads nNumThreads w
      in \<lparr>t_Queue = q, t_Latch = CountDownLatch_new (int nNumThreads), t_vThread = ts, t_World = w1,
          t_main = MStart 0, t_pc = [], t_Got = []\<rparr>)"

definition Test_startNext :: "bool \<Rightarrow> nat \<Rightarrow> 'q queue_test \<Rightarrow> 'q queue_test res" where
  "Test_startNext created n s =
     rbind (Thread_Start (if created then Some (Suc n) else None) (t_vThread s ! n) (t_World s))
       (\<lambda>(t, w). Inr (s\<lparr>t_vThread := (t_vThread s)[n := t], t_World := w, t_main := MStart (Suc n),
                         t_pc := t_pc s @ [WStarted]\<rparr>))"

text \<open>\<open>run\<close>: the latch, and then the texts.\<close>

definition Test_run :: "nat \<Rightarrow> 'q queue_test \<Rightarrow> 'q queue_test res" where
  "Test_run nTimes s = check (0 < nTimes) (Inr (s\<lparr>t_main := MWait False\<rparr>))"

definition Test_wait :: "latch \<Rightarrow> 'q queue_test \<Rightarrow> 'q queue_test" where
  "Test_wait l s =
     (let (opened, l1) = CountDownLatch_Wait 0 l
      in s\<lparr>t_Latch := l1, t_main := if opened then MPut 0 False else MWait True\<rparr>)"

definition test_hello :: "nat \<Rightarrow> string" where
  "test_hello n = fst (snprintf 32 (''hello '' @ dec (int n)))"

text \<open>The text of each call of \<open>Put\<close>: first those of \<open>run\<close>, then those of \<open>joinAll\<close>.\<close>

definition test_text :: "nat \<Rightarrow> nat \<Rightarrow> string" where
  "test_text nTimes j = (if j < nTimes then test_hello j else ''stop'')"

definition Test_put ::
    "(string, 'q) queue_class \<Rightarrow> nat \<Rightarrow> nat \<Rightarrow> nat \<Rightarrow> 'q \<Rightarrow> 'q queue_test \<Rightarrow> 'q queue_test res" where
  "Test_put cls nTimes k j q s =
     rbind (qc_Put cls k 0 (test_text nTimes j) q)
       (\<lambda>(done, q1). Inr (s\<lparr>t_Queue := q1, t_main := if done then MPut (Suc j) False else MPut j True\<rparr>))"

definition test_ended :: "'q queue_test \<Rightarrow> nat \<Rightarrow> bool" where
  "test_ended s h \<longleftrightarrow> t_pc s ! (h - 1) = WEnded"

definition Test_join :: "nat \<Rightarrow> 'q queue_test \<Rightarrow> 'q queue_test res option" where
  "Test_join n s =
     (case Thread_Join (test_ended s) (t_vThread s ! n) of
        Inl e \<Rightarrow> Some (Inl e)
      | Inr None \<Rightarrow> None
      | Inr (Some t) \<Rightarrow> Some (Inr (s\<lparr>t_vThread := (t_vThread s)[n := t], t_main := MJoin (Suc n)\<rparr>)))"

text \<open>
  The next step of the main thread. A thread inside \<open>Wait\<close> goes on once it has been woken.
\<close>

fun Test_main ::
    "(string, 'q) queue_class \<Rightarrow> nat \<Rightarrow> nat \<Rightarrow> bool \<Rightarrow> main_pc \<Rightarrow> 'q queue_test \<Rightarrow>
     'q queue_test res option" where
  "Test_main cls nTimes k created (MStart n) s =
     Some (if n < length (t_vThread s) then Test_startNext created n s else Test_run nTimes s)"
| "Test_main cls nTimes k created (MWait False) s = Some (Inr (Test_wait (t_Latch s) s))"
| "Test_main cls nTimes k created (MWait True) s =
     (if 0 \<in> set (cv_Ready (m_Cond (t_Latch s)))
      then Some (Inr (Test_wait (t_Latch s\<lparr>m_Cond := cv_resume 0 (m_Cond (t_Latch s))\<rparr>) s)) else None)"
| "Test_main cls nTimes k created (MPut j False) s =
     Some (if j < nTimes + length (t_vThread s) then Test_put cls nTimes k j (t_Queue s) s
           else Inr (s\<lparr>t_main := MJoin 0\<rparr>))"
| "Test_main cls nTimes k created (MPut j True) s =
     (if 0 \<in> set (cv_Ready (qc_putters cls (t_Queue s)))
      then Some (Test_put cls nTimes k j (qc_on_putters cls (cv_resume 0) (t_Queue s)) s) else None)"
| "Test_main cls nTimes k created (MJoin n) s =
     (if n < length (t_vThread s) then Test_join n s else Some (Inr (s\<lparr>t_main := MDone\<rparr>)))"
| "Test_main cls nTimes k created MDone s = None"

text \<open>One round of \<open>threadFunc\<close>'s loop.\<close>

definition Test_round ::
    "(string, 'q) queue_class \<Rightarrow> nat \<Rightarrow> nat \<Rightarrow> 'q \<Rightarrow> 'q queue_test \<Rightarrow> 'q queue_test res" where
  "Test_round cls k i q s =
     rbind (qc_Take cls k (Suc i) q) (\<lambda>(r, q1).
       Inr (case r of
              None \<Rightarrow> s\<lparr>t_Queue := q1, t_pc := (t_pc s)[i := WBlocked]\<rparr>
            | Some str \<Rightarrow>
                (let bRunning = (str \<noteq> ''stop'')
                 in s\<lparr>t_Queue := q1, t_Got := t_Got s @ [(i, str)],
                      t_pc := (t_pc s)[i := if bRunning then WTaking else WEnded]\<rparr>)))"

text \<open>The next step of the thread at place \<open>i\<close>.\<close>

fun Test_threadFunc ::
    "(string, 'q) queue_class \<Rightarrow> nat \<Rightarrow> nat \<Rightarrow> worker_pc \<Rightarrow> 'q queue_test \<Rightarrow> 'q queue_test res option" where
  "Test_threadFunc cls k i WStarted s =
     Some (Inr (s\<lparr>t_Latch := CountDownLatch_CountDown (t_Latch s), t_pc := (t_pc s)[i := WTaking]\<rparr>))"
| "Test_threadFunc cls k i WTaking s = Some (Test_round cls k i (t_Queue s) s)"
| "Test_threadFunc cls k i WBlocked s =
     (if Suc i \<in> set (cv_Ready (qc_takers cls (t_Queue s)))
      then Some (Test_round cls k i (qc_on_takers cls (cv_resume (Suc i)) (t_Queue s)) s) else None)"
| "Test_threadFunc cls k i WEnded s = None"

inductive test_move :: "(string, 'q) queue_class \<Rightarrow> nat \<Rightarrow> 'q queue_test \<Rightarrow> 'q queue_test \<Rightarrow> bool"
  for cls :: "(string, 'q) queue_class" and nTimes :: nat where
  test_main: "Test_main cls nTimes k created (t_main s) s = Some (Inr t) \<Longrightarrow> test_move cls nTimes s t"
| test_worker: "i < length (t_pc s) \<Longrightarrow> Test_threadFunc cls k i (t_pc s ! i) s = Some (Inr t) \<Longrightarrow>
     test_move cls nTimes s t"

text \<open>A wake-up without a notification, on any of the conditions.\<close>

inductive test_wake :: "(string, 'q) queue_class \<Rightarrow> 'q queue_test \<Rightarrow> 'q queue_test \<Rightarrow> bool"
  for cls :: "(string, 'q) queue_class" where
  wake_latch: "test_wake cls s
     (s\<lparr>t_Latch := t_Latch s\<lparr>m_Cond := cv_unblock tid (m_Cond (t_Latch s))\<rparr>\<rparr>)"
| wake_putter: "test_wake cls s (s\<lparr>t_Queue := qc_on_putters cls (cv_unblock tid) (t_Queue s)\<rparr>)"
| wake_taker: "test_wake cls s (s\<lparr>t_Queue := qc_on_takers cls (cv_unblock tid) (t_Queue s)\<rparr>)"

definition test_any :: "(string, 'q) queue_class \<Rightarrow> nat \<Rightarrow> 'q queue_test \<Rightarrow> 'q queue_test \<Rightarrow> bool" where
  "test_any cls nTimes s t \<longleftrightarrow> test_move cls nTimes s t \<or> test_wake cls s t"

definition test_start :: "'q \<Rightarrow> nat \<Rightarrow> 'q queue_test \<Rightarrow> bool" where
  "test_start q nNumThreads s \<longleftrightarrow> (\<exists>w. s = Test_new q nNumThreads w)"

section \<open>Conditions\<close>

text \<open>The condition of a thread \<open>0\<close> that is alone on it: when it is blocked, \<open>P\<close> is why.\<close>

definition lone :: "condition \<Rightarrow> bool \<Rightarrow> bool \<Rightarrow> bool" where
  "lone c b P \<longleftrightarrow>
     (if b then c = \<lparr>cv_Waiting = [0], cv_Ready = []\<rparr> \<and> P \<or> c = \<lparr>cv_Waiting = [], cv_Ready = [0]\<rparr>
      else c = Condition_new)"

lemma lone_not [simp]: "lone c False P \<longleftrightarrow> c = Condition_new"
  by (simp add: lone_def)

lemma lone_sleep [simp]: "lone (cv_sleep 0 Condition_new) True P \<longleftrightarrow> P"
  by (simp add: lone_def cv_sleep_def Condition_new_def)

lemma lone_resume: "lone c b P \<Longrightarrow> 0 \<in> set (cv_Ready c) \<Longrightarrow> cv_resume 0 c = Condition_new"
  by (auto simp: lone_def cv_resume_def Condition_new_def split: if_splits)

lemma lone_blocked: "lone c True P \<Longrightarrow> 0 \<notin> set (cv_Ready c) \<Longrightarrow> P"
  by (auto simp: lone_def)

lemma lone_Notify: "lone c b P \<Longrightarrow> lone (Condition_Notify k c) b Q"
  by (auto simp: lone_def Condition_Notify_def cv_unblock_def Condition_new_def split: if_splits)

lemma lone_NotifyAll: "lone c b P \<Longrightarrow> lone (Condition_NotifyAll c) b Q"
  by (auto simp: lone_def Condition_NotifyAll_def Condition_new_def split: if_splits)

lemma lone_unblock: "lone c b P \<Longrightarrow> lone (cv_unblock t c) b P"
  by (auto simp: lone_def cv_unblock_def Condition_new_def split: if_splits)

lemma lone_mono: "lone c b P \<Longrightarrow> (P \<Longrightarrow> Q) \<Longrightarrow> lone c b Q"
  by (auto simp: lone_def split: if_splits)

lemma resume_new [simp]: "cv_resume t Condition_new = Condition_new"
  by (simp add: cv_resume_def Condition_new_def)

lemma unblock_new [simp]: "cv_unblock t Condition_new = Condition_new"
  by (simp add: cv_unblock_def Condition_new_def)

lemma Notify_new [simp]: "Condition_Notify k Condition_new = Condition_new"
  by (simp add: Condition_Notify_def Condition_new_def)

text \<open>The threads of a condition are those of \<open>A\<close>, each once.\<close>

definition holds :: "condition \<Rightarrow> nat set \<Rightarrow> bool" where
  "holds c A \<longleftrightarrow> distinct (cv_Waiting c @ cv_Ready c) \<and> set (cv_Waiting c @ cv_Ready c) = A"

lemma holds_sleep: "holds c A \<Longrightarrow> t \<notin> A \<Longrightarrow> holds (cv_sleep t c) (insert t A)"
  by (auto simp: holds_def cv_sleep_def)

lemma holds_resume: "holds c A \<Longrightarrow> t \<in> set (cv_Ready c) \<Longrightarrow> holds (cv_resume t c) (A - {t})"
  by (auto simp: holds_def cv_resume_def)

lemma holds_unblock: "holds c A \<Longrightarrow> holds (cv_unblock t c) A"
  by (auto simp: holds_def cv_unblock_def)

lemma holds_Notify: "holds c A \<Longrightarrow> holds (Condition_Notify k c) A"
  by (auto simp: Condition_Notify_def intro: holds_unblock)

section \<open>What the program keeps\<close>

lemma length_filter_update:
  "i < length xs \<Longrightarrow>
   length (filter P (xs[i := y])) + (if P (xs ! i) then 1 else 0) =
     length (filter P xs) + (if P y then 1 else 0)"
proof (induction xs arbitrary: i)
  case (Cons x xs)
  then show ?case by (cases i) auto
qed simp

definition blocked_in :: "worker_pc list \<Rightarrow> nat set" where
  "blocked_in pcs = Suc ` {i. i < length pcs \<and> pcs ! i = WBlocked}"

definition counted :: "worker_pc list \<Rightarrow> nat" where
  "counted pcs = length (filter (\<lambda>p. p \<noteq> WStarted) pcs)"

definition ended :: "worker_pc list \<Rightarrow> nat" where
  "ended pcs = length (filter (\<lambda>p. p = WEnded) pcs)"

lemma blocked_in_new [simp]: "blocked_in [] = {}" "blocked_in (pcs @ [WStarted]) = blocked_in pcs"
  by (auto simp: blocked_in_def nth_append less_Suc_eq)

lemma blocked_in_update:
  "i < length pcs \<Longrightarrow> blocked_in (pcs[i := p]) =
     (if p = WBlocked then insert (Suc i) (blocked_in pcs) else blocked_in pcs - {Suc i})"
  by (auto simp: blocked_in_def nth_list_update split: if_splits)

lemma blocked_in_iff [simp]: "Suc i \<in> blocked_in pcs \<longleftrightarrow> i < length pcs \<and> pcs ! i = WBlocked"
  by (auto simp: blocked_in_def)

lemma counted_new [simp]: "counted [] = 0" "counted (pcs @ [WStarted]) = counted pcs"
  by (simp_all add: counted_def)

lemma ended_new [simp]: "ended [] = 0" "ended (pcs @ [WStarted]) = ended pcs"
  by (simp_all add: ended_def)

lemma counted_update:
  assumes "i < length pcs" and "p \<noteq> WStarted"
  shows "counted (pcs[i := p]) = (if pcs ! i = WStarted then Suc (counted pcs) else counted pcs)"
  using length_filter_update [OF assms(1), of "\<lambda>p. p \<noteq> WStarted" p] assms(2)
  by (auto simp: counted_def)

lemma ended_update:
  assumes "i < length pcs" and "pcs ! i \<noteq> WEnded"
  shows "ended (pcs[i := p]) = (if p = WEnded then Suc (ended pcs) else ended pcs)"
  using length_filter_update [OF assms(1), of "\<lambda>p. p = WEnded" p] assms(2)
  by (auto simp: ended_def)

lemma counted_le: "counted pcs \<le> length pcs"
  by (simp add: counted_def)

lemma filter_all: "length (filter P xs) = length xs \<Longrightarrow> x \<in> set xs \<Longrightarrow> P x"
  by (metis filter_id_conv length_filter_less less_irrefl)

lemma counted_all: "counted pcs = length pcs \<Longrightarrow> i < length pcs \<Longrightarrow> pcs ! i \<noteq> WStarted"
  unfolding counted_def by (erule filter_all) simp

lemma not_ended: "ended pcs < length pcs \<Longrightarrow> \<exists>i < length pcs. pcs ! i \<noteq> WEnded"
  by (metis (mono_tags, lifting) ended_def filter_True in_set_conv_nth less_irrefl)

lemma not_counted: "counted pcs < length pcs \<Longrightarrow> \<exists>i < length pcs. pcs ! i = WStarted"
  by (metis (mono_tags, lifting) counted_def filter_True in_set_conv_nth less_irrefl)

lemma ended_less: "i < length pcs \<Longrightarrow> pcs ! i \<noteq> WEnded \<Longrightarrow> ended pcs < length pcs"
  by (auto simp: ended_def intro!: length_filter_less)

text \<open>The texts a thread has taken; \<open>stop\<close> is the last one of a thread that has ended.\<close>

definition got_by :: "nat \<Rightarrow> (nat \<times> string) list \<Rightarrow> string list" where
  "got_by i got = map snd (filter (\<lambda>p. fst p = i) got)"

definition stops_last :: "worker_pc list \<Rightarrow> (nat \<times> string) list \<Rightarrow> bool" where
  "stops_last pcs got \<longleftrightarrow> (\<forall>p \<in> set got. fst p < length pcs) \<and>
     (\<forall>i < length pcs. if pcs ! i = WEnded
        then \<exists>xs. got_by i got = xs @ [''stop''] \<and> ''stop'' \<notin> set xs else ''stop'' \<notin> set (got_by i got))"

lemma got_by_snoc [simp]:
  "got_by i (got @ [(j, str)]) = (if i = j then got_by i got @ [str] else got_by i got)"
  by (simp add: got_by_def)

lemma stops_last_start: "stops_last pcs got \<Longrightarrow> stops_last (pcs @ [WStarted]) got"
proof -
  assume sl: "stops_last pcs got"
  then have "got_by (length pcs) got = []"
    by (auto simp: stops_last_def got_by_def filter_empty_conv)
  with sl show ?thesis by (auto simp: stops_last_def nth_append less_Suc_eq)
qed

lemma stops_last_same:
  "stops_last pcs got \<Longrightarrow> i < length pcs \<Longrightarrow> pcs ! i \<noteq> WEnded \<Longrightarrow> p \<noteq> WEnded \<Longrightarrow> stops_last (pcs[i := p]) got"
  by (auto simp: stops_last_def nth_list_update)

lemma stops_last_got:
  assumes "stops_last pcs got" and "i < length pcs" and "pcs ! i \<noteq> WEnded"
  shows "stops_last (pcs[i := if str \<noteq> ''stop'' then WTaking else WEnded]) (got @ [(i, str)])"
  using assms by (auto simp: stops_last_def nth_list_update)

text \<open>How far the main thread is: its calls of \<open>Put\<close> and of \<open>Join\<close> that have returned.\<close>

fun puts_done :: "nat \<Rightarrow> main_pc \<Rightarrow> nat" where
  "puts_done T (MPut j b) = j"
| "puts_done T (MJoin n) = T"
| "puts_done T MDone = T"
| "puts_done T _ = 0"

fun joins_done :: "nat \<Rightarrow> main_pc \<Rightarrow> nat" where
  "joins_done N (MJoin n) = n"
| "joins_done N MDone = N"
| "joins_done N _ = 0"

fun main_ok :: "nat \<Rightarrow> nat \<Rightarrow> main_pc \<Rightarrow> worker_pc list \<Rightarrow> bool" where
  "main_ok T N (MStart n) pcs \<longleftrightarrow> length pcs = n \<and> n \<le> N"
| "main_ok T N (MWait b) pcs \<longleftrightarrow> length pcs = N"
| "main_ok T N (MPut j b) pcs \<longleftrightarrow> length pcs = N \<and> counted pcs = N \<and> j \<le> T \<and> (b \<longrightarrow> j < T)"
| "main_ok T N (MJoin n) pcs \<longleftrightarrow>
     length pcs = N \<and> counted pcs = N \<and> n \<le> N \<and> (\<forall>i < n. pcs ! i = WEnded)"
| "main_ok T N MDone pcs \<longleftrightarrow> length pcs = N \<and> counted pcs = N \<and> (\<forall>i < N. pcs ! i = WEnded)"

definition in_put :: "main_pc \<Rightarrow> bool" where
  "in_put m \<longleftrightarrow> (\<exists>j. m = MPut j True)"

lemma in_put_simps [simp]:
  "in_put (MPut j b) \<longleftrightarrow> b" "\<not> in_put (MStart n)" "\<not> in_put (MWait b)" "\<not> in_put (MJoin n)"
  "\<not> in_put MDone"
  by (simp_all add: in_put_def)

definition threads_ok :: "thread_obj list \<Rightarrow> nat \<Rightarrow> nat \<Rightarrow> bool" where
  "threads_ok ts started joined \<longleftrightarrow> (\<forall>i < length ts.
     m_bStarted (ts ! i) = (i < started) \<and> m_bJoined (ts ! i) = (i < joined) \<and>
     (i < started \<longrightarrow> m_threadId (ts ! i) = Suc i))"

definition latch_ok :: "nat \<Rightarrow> main_pc \<Rightarrow> worker_pc list \<Rightarrow> latch \<Rightarrow> bool" where
  "latch_ok N m pcs l \<longleftrightarrow> m_nCnt l = int N - int (counted pcs) \<and>
     lone (m_Cond l) (m = MWait True) (0 < m_nCnt l)"

definition texts_ok :: "nat \<Rightarrow> nat \<Rightarrow> main_pc \<Rightarrow> worker_pc list \<Rightarrow> string list \<Rightarrow> (nat \<times> string) list \<Rightarrow> bool" where
  "texts_ok nTimes N m pcs xs got \<longleftrightarrow>
     map snd got @ xs = map (test_text nTimes) [0..<puts_done (nTimes + N) m] \<and>
     count_list (map snd got) ''stop'' = ended pcs \<and> stops_last pcs got"

lemma main_ok_update:
  "main_ok T N m pcs \<Longrightarrow> i < length pcs \<Longrightarrow> pcs ! i \<noteq> WEnded \<Longrightarrow> p \<noteq> WStarted \<Longrightarrow> main_ok T N m (pcs[i := p])"
  using counted_le [of pcs] by (cases m) (auto simp: counted_update counted_all nth_list_update)

section \<open>What the program asks of a queue\<close>

text \<open>
  A queue in a good state puts when there is room for another element and blocks the caller when
  there is none, takes the first element and blocks the caller when there is none, and notifies
  the other side of what it did; a thread that is woken changes nothing but its condition.
\<close>

definition cond_change :: "(condition \<Rightarrow> condition) \<Rightarrow> bool" where
  "cond_change f \<longleftrightarrow> (\<exists>t. f = cv_resume t \<or> f = cv_unblock t)"

lemma cond_change_simps [simp]: "cond_change (cv_resume t)" "cond_change (cv_unblock t)"
  by (auto simp: cond_change_def)

locale thread_queue =
  fixes cls :: "('m, 'q) queue_class" and items :: "'q \<Rightarrow> 'm list" and good :: "'q \<Rightarrow> bool"
    and room :: "'m list \<Rightarrow> bool"
  assumes room_empty: "room []"
    and put_room: "good q \<Longrightarrow> room (items q) \<Longrightarrow> \<exists>q'. qc_Put cls k t x q = Inr (True, q') \<and> good q' \<and>
      items q' = items q @ [x] \<and> qc_putters cls q' = qc_putters cls q \<and>
      qc_takers cls q' = Condition_Notify k (qc_takers cls q)"
    and put_full: "good q \<Longrightarrow> \<not> room (items q) \<Longrightarrow> \<exists>q'. qc_Put cls k t x q = Inr (False, q') \<and> good q' \<and>
      items q' = items q \<and> qc_putters cls q' = cv_sleep t (qc_putters cls q) \<and>
      qc_takers cls q' = qc_takers cls q"
    and take_some: "good q \<Longrightarrow> items q = x # xs \<Longrightarrow> \<exists>q'. qc_Take cls k t q = Inr (Some x, q') \<and> good q' \<and>
      items q' = xs \<and> qc_putters cls q' = Condition_Notify k (qc_putters cls q) \<and>
      qc_takers cls q' = qc_takers cls q"
    and take_none: "good q \<Longrightarrow> items q = [] \<Longrightarrow> \<exists>q'. qc_Take cls k t q = Inr (None, q') \<and> good q' \<and>
      items q' = [] \<and> qc_putters cls q' = qc_putters cls q \<and>
      qc_takers cls q' = cv_sleep t (qc_takers cls q)"
    and on_putters: "good q \<Longrightarrow> cond_change f \<Longrightarrow> good (qc_on_putters cls f q) \<and>
      items (qc_on_putters cls f q) = items q \<and>
      qc_putters cls (qc_on_putters cls f q) = f (qc_putters cls q) \<and>
      qc_takers cls (qc_on_putters cls f q) = qc_takers cls q"
    and on_takers: "good q \<Longrightarrow> cond_change f \<Longrightarrow> good (qc_on_takers cls f q) \<and>
      items (qc_on_takers cls f q) = items q \<and>
      qc_putters cls (qc_on_takers cls f q) = qc_putters cls q \<and>
      qc_takers cls (qc_on_takers cls f q) = f (qc_takers cls q)"
begin

lemma qc_on_simps [simp]:
  assumes "good q" and "cond_change f"
  shows "good (qc_on_putters cls f q)" "items (qc_on_putters cls f q) = items q"
    "qc_putters cls (qc_on_putters cls f q) = f (qc_putters cls q)"
    "qc_takers cls (qc_on_putters cls f q) = qc_takers cls q"
    "good (qc_on_takers cls f q)" "items (qc_on_takers cls f q) = items q"
    "qc_putters cls (qc_on_takers cls f q) = qc_putters cls q"
    "qc_takers cls (qc_on_takers cls f q) = f (qc_takers cls q)"
  using on_putters [OF assms] on_takers [OF assms] by blast+

end

interpretation unbounded_tests: thread_queue unbounded_class m_Queue "\<lambda>q. True" "\<lambda>xs. True"
  by unfold_locales
     (auto simp: unbounded_class_def BlockingQueue_Put_def BlockingQueue_Take_def Let_def cond_change_def)

definition bounded_good :: "nat \<Rightarrow> 'm bounded_queue \<Rightarrow> bool" where
  "bounded_good n q \<longleftrightarrow> b_Capacity q = n \<and> length (b_Queue q) \<le> n"

interpretation bounded_tests: thread_queue bounded_class b_Queue "bounded_good (Suc c)"
    "\<lambda>xs. length xs < Suc c" for c :: nat
  by unfold_locales
     (auto simp: bounded_class_def bounded_good_def BoundedBlockingQueue_Put_def Let_def
        BoundedBlockingQueue_Take_def BoundedBlockingQueue_Full_def circular_push_def)

section \<open>The invariant and the measure\<close>

definition queue_ok ::
    "('m, 'q) queue_class \<Rightarrow> ('q \<Rightarrow> 'm list) \<Rightarrow> ('q \<Rightarrow> bool) \<Rightarrow> ('m list \<Rightarrow> bool) \<Rightarrow> main_pc \<Rightarrow> worker_pc list \<Rightarrow>
     'q \<Rightarrow> bool" where
  "queue_ok cls items good room m pcs q \<longleftrightarrow>
     good q \<and> lone (qc_putters cls q) (in_put m) (\<not> room (items q)) \<and>
     holds (qc_takers cls q) (blocked_in pcs) \<and> served (qc_takers cls q) (length (items q))"

definition test_inv ::
    "(string, 'q) queue_class \<Rightarrow> ('q \<Rightarrow> string list) \<Rightarrow> ('q \<Rightarrow> bool) \<Rightarrow> (string list \<Rightarrow> bool) \<Rightarrow> nat \<Rightarrow> nat \<Rightarrow>
     'q queue_test \<Rightarrow> bool" where
  "test_inv cls items good room nTimes N s \<longleftrightarrow>
     length (t_vThread s) = N \<and> queue_ok cls items good room (t_main s) (t_pc s) (t_Queue s) \<and>
     latch_ok N (t_main s) (t_pc s) (t_Latch s) \<and> main_ok (nTimes + N) N (t_main s) (t_pc s) \<and>
     threads_ok (t_vThread s) (length (t_pc s)) (joins_done N (t_main s)) \<and>
     texts_ok nTimes N (t_main s) (t_pc s) (items (t_Queue s)) (t_Got s)"

text \<open>
  What is still to be done. Each thread that has been notified and not yet returned from \<open>Wait\<close>
  counts, so a round in which \<open>Wait\<close> returns in vain makes the sum smaller, too.
\<close>

definition ready :: "condition \<Rightarrow> nat" where
  "ready c = length (cv_Ready c)"

definition queue_weight :: "('m, 'q) queue_class \<Rightarrow> ('q \<Rightarrow> 'm list) \<Rightarrow> 'q \<Rightarrow> nat" where
  "queue_weight cls items q = 3 * length (items q) + ready (qc_takers cls q) + ready (qc_putters cls q)"

fun main_weight :: "nat \<Rightarrow> nat \<Rightarrow> main_pc \<Rightarrow> nat" where
  "main_weight T N (MStart n) = 6 * T + N + 6 + 6 * (N - n)"
| "main_weight T N (MWait b) = 6 * T + N + 4 + (if b then 0 else 1)"
| "main_weight T N (MPut j b) = 6 * (T - j) + N + 2 + (if b then 0 else 1)"
| "main_weight T N (MJoin n) = 1 + (N - n)"
| "main_weight T N MDone = 0"

fun worker_weight :: "worker_pc \<Rightarrow> nat" where
  "worker_weight WStarted = 4"
| "worker_weight WTaking = 1"
| "worker_weight WBlocked = 0"
| "worker_weight WEnded = 0"

definition workers_weight :: "worker_pc list \<Rightarrow> nat" where
  "workers_weight pcs = sum_list (map worker_weight pcs)"

definition test_weight :: "(string, 'q) queue_class \<Rightarrow> ('q \<Rightarrow> string list) \<Rightarrow> nat \<Rightarrow> nat \<Rightarrow> 'q queue_test \<Rightarrow> nat" where
  "test_weight cls items nTimes N s =
     main_weight (nTimes + N) N (t_main s) + workers_weight (t_pc s) +
     queue_weight cls items (t_Queue s) + ready (m_Cond (t_Latch s))"

lemma workers_weight_new [simp]: "workers_weight (pcs @ [p]) = workers_weight pcs + worker_weight p"
  by (simp add: workers_weight_def)

lemma workers_weight_update:
  "i < length pcs \<Longrightarrow>
   workers_weight (pcs[i := p]) + worker_weight (pcs ! i) = workers_weight pcs + worker_weight p"
proof (induction pcs arbitrary: i)
  case (Cons x xs)
  show ?case
  proof (cases i)
    case (Suc n)
    with Cons.IH [of n] Cons.prems show ?thesis by (simp add: workers_weight_def)
  qed (simp add: workers_weight_def)
qed simp

lemma ready_Notify: "ready (Condition_Notify k c) \<le> Suc (ready c)"
  by (simp add: ready_def length_Notify)

lemma ready_NotifyAll: "lone c b P \<Longrightarrow> ready (Condition_NotifyAll c) \<le> Suc (ready c)"
  by (auto simp: lone_def ready_def Condition_NotifyAll_def Condition_new_def split: if_splits)

lemma ready_resume: "t \<in> set (cv_Ready c) \<Longrightarrow> Suc (ready (cv_resume t c)) = ready c"
  by (auto simp: ready_def cv_resume_def length_remove1 dest: length_pos_if_in_set)

lemma ready_sleep [simp]: "ready (cv_sleep t c) = ready c"
  by (simp add: ready_def cv_sleep_def)

lemma ready_new [simp]: "ready Condition_new = 0"
  by (simp add: ready_def Condition_new_def)

text \<open>A result that keeps the invariant and leaves less to be done; a fault only in \<open>F\<close>.\<close>

definition test_progress ::
    "(string, 'q) queue_class \<Rightarrow> ('q \<Rightarrow> string list) \<Rightarrow> ('q \<Rightarrow> bool) \<Rightarrow> (string list \<Rightarrow> bool) \<Rightarrow> nat \<Rightarrow> nat \<Rightarrow>
     fault set \<Rightarrow> 'q queue_test \<Rightarrow> 'q queue_test res \<Rightarrow> bool" where
  "test_progress cls items good room nTimes N F s r \<longleftrightarrow>
     ensures F (\<lambda>t. test_inv cls items good room nTimes N t \<and>
       test_weight cls items nTimes N t < test_weight cls items nTimes N s) r"

context thread_queue
begin

lemma put_ok:
  assumes "good q" and "qc_putters cls q = Condition_new"
    and "holds (qc_takers cls q) (blocked_in pcs)" and "served (qc_takers cls q) (length (items q))"
  shows "\<exists>ok q'. qc_Put cls k 0 x q = Inr (ok, q') \<and>
    queue_ok cls items good room (if ok then MPut (Suc j) False else MPut j True) pcs q' \<and>
    items q' = items q @ (if ok then [x] else []) \<and>
    queue_weight cls items q' \<le> queue_weight cls items q + (if ok then 4 else 0)"
proof (cases "room (items q)")
  case True
  from put_room [OF assms(1) True, of k 0 x] obtain q' where q: "qc_Put cls k 0 x q = Inr (True, q')"
    "good q'" "items q' = items q @ [x]" "qc_putters cls q' = qc_putters cls q"
    "qc_takers cls q' = Condition_Notify k (qc_takers cls q)" by blast
  with assms have "queue_ok cls items good room (MPut (Suc j) False) pcs q'"
    by (simp add: queue_ok_def holds_Notify served_notify)
  moreover have "queue_weight cls items q' \<le> queue_weight cls items q + 4"
    using q ready_Notify [of k "qc_takers cls q"] by (simp add: queue_weight_def)
  ultimately show ?thesis using q by (intro exI [of _ True] exI [of _ q']) simp
next
  case False
  from put_full [OF assms(1) False, of k 0 x] obtain q' where q: "qc_Put cls k 0 x q = Inr (False, q')"
    "good q'" "items q' = items q" "qc_putters cls q' = cv_sleep 0 (qc_putters cls q)"
    "qc_takers cls q' = qc_takers cls q" by blast
  with assms False have "queue_ok cls items good room (MPut j True) pcs q'"
    by (simp add: queue_ok_def)
  then show ?thesis using q by (intro exI [of _ False] exI [of _ q']) (simp add: queue_weight_def)
qed

lemma take_ok:
  assumes "good q" and "lone (qc_putters cls q) (in_put m) (\<not> room (items q))"
    and "holds (qc_takers cls q) (blocked_in pcs - {Suc i})"
    and "served (qc_takers cls q) (length (items q) - 1)" and "i < length pcs"
  shows "\<exists>r q'. qc_Take cls k (Suc i) q = Inr (r, q') \<and>
    items q = (case r of None \<Rightarrow> [] | Some x \<Rightarrow> [x]) @ items q' \<and>
    (\<forall>p. (r = None \<longleftrightarrow> p = WBlocked) \<longrightarrow> queue_ok cls items good room m (pcs[i := p]) q') \<and>
    queue_weight cls items q' + (if r = None then 0 else 2) \<le> queue_weight cls items q"
proof (cases "items q")
  case Nil
  from take_none [OF assms(1) Nil, of k "Suc i"] obtain q' where q: "qc_Take cls k (Suc i) q = Inr (None, q')"
    "good q'" "items q' = []" "qc_putters cls q' = qc_putters cls q"
    "qc_takers cls q' = cv_sleep (Suc i) (qc_takers cls q)" by blast
  have "holds (cv_sleep (Suc i) (qc_takers cls q)) (insert (Suc i) (blocked_in pcs - {Suc i}))"
    using assms(3) by (intro holds_sleep) simp_all
  with q assms(2,5) Nil have "queue_ok cls items good room m (pcs[i := WBlocked]) q'"
    by (simp add: queue_ok_def blocked_in_update served_sleep)
  then show ?thesis using q Nil
    by (intro exI [of _ None] exI [of _ q']) (simp add: queue_weight_def)
next
  case (Cons x xs)
  from take_some [OF assms(1) Cons, of k "Suc i"] obtain q' where q: "qc_Take cls k (Suc i) q = Inr (Some x, q')"
    "good q'" "items q' = xs" "qc_putters cls q' = Condition_Notify k (qc_putters cls q)"
    "qc_takers cls q' = qc_takers cls q" by blast
  have "queue_ok cls items good room m (pcs[i := p]) q'" if "p \<noteq> WBlocked" for p
    using q assms that Cons by (auto simp: queue_ok_def blocked_in_update intro: lone_Notify)
  moreover have "queue_weight cls items q' + 2 \<le> queue_weight cls items q"
    using q Cons ready_Notify [of k "qc_putters cls q"] by (simp add: queue_weight_def)
  ultimately show ?thesis using q Cons by (intro exI [of _ "Some x"] exI [of _ q']) auto
qed

end

section \<open>Every step keeps the invariant and gets closer to the end\<close>

lemma test_text_stop [simp]: "test_text nTimes j = ''stop'' \<longleftrightarrow> nTimes \<le> j"
  by (simp add: test_text_def test_hello_def snprintf_def)

lemma texts_ok_main:
  "texts_ok nTimes N m pcs xs got \<Longrightarrow> puts_done (nTimes + N) m = puts_done (nTimes + N) m' \<Longrightarrow>
   texts_ok nTimes N m' pcs xs got"
  by (simp add: texts_ok_def)

lemma texts_ok_put:
  "texts_ok nTimes N (MPut j b) pcs xs got \<Longrightarrow>
   texts_ok nTimes N (MPut (Suc j) False) pcs (xs @ [test_text nTimes j]) got"
  by (simp flip: append_assoc add: texts_ok_def)

lemma texts_ok_got:
  assumes "texts_ok nTimes N m pcs (str # xs) got" and "i < length pcs" and "pcs ! i \<noteq> WEnded"
  shows "texts_ok nTimes N m (pcs[i := if str \<noteq> ''stop'' then WTaking else WEnded]) xs (got @ [(i, str)])"
  using assms stops_last_got [OF _ assms(2,3), of got str] by (simp add: texts_ok_def ended_update)

lemma texts_ok_same:
  "texts_ok nTimes N m pcs xs got \<Longrightarrow> i < length pcs \<Longrightarrow> pcs ! i \<noteq> WEnded \<Longrightarrow> p \<noteq> WEnded \<Longrightarrow>
   texts_ok nTimes N m (pcs[i := p]) xs got"
  by (simp add: texts_ok_def ended_update stops_last_same)

lemma latch_ok_update:
  "latch_ok N m pcs l \<Longrightarrow> i < length pcs \<Longrightarrow> pcs ! i \<noteq> WStarted \<Longrightarrow> p \<noteq> WStarted \<Longrightarrow> latch_ok N m (pcs[i := p]) l"
  by (auto simp: latch_ok_def counted_update elim: lone_mono)

lemma CountDown_ok:
  assumes "latch_ok N m pcs l" and "i < length pcs" and "pcs ! i = WStarted"
  shows "latch_ok N m (pcs[i := WTaking]) (CountDownLatch_CountDown l) \<and>
    ready (m_Cond (CountDownLatch_CountDown l)) \<le> Suc (ready (m_Cond l))"
proof (cases "m_nCnt l = 1")
  case True
  with assms ready_NotifyAll [of "m_Cond l" "m = MWait True" "0 < m_nCnt l"] show ?thesis
    by (auto simp: latch_ok_def CountDownLatch_CountDown_def Let_def counted_update intro: lone_NotifyAll)
next
  case False
  with assms show ?thesis
    by (auto simp: latch_ok_def CountDownLatch_CountDown_def Let_def counted_update elim!: lone_mono)
qed

lemma count_texts: "count_list (map (test_text nTimes) [0..<j]) ''stop'' = j - nTimes"
  by (induction j) auto

lemma texts_split: "map (test_text nTimes) [0..<nTimes + N] = map test_hello [0..<nTimes] @ replicate N ''stop''"
  by (induction N) (auto simp: test_text_def replicate_append_same)

locale queue_program = thread_queue cls items good room
  for cls :: "(string, 'q) queue_class" and items :: "'q \<Rightarrow> string list" and good :: "'q \<Rightarrow> bool"
    and room :: "string list \<Rightarrow> bool" +
  fixes q0 :: 'q
  assumes start_good: "good q0" and start_empty: "items q0 = []"
    and start_conditions: "qc_putters cls q0 = Condition_new" "qc_takers cls q0 = Condition_new"
begin

abbreviation inv :: "nat \<Rightarrow> nat \<Rightarrow> 'q queue_test \<Rightarrow> bool" where
  "inv nTimes N \<equiv> test_inv cls items good room nTimes N"

abbreviation progress :: "nat \<Rightarrow> nat \<Rightarrow> fault set \<Rightarrow> 'q queue_test \<Rightarrow> 'q queue_test res \<Rightarrow> bool" where
  "progress nTimes N \<equiv> test_progress cls items good room nTimes N"

lemma round_ok:
  assumes inv: "inv nTimes N s" and i: "i < length (t_pc s)" "t_pc s ! i \<in> {WTaking, WBlocked}"
    and q: "good q" "items q = items (t_Queue s)"
      "lone (qc_putters cls q) (in_put (t_main s)) (\<not> room (items q))"
      "holds (qc_takers cls q) (blocked_in (t_pc s) - {Suc i})"
      "served (qc_takers cls q) (length (items q) - 1)"
    and w: "queue_weight cls items q + (if t_pc s ! i = WBlocked then 1 else 0) \<le> queue_weight cls items (t_Queue s)"
  shows "progress nTimes N {} s (Test_round cls k i q s)"
proof -
  from take_ok [OF q(1,3,4,5) i(1), of k] obtain r q'
    where r: "qc_Take cls k (Suc i) q = Inr (r, q')"
      "items q = (case r of None \<Rightarrow> [] | Some x \<Rightarrow> [x]) @ items q'"
      "\<And>p. (r = None \<longleftrightarrow> p = WBlocked) \<Longrightarrow> queue_ok cls items good room (t_main s) ((t_pc s)[i := p]) q'"
      "queue_weight cls items q' + (if r = None then 0 else 2) \<le> queue_weight cls items q"
    by blast
  have pc: "t_pc s ! i \<noteq> WEnded" "t_pc s ! i \<noteq> WStarted" using i(2) by auto
  let ?p = "case r of None \<Rightarrow> WBlocked | Some str \<Rightarrow> if str \<noteq> ''stop'' then WTaking else WEnded"
  have p: "r = None \<longleftrightarrow> ?p = WBlocked" "?p \<noteq> WStarted" by (auto split: option.splits)
  have texts: "texts_ok nTimes N (t_main s) ((t_pc s)[i := ?p]) (items q')
      (t_Got s @ (case r of None \<Rightarrow> [] | Some str \<Rightarrow> [(i, str)]))"
    using inv r(2) q(2) texts_ok_got [OF _ i(1) pc(1)] texts_ok_same [OF _ i(1) pc(1), of _ _ _ _ _ WBlocked]
    by (cases r) (auto simp: test_inv_def)
  have "workers_weight ((t_pc s)[i := ?p]) + worker_weight (t_pc s ! i) \<le>
      workers_weight (t_pc s) + (if r = None then 0 else 1)"
    using workers_weight_update [OF i(1), of ?p] by (auto split: option.splits)
  then have weight: "workers_weight ((t_pc s)[i := ?p]) + queue_weight cls items q' <
      workers_weight (t_pc s) + queue_weight cls items (t_Queue s)"
    using r(4) w i(2) by (auto split: if_splits)
  let ?t = "s\<lparr>t_Queue := q', t_pc := (t_pc s)[i := ?p],
    t_Got := t_Got s @ (case r of None \<Rightarrow> [] | Some str \<Rightarrow> [(i, str)])\<rparr>"
  have "inv nTimes N ?t"
    using inv r(3) [OF p(1)] texts latch_ok_update [OF _ i(1) pc(2) p(2)]
      main_ok_update [OF _ i(1) pc(1) p(2)] by (simp add: test_inv_def)
  moreover have "test_weight cls items nTimes N ?t < test_weight cls items nTimes N s"
    using weight by (simp add: test_weight_def)
  moreover have "Test_round cls k i q s = Inr ?t"
    using r(1) by (cases r) (simp_all add: Test_round_def Let_def)
  ultimately show ?thesis by (simp only: test_progress_def ensures_simps simp_thms)
qed

lemma threadFunc_ok:
  assumes inv: "inv nTimes N s" and i: "i < length (t_pc s)"
    and "Test_threadFunc cls k i (t_pc s ! i) s = Some r"
  shows "progress nTimes N {} s r"
proof (cases "t_pc s ! i")
  case WStarted
  have "holds c (blocked_in ((t_pc s)[i := WTaking])) = holds c (blocked_in (t_pc s))" for c
    using i WStarted by (simp add: blocked_in_update)
  with CountDown_ok [OF _ i WStarted, of N "t_main s" "t_Latch s"] workers_weight_update [OF i, of WTaking]
    inv i WStarted assms(3) show ?thesis
    by (auto simp: test_progress_def test_inv_def test_weight_def queue_ok_def main_ok_update texts_ok_same)
next
  case WTaking
  with inv i assms(3) show ?thesis
    by (auto simp: test_inv_def queue_ok_def intro!: round_ok elim: served_less)
next
  case WBlocked
  let ?c = "qc_takers cls (t_Queue s)"
  from WBlocked assms(3) have rdy: "Suc i \<in> set (cv_Ready ?c)" by (simp split: if_splits)
  from inv have "served (cv_resume (Suc i) ?c) (length (items (t_Queue s)) - 1)"
    by (intro served_resume rdy) (simp add: test_inv_def queue_ok_def)
  with WBlocked inv i assms(3) ready_resume [OF rdy] rdy show ?thesis
    by (auto simp: test_inv_def queue_ok_def queue_weight_def intro!: round_ok holds_resume)
next
  case WEnded
  with assms(3) show ?thesis by simp
qed

lemma put_step_ok:
  assumes inv: "inv nTimes N s" and m: "t_main s = MPut j b" "j < nTimes + N"
    and q: "good q" "items q = items (t_Queue s)" "qc_putters cls q = Condition_new"
      "qc_takers cls q = qc_takers cls (t_Queue s)"
    and w: "queue_weight cls items q + (if b then 1 else 0) = queue_weight cls items (t_Queue s)"
  shows "progress nTimes N {} s (Test_put cls nTimes k j q s)"
proof -
  have "holds (qc_takers cls q) (blocked_in (t_pc s))" "served (qc_takers cls q) (length (items q))"
    using inv q by (simp_all add: test_inv_def queue_ok_def)
  from put_ok [OF q(1,3) this, of k "test_text nTimes j" j] obtain ok q'
    where r: "qc_Put cls k 0 (test_text nTimes j) q = Inr (ok, q')"
      "queue_ok cls items good room (if ok then MPut (Suc j) False else MPut j True) (t_pc s) q'"
      "items q' = items q @ (if ok then [test_text nTimes j] else [])"
      "queue_weight cls items q' \<le> queue_weight cls items q + (if ok then 4 else 0)" by blast
  let ?m = "if ok then MPut (Suc j) False else MPut j True"
  let ?t = "s\<lparr>t_Queue := q', t_main := ?m\<rparr>"
  have "texts_ok nTimes N ?m (t_pc s) (items q') (t_Got s)"
    using inv m r(3) q(2) texts_ok_put [of nTimes N j b] texts_ok_main [of nTimes N "MPut j b" _ _ _ "MPut j True"]
    by (auto simp: test_inv_def)
  then have "inv nTimes N ?t"
    using inv r(2) m by (auto simp: test_inv_def latch_ok_def)
  moreover have "test_weight cls items nTimes N ?t < test_weight cls items nTimes N s"
    using r(4) w m by (auto simp: test_weight_def split: if_splits)
  ultimately show ?thesis using r(1) by (simp add: test_progress_def Test_put_def)
qed

lemma startNext_ok:
  assumes inv: "inv nTimes N s" and m: "t_main s = MStart n" "n < N"
  shows "progress nTimes N (if created then {} else {Aborted}) s (Test_startNext created n s)"
proof (cases created)
  case True
  have n: "length (t_pc s) = n" "length (t_vThread s) = N"
    and th: "threads_ok (t_vThread s) n 0" using inv m by (auto simp: test_inv_def)
  let ?t = "(t_vThread s ! n)\<lparr>m_bStarted := True, m_threadId := Suc n\<rparr>"
  obtain w where w: "Thread_Start (Some (Suc n)) (t_vThread s ! n) (t_World s) = Inr (?t, w)"
    using th n m(2) by (simp add: Thread_Start_def threads_ok_def Let_def)
  have "threads_ok ((t_vThread s)[n := ?t]) (Suc n) 0"
    using th n m(2) by (auto simp: threads_ok_def nth_list_update less_Suc_eq)
  then show ?thesis
    using inv m w True n
    by (auto simp: test_progress_def Test_startNext_def test_inv_def test_weight_def latch_ok_def queue_ok_def
        texts_ok_def stops_last_start)
next
  case False
  have "\<not> m_bStarted (t_vThread s ! n)" using inv m by (simp add: test_inv_def threads_ok_def)
  with False show ?thesis by (simp add: test_progress_def Test_startNext_def Thread_Start_def Let_def)
qed

lemma wait_ok:
  assumes inv: "inv nTimes N s" and m: "t_main s = MWait b" and l: "m_Cond l = Condition_new"
      "m_nCnt l = m_nCnt (t_Latch s)"
    and w: "(if b then 1 else 0) \<le> ready (m_Cond (t_Latch s))"
  shows "progress nTimes N {} s (Inr (Test_wait l s))"
proof (cases "0 < m_nCnt l")
  case True
  have "inv nTimes N (Test_wait l s)"
    using inv m l True
    by (auto simp: test_inv_def Test_wait_def CountDownLatch_Wait_def latch_ok_def queue_ok_def texts_ok_def)
  with True m l w show ?thesis
    by (auto simp: test_progress_def test_weight_def Test_wait_def CountDownLatch_Wait_def split: if_splits)
next
  case False
  with inv m l(2) counted_le [of "t_pc s"] have "counted (t_pc s) = N"
    by (simp add: test_inv_def latch_ok_def)
  with inv m l False have "inv nTimes N (Test_wait l s)"
    by (auto simp: test_inv_def Test_wait_def CountDownLatch_Wait_def latch_ok_def queue_ok_def texts_ok_def)
  with False m l w show ?thesis
    by (auto simp: test_progress_def test_weight_def Test_wait_def CountDownLatch_Wait_def split: if_splits)
qed

lemma join_ok:
  assumes inv: "inv nTimes N s" and m: "t_main s = MJoin n" "n < N"
  shows "Test_join n s = None \<and> t_pc s ! n \<noteq> WEnded \<or>
    (\<exists>t. Test_join n s = Some (Inr t) \<and> progress nTimes N {} s (Inr t))"
proof -
  have n: "length (t_pc s) = N" "length (t_vThread s) = N"
    and th: "threads_ok (t_vThread s) N n" using inv m by (auto simp: test_inv_def)
  then have j: "Thread_Join (test_ended s) (t_vThread s ! n) =
      Inr (if t_pc s ! n = WEnded then Some ((t_vThread s ! n)\<lparr>m_bJoined := True\<rparr>) else None)"
    using m(2) by (simp add: Thread_Join_def threads_ok_def test_ended_def)
  let ?t = "s\<lparr>t_vThread := (t_vThread s)[n := (t_vThread s ! n)\<lparr>m_bJoined := True\<rparr>], t_main := MJoin (Suc n)\<rparr>"
  have "threads_ok ((t_vThread s)[n := (t_vThread s ! n)\<lparr>m_bJoined := True\<rparr>]) N (Suc n)"
    using th n m(2) by (auto simp: threads_ok_def nth_list_update less_Suc_eq)
  then have "progress nTimes N {} s (Inr ?t)" if "t_pc s ! n = WEnded"
    using inv m n that
    by (auto simp: test_progress_def test_inv_def test_weight_def latch_ok_def queue_ok_def texts_ok_def less_Suc_eq)
  with j show ?thesis by (simp add: Test_join_def)
qed

lemma main_ok_step:
  assumes inv: "inv nTimes N s" and "0 < nTimes" and r: "Test_main cls nTimes k created (t_main s) s = Some r"
  shows "progress nTimes N (if created then {} else {Aborted}) s r"
proof -
  have N: "length (t_vThread s) = N" using inv by (simp add: test_inv_def)
  have weaken: "progress nTimes N {} s r \<Longrightarrow> ?thesis" by (cases r) (auto simp: test_progress_def)
  show ?thesis
  proof (cases "t_main s")
    case (MStart n)
    show ?thesis
    proof (cases "n < N")
      case True
      with startNext_ok [OF inv MStart True, of created] r N MStart show ?thesis by simp
    next
      case False
      with inv MStart assms(2) N r show ?thesis
        by (intro weaken) (auto simp: test_progress_def Test_run_def test_inv_def test_weight_def latch_ok_def
            queue_ok_def texts_ok_def)
    qed
  next
    case (MWait b)
    have l: "lone (m_Cond (t_Latch s)) b (0 < m_nCnt (t_Latch s))"
      using inv MWait by (auto simp: test_inv_def latch_ok_def)
    show ?thesis
    proof (cases b)
      case True
      with r MWait have rdy: "0 \<in> set (cv_Ready (m_Cond (t_Latch s)))" by (simp split: if_splits)
      from wait_ok [OF inv MWait, of "t_Latch s\<lparr>m_Cond := cv_resume 0 (m_Cond (t_Latch s))\<rparr>"]
      show ?thesis using r MWait True rdy ready_resume [OF rdy] lone_resume [OF l rdy]
        by (intro weaken) auto
    next
      case False
      with wait_ok [OF inv MWait, of "t_Latch s"] r MWait l show ?thesis by (intro weaken) auto
    qed
  next
    case (MPut j b)
    have q: "good (t_Queue s)" "lone (qc_putters cls (t_Queue s)) b (\<not> room (items (t_Queue s)))"
      "b \<longrightarrow> j < nTimes + N" "j \<le> nTimes + N"
      using inv MPut by (auto simp: test_inv_def queue_ok_def)
    show ?thesis
    proof (cases b)
      case True
      with r MPut have rdy: "0 \<in> set (cv_Ready (qc_putters cls (t_Queue s)))" by (simp split: if_splits)
      from put_step_ok [OF inv MPut, of "qc_on_putters cls (cv_resume 0) (t_Queue s)"]
      show ?thesis using q r MPut True rdy ready_resume [OF rdy] lone_resume [OF q(2) rdy]
        by (intro weaken) (auto simp: queue_weight_def)
    next
      case False
      show ?thesis
      proof (cases "j < nTimes + N")
        case True
        with put_step_ok [OF inv MPut True q(1), of k] q(2) False MPut N r show ?thesis
          by (intro weaken) auto
      next
        case all: False
        with inv MPut False N r q show ?thesis
          by (intro weaken) (auto simp: test_progress_def test_inv_def test_weight_def latch_ok_def queue_ok_def
              texts_ok_def)
      qed
    qed
  next
    case (MJoin n)
    show ?thesis
    proof (cases "n < N")
      case True
      with join_ok [OF inv MJoin True] r N MJoin show ?thesis by (intro weaken) auto
    next
      case False
      with inv MJoin N r show ?thesis
        by (intro weaken) (auto simp: test_progress_def test_inv_def test_weight_def latch_ok_def queue_ok_def
            texts_ok_def)
    qed
  qed (use r in simp)
qed

lemma move_ok:
  assumes "test_move cls nTimes s t" and "inv nTimes N s" and "0 < nTimes"
  shows "inv nTimes N t \<and> test_weight cls items nTimes N t < test_weight cls items nTimes N s"
  using assms(1)
proof cases
  case (test_main k created)
  from main_ok_step [OF assms(2,3) this] show ?thesis by (simp add: test_progress_def)
next
  case (test_worker i k)
  from threadFunc_ok [OF assms(2) this] show ?thesis by (simp add: test_progress_def)
qed

lemma wake_ok: "test_wake cls s t \<Longrightarrow> inv nTimes N s \<Longrightarrow> inv nTimes N t"
  by (cases rule: test_wake.cases)
     (auto simp: test_inv_def queue_ok_def latch_ok_def lone_unblock holds_unblock served_unblock)

lemma start_ok:
  assumes "test_start q0 N s"
  shows "inv nTimes N s"
proof -
  have "length (fst (Test_threads n w)) = n \<and>
      (\<forall>t \<in> set (fst (Test_threads n w)). \<not> m_bStarted t \<and> \<not> m_bJoined t)" for n w
    by (induction n) (auto simp: Thread_new_def split_beta Let_def)
  from this [of N] have "length (fst (Test_threads N w)) = N"
    "i < N \<Longrightarrow> \<not> m_bStarted (fst (Test_threads N w) ! i) \<and> \<not> m_bJoined (fst (Test_threads N w) ! i)" for w i
    by (metis, metis nth_mem)
  then show ?thesis
    using assms start_good start_empty start_conditions
    by (auto simp: test_start_def Test_new_def split_beta Let_def test_inv_def queue_ok_def latch_ok_def
        CountDownLatch_new_def threads_ok_def texts_ok_def stops_last_def holds_def served_def Condition_new_def)
qed

lemma reach_inv:
  assumes "reach (test_start q0 N) (test_any cls nTimes) s" and "0 < nTimes"
  shows "inv nTimes N s"
  using assms(1)
proof (induction rule: reach.induct)
  case (reach_step s t)
  then show ?case using move_ok [OF _ _ assms(2)] wake_ok by (auto simp: test_any_def)
qed (rule start_ok)

text \<open>So no run goes on for ever without wake-ups that nobody sent.\<close>

lemma no_infinite_run:
  assumes "inv nTimes N s" and "0 < nTimes"
  shows "\<not> (\<exists>run. run 0 = s \<and> (\<forall>n. test_move cls nTimes (run n) (run (Suc n))))"
proof
  assume "\<exists>run. run 0 = s \<and> (\<forall>n. test_move cls nTimes (run n) (run (Suc n)))"
  then obtain run where run: "run 0 = s" "\<And>n. test_move cls nTimes (run n) (run (Suc n))" by blast
  have "inv nTimes N (run n)" for n
  proof (induction n)
    case (Suc n)
    with move_ok [OF run(2) Suc assms(2)] show ?case by blast
  qed (simp add: run(1) assms(1))
  then have "\<And>n. (run (Suc n), run n) \<in> measure (test_weight cls items nTimes N)"
    using move_ok run(2) assms(2) by auto
  then show False
    using wf_no_infinite_down_chainE [OF wf_measure] by metis
qed

text \<open>Nobody is blocked for ever: a thread that has not ended can go on while the queue has elements.\<close>

lemma worker_moves:
  assumes inv: "inv nTimes N s" and i: "i < length (t_pc s)"
    and pc: "t_pc s ! i \<in> {WStarted, WTaking} \<or>
      t_pc s ! i = WBlocked \<and> Suc i \<in> set (cv_Ready (qc_takers cls (t_Queue s)))"
  shows "\<exists>t. test_move cls nTimes s t"
proof -
  obtain r where r: "Test_threadFunc cls 0 i (t_pc s ! i) s = Some r" using pc by auto
  from threadFunc_ok [OF inv i r] obtain t where "r = Inr t"
    by (cases r) (auto simp: test_progress_def)
  with r i show ?thesis by (blast intro: test_worker)
qed

lemma taker_moves:
  assumes inv: "inv nTimes N s" and ne: "items (t_Queue s) \<noteq> []" and alive: "ended (t_pc s) < length (t_pc s)"
  shows "\<exists>t. test_move cls nTimes s t"
proof -
  let ?c = "qc_takers cls (t_Queue s)"
  have c: "holds ?c (blocked_in (t_pc s))" "served ?c (length (items (t_Queue s)))"
    using inv by (simp_all add: test_inv_def queue_ok_def)
  from not_ended [OF alive] obtain i where i: "i < length (t_pc s)" "t_pc s ! i \<noteq> WEnded" by blast
  show ?thesis
  proof (cases "t_pc s ! i = WBlocked")
    case True
    then have "Suc i \<in> set (cv_Waiting ?c) \<union> set (cv_Ready ?c)"
      using c(1) i(1) by (simp add: holds_def)
    then have "cv_Ready ?c \<noteq> []" using c(2) ne by (auto simp: served_def)
    then obtain t where t: "t \<in> set (cv_Ready ?c)" by (meson last_in_set)
    then have "t \<in> blocked_in (t_pc s)" using c(1) by (auto simp: holds_def)
    then obtain j where "t = Suc j" "j < length (t_pc s)" "t_pc s ! j = WBlocked"
      by (auto simp: blocked_in_def)
    with t worker_moves [OF inv] show ?thesis by blast
  next
    case False
    with i worker_moves [OF inv i(1)] show ?thesis by (cases "t_pc s ! i") auto
  qed
qed

lemma main_moves:
  assumes "inv nTimes N s" and "0 < nTimes" and "Test_main cls nTimes 0 True (t_main s) s = Some r"
  shows "\<exists>t. test_move cls nTimes s t"
proof -
  from main_ok_step [OF assms] obtain t where "r = Inr t" by (cases r) (auto simp: test_progress_def)
  with assms(3) show ?thesis by (blast intro: test_main)
qed

lemma never_stuck:
  assumes inv: "inv nTimes N s" and "0 < nTimes" "0 < N" and stuck: "\<And>t. \<not> test_move cls nTimes s t"
  shows "t_main s = MDone"
proof (rule ccontr)
  assume nd: "t_main s \<noteq> MDone"
  have N: "length (t_vThread s) = N" and mk: "main_ok (nTimes + N) N (t_main s) (t_pc s)"
    and tx: "texts_ok nTimes N (t_main s) (t_pc s) (items (t_Queue s)) (t_Got s)"
    and lt: "latch_ok N (t_main s) (t_pc s) (t_Latch s)"
    and ln: "lone (qc_putters cls (t_Queue s)) (in_put (t_main s)) (\<not> room (items (t_Queue s)))"
    using inv by (simp_all add: test_inv_def queue_ok_def)
  have none: "Test_main cls nTimes 0 True (t_main s) s = None"
    using main_moves [OF inv assms(2)] stuck by (cases "Test_main cls nTimes 0 True (t_main s) s") blast+
  have "count_list (map snd (t_Got s) @ items (t_Queue s)) ''stop'' = puts_done (nTimes + N) (t_main s) - nTimes"
    using tx count_texts [of nTimes] by (simp add: texts_ok_def)
  then have stops: "ended (t_pc s) + count_list (items (t_Queue s)) ''stop'' = puts_done (nTimes + N) (t_main s) - nTimes"
    using tx by (simp add: texts_ok_def)
  from none nd consider "t_main s = MWait True" "0 \<notin> set (cv_Ready (m_Cond (t_Latch s)))"
    | j where "t_main s = MPut j True" "0 \<notin> set (cv_Ready (qc_putters cls (t_Queue s)))"
    | n where "t_main s = MJoin n" "n < N" "Test_join n s = None"
    by (cases "(cls, nTimes, 0 :: nat, True, t_main s, s)" rule: Test_main.cases)
       (simp_all add: N split: if_splits)
  then show False
  proof cases
    case 1
    with lt have "counted (t_pc s) < N" by (auto simp: latch_ok_def dest: lone_blocked)
    then obtain i where "i < length (t_pc s)" "t_pc s ! i = WStarted"
      using mk 1 not_counted [of "t_pc s"] by auto
    with worker_moves [OF inv] stuck show False by blast
  next
    case (2 j)
    with ln have "items (t_Queue s) \<noteq> []" using room_empty by (auto dest: lone_blocked)
    moreover have "ended (t_pc s) < N" using 2(1) mk stops assms(3) by simp linarith
    then have "ended (t_pc s) < length (t_pc s)" using 2(1) mk by simp
    ultimately show False using taker_moves [OF inv] stuck by blast
  next
    case (3 n)
    then have "t_pc s ! n \<noteq> WEnded" using join_ok [OF inv 3(1,2)] by auto
    then have alive: "ended (t_pc s) < length (t_pc s)"
      using 3(1,2) mk by (intro ended_less) simp_all
    then have "count_list (items (t_Queue s)) ''stop'' \<noteq> 0" using 3 mk stops by auto
    then have "items (t_Queue s) \<noteq> []" by auto
    with taker_moves [OF inv _ alive] stuck show False by blast
  qed
qed

lemma when_done:
  assumes inv: "inv nTimes N s" and "0 < N" and d: "t_main s = MDone"
  shows "items (t_Queue s) = [] \<and>
    map snd (t_Got s) = map test_hello [0..<nTimes] @ replicate N ''stop'' \<and>
    (\<forall>i < N. \<exists>xs. got_by i (t_Got s) = xs @ [''stop''] \<and> ''stop'' \<notin> set xs) \<and>
    (\<forall>t \<in> set (t_vThread s). m_bStarted t \<and> m_bJoined t)"
proof -
  have "texts_ok nTimes N MDone (t_pc s) (items (t_Queue s)) (t_Got s)"
    using inv d by (simp add: test_inv_def)
  then have tx: "map snd (t_Got s) @ items (t_Queue s) = map test_hello [0..<nTimes] @ replicate N ''stop''"
      "count_list (map snd (t_Got s)) ''stop'' = ended (t_pc s)" "stops_last (t_pc s) (t_Got s)"
    unfolding texts_ok_def puts_done.simps texts_split by blast+
  have all: "length (t_pc s) = N" "\<And>i. i < N \<Longrightarrow> t_pc s ! i = WEnded"
    and th: "threads_ok (t_vThread s) (length (t_pc s)) N" "length (t_vThread s) = N"
    using inv unfolding test_inv_def d main_ok.simps joins_done.simps by blast+
  have "filter (\<lambda>p. p = WEnded) (t_pc s) = t_pc s"
    using all by (auto intro!: filter_True simp: in_set_conv_nth)
  then have "ended (t_pc s) = N" using all(1) by (simp add: ended_def)
  moreover have "count_list (map snd (t_Got s) @ items (t_Queue s)) ''stop'' = N"
    unfolding tx(1) texts_split [symmetric] count_texts by simp
  ultimately have none: "''stop'' \<notin> set (items (t_Queue s))"
    using tx(2) by (simp add: count_list_0_iff)
  have "items (t_Queue s) = []"
  proof (rule ccontr)
    assume ne: "items (t_Queue s) \<noteq> []"
    then have "last (items (t_Queue s)) = ''stop''"
      using arg_cong [OF tx(1), of last] assms(2) by simp
    with ne none show False by (metis last_in_set)
  qed
  moreover from this have "map snd (t_Got s) = map test_hello [0..<nTimes] @ replicate N ''stop''"
    using tx(1) by simp
  moreover have "\<forall>i < N. \<exists>xs. got_by i (t_Got s) = xs @ [''stop''] \<and> ''stop'' \<notin> set xs"
    using tx(3) all by (simp add: stops_last_def)
  moreover have "\<forall>t \<in> set (t_vThread s). m_bStarted t \<and> m_bJoined t"
    using th all(1) by (auto simp: threads_ok_def in_set_conv_nth)
  ultimately show ?thesis by blast
qed

lemma no_fault:
  assumes "inv nTimes N s" and "0 < nTimes"
  shows "Test_main cls nTimes k created (t_main s) s = Some (Inl e) \<Longrightarrow> \<not> created \<and> e = Aborted"
    and "i < length (t_pc s) \<Longrightarrow> Test_threadFunc cls k i (t_pc s ! i) s \<noteq> Some (Inl e)"
  using main_ok_step [OF assms, of k created "Inl e"] threadFunc_ok [OF assms(1), of i k "Inl e"]
  by (auto simp: test_progress_def split: if_splits)

lemma program_ends:
  assumes "reach (test_start q0 N) (test_any cls nTimes) s" and "0 < nTimes" and "0 < N"
  shows "(\<forall>k created e. Test_main cls nTimes k created (t_main s) s = Some (Inl e) \<longrightarrow>
        \<not> created \<and> e = Aborted) \<and>
    (\<forall>k i e. i < length (t_pc s) \<longrightarrow> Test_threadFunc cls k i (t_pc s ! i) s \<noteq> Some (Inl e)) \<and>
    \<not> (\<exists>run. run 0 = s \<and> (\<forall>n. test_move cls nTimes (run n) (run (Suc n)))) \<and>
    ((\<forall>t. \<not> test_move cls nTimes s t) \<longrightarrow> t_main s = MDone \<and> items (t_Queue s) = [] \<and>
       map snd (t_Got s) = map test_hello [0..<nTimes] @ replicate N ''stop'' \<and>
       (\<forall>i < N. \<exists>xs. got_by i (t_Got s) = xs @ [''stop''] \<and> ''stop'' \<notin> set xs) \<and>
       (\<forall>t \<in> set (t_vThread s). m_bStarted t \<and> m_bJoined t))"
proof -
  note inv = reach_inv [OF assms(1,2)]
  show ?thesis
    using no_fault [OF inv assms(2)] no_infinite_run [OF inv assms(2)] never_stuck [OF inv assms(2,3)]
      when_done [OF inv assms(3)] by blast
qed

end

interpretation unbounded_program: queue_program unbounded_class m_Queue "\<lambda>q. True" "\<lambda>xs. True" BlockingQueue_new
  by unfold_locales (simp_all add: BlockingQueue_new_def unbounded_class_def)

interpretation bounded_program: queue_program bounded_class b_Queue "bounded_good (Suc c)"
    "\<lambda>xs. length xs < Suc c" "BoundedBlockingQueue_new (Suc c)" for c :: nat
  by unfold_locales (simp_all add: BoundedBlockingQueue_new_def bounded_class_def bounded_good_def)

section \<open>The two programs\<close>

text \<open>The test of \<open>BlockingQueue\<close> ends as that of the bounded queue does below.\<close>

lemmas unbounded_test_ends = unbounded_program.program_ends

text \<open>
  C25: The test of \<open>BoundedBlockingQueue\<close> always ends, and ends right. In every state that its threads
  can reach, with one thread or more, one text or more, any capacity but 0, any order of steps and
  wake-ups out of the blue: no step fails, unless \<open>pthread_create\<close> does; the steps cannot go on
  for ever (when the wake-ups stop); and when no thread can go on, it is because \<open>main\<close> is through, not
  because of a deadlock. Then the queue is empty, the texts have been taken once each and in the
  order they were put, each thread has taken one \<open>stop\<close>, as its last text, and each is joined.
\<close>

theorem bounded_test_ends:
  assumes "reach (test_start (BoundedBlockingQueue_new (Suc c)) N) (test_any bounded_class nTimes) s"
    and "0 < nTimes" and "0 < N"
  shows "(\<forall>k created e. Test_main bounded_class nTimes k created (t_main s) s = Some (Inl e) \<longrightarrow>
        \<not> created \<and> e = Aborted) \<and>
    (\<forall>k i e. i < length (t_pc s) \<longrightarrow> Test_threadFunc bounded_class k i (t_pc s ! i) s \<noteq> Some (Inl e)) \<and>
    \<not> (\<exists>run. run 0 = s \<and> (\<forall>n. test_move bounded_class nTimes (run n) (run (Suc n)))) \<and>
    ((\<forall>t. \<not> test_move bounded_class nTimes s t) \<longrightarrow> t_main s = MDone \<and> b_Queue (t_Queue s) = [] \<and>
       map snd (t_Got s) = map test_hello [0..<nTimes] @ replicate N ''stop'' \<and>
       (\<forall>i < N. \<exists>xs. got_by i (t_Got s) = xs @ [''stop''] \<and> ''stop'' \<notin> set xs) \<and>
       (\<forall>t \<in> set (t_vThread s). m_bStarted t \<and> m_bJoined t))"
  by (rule bounded_program.program_ends [OF assms])

text \<open>One thread, one text and room for one: a schedule of the main thread (\<open>0\<close>) and the worker (\<open>1\<close>).\<close>

fun demo_step :: "nat \<Rightarrow> string bounded_queue queue_test \<Rightarrow> string bounded_queue queue_test option" where
  "demo_step 0 s =
     (case Test_main bounded_class 1 0 True (t_main s) s of Some (Inr t) \<Rightarrow> Some t | _ \<Rightarrow> None)"
| "demo_step (Suc i) s =
     (if i < length (t_pc s)
      then (case Test_threadFunc bounded_class 0 i (t_pc s ! i) s of Some (Inr t) \<Rightarrow> Some t | _ \<Rightarrow> None)
      else None)"

fun demo_run :: "nat list \<Rightarrow> string bounded_queue queue_test \<Rightarrow> string bounded_queue queue_test option" where
  "demo_run [] s = Some s"
| "demo_run (w # ws) s = (case demo_step w s of None \<Rightarrow> None | Some t \<Rightarrow> demo_run ws t)"

lemma demo_step_move: "demo_step w s = Some t \<Longrightarrow> test_move bounded_class 1 s t"
  by (cases w) (auto intro: test_move.intros split: option.splits sum.splits if_splits)

lemma demo_run_reach:
  "demo_run ws s = Some t \<Longrightarrow> reach I (test_any bounded_class 1) s \<Longrightarrow> reach I (test_any bounded_class 1) t"
proof (induction ws arbitrary: s)
  case (Cons w ws)
  then obtain u where "demo_step w s = Some u" "demo_run ws u = Some t" by (auto split: option.splits)
  with Cons show ?case by (metis demo_step_move reach_step test_any_def)
qed simp

definition demo_world :: thread_world where
  "demo_world = \<lparr>w_NumCreated = 0, w_Running = [], w_Detached = {}\<rparr>"

definition demo_end :: "string bounded_queue queue_test option" where
  "demo_end = demo_run [0, 0, 0, 1, 1, 0, 0, 1, 0, 0, 1, 0, 0] (Test_new (BoundedBlockingQueue_new (Suc 0)) 1 demo_world)"

lemma demo_end_state:
  "map_option (\<lambda>s. (t_main s, t_pc s, t_Got s)) demo_end =
     Some (MDone, [WEnded], [(0, ''hello 0''), (0, ''stop'')])"
  by code_simp

lemma demo_end_reach:
  "demo_end = Some s \<Longrightarrow>
     reach (test_start (BoundedBlockingQueue_new (Suc 0)) 1) (test_any bounded_class 1) s"
  unfolding demo_end_def by (erule demo_run_reach) (rule reach_init, auto simp: test_start_def)

lemma no_move: "t_main s = MDone \<Longrightarrow> t_pc s = [WEnded] \<Longrightarrow> \<not> test_move cls nTimes s t"
  by (auto elim: test_move.cases)

theorem bounded_test_ends_witness:
  "\<exists>s. demo_end = Some s \<and> t_Got s = [(0, ''hello 0''), (0, ''stop'')] \<and> b_Queue (t_Queue s) = [] \<and>
     (\<forall>t \<in> set (t_vThread s). m_bStarted t \<and> m_bJoined t)"
proof -
  from demo_end_state obtain s where s: "demo_end = Some s" "t_main s = MDone" "t_pc s = [WEnded]"
    "t_Got s = [(0, ''hello 0''), (0, ''stop'')]" by (cases demo_end) auto
  with bounded_test_ends [OF demo_end_reach [OF s(1)]] no_move [OF s(2,3)] show ?thesis
    by (intro exI [of _ s]) simp
qed

end
